(* ===== verification/Prelude.thy ===== *)
theory Prelude
  imports Main "HOL-Library.Word" "HOL-Library.Sublist"
begin

text \<open>
  The shared vocabulary of the development: Rust's fixed-width integers as words, byte
  buffers as lists of bytes, the little-endian conversions (\<open>to_le_bytes\<close>,
  \<open>from_le_bytes\<close>) every weir codec is built from, fallible results as sums, the
  checked and saturating integer operations the source uses, and the UTF-8 check behind
  \<open>std::str::from_utf8\<close>.  The \<^theory_text>\<open>named_theorems\<close> collections declared here
  are filled by the component theories:
  \<^item> \<open>layout\<close>: lengths and constants of the on-wire and on-disk layouts;
  \<^item> \<open>codec\<close>: field-level round trips used by the format proofs.
\<close>

named_theorems layout
named_theorems codec

section \<open>Machine types\<close>

type_synonym u8 = "8 word"
type_synonym u16 = "16 word"
type_synonym u32 = "32 word"
type_synonym u64 = "64 word"
type_synonym i64 = "64 word"
type_synonym bytes = "8 word list"

text \<open>Results: \<open>Inl\<close> is Rust's \<open>Err\<close>, \<open>Inr\<close> its \<open>Ok\<close>.\<close>

abbreviation Err :: "'e \<Rightarrow> 'e + 'a" where "Err \<equiv> Inl"
abbreviation Ok :: "'a \<Rightarrow> 'e + 'a" where "Ok \<equiv> Inr"

lemma unat_lt2p: "unat (w :: 'a::len word) < 2 ^ LENGTH('a)"
  by (rule unsigned_less)

lemma unat_of_nat_eq: "n < 2 ^ LENGTH('a) \<Longrightarrow> unat (of_nat n :: 'a::len word) = n"
  by (simp add: unat_of_nat)

section \<open>Slices and little-endian fields\<close>

text \<open>Rust's \<open>buf[a..b]\<close>; the model writes the bound checks of the source out.\<close>

definition subslice :: "nat \<Rightarrow> nat \<Rightarrow> 'a list \<Rightarrow> 'a list" where
  "subslice a b xs = take (b - a) (drop a xs)"

lemma length_subslice [simp]: "length (subslice a b xs) = min (b - a) (length xs - a)"
  by (simp add: subslice_def)

lemma subslice_append_exact [codec]:
  "length xs = a \<Longrightarrow> length ys = b - a \<Longrightarrow> subslice a b (xs @ ys @ zs) = ys"
  by (simp add: subslice_def)

lemma subslice_append_skip [codec]:
  "length xs \<le> a \<Longrightarrow> subslice a b (xs @ ys) = subslice (a - length xs) (b - length xs) ys"
  by (simp add: subslice_def)

lemma subslice_Cons_skip [codec]: "0 < a \<Longrightarrow> subslice a b (x # xs) = subslice (a - 1) (b - 1) xs"
  by (cases a) (auto simp: subslice_def)

lemma subslice_0 [simp]: "subslice 0 b xs = take b xs"
  by (simp add: subslice_def)

lemma subslice_to_end: "subslice a (length xs) xs = drop a xs"
  by (simp add: subslice_def)

lemma take_subslice_join: "a \<le> b \<Longrightarrow> take a xs @ subslice a b xs = take b xs"
  by (simp add: subslice_def take_add [symmetric])

lemma drop_plus: "drop (a + b) xs = drop b (drop a xs)"
  by (simp add: add.commute)

lemma subslice_drop_join: "subslice a (a + n) xs @ drop (a + n) xs = drop a xs"
  by (simp only: subslice_def drop_plus append_take_drop_id diff_add_inverse)

lemma subslice_empty [simp]: "b \<le> a \<Longrightarrow> subslice a b xs = []"
  by (simp add: subslice_def)

lemma subslice_Cons:
  "a < b \<Longrightarrow> a < length xs \<Longrightarrow> subslice a b xs = xs ! a # subslice (Suc a) b xs"
  by (simp add: subslice_def Cons_nth_drop_Suc [symmetric] take_Cons' Suc_diff_Suc)

primrec le_of_nat :: "nat \<Rightarrow> nat \<Rightarrow> bytes" where
  "le_of_nat 0 k = []"
| "le_of_nat (Suc n) k = of_nat (k mod 256) # le_of_nat n (k div 256)"

primrec nat_of_le :: "bytes \<Rightarrow> nat" where
  "nat_of_le [] = 0"
| "nat_of_le (b # bs) = unat b + 256 * nat_of_le bs"

lemma length_le_of_nat [simp]: "length (le_of_nat n k) = n"
  by (induction n arbitrary: k) auto

lemma nat_of_le_bound: "nat_of_le bs < 256 ^ length bs"
proof (induction bs)
  case (Cons b bs)
  have "unat b < 256" using unat_lt2p [of b] by simp
  with Cons show ?case by simp
qed simp

lemma nat_of_le_of_nat: "k < 256 ^ n \<Longrightarrow> nat_of_le (le_of_nat n k) = k"
proof (induction n arbitrary: k)
  case (Suc n)
  have "unat (of_nat (k mod 256) :: u8) = k mod 256"
    by (rule unat_of_nat_eq) simp
  moreover have "k div 256 < 256 ^ n"
    using Suc.prems by (simp add: less_mult_imp_div_less mult.commute)
  ultimately show ?case using Suc.IH [of "k div 256"] by simp
qed simp

lemma le_of_nat_of_le [simp]: "le_of_nat (length bs) (nat_of_le bs) = bs"
proof (induction bs)
  case (Cons b bs)
  have "unat b < 256" using unat_lt2p [of b] by simp
  then have "(unat b + 256 * nat_of_le bs) mod 256 = unat b"
    and "(unat b + 256 * nat_of_le bs) div 256 = nat_of_le bs"
    by simp_all
  with Cons show ?case by (simp only: nat_of_le.simps le_of_nat.simps list.size) simp
qed simp

text \<open>\<open>uN::to_le_bytes\<close> and \<open>uN::from_le_bytes\<close> for the widths the formats use.\<close>

definition u16_le :: "u16 \<Rightarrow> bytes" where "u16_le w = le_of_nat 2 (unat w)"
definition u32_le :: "u32 \<Rightarrow> bytes" where "u32_le w = le_of_nat 4 (unat w)"
definition u64_le :: "u64 \<Rightarrow> bytes" where "u64_le w = le_of_nat 8 (unat w)"

definition u16_from_le :: "bytes \<Rightarrow> u16" where "u16_from_le bs = of_nat (nat_of_le bs)"
definition u32_from_le :: "bytes \<Rightarrow> u32" where "u32_from_le bs = of_nat (nat_of_le bs)"
definition u64_from_le :: "bytes \<Rightarrow> u64" where "u64_from_le bs = of_nat (nat_of_le bs)"

lemma length_u16_le [simp]: "length (u16_le w) = 2" by (simp add: u16_le_def)
lemma length_u32_le [simp]: "length (u32_le w) = 4" by (simp add: u32_le_def)
lemma length_u64_le [simp]: "length (u64_le w) = 8" by (simp add: u64_le_def)

lemma u16_from_le_le [simp]: "u16_from_le (u16_le w) = w"
  using unat_lt2p [of w] by (simp add: u16_from_le_def u16_le_def nat_of_le_of_nat)

lemma u32_from_le_le [simp]: "u32_from_le (u32_le w) = w"
  using unat_lt2p [of w] by (simp add: u32_from_le_def u32_le_def nat_of_le_of_nat)

lemma u64_from_le_le [simp]: "u64_from_le (u64_le w) = w"
  using unat_lt2p [of w] by (simp add: u64_from_le_def u64_le_def nat_of_le_of_nat)

lemma unat_u16_from_le: "length bs = 2 \<Longrightarrow> unat (u16_from_le bs) = nat_of_le bs"
  using nat_of_le_bound [of bs] by (simp add: u16_from_le_def unat_of_nat_eq)

lemma unat_u32_from_le: "length bs = 4 \<Longrightarrow> unat (u32_from_le bs) = nat_of_le bs"
  using nat_of_le_bound [of bs] by (simp add: u32_from_le_def unat_of_nat_eq)

lemma unat_u64_from_le: "length bs = 8 \<Longrightarrow> unat (u64_from_le bs) = nat_of_le bs"
  using nat_of_le_bound [of bs] by (simp add: u64_from_le_def unat_of_nat_eq)

lemma u16_le_from_le [simp]: "length bs = 2 \<Longrightarrow> u16_le (u16_from_le bs) = bs"
  using le_of_nat_of_le [of bs] by (simp add: u16_le_def unat_u16_from_le)

lemma u32_le_from_le [simp]: "length bs = 4 \<Longrightarrow> u32_le (u32_from_le bs) = bs"
  using le_of_nat_of_le [of bs] by (simp add: u32_le_def unat_u32_from_le)

lemma u64_le_from_le [simp]: "length bs = 8 \<Longrightarrow> u64_le (u64_from_le bs) = bs"
  using le_of_nat_of_le [of bs] by (simp add: u64_le_def unat_u64_from_le)

text \<open>Reading a buffer as its first field and the rest.\<close>

lemma bytes_field:
  assumes "n \<le> length (xs :: bytes)"
  obtains f rest where "xs = f @ rest" "length f = n"
  using assms that [of "take n xs" "drop n xs"] by simp

lemma u16_field:
  assumes "2 \<le> length xs"
  obtains w rest where "xs = u16_le w @ rest"
  using assms that by (metis bytes_field u16_le_from_le)

lemma u32_field:
  assumes "4 \<le> length xs"
  obtains w rest where "xs = u32_le w @ rest"
  using assms that by (metis bytes_field u32_le_from_le)

lemma u64_field:
  assumes "8 \<le> length xs"
  obtains w rest where "xs = u64_le w @ rest"
  using assms that by (metis bytes_field u64_le_from_le)

lemma u32_le_inject [simp]: "u32_le a = u32_le b \<longleftrightarrow> a = b"
  by (metis u32_from_le_le)

lemma u32_from_le_eq: "length bs = 4 \<Longrightarrow> u32_from_le bs = w \<longleftrightarrow> bs = u32_le w"
  by (metis u32_from_le_le u32_le_from_le)

section \<open>Integer conversions of the source\<close>

text \<open>\<open>x as u16\<close> and \<open>x as u32\<close> on a \<open>usize\<close> keep the low bits.\<close>

definition as_u16 :: "nat \<Rightarrow> u16" where "as_u16 n = of_nat n"
definition as_u32 :: "nat \<Rightarrow> u32" where "as_u32 n = of_nat n"

text \<open>\<open>u32::try_from(n).unwrap_or(u32::MAX)\<close>.\<close>

definition u32_saturating :: "nat \<Rightarrow> u32" where
  "u32_saturating n = (if n < 2 ^ 32 then of_nat n else -1)"

text \<open>\<open>u32::try_from(n)\<close>: \<open>None\<close> is the error.\<close>

definition u32_try_from :: "nat \<Rightarrow> u32 option" where
  "u32_try_from n = (if n < 2 ^ 32 then Some (of_nat n) else None)"

text \<open>\<open>checked_add\<close> on \<open>u64\<close>; the source panics (\<open>expect\<close>) on \<open>None\<close>.\<close>

definition u64_checked_add :: "u64 \<Rightarrow> u64 \<Rightarrow> u64 option" where
  "u64_checked_add a b = (if unat a + unat b < 2 ^ 64 then Some (a + b) else None)"

definition div_ceil :: "nat \<Rightarrow> nat \<Rightarrow> nat" where
  "div_ceil n d = (n + d - 1) div d"

lemma unat_as_u16: "n < 2 ^ 16 \<Longrightarrow> unat (as_u16 n) = n"
  by (simp add: as_u16_def unat_of_nat_eq)

lemma unat_as_u32: "n < 2 ^ 32 \<Longrightarrow> unat (as_u32 n) = n"
  by (simp add: as_u32_def unat_of_nat_eq)

lemma unat_u32_saturating: "n < 2 ^ 32 \<Longrightarrow> unat (u32_saturating n) = n"
  by (simp add: u32_saturating_def unat_of_nat_eq)

lemma unat_u32_max: "unat (-1 :: u32) = 4294967295"
  by (simp add: unsigned_minus_1_eq_mask mask_eq_exp_minus_1)

lemma as_u32_unat [simp]: "as_u32 (unat w) = w"
  by (simp add: as_u32_def)

lemma as_u16_unat [simp]: "as_u16 (unat w) = w"
  by (simp add: as_u16_def)

lemma unat_u64_checked_add: "u64_checked_add a b = Some c \<Longrightarrow> unat c = unat a + unat b"
  by (auto simp: u64_checked_add_def unat_word_ariths split: if_splits)

section \<open>ASCII text and UTF-8\<close>

text \<open>Byte string literals (\<open>b"WEIR"\<close>) and the bytes of a Rust \<open>str\<close> literal.\<close>

definition ascii :: "string \<Rightarrow> bytes" where
  "ascii s = map (\<lambda>c. of_nat (of_char c)) s"

lemma length_ascii [simp]: "length (ascii s) = length s"
  by (simp add: ascii_def)

text \<open>
  \<open>std::str::from_utf8\<close> accepts exactly the well-formed sequences of the Unicode
  standard (no overlong forms, no surrogates, nothing above U+10FFFF).
\<close>

definition utf8_cont :: "u8 \<Rightarrow> bool" where
  "utf8_cont b \<longleftrightarrow> 0x80 \<le> b \<and> b \<le> 0xBF"

definition utf8_second_of_3 :: "u8 \<Rightarrow> u8 \<Rightarrow> bool" where
  "utf8_second_of_3 a b \<longleftrightarrow>
     (if a = 0xE0 then 0xA0 \<le> b \<and> b \<le> 0xBF
      else if a = 0xED then 0x80 \<le> b \<and> b \<le> 0x9F
      else utf8_cont b)"

definition utf8_second_of_4 :: "u8 \<Rightarrow> u8 \<Rightarrow> bool" where
  "utf8_second_of_4 a b \<longleftrightarrow>
     (if a = 0xF0 then 0x90 \<le> b \<and> b \<le> 0xBF
      else if a = 0xF4 then 0x80 \<le> b \<and> b \<le> 0x8F
      else utf8_cont b)"

fun utf8_valid :: "bytes \<Rightarrow> bool" where
  "utf8_valid [] = True"
| "utf8_valid (a # bs) =
     (if a < 0x80 then utf8_valid bs
      else if 0xC2 \<le> a \<and> a \<le> 0xDF then
        (case bs of b # rest \<Rightarrow> utf8_cont b \<and> utf8_valid rest | _ \<Rightarrow> False)
      else if 0xE0 \<le> a \<and> a \<le> 0xEF then
        (case bs of b # c # rest \<Rightarrow> utf8_second_of_3 a b \<and> utf8_cont c \<and> utf8_valid rest
         | _ \<Rightarrow> False)
      else if 0xF0 \<le> a \<and> a \<le> 0xF4 then
        (case bs of b # c # d # rest \<Rightarrow>
           utf8_second_of_4 a b \<and> utf8_cont c \<and> utf8_cont d \<and> utf8_valid rest
         | _ \<Rightarrow> False)
      else False)"

lemma utf8_valid_ascii: "(\<forall>b \<in> set bs. b < 0x80) \<Longrightarrow> utf8_valid bs"
  by (induction bs) auto

end
