(* ===== verification/Crc.thy ===== *)
theory Crc
  imports Prelude
begin

unbundle bit_operations_syntax

text \<open>
  The checksum interface.  weir takes CRC-32 from the crate \<open>crc32fast\<close>, whose code is
  not part of the repository, so every definition that checksums takes it as an argument:
  a one-shot function \<open>crc32fast::hash\<close>, and, where the source feeds a
  \<open>crc32fast::Hasher\<close> piecewise, the record \<open>crc_ops\<close> of its four entry points.

  The only law the code relies on is that the streaming hasher agrees with the one-shot
  hash of the concatenated chunks; it is the assumption of the locale \<open>crc_engine\<close>.  The
  locale is interpreted on an executable bit-serial CRC-32 (reflected polynomial
  0xEDB88320, the algorithm the crate documents), which also lets the witnesses of the
  other theories evaluate real frames.
\<close>

record 'h crc_ops =
  crc_new :: 'h
  crc_update :: "'h \<Rightarrow> bytes \<Rightarrow> 'h"
  crc_finalize :: "'h \<Rightarrow> u32"
  crc_hash :: "bytes \<Rightarrow> u32"

definition crc_feed :: "'h crc_ops \<Rightarrow> bytes list \<Rightarrow> 'h" where
  "crc_feed C chunks = foldl (crc_update C) (crc_new C) chunks"

text \<open>The documented contract of \<open>Hasher::{new,update,finalize}\<close> and \<open>hash\<close>.\<close>

definition crc_streams :: "'h crc_ops \<Rightarrow> bool" where
  "crc_streams C \<longleftrightarrow>
     (\<forall>chunks. crc_finalize C (crc_feed C chunks) = crc_hash C (concat chunks))"

lemma crc_feed_Nil [simp]: "crc_feed C [] = crc_new C"
  by (simp add: crc_feed_def)

lemma crc_feed_snoc: "crc_feed C (chunks @ [c]) = crc_update C (crc_feed C chunks) c"
  by (simp add: crc_feed_def)

text \<open>\<open>hashes C h bs\<close>: the hasher state \<open>h\<close> was reached by feeding the bytes \<open>bs\<close>.\<close>

definition hashes :: "'h crc_ops \<Rightarrow> 'h \<Rightarrow> bytes \<Rightarrow> bool" where
  "hashes C h bs \<longleftrightarrow> (\<exists>chunks. h = crc_feed C chunks \<and> concat chunks = bs)"

lemma hashes_new [simp]: "hashes C (crc_new C) []"
  unfolding hashes_def by (rule exI [of _ "[]"]) simp

lemma hashes_update: "hashes C h bs \<Longrightarrow> hashes C (crc_update C h c) (bs @ c)"
  unfolding hashes_def by (metis concat.simps concat_append append_Nil2 crc_feed_snoc)

lemma hashes_update3:
  assumes "hashes C h bs"
  shows "hashes C (crc_update C (crc_update C (crc_update C h a) b) c) (bs @ a @ b @ c)"
  using hashes_update [OF hashes_update [OF hashes_update [OF assms, of a], of b], of c] by simp

locale crc_engine =
  fixes C :: "'h crc_ops"
  assumes streams: "crc_streams C"
begin

lemma finalize_hashes: "hashes C h bs \<Longrightarrow> crc_finalize C h = crc_hash C bs"
  using streams by (auto simp: hashes_def crc_streams_def)

lemma finalize_after_one: "crc_finalize C (crc_update C (crc_new C) bs) = crc_hash C bs"
  using hashes_update [OF hashes_new, of C bs] by (auto dest: finalize_hashes)

end

section \<open>The executable instance\<close>

definition crc32_bit :: "u32 \<Rightarrow> u32" where
  "crc32_bit c = (if bit c 0 then drop_bit 1 c XOR 0xEDB88320 else drop_bit 1 c)"

definition crc32_byte :: "u32 \<Rightarrow> u8 \<Rightarrow> u32" where
  "crc32_byte c b =
     crc32_bit (crc32_bit (crc32_bit (crc32_bit
       (crc32_bit (crc32_bit (crc32_bit (crc32_bit (c XOR ucast b))))))))"

definition crc32_update :: "u32 \<Rightarrow> bytes \<Rightarrow> u32" where
  "crc32_update c bs = foldl crc32_byte c bs"

definition crc32_hash :: "bytes \<Rightarrow> u32" where
  "crc32_hash bs = crc32_update 0xFFFFFFFF bs XOR 0xFFFFFFFF"

definition crc32_ops :: "u32 crc_ops" where
  "crc32_ops = \<lparr>crc_new = 0xFFFFFFFF, crc_update = crc32_update,
                crc_finalize = (\<lambda>c. c XOR 0xFFFFFFFF), crc_hash = crc32_hash\<rparr>"

lemma crc32_ops_simps [simp]:
  "crc_new crc32_ops = 0xFFFFFFFF" "crc_update crc32_ops = crc32_update"
  "crc_finalize crc32_ops c = c XOR 0xFFFFFFFF" "crc_hash crc32_ops = crc32_hash"
  by (simp_all add: crc32_ops_def)

lemma crc32_update_concat: "foldl crc32_update c chunks = crc32_update c (concat chunks)"
  by (induction chunks arbitrary: c) (simp_all add: crc32_update_def)

lemma crc32_streams: "crc_streams crc32_ops"
  by (simp add: crc_streams_def crc_feed_def crc32_update_concat crc32_hash_def)

interpretation crc32: crc_engine crc32_ops
  by unfold_locales (rule crc32_streams)

text \<open>The check value every CRC-32 catalogue gives for the digits 1 to 9.\<close>

lemmas crc32_eval = crc32_hash_def crc32_update_def crc32_byte_def crc32_bit_def

lemma crc32_check_value: "crc32_hash (ascii ''123456789'') = 0xCBF43926"
  by (simp add: crc32_eval ascii_def)

end
