(* ===== verification/Wire.thy ===== *)
theory Wire
  imports Prelude
begin

text \<open>
  The weir wire frame, crate \<open>weir-core\<close>: the durability tiers (\<open>durability.rs\<close>), the
  message types, the 16-byte header and the envelope codec (\<open>envelope.rs\<close>), the decode
  error taxonomy (\<open>error.rs\<close>), the protocol constants (\<open>version.rs\<close>) and the Nack
  reasons (\<open>nack.rs\<close>).  The checksum \<open>crc32fast::hash\<close> is the argument \<open>crc\<close>; nothing
  is assumed of it.

  Main results: the decoder accepts exactly the encodings of well-formed envelopes (and
  their one legacy spelling, the retired durability byte 0x02), frames are self-delimiting,
  and every header-level verdict is decided by the first 16 bytes alone.
\<close>

section \<open>Protocol constants\<close>

definition WIRE_VERSION :: u8 where "WIRE_VERSION = 1"
definition MAX_PAYLOAD_HARD_CAP :: nat where "MAX_PAYLOAD_HARD_CAP = 16 * 1024 * 1024"
definition MAGIC :: bytes where "MAGIC = ascii ''WEIR''"
definition HEADER_LEN :: nat where "HEADER_LEN = 16"
definition HEADER_CRC_COVERAGE :: nat where "HEADER_CRC_COVERAGE = 12"
definition MIN_FRAME_LEN :: nat where "MIN_FRAME_LEN = HEADER_LEN + 4"

lemma length_MAGIC [simp]: "length MAGIC = 4"
  by (simp add: MAGIC_def)

lemmas wire_consts [layout] =
  WIRE_VERSION_def MAX_PAYLOAD_HARD_CAP_def HEADER_LEN_def HEADER_CRC_COVERAGE_def

section \<open>Durability tiers\<close>

datatype durability = Durable | Buffered

definition durability_to_u8 :: "durability \<Rightarrow> u8" where
  "durability_to_u8 d = (case d of Durable \<Rightarrow> 0x01 | Buffered \<Rightarrow> 0x03)"

datatype unknown_durability = UnknownDurability u8

definition durability_try_from :: "u8 \<Rightarrow> unknown_durability + durability" where
  "durability_try_from v =
     (if v = 0x01 \<or> v = 0x02 then Ok Durable
      else if v = 0x03 then Ok Buffered
      else Err (UnknownDurability v))"

definition durability_display :: "durability \<Rightarrow> string" where
  "durability_display d = (case d of Durable \<Rightarrow> ''durable'' | Buffered \<Rightarrow> ''buffered'')"

lemma durability_try_from_to_u8 [simp]: "durability_try_from (durability_to_u8 d) = Ok d"
  by (cases d) (simp_all add: durability_try_from_def durability_to_u8_def)

text \<open>The retired byte 0x02 is the only one that does not survive a round trip.\<close>

lemma durability_try_from_Ok_iff:
  "durability_try_from v = Ok d \<longleftrightarrow> v = durability_to_u8 d \<or> (v = 0x02 \<and> d = Durable)"
  by (cases d) (auto simp: durability_try_from_def durability_to_u8_def)

section \<open>Message types\<close>

datatype message_type =
    Push | Ack | Nack | HealthCheck | HealthCheckResponse
  | PushTracked | AckTracked | PushBatch | AckBatch

definition message_type_to_u8 :: "message_type \<Rightarrow> u8" where
  "message_type_to_u8 m = (case m of
     Push \<Rightarrow> 0x01 | Ack \<Rightarrow> 0x02 | Nack \<Rightarrow> 0x03 | HealthCheck \<Rightarrow> 0x04
   | HealthCheckResponse \<Rightarrow> 0x05 | PushTracked \<Rightarrow> 0x06 | AckTracked \<Rightarrow> 0x07
   | PushBatch \<Rightarrow> 0x08 | AckBatch \<Rightarrow> 0x09)"

datatype unknown_message_type = UnknownMessageTypeByte u8

definition message_type_try_from :: "u8 \<Rightarrow> unknown_message_type + message_type" where
  "message_type_try_from v =
     (if v = 0x01 then Ok Push
      else if v = 0x02 then Ok Ack
      else if v = 0x03 then Ok Nack
      else if v = 0x04 then Ok HealthCheck
      else if v = 0x05 then Ok HealthCheckResponse
      else if v = 0x06 then Ok PushTracked
      else if v = 0x07 then Ok AckTracked
      else if v = 0x08 then Ok PushBatch
      else if v = 0x09 then Ok AckBatch
      else Err (UnknownMessageTypeByte v))"

lemma message_type_try_from_Ok_iff:
  "message_type_try_from v = Ok m \<longleftrightarrow> v = message_type_to_u8 m"
  by (cases m) (auto simp: message_type_try_from_def message_type_to_u8_def)

lemma message_type_try_from_to_u8 [simp]: "message_type_try_from (message_type_to_u8 m) = Ok m"
  by (simp add: message_type_try_from_Ok_iff)

section \<open>Nack reasons\<close>

datatype nack_reason =
    NackBadMagic | NackVersionMismatch | NackBadHeaderCrc | NackPayloadTooLarge
  | NackBadPayloadCrc | NackInternalError | NackEmptyPayload | NackUnknownMessage
  | NackReservedFlagsSet | NackBadBatchFraming

definition nack_reason_to_u8 :: "nack_reason \<Rightarrow> u8" where
  "nack_reason_to_u8 r = (case r of
     NackBadMagic \<Rightarrow> 0x01 | NackVersionMismatch \<Rightarrow> 0x02 | NackBadHeaderCrc \<Rightarrow> 0x03
   | NackPayloadTooLarge \<Rightarrow> 0x04 | NackBadPayloadCrc \<Rightarrow> 0x05 | NackInternalError \<Rightarrow> 0x06
   | NackEmptyPayload \<Rightarrow> 0x07 | NackUnknownMessage \<Rightarrow> 0x08 | NackReservedFlagsSet \<Rightarrow> 0x09
   | NackBadBatchFraming \<Rightarrow> 0x0B)"

datatype unknown_nack_reason = UnknownNackReason u8

definition nack_reason_try_from :: "u8 \<Rightarrow> unknown_nack_reason + nack_reason" where
  "nack_reason_try_from v =
     (if v = 0x01 then Ok NackBadMagic
      else if v = 0x02 then Ok NackVersionMismatch
      else if v = 0x03 then Ok NackBadHeaderCrc
      else if v = 0x04 then Ok NackPayloadTooLarge
      else if v = 0x05 then Ok NackBadPayloadCrc
      else if v = 0x06 then Ok NackInternalError
      else if v = 0x07 then Ok NackEmptyPayload
      else if v = 0x08 then Ok NackUnknownMessage
      else if v = 0x09 then Ok NackReservedFlagsSet
      else if v = 0x0B then Ok NackBadBatchFraming
      else Err (UnknownNackReason v))"

definition nack_reason_as_metric_label :: "nack_reason \<Rightarrow> string" where
  "nack_reason_as_metric_label r = (case r of
     NackBadMagic \<Rightarrow> ''bad_magic'' | NackVersionMismatch \<Rightarrow> ''version_mismatch''
   | NackBadHeaderCrc \<Rightarrow> ''bad_header_crc'' | NackPayloadTooLarge \<Rightarrow> ''payload_too_large''
   | NackBadPayloadCrc \<Rightarrow> ''bad_payload_crc'' | NackInternalError \<Rightarrow> ''internal_error''
   | NackEmptyPayload \<Rightarrow> ''empty_payload'' | NackUnknownMessage \<Rightarrow> ''unknown_message''
   | NackReservedFlagsSet \<Rightarrow> ''reserved_flags_set''
   | NackBadBatchFraming \<Rightarrow> ''bad_batch_framing'')"

definition nack_reason_from_metric_label :: "string \<Rightarrow> nack_reason option" where
  "nack_reason_from_metric_label s =
     (if s = ''bad_magic'' then Some NackBadMagic
      else if s = ''version_mismatch'' then Some NackVersionMismatch
      else if s = ''bad_header_crc'' then Some NackBadHeaderCrc
      else if s = ''payload_too_large'' then Some NackPayloadTooLarge
      else if s = ''bad_payload_crc'' then Some NackBadPayloadCrc
      else if s = ''internal_error'' then Some NackInternalError
      else if s = ''empty_payload'' then Some NackEmptyPayload
      else if s = ''unknown_message'' then Some NackUnknownMessage
      else if s = ''reserved_flags_set'' then Some NackReservedFlagsSet
      else if s = ''bad_batch_framing'' then Some NackBadBatchFraming
      else None)"

lemma nack_reason_try_from_Ok_iff:
  "nack_reason_try_from v = Ok r \<longleftrightarrow> v = nack_reason_to_u8 r"
  by (cases r) (auto simp: nack_reason_try_from_def nack_reason_to_u8_def)

lemma nack_reason_from_label_iff:
  "nack_reason_from_metric_label s = Some r \<longleftrightarrow> s = nack_reason_as_metric_label r"
  by (cases r) (auto simp: nack_reason_from_metric_label_def nack_reason_as_metric_label_def)

section \<open>Decode errors\<close>

datatype decode_error =
    BadMagic
  | VersionMismatch u8 u8            \<comment> \<open>supported, received\<close>
  | UnknownMessageType u8
  | UnknownDurabilityByte u8
  | HeaderCrcMismatch u32 u32        \<comment> \<open>expected, computed\<close>
  | PayloadCrcMismatch u32 u32
  | TruncatedFrame
  | PayloadTooLarge nat nat          \<comment> \<open>len, cap\<close>
  | ReservedFlagsSet u8
  | TrailingBytes nat

section \<open>Header\<close>

record header =
  h_version :: u8
  h_message_type :: message_type
  h_durability :: durability
  h_flags :: u8
  h_payload_len :: u32

definition header_new :: "message_type \<Rightarrow> durability \<Rightarrow> u8 \<Rightarrow> header" where
  "header_new mt d fl =
     \<lparr>h_version = WIRE_VERSION, h_message_type = mt, h_durability = d,
      h_flags = fl, h_payload_len = 0\<rparr>"

text \<open>
  \<open>Header::encode\<close> fills a 16-byte array field by field; \<open>header_prefix\<close> is the array
  after the 12 bytes the CRC covers.
\<close>

definition header_prefix :: "header \<Rightarrow> bytes" where
  "header_prefix h =
     MAGIC @ [h_version h, message_type_to_u8 (h_message_type h),
              durability_to_u8 (h_durability h), h_flags h] @ u32_le (h_payload_len h)"

definition header_encode :: "(bytes \<Rightarrow> u32) \<Rightarrow> header \<Rightarrow> bytes" where
  "header_encode crc h = header_prefix h @ u32_le (crc (header_prefix h))"

text \<open>\<open>Header::decode\<close>, on a 16-byte array: magic, version, CRC, then typed fields.\<close>

definition header_decode :: "(bytes \<Rightarrow> u32) \<Rightarrow> bytes \<Rightarrow> decode_error + header" where
  "header_decode crc buf =
     (if subslice 0 4 buf \<noteq> MAGIC then Err BadMagic
      else let version = buf ! 4 in
      if version \<noteq> WIRE_VERSION then Err (VersionMismatch WIRE_VERSION version)
      else let expected_crc = u32_from_le (subslice 12 16 buf);
               computed_crc = crc (take HEADER_CRC_COVERAGE buf) in
      if expected_crc \<noteq> computed_crc then Err (HeaderCrcMismatch expected_crc computed_crc)
      else case message_type_try_from (buf ! 5) of
        Inl (UnknownMessageTypeByte b) \<Rightarrow> Err (UnknownMessageType b)
      | Inr mt \<Rightarrow>
      (case durability_try_from (buf ! 6) of
        Inl (UnknownDurability b) \<Rightarrow> Err (UnknownDurabilityByte b)
      | Inr d \<Rightarrow>
      let flags = buf ! 7 in
      if flags \<noteq> 0 then Err (ReservedFlagsSet flags)
      else Ok \<lparr>h_version = version, h_message_type = mt, h_durability = d,
               h_flags = flags, h_payload_len = u32_from_le (subslice 8 12 buf)\<rparr>))"

section \<open>Envelope\<close>

record envelope =
  env_header :: header
  env_payload :: bytes

definition envelope_new :: "header \<Rightarrow> bytes \<Rightarrow> envelope" where
  "envelope_new h p =
     \<lparr>env_header = h\<lparr>h_payload_len := u32_saturating (length p)\<rparr>, env_payload = p\<rparr>"

definition envelope_encode :: "(bytes \<Rightarrow> u32) \<Rightarrow> envelope \<Rightarrow> bytes" where
  "envelope_encode crc e =
     header_encode crc (env_header e) @ env_payload e @ u32_le (crc (env_payload e))"

definition envelope_decode :: "(bytes \<Rightarrow> u32) \<Rightarrow> bytes \<Rightarrow> decode_error + envelope" where
  "envelope_decode crc buf =
     (if length buf < HEADER_LEN then Err TruncatedFrame
      else case header_decode crc (take HEADER_LEN buf) of
        Inl e \<Rightarrow> Err e
      | Inr h \<Rightarrow>
      (let payload_len = unat (h_payload_len h) in
      if payload_len > MAX_PAYLOAD_HARD_CAP
      then Err (PayloadTooLarge payload_len MAX_PAYLOAD_HARD_CAP)
      else let frame_len = HEADER_LEN + payload_len + 4 in
      if length buf < frame_len then Err TruncatedFrame
      else if length buf > frame_len then Err (TrailingBytes (length buf - frame_len))
      else let payload = subslice HEADER_LEN (HEADER_LEN + payload_len) buf;
               expected_crc = u32_from_le (subslice (HEADER_LEN + payload_len) frame_len buf);
               computed_crc = crc payload in
      if expected_crc \<noteq> computed_crc then Err (PayloadCrcMismatch expected_crc computed_crc)
      else Ok \<lparr>env_header = h, env_payload = payload\<rparr>))"


section \<open>Well-formed envelopes and their spellings\<close>

definition envelope_wf :: "envelope \<Rightarrow> bool" where
  "envelope_wf e \<longleftrightarrow>
     h_version (env_header e) = WIRE_VERSION \<and> h_flags (env_header e) = 0 \<and>
     unat (h_payload_len (env_header e)) = length (env_payload e) \<and>
     length (env_payload e) \<le> MAX_PAYLOAD_HARD_CAP"

text \<open>
  The bytes a sender may legitimately use for a tier: the canonical one, and for
  \<open>Durable\<close> also the retired 0x02 of weir 1.x producers.
\<close>

definition durability_spellings :: "durability \<Rightarrow> u8 list" where
  "durability_spellings d = (case d of Durable \<Rightarrow> [0x01, 0x02] | Buffered \<Rightarrow> [0x03])"

definition header_spelling :: "(bytes \<Rightarrow> u32) \<Rightarrow> u8 \<Rightarrow> header \<Rightarrow> bytes" where
  "header_spelling crc b h =
     (let pre = MAGIC @ [h_version h, message_type_to_u8 (h_message_type h), b, h_flags h]
                @ u32_le (h_payload_len h)
      in pre @ u32_le (crc pre))"

definition frame_spelling :: "(bytes \<Rightarrow> u32) \<Rightarrow> u8 \<Rightarrow> envelope \<Rightarrow> bytes" where
  "frame_spelling crc b e =
     header_spelling crc b (env_header e) @ env_payload e @ u32_le (crc (env_payload e))"

lemma length_header_spelling [simp]: "length (header_spelling crc b h) = 16"
  by (simp add: header_spelling_def)

lemma length_header_encode [simp]: "length (header_encode crc h) = 16"
  by (simp add: header_encode_def header_prefix_def)

lemma frame_spelling_canonical:
  "frame_spelling crc (durability_to_u8 (h_durability (env_header e))) e = envelope_encode crc e"
  by (simp add: frame_spelling_def header_spelling_def envelope_encode_def header_encode_def
      header_prefix_def Let_def)

lemma durability_spellings_iff:
  "b \<in> set (durability_spellings d) \<longleftrightarrow> durability_try_from b = Ok d"
  by (cases d) (auto simp: durability_spellings_def durability_try_from_def)

text \<open>A 16-byte header falls into its six fields.\<close>

lemma header_fields:
  assumes "length buf = 16"
  obtains m v t d f l c where "buf = m @ [v, t, d, f] @ l @ c"
    and "length m = 4" and "length l = 4" and "length c = 4"
proof -
  have "buf = take 4 buf @ [buf ! 4, buf ! 5, buf ! 6, buf ! 7] @ subslice 8 12 buf @ subslice 12 16 buf"
  proof -
    have "buf = take 4 buf @ subslice 4 8 buf @ subslice 8 12 buf @ subslice 12 16 buf"
      using assms take_subslice_join [of 4 8 buf] take_subslice_join [of 8 12 buf]
        take_subslice_join [of 12 16 buf] by (simp, metis append_assoc)
    moreover have "subslice 4 8 buf = [buf ! 4, buf ! 5, buf ! 6, buf ! 7]"
      using assms by (simp add: subslice_Cons)
    ultimately show ?thesis by simp
  qed
  then show thesis using assms by (intro that) auto
qed

lemma header_decode_fields:
  assumes "length m = 4" and "length l = 4" and "length c = 4"
  shows "header_decode crc (m @ [v, t, d, f] @ l @ c) = Ok h \<longleftrightarrow>
    m = MAGIC \<and> v = WIRE_VERSION \<and> c = u32_le (crc (m @ [v, t, d, f] @ l)) \<and>
    message_type_try_from t = Ok (h_message_type h) \<and>
    durability_try_from d = Ok (h_durability h) \<and> f = 0 \<and>
    h_version h = v \<and> h_flags h = 0 \<and> l = u32_le (h_payload_len h)"
  using assms
  by (cases h)
    (auto simp: header_decode_def nth_append subslice_def wire_consts Let_def u32_from_le_eq
      split: sum.splits unknown_message_type.splits unknown_durability.splits)

lemma header_decode_Ok_iff:
  assumes "length buf = 16"
  shows "header_decode crc buf = Ok h \<longleftrightarrow>
    h_version h = WIRE_VERSION \<and> h_flags h = 0 \<and>
    (\<exists>b \<in> set (durability_spellings (h_durability h)). buf = header_spelling crc b h)"
proof -
  obtain m v t d f l c where buf: "buf = m @ [v, t, d, f] @ l @ c"
    and len: "length m = 4" "length l = 4" "length c = 4"
    using assms by (rule header_fields)
  show ?thesis
    unfolding buf header_decode_fields [OF len] message_type_try_from_Ok_iff
      durability_spellings_iff header_spelling_def Let_def
    using len by (auto simp: durability_spellings_iff)
qed

section \<open>The envelope codec\<close>

lemma envelope_decode_header_Err:
  assumes "16 \<le> length buf" and "header_decode crc (take 16 buf) = Err err"
  shows "envelope_decode crc buf = Err err"
  using assms by (simp add: envelope_decode_def wire_consts)

text \<open>After the header, the decoder is a comparison of lengths and one checksum.\<close>

lemma envelope_decode_body:
  assumes "length hb = 16" and "header_decode crc hb = Ok h"
  shows "envelope_decode crc (hb @ body) = (let n = unat (h_payload_len h) in
     if n > MAX_PAYLOAD_HARD_CAP then Err (PayloadTooLarge n MAX_PAYLOAD_HARD_CAP)
     else if length body < n + 4 then Err TruncatedFrame
     else if length body > n + 4 then Err (TrailingBytes (length body - (n + 4)))
     else if u32_from_le (drop n body) \<noteq> crc (take n body)
     then Err (PayloadCrcMismatch (u32_from_le (drop n body)) (crc (take n body)))
     else Ok \<lparr>env_header = h, env_payload = take n body\<rparr>)"
  using assms
  by (auto simp: envelope_decode_def HEADER_LEN_def subslice_def Let_def)

lemma envelope_decode_short_body:
  assumes "length hb = 16" and "header_decode crc hb = Ok h"
    and "unat (h_payload_len h) \<le> MAX_PAYLOAD_HARD_CAP"
    and "length body < unat (h_payload_len h) + 4"
  shows "envelope_decode crc (hb @ body) = Err TruncatedFrame"
  using assms(3,4) unfolding envelope_decode_body [OF assms(1,2)] by (simp add: Let_def)

lemma envelope_decode_long_body:
  assumes "length hb = 16" and "header_decode crc hb = Ok h"
    and "unat (h_payload_len h) \<le> MAX_PAYLOAD_HARD_CAP"
    and "length body = unat (h_payload_len h) + 4 + k" and "0 < k"
  shows "envelope_decode crc (hb @ body) = Err (TrailingBytes k)"
  using assms(3-5) unfolding envelope_decode_body [OF assms(1,2)] by (simp add: Let_def)

lemma envelope_decode_body_Ok_iff:
  assumes "length hb = 16" and "header_decode crc hb = Ok h"
  shows "envelope_decode crc (hb @ body) = Ok e \<longleftrightarrow>
     env_header e = h \<and> unat (h_payload_len h) = length (env_payload e) \<and>
     length (env_payload e) \<le> MAX_PAYLOAD_HARD_CAP \<and>
     body = env_payload e @ u32_le (crc (env_payload e))"
  (is "?dec \<longleftrightarrow> ?rhs")
proof
  assume ?dec
  then show ?rhs
    unfolding envelope_decode_body [OF assms] Let_def
    by (auto split: if_splits simp: u32_from_le_eq) (metis append_take_drop_id)
next
  assume ?rhs
  then show ?dec
    unfolding envelope_decode_body [OF assms] Let_def by (cases e) auto
qed

lemma header_decode_spelling:
  assumes "envelope_wf e" and "b \<in> set (durability_spellings (h_durability (env_header e)))"
  shows "header_decode crc (header_spelling crc b (env_header e)) = Ok (env_header e)"
  using assms by (subst header_decode_Ok_iff) (auto simp: envelope_wf_def)

lemma envelope_decode_spelling:
  assumes "envelope_wf e" and "b \<in> set (durability_spellings (h_durability (env_header e)))"
  shows "envelope_decode crc (frame_spelling crc b e) = Ok e"
  unfolding frame_spelling_def
  using envelope_decode_body_Ok_iff [OF length_header_spelling header_decode_spelling [OF assms]]
    assms(1) by (auto simp: envelope_wf_def)

lemma envelope_decode_encode:
  "envelope_wf e \<Longrightarrow> envelope_decode crc (envelope_encode crc e) = Ok e"
  using envelope_decode_spelling [of e "durability_to_u8 (h_durability (env_header e))"]
  by (simp add: frame_spelling_canonical durability_spellings_iff)

lemma envelope_decode_OkE:
  assumes dec: "envelope_decode crc buf = Ok e"
  obtains b where "envelope_wf e"
    and "b \<in> set (durability_spellings (h_durability (env_header e)))"
    and "buf = frame_spelling crc b e"
proof -
  have len: "16 \<le> length buf"
    using dec by (auto simp: envelope_decode_def HEADER_LEN_def split: if_splits)
  let ?hb = "take 16 buf"
  have hb: "length ?hb = 16" and buf: "buf = ?hb @ drop 16 buf" using len by auto
  from dec len obtain h where h: "header_decode crc ?hb = Ok h"
    using envelope_decode_header_Err [OF len] by (cases "header_decode crc ?hb") auto
  from dec have "envelope_decode crc (?hb @ drop 16 buf) = Ok e" by simp
  then have e: "env_header e = h" "unat (h_payload_len h) = length (env_payload e)"
      "length (env_payload e) \<le> MAX_PAYLOAD_HARD_CAP"
      "drop 16 buf = env_payload e @ u32_le (crc (env_payload e))"
    unfolding envelope_decode_body_Ok_iff [OF hb h] by auto
  from h obtain b where b: "b \<in> set (durability_spellings (h_durability h))"
      "?hb = header_spelling crc b h" and v: "h_version h = WIRE_VERSION" "h_flags h = 0"
    unfolding header_decode_Ok_iff [OF hb] by auto
  show thesis
  proof (rule that)
    show "envelope_wf e" using e v by (simp add: envelope_wf_def)
    show "b \<in> set (durability_spellings (h_durability (env_header e)))" using b e by simp
    show "buf = frame_spelling crc b e"
      using b(2) e(1,4) buf by (simp add: frame_spelling_def)
  qed
qed

text \<open>
  C35: \<open>Envelope::decode\<close> accepts exactly the wire spellings of well-formed envelopes: a
  buffer decodes to \<open>e\<close> if and only if \<open>e\<close> is well formed (wire version 1, no flags,
  declared length equal to the payload's length, payload within the 16 MiB cap) and the
  buffer is \<open>e\<close>'s encoding, up to the retired durability byte 0x02 that still spells
  \<open>Durable\<close>.  Nothing else is ever accepted, for any checksum function.
\<close>

theorem envelope_decode_exact:
  "envelope_decode crc buf = Ok e \<longleftrightarrow>
     envelope_wf e \<and>
     (\<exists>b \<in> set (durability_spellings (h_durability (env_header e))).
        buf = frame_spelling crc b e)"
  by (auto elim: envelope_decode_OkE intro: envelope_decode_spelling)

lemma envelope_wf_new:
  "length p \<le> MAX_PAYLOAD_HARD_CAP \<Longrightarrow> envelope_wf (envelope_new (header_new mt d 0) p)"
  by (simp add: envelope_wf_def envelope_new_def header_new_def wire_consts
      unat_u32_saturating)

lemma header_decode_flags:
  assumes "h_version h = WIRE_VERSION" "h_flags h \<noteq> 0"
  shows "header_decode crc (header_encode crc h) = Err (ReservedFlagsSet (h_flags h))"
  using assms
  by (cases "h_durability h"; cases "h_message_type h")
    (simp_all add: header_decode_def header_encode_def header_prefix_def nth_append subslice_def wire_consts Let_def u32_from_le_eq
      message_type_to_u8_def message_type_try_from_def durability_to_u8_def durability_try_from_def)

lemma unat_u32_saturating_min: "unat (u32_saturating n) = min n (2 ^ 32 - 1)"
  by (cases "n < 2 ^ 32") (simp_all add: unat_u32_saturating, simp add: u32_saturating_def unat_u32_max)

text \<open>
  C36: what becomes of any envelope that is built, encoded and decoded, for every message type, tier,
  flags byte and payload.  With flags 0 and a payload within the cap the same envelope comes back;
  a payload above the cap is refused with its declared length, which saturates at 32 bits; and any
  other flags byte is refused as reserved, whatever the payload.
\<close>

theorem envelope_roundtrip:
  "envelope_decode crc (envelope_encode crc (envelope_new (header_new mt d fl) p)) =
     (if fl \<noteq> 0 then Err (ReservedFlagsSet fl)
      else if length p > MAX_PAYLOAD_HARD_CAP then Err (PayloadTooLarge (min (length p) (2 ^ 32 - 1)) MAX_PAYLOAD_HARD_CAP)
      else Ok (envelope_new (header_new mt d fl) p))"
proof (cases "fl = 0")
  case False
  let ?h = "env_header (envelope_new (header_new mt d fl) p)"
  have h: "h_version ?h = WIRE_VERSION" "h_flags ?h = fl" by (simp_all add: envelope_new_def header_new_def)
  have l: "length (header_encode crc ?h) = 16" by (simp add: header_encode_def header_prefix_def wire_consts)
  then have "take 16 (envelope_encode crc (envelope_new (header_new mt d fl) p)) = header_encode crc ?h"
    by (simp add: envelope_encode_def)
  moreover have "16 \<le> length (envelope_encode crc (envelope_new (header_new mt d fl) p))"
    using l by (simp add: envelope_encode_def)
  ultimately show ?thesis
    using envelope_decode_header_Err header_decode_flags [OF h(1)] h(2) False by simp
next
  case True
  show ?thesis
  proof (cases "length p \<le> MAX_PAYLOAD_HARD_CAP")
    case le: True
    then show ?thesis using envelope_decode_encode [OF envelope_wf_new [OF le]] True by simp
  next
    case False
    let ?h = "env_header (envelope_new (header_new mt d fl) p)"
    have e: "header_encode crc ?h = header_spelling crc (durability_to_u8 d) ?h"
      by (simp add: header_encode_def header_prefix_def header_spelling_def Let_def envelope_new_def header_new_def)
    have "header_decode crc (header_encode crc ?h) = Ok ?h"
      unfolding e by (subst header_decode_Ok_iff) (auto simp: envelope_new_def header_new_def True durability_spellings_def durability_to_u8_def split: durability.split)
    moreover have "length (header_encode crc ?h) = 16" by (simp add: e)
    moreover have "MAX_PAYLOAD_HARD_CAP < unat (h_payload_len ?h)" "unat (h_payload_len ?h) = min (length p) (2 ^ 32 - 1)"
      using False unat_u32_saturating_min [of "length p"] by (simp_all add: envelope_new_def MAX_PAYLOAD_HARD_CAP_def)
    ultimately show ?thesis using True False
      by (simp add: envelope_decode_def envelope_encode_def HEADER_LEN_def Let_def)
  qed
qed

text \<open>
  Frames are self-delimiting.  A strict prefix of an accepted frame is a truncated
  frame and an accepted frame with bytes appended reports exactly how many trail it; neither
  is ever accepted as some other frame.
\<close>

theorem envelope_self_delimiting:
  assumes "envelope_decode crc buf = Ok e"
  shows "(\<forall>n < length buf. envelope_decode crc (take n buf) = Err TruncatedFrame) \<and>
         (\<forall>extra. extra \<noteq> [] \<longrightarrow>
            envelope_decode crc (buf @ extra) = Err (TrailingBytes (length extra)))"
proof -
  from assms obtain b where wf: "envelope_wf e"
      and b: "b \<in> set (durability_spellings (h_durability (env_header e)))"
      and buf: "buf = frame_spelling crc b e"
    by (rule envelope_decode_OkE)
  let ?hb = "header_spelling crc b (env_header e)"
  let ?body = "env_payload e @ u32_le (crc (env_payload e))"
  have hb: "length ?hb = 16" by simp
  note h = header_decode_spelling [OF wf b, of crc]
  have bufs: "buf = ?hb @ ?body" by (simp add: buf frame_spelling_def)
  show ?thesis
  proof (intro conjI allI impI)
    fix n assume n: "n < length buf"
    show "envelope_decode crc (take n buf) = Err TruncatedFrame"
    proof (cases "n < 16")
      case True
      then have "length (take n buf) < HEADER_LEN" by (simp add: HEADER_LEN_def)
      then show ?thesis by (simp only: envelope_decode_def if_True)
    next
      case False
      then have "take n buf = ?hb @ take (n - 16) ?body" by (simp add: bufs)
      moreover have "length (take (n - 16) ?body) < length (env_payload e) + 4"
        using n False by (auto simp: bufs)
      ultimately show ?thesis
        using envelope_decode_short_body [OF hb h, of "take (n - 16) ?body"] wf
        by (simp add: envelope_wf_def)
    qed
  next
    fix extra :: bytes assume extra: "extra \<noteq> []"
    have "buf @ extra = ?hb @ (?body @ extra)" by (simp add: bufs)
    then show "envelope_decode crc (buf @ extra) = Err (TrailingBytes (length extra))"
      using wf extra
      by (simp only:) (rule envelope_decode_long_body [OF hb h], auto simp: envelope_wf_def)
  qed
qed

theorem envelope_self_delimiting_witness:
  "envelope_decode (\<lambda>bs. of_nat (length bs))
     (take 19 (envelope_encode (\<lambda>bs. of_nat (length bs))
        (envelope_new (header_new HealthCheck Buffered 0) []))) = Err TruncatedFrame \<and>
   envelope_decode (\<lambda>bs. of_nat (length bs))
     (envelope_encode (\<lambda>bs. of_nat (length bs))
        (envelope_new (header_new HealthCheck Buffered 0) []) @ [7, 7])
     = Err (TrailingBytes 2)"
proof -
  let ?c = "\<lambda>bs :: bytes. of_nat (length bs) :: u32"
  let ?e = "envelope_new (header_new HealthCheck Buffered 0) []"
  have "envelope_decode ?c (envelope_encode ?c ?e) = Ok ?e"
    by (rule envelope_decode_encode [OF envelope_wf_new]) simp
  note d = envelope_self_delimiting [OF this]
  have "19 < length (envelope_encode ?c ?e)" and "[7, 7 :: u8] \<noteq> []"
    by (simp_all add: envelope_encode_def envelope_new_def)
  then show ?thesis using d by (metis length_Cons list.size(3) numeral_2_eq_2)
qed

text \<open>
  A header is judged before the payload is looked at.  When the first 16 bytes are
  refused, or declare a payload over the hard cap, the verdict is the same whatever bytes
  follow; so a peer cannot make the decoder size an allocation by a length it has not yet
  accepted.
\<close>

theorem envelope_header_decides:
  assumes "length hb = 16"
    and "\<forall>h. header_decode crc hb = Ok h \<longrightarrow> unat (h_payload_len h) > MAX_PAYLOAD_HARD_CAP"
  shows "\<exists>err. err \<noteq> TruncatedFrame \<and>
           (\<forall>body. envelope_decode crc (hb @ body) = Err err)"
proof (cases "header_decode crc hb")
  case (Inl err)
  then have "err \<noteq> TruncatedFrame"
    by (auto simp: header_decode_def Let_def split: if_splits sum.splits
        unknown_message_type.splits unknown_durability.splits)
  with Inl show ?thesis using assms(1)
    by (intro exI [of _ err]) (simp add: envelope_decode_def HEADER_LEN_def)
next
  case (Inr h)
  with assms have "unat (h_payload_len h) > MAX_PAYLOAD_HARD_CAP" by blast
  then show ?thesis
    using envelope_decode_body [OF assms(1) Inr]
    by (intro exI [of _ "PayloadTooLarge (unat (h_payload_len h)) MAX_PAYLOAD_HARD_CAP"]) simp
qed

theorem envelope_header_decides_witness:
  "\<exists>err. err \<noteq> TruncatedFrame \<and>
     (\<forall>body. envelope_decode (\<lambda>_. 0) (MAGIC @ replicate 12 2 @ body) = Err err)"
proof -
  have "\<exists>err. err \<noteq> TruncatedFrame \<and>
     (\<forall>body. envelope_decode (\<lambda>_. 0) ((MAGIC @ replicate 12 2) @ body) = Err err)"
    by (rule envelope_header_decides)
      (simp_all add: header_decode_def nth_append WIRE_VERSION_def)
  then show ?thesis by simp
qed

end
