(* ===== verification/Batch.thy ===== *)
theory Batch
  imports Wire
begin

unbundle bit_operations_syntax

text \<open>
  The payload codecs of the \<open>PushBatch\<close> / \<open>AckBatch\<close> pair, \<open>weir-core/src/batch.rs\<close>.
  A \<open>PushBatch\<close> body is a counted sequence of length-prefixed records; an \<open>AckBatch\<close>
  payload is a bitmap, least significant bit first.  The decoder's \<open>while\<close> loop is
  \<open>batch_walk\<close>, with its cursor and its output vector; the encoder's loop over the
  outcomes is \<open>ack_set_bits\<close>.

  Main results: both decoders accept exactly the encoder's images (within the caps).
\<close>

definition BATCH_VERSION :: u8 where "BATCH_VERSION = 1"
definition ACK_BATCH_VERSION :: u8 where "ACK_BATCH_VERSION = 1"
definition BATCH_HEADER_LEN :: nat where "BATCH_HEADER_LEN = 1 + 2"
definition ACK_BATCH_HEADER_LEN :: nat where "ACK_BATCH_HEADER_LEN = 1 + 2"
definition MAX_BATCH_RECORDS_HARD_CAP :: nat where "MAX_BATCH_RECORDS_HARD_CAP = 2048"
definition MAX_ACK_BATCH_PAYLOAD_LEN :: nat where
  "MAX_ACK_BATCH_PAYLOAD_LEN = ACK_BATCH_HEADER_LEN + div_ceil MAX_BATCH_RECORDS_HARD_CAP 8"

lemmas batch_consts [layout] =
  BATCH_VERSION_def ACK_BATCH_VERSION_def BATCH_HEADER_LEN_def ACK_BATCH_HEADER_LEN_def

datatype batch_error =
    BatchTruncated nat nat            \<comment> \<open>len, need\<close>
  | BatchUnsupportedVersion u8
  | EmptyBatch
  | TooManyRecords nat nat            \<comment> \<open>count, cap\<close>
  | EmptyRecord nat                   \<comment> \<open>index\<close>
  | RecordTooLarge nat nat nat        \<comment> \<open>index, len, cap\<close>
  | TruncatedRecord nat               \<comment> \<open>index\<close>
  | LengthMismatch nat nat            \<comment> \<open>declared, actual\<close>
  | PaddingNotZero u8

section \<open>PushBatch bodies\<close>

definition encode_record :: "bytes \<Rightarrow> bytes" where
  "encode_record r = u32_le (as_u32 (length r)) @ r"

definition encode_batch_body :: "bytes list \<Rightarrow> bytes" where
  "encode_batch_body records =
     [BATCH_VERSION] @ u16_le (as_u16 (length records)) @ concat (map encode_record records)"

text \<open>
  The \<open>while cursor < body.len()\<close> loop.  It returns the collected records and the final
  cursor.  Every pass advances the cursor by at least four bytes.
\<close>

function batch_walk ::
  "nat \<Rightarrow> nat \<Rightarrow> bytes \<Rightarrow> nat \<Rightarrow> bytes list \<Rightarrow> batch_error + (bytes list \<times> nat)" where
  "batch_walk declared record_cap body cursor out =
     (if \<not> cursor < length body then Ok (out, cursor)
      else let index = length out in
      if cursor + 4 > length body then Err (TruncatedRecord index)
      else let len = unat (u32_from_le (subslice cursor (cursor + 4) body));
               cursor = cursor + 4 in
      if len = 0 then Err (EmptyRecord index)
      else if len > record_cap then Err (RecordTooLarge index len record_cap)
      else if cursor + len > length body then Err (TruncatedRecord index)
      else if index = declared then Err (LengthMismatch declared (declared + 1))
      else batch_walk declared record_cap body (cursor + len)
             (out @ [subslice cursor (cursor + len) body]))"
  by pat_completeness auto
termination
  by (relation "measure (\<lambda>(_, _, body, cursor, _). length body - cursor)") auto

declare batch_walk.simps [simp del]

definition decode_batch_body :: "bytes \<Rightarrow> nat \<Rightarrow> nat \<Rightarrow> batch_error + bytes list" where
  "decode_batch_body body max_records max_record_len =
     (if length body < BATCH_HEADER_LEN
      then Err (BatchTruncated (length body) BATCH_HEADER_LEN)
      else let version = body ! 0 in
      if version \<noteq> BATCH_VERSION then Err (BatchUnsupportedVersion version)
      else let declared = unat (u16_from_le [body ! 1, body ! 2]) in
      if declared = 0 then Err EmptyBatch
      else let cap = min max_records MAX_BATCH_RECORDS_HARD_CAP in
      if declared > cap then Err (TooManyRecords declared cap)
      else let record_cap = min max_record_len MAX_PAYLOAD_HARD_CAP in
      case batch_walk declared record_cap body BATCH_HEADER_LEN [] of
        Inl e \<Rightarrow> Err e
      | Inr (out, cursor) \<Rightarrow>
          if length out \<noteq> declared then Err (LengthMismatch declared (length out))
          else if cursor \<noteq> length body then Err (LengthMismatch cursor (length body))
          else Ok out)"

section \<open>AckBatch payloads\<close>

definition bitmap_bit :: "nat \<Rightarrow> nat \<times> u8" where
  "bitmap_bit index = (index div 8, push_bit (index mod 8) 1)"

primrec ack_set_bits :: "nat \<Rightarrow> bool list \<Rightarrow> bytes \<Rightarrow> bytes" where
  "ack_set_bits i [] out = out"
| "ack_set_bits i (ok # oks) out =
     ack_set_bits (Suc i) oks
       (if ok then (let (byte, mask) = bitmap_bit i in
          out[ACK_BATCH_HEADER_LEN + byte := out ! (ACK_BATCH_HEADER_LEN + byte) OR mask])
        else out)"

definition encode_ack_batch :: "bool list \<Rightarrow> bytes" where
  "encode_ack_batch accepted =
     (let n = length accepted in
      ack_set_bits 0 accepted
        ([ACK_BATCH_VERSION] @ u16_le (as_u16 n) @ replicate (div_ceil n 8) 0))"

definition decode_ack_batch :: "bytes \<Rightarrow> nat \<Rightarrow> batch_error + bool list" where
  "decode_ack_batch payload expected =
     (if length payload < ACK_BATCH_HEADER_LEN
      then Err (BatchTruncated (length payload) ACK_BATCH_HEADER_LEN)
      else let version = payload ! 0 in
      if version \<noteq> ACK_BATCH_VERSION then Err (BatchUnsupportedVersion version)
      else let declared = unat (u16_from_le [payload ! 1, payload ! 2]) in
      if declared = 0 then Err EmptyBatch
      else if declared \<noteq> expected then Err (LengthMismatch declared expected)
      else let want = ACK_BATCH_HEADER_LEN + div_ceil declared 8 in
      if length payload \<noteq> want then Err (LengthMismatch want (length payload))
      else let used_in_last = declared mod 8;
               lst = payload ! (length payload - 1);
               padding_mask = NOT (push_bit used_in_last 1 - 1) in
      if used_in_last \<noteq> 0 \<and> lst AND padding_mask \<noteq> 0 then Err (PaddingNotZero lst)
      else let bits = drop ACK_BATCH_HEADER_LEN payload in
      Ok (map (\<lambda>i. let (byte, mask) = bitmap_bit i in bits ! byte AND mask \<noteq> 0)
              [0..<declared]))"

section \<open>Exactness of the batch body decoder\<close>

definition record_ok :: "nat \<Rightarrow> bytes \<Rightarrow> bool" where
  "record_ok cap r \<longleftrightarrow> r \<noteq> [] \<and> length r \<le> cap"

lemma length_encode_record [simp]: "length (encode_record r) = 4 + length r"
  by (simp add: encode_record_def)

text \<open>One pass of the loop on a well-formed entry.\<close>

lemma batch_walk_record:
  assumes "record_ok cap r" and "cap \<le> MAX_PAYLOAD_HARD_CAP" and "length out < declared"
    and "drop cursor body = encode_record r @ rest"
  shows "batch_walk declared cap body cursor out =
         batch_walk declared cap body (cursor + 4 + length r) (out @ [r])"
proof -
  have len: "length body = cursor + 4 + length r + length rest"
    using assms(4) by (metis (no_types, lifting) add.assoc drop_eq_Nil2 le_add_diff_inverse
        length_append length_drop length_encode_record linorder_le_cases
        append_is_Nil_conv assms(1) encode_record_def record_ok_def)
  have small: "length r < 2 ^ 32"
    using assms(1,2) by (simp add: record_ok_def MAX_PAYLOAD_HARD_CAP_def)
  have lenfld: "subslice cursor (cursor + 4) body = u32_le (as_u32 (length r))"
    using assms(4) by (simp add: subslice_def encode_record_def)
  have "drop (cursor + 4) body = r @ rest"
    using assms(4) by (simp only: drop_plus) (simp add: encode_record_def)
  then have payload: "subslice (cursor + 4) (cursor + 4 + length r) body = r"
    by (simp add: subslice_def)
  show ?thesis
    using assms(1,3) len small
    by (subst batch_walk.simps)
      (simp add: Let_def lenfld payload unat_as_u32 record_ok_def)
qed

lemma batch_walk_encoded:
  assumes "\<forall>r \<in> set rs. record_ok cap r" and "cap \<le> MAX_PAYLOAD_HARD_CAP"
    and "length out + length rs \<le> declared" and "cursor \<le> length body"
    and "drop cursor body = concat (map encode_record rs)"
  shows "batch_walk declared cap body cursor out = Ok (out @ rs, length body)"
  using assms
proof (induction rs arbitrary: cursor out)
  case Nil
  then show ?case by (subst batch_walk.simps) auto
next
  case (Cons r rs)
  have step: "batch_walk declared cap body cursor out =
      batch_walk declared cap body (cursor + 4 + length r) (out @ [r])"
    using Cons.prems by (intro batch_walk_record [where rest = "concat (map encode_record rs)"]) auto
  have "drop (cursor + 4 + length r) body = drop (4 + length r) (drop cursor body)"
    by (simp add: ac_simps)
  also have "\<dots> = concat (map encode_record rs)"
    using Cons.prems(5) by simp
  finally have rest: "drop (cursor + 4 + length r) body = concat (map encode_record rs)" .
  have "cursor + 4 + length r \<le> length body"
    using arg_cong [OF Cons.prems(5), of length] by simp
  with Cons.IH [of "out @ [r]" "cursor + 4 + length r"] Cons.prems rest step
  show ?case by simp
qed

text \<open>Conversely, a walk that succeeds read exactly a concatenation of entries.\<close>

lemma batch_walk_OkD:
  "batch_walk declared cap body cursor out = Ok (out', cursor') \<Longrightarrow> cursor \<le> length body \<Longrightarrow>
   \<exists>rs. out' = out @ rs \<and> cursor' = length body \<and>
        drop cursor body = concat (map encode_record rs) \<and> (\<forall>r \<in> set rs. record_ok cap r)"
proof (induction declared cap body cursor out rule: batch_walk.induct)
  case (1 declared cap body cursor out)
  show ?case
  proof (cases "cursor < length body")
    case False
    with "1.prems" show ?thesis by (subst (asm) batch_walk.simps) auto
  next
    case True
    let ?len = "unat (u32_from_le (subslice cursor (cursor + 4) body))"
    let ?r = "subslice (cursor + 4) (cursor + 4 + ?len) body"
    from True "1.prems"(1) have g: "cursor + 4 \<le> length body" "?len \<noteq> 0" "?len \<le> cap"
        "cursor + 4 + ?len \<le> length body"
      and rec: "batch_walk declared cap body (cursor + 4 + ?len) (out @ [?r]) = Ok (out', cursor')"
      and ne: "length out \<noteq> declared"
      by (subst (asm) batch_walk.simps; auto simp: Let_def split: if_splits)+
    have "\<exists>rs. out' = (out @ [?r]) @ rs \<and> cursor' = length body \<and>
        drop (cursor + 4 + ?len) body = concat (map encode_record rs) \<and>
        (\<forall>r \<in> set rs. record_ok cap r)"
      using True g rec ne by (intro "1.IH") auto
    then obtain rs where rs: "out' = out @ ?r # rs" "cursor' = length body"
        "drop (cursor + 4 + ?len) body = concat (map encode_record rs)"
        "\<forall>r \<in> set rs. record_ok cap r" by auto
    have lr: "length ?r = ?len" using g by simp
    have "drop cursor body = subslice cursor (cursor + 4) body @ drop (cursor + 4) body"
      by (rule subslice_drop_join [symmetric])
    also have "drop (cursor + 4) body = ?r @ drop (cursor + 4 + ?len) body"
      by (rule subslice_drop_join [symmetric])
    also have "subslice cursor (cursor + 4) body @ ?r @ drop (cursor + 4 + ?len) body
        = encode_record ?r @ concat (map encode_record rs)"
      using g lr rs(3) by (simp add: encode_record_def)
    finally have "drop cursor body = concat (map encode_record (?r # rs))" by simp
    moreover have "record_ok cap ?r" using g lr by (auto simp: record_ok_def simp flip: length_0_conv)
    ultimately show ?thesis using rs by (intro exI [of _ "?r # rs"]) auto
  qed
qed


lemma decode_batch_header:
  "decode_batch_body (BATCH_VERSION # u16_le w @ rest) mr ml =
     (let declared = unat w; cap = min mr MAX_BATCH_RECORDS_HARD_CAP in
      if declared = 0 then Err EmptyBatch
      else if declared > cap then Err (TooManyRecords declared cap)
      else case batch_walk declared (min ml MAX_PAYLOAD_HARD_CAP)
                  (BATCH_VERSION # u16_le w @ rest) 3 [] of
        Inl e \<Rightarrow> Err e
      | Inr (out, cursor) \<Rightarrow>
          if length out \<noteq> declared then Err (LengthMismatch declared (length out))
          else if cursor \<noteq> 3 + length rest then Err (LengthMismatch cursor (3 + length rest))
          else Ok out)"
proof -
  have "[u16_le w ! 0, u16_le w ! 1] = u16_le w"
    by (rule nth_equalityI) (auto simp: less_Suc_eq numeral_2_eq_2 nth_Cons')
  then have "[(BATCH_VERSION # u16_le w @ rest) ! 1, (BATCH_VERSION # u16_le w @ rest) ! 2] = u16_le w"
    by (simp add: nth_append numeral_2_eq_2)
  then show ?thesis
    by (simp add: decode_batch_body_def BATCH_HEADER_LEN_def Let_def numeral_3_eq_3
        split: sum.split prod.split)
qed

lemma batch_body_fields:
  assumes "3 \<le> length body"
  obtains v w rest where "body = v # u16_le w @ rest"
proof -
  obtain v a b rest where "body = v # a # b # rest"
    using assms by (auto simp: numeral_3_eq_3 Suc_le_length_iff)
  moreover have "u16_le (u16_from_le [a, b]) = [a, b]" by simp
  ultimately show thesis using that by (metis append_Cons append_Nil)
qed

text \<open>
  C37: \<open>decode_batch_body\<close> accepts exactly the encodings of legal batches.  A body decodes to
  the records \<open>rs\<close> if and only if it is \<open>encode_batch_body rs\<close>, there is at least one
  record and at most the cap in force, and every record is non-empty and within the record
  cap.  A count that disagrees with the body, trailing bytes and truncated entries are all
  refused.
\<close>

theorem decode_batch_body_exact:
  "decode_batch_body body max_records max_record_len = Ok rs \<longleftrightarrow>
     body = encode_batch_body rs \<and> rs \<noteq> [] \<and>
     length rs \<le> min max_records MAX_BATCH_RECORDS_HARD_CAP \<and>
     (\<forall>r \<in> set rs. r \<noteq> [] \<and> length r \<le> min max_record_len MAX_PAYLOAD_HARD_CAP)"
  (is "?dec \<longleftrightarrow> ?rhs")
proof
  assume dec: ?dec
  then have "3 \<le> length body"
    by (auto simp: decode_batch_body_def BATCH_HEADER_LEN_def split: if_splits)
  then obtain v w rest where body: "body = v # u16_le w @ rest" by (rule batch_body_fields)
  from dec have "v = BATCH_VERSION"
    by (auto simp: body decode_batch_body_def Let_def split: if_splits)
  with body have body: "body = BATCH_VERSION # u16_le w @ rest" by simp
  from dec obtain cursor where w: "unat w \<noteq> 0" "unat w \<le> min max_records MAX_BATCH_RECORDS_HARD_CAP"
      and walk: "batch_walk (unat w) (min max_record_len MAX_PAYLOAD_HARD_CAP) body 3 [] = Ok (rs, cursor)"
      and rs: "length rs = unat w"
    unfolding body decode_batch_header
    by (auto simp: Let_def not_less not_le min_less_iff_disj split: if_splits sum.splits)
  from batch_walk_OkD [OF walk] body have "drop 3 body = concat (map encode_record rs)"
      and ok: "\<forall>r \<in> set rs. record_ok (min max_record_len MAX_PAYLOAD_HARD_CAP) r" by auto
  moreover have "drop 3 body = rest" by (simp add: body numeral_3_eq_3)
  moreover have "w = as_u16 (length rs)" using rs by simp
  ultimately have "body = encode_batch_body rs" by (simp add: body encode_batch_body_def)
  with w rs ok show ?rhs by (auto simp: record_ok_def)
next
  assume ?rhs
  then have body: "body = BATCH_VERSION # u16_le (as_u16 (length rs)) @ concat (map encode_record rs)"
      and rs: "rs \<noteq> []" "length rs \<le> min max_records MAX_BATCH_RECORDS_HARD_CAP"
      and ok: "\<forall>r \<in> set rs. record_ok (min max_record_len MAX_PAYLOAD_HARD_CAP) r"
    by (auto simp: encode_batch_body_def record_ok_def)
  have n: "unat (as_u16 (length rs)) = length rs"
    using rs by (intro unat_as_u16) (simp add: MAX_BATCH_RECORDS_HARD_CAP_def)
  have "batch_walk (length rs) (min max_record_len MAX_PAYLOAD_HARD_CAP) body 3 [] = Ok ([] @ rs, length body)"
    using ok by (intro batch_walk_encoded) (auto simp: body numeral_3_eq_3)
  then show ?dec
    using rs n unfolding body decode_batch_header by (simp add: Let_def body not_less)
qed

theorem decode_batch_body_exact_witness:
  "decode_batch_body (encode_batch_body [ascii ''a'', ascii ''bc'']) 10 100
     = Ok [ascii ''a'', ascii ''bc'']"
  by (simp add: decode_batch_body_exact ascii_def MAX_BATCH_RECORDS_HARD_CAP_def
      MAX_PAYLOAD_HARD_CAP_def)


section \<open>Exactness of the batch reply decoder\<close>

lemma length_ack_set_bits [simp]: "length (ack_set_bits i oks out) = length out"
  by (induction oks arbitrary: i out) (auto simp: bitmap_bit_def)

lemma ack_set_bits_header [simp]: "take 3 (ack_set_bits i oks out) = take 3 out"
  by (induction oks arbitrary: i out) (auto simp: bitmap_bit_def ACK_BATCH_HEADER_LEN_def)

lemma bit_set_exp:
  "p < 8 \<Longrightarrow> bit (w OR 2 ^ q :: u8) p \<longleftrightarrow> bit w p \<or> p = q"
  by (auto simp: bit_or_iff bit_exp_iff)

lemma ack_set_bits_bit:
  assumes "(i + length oks + 7) div 8 \<le> length out - 3" "3 \<le> length out"
    and "k < length out - 3" "p < 8"
  shows "bit (ack_set_bits i oks out ! (3 + k)) p \<longleftrightarrow>
         bit (out ! (3 + k)) p \<or> (i \<le> 8 * k + p \<and> 8 * k + p < i + length oks \<and> oks ! (8 * k + p - i))"
  using assms
proof (induction oks arbitrary: i out)
  case (Cons ok oks)
  let ?out = "if ok then out[3 + i div 8 := out ! (3 + i div 8) OR push_bit (i mod 8) 1] else out"
  have step: "ack_set_bits i (ok # oks) out = ack_set_bits (Suc i) oks ?out"
    by (simp add: bitmap_bit_def ACK_BATCH_HEADER_LEN_def numeral_3_eq_3)
  have "bit (?out ! (3 + k)) p \<longleftrightarrow> bit (out ! (3 + k)) p \<or> (ok \<and> i = 8 * k + p)"
  proof (cases "k = i div 8")
    case True
    moreover have "i = 8 * (i div 8) + p \<longleftrightarrow> p = i mod 8" using Cons.prems(4) by presburger
    ultimately show ?thesis using Cons.prems by (auto simp: bit_set_exp)
  next
    case False
    then have "i \<noteq> 8 * k + p" using Cons.prems by auto
    with False show ?thesis by auto
  qed
  moreover have "i \<le> 8 * k + p \<and> i \<noteq> 8 * k + p \<longleftrightarrow> Suc i \<le> 8 * k + p" by auto
  ultimately show ?case
    unfolding step using Cons.prems
    by (subst Cons.IH) (auto simp: nth_Cons' not_less_eq_eq le_Suc_eq)
qed auto

lemma ack_header_fields:
  assumes "3 \<le> length (p :: bytes)" "p ! 0 = v" "u16_from_le [p ! 1, p ! 2] = w"
  shows "take 3 p = v # u16_le w"
proof -
  have "u16_le w = [p ! 1, p ! 2]" using assms(3) by auto
  then show ?thesis using assms(1,2)
    by (intro nth_equalityI) (auto simp: nth_Cons' less_Suc_eq numeral_3_eq_3 numeral_2_eq_2)
qed

lemma encode_ack_batch_header:
  "take 3 (encode_ack_batch bs) = ACK_BATCH_VERSION # u16_le (as_u16 (length bs))"
  by (simp add: encode_ack_batch_def Let_def)

lemma length_encode_ack_batch [simp]:
  "length (encode_ack_batch bs) = 3 + (length bs + 7) div 8"
  by (simp add: encode_ack_batch_def Let_def div_ceil_def)

lemma encode_ack_batch_bit:
  assumes "k < (length bs + 7) div 8" "p < 8"
  shows "bit (encode_ack_batch bs ! (3 + k)) p \<longleftrightarrow> 8 * k + p < length bs \<and> bs ! (8 * k + p)"
  using assms unfolding encode_ack_batch_def Let_def
  by (subst ack_set_bits_bit) (auto simp: div_ceil_def nth_append)

lemma ack_payload_eqI:
  assumes "length p = length q" "3 \<le> length p" "take 3 p = take 3 q"
    and "\<And>k i. k < length p - 3 \<Longrightarrow> i < 8 \<Longrightarrow> bit (p ! (3 + k)) i = bit (q ! (3 + k) :: u8) i"
  shows "p = q"
proof -
  have "drop 3 p = drop 3 q"
    using assms by (intro nth_equalityI) (auto intro!: bit_eqI)
  with assms(3) show ?thesis by (metis append_take_drop_id)
qed

lemma mask_bit_test: "j < 8 \<Longrightarrow> w AND push_bit j (1 :: u8) \<noteq> 0 \<longleftrightarrow> bit w j"
  by (simp add: bit_iff_and_push_bit_not_eq_0)

lemma padding_clear_iff:
  assumes "j < 8"
  shows "w AND NOT (push_bit j (1 :: u8) - 1) = 0 \<longleftrightarrow> (\<forall>p. j \<le> p \<and> p < 8 \<longrightarrow> \<not> bit w p)"
proof -
  have "push_bit j (1 :: u8) - 1 = mask j" by (simp add: mask_eq_exp_minus_1 push_bit_eq_mult)
  then show ?thesis
    by (auto simp: bit_eq_iff bit_and_iff bit_not_iff bit_mask_iff not_less)
qed


lemma ack_last_index:
  assumes "n mod 8 \<noteq> 0"
  shows "3 + (n + 7) div 8 - 1 = 3 + n div (8 :: nat)"
proof -
  obtain q r where "n = 8 * q + r" "0 < r" "r < 8"
    using assms by (metis mult_div_mod_eq neq0_conv mod_less_divisor zero_less_numeral)
  then have "(n + 7) div 8 = Suc (n div 8)" by (auto intro!: div_nat_eqI)
  then show ?thesis by simp
qed

lemma ack_beyond_last:
  assumes "k < (n + 7) div 8" "i < 8" "\<not> 8 * k + i < n"
  shows "k = n div 8 \<and> n mod 8 \<noteq> 0 \<and> n mod 8 \<le> (i :: nat)"
proof -
  have "Suc k * 8 \<le> n + 7" using assms(1) by (simp add: Suc_le_eq less_eq_div_iff_mult_less_eq [symmetric])
  then have r: "8 * k < n" by simp
  then obtain r where "n = 8 * k + r" "0 < r" "r \<le> i"
    using assms(3) by (metis add_le_cancel_left less_imp_add_positive not_less)
  with assms(2) show ?thesis by auto
qed

text \<open>The decoder on a payload whose length and header are right, in bit-level terms.\<close>

lemma decode_ack_batch_bits:
  assumes "take 3 p = ACK_BATCH_VERSION # u16_le (as_u16 n)" "0 < n" "n < 2 ^ 16"
    and len: "length p = 3 + (n + 7) div 8"
  shows "decode_ack_batch p n =
    (if n mod 8 \<noteq> 0 \<and> (\<exists>i. n mod 8 \<le> i \<and> i < 8 \<and> bit (p ! (3 + n div 8)) i)
     then Err (PaddingNotZero (p ! (3 + n div 8)))
     else Ok (map (\<lambda>i. bit (p ! (3 + i div 8)) (i mod 8)) [0..<n]))"
proof -
  have "length (u16_le (as_u16 n)) = Suc (Suc 0)" by simp
  then obtain a b where ab: "u16_le (as_u16 n) = [a, b]" by (auto simp: length_Suc_conv simp del: length_u16_le)
  have "p = take 3 p @ drop 3 p" by simp
  also have "\<dots> = ACK_BATCH_VERSION # a # b # drop 3 p" by (simp add: assms(1) ab)
  finally have p: "p = ACK_BATCH_VERSION # a # b # drop 3 p" .
  have v: "p ! 0 = ACK_BATCH_VERSION" by (subst p) simp
  have "p ! 1 = a" "p ! 2 = b" by (subst p, simp)+
  then have w: "unat (u16_from_le [p ! 1, p ! 2]) = n"
    using unat_as_u16 [OF assms(3)] by (simp flip: ab)
  have hl: "ACK_BATCH_HEADER_LEN = 3" by (simp add: ACK_BATCH_HEADER_LEN_def)
  have bits: "map (\<lambda>i. case bitmap_bit i of (byte, m) \<Rightarrow> drop 3 p ! byte AND m \<noteq> 0) [0..<n]
      = map (\<lambda>i. bit (p ! (3 + i div 8)) (i mod 8)) [0..<n]"
    using mask_bit_test len by (auto simp: bitmap_bit_def simp del: push_bit_of_1)
  have dec: "decode_ack_batch p n =
      (if n mod 8 \<noteq> 0 \<and> p ! (length p - 1) AND NOT (push_bit (n mod 8) 1 - 1) \<noteq> 0
       then Err (PaddingNotZero (p ! (length p - 1)))
       else Ok (map (\<lambda>i. bit (p ! (3 + i div 8)) (i mod 8)) [0..<n]))"
    unfolding decode_ack_batch_def Let_def hl v w div_ceil_def bits
    using assms(2) len by (simp del: push_bit_of_1)
  show ?thesis
  proof (cases "n mod 8 = 0")
    case True
    then show ?thesis unfolding dec by simp
  next
    case False
    have last: "p ! (length p - 1) = p ! (3 + n div 8)"
      using ack_last_index [OF False] len by (simp only:)
    have pad: "p ! (3 + n div 8) AND NOT (push_bit (n mod 8) 1 - 1) = 0 \<longleftrightarrow>
        (\<forall>i. n mod 8 \<le> i \<and> i < 8 \<longrightarrow> \<not> bit (p ! (3 + n div 8)) i)"
      by (rule padding_clear_iff) simp
    show ?thesis unfolding dec last pad by auto
  qed
qed


text \<open>
  C38: \<open>decode_ack_batch\<close> accepts exactly the replies \<open>encode_ack_batch\<close> builds.  For a
  caller that expects \<open>expected\<close> outcomes, a payload decodes to \<open>bs\<close> if and only if \<open>bs\<close>
  has that many entries (between one and \<open>u16::MAX\<close>) and the payload is the encoding of \<open>bs\<close>:
  a set padding bit, a wrong count or a wrong length is refused, and no outcome is shifted
  to another record.
\<close>

theorem decode_ack_batch_exact:
  "decode_ack_batch payload expected = Ok bs \<longleftrightarrow>
     length bs = expected \<and> 0 < expected \<and> expected < 2 ^ 16 \<and> payload = encode_ack_batch bs"
  (is "?dec \<longleftrightarrow> ?rhs")
proof
  assume dec: ?dec
  then have pre: "3 \<le> length payload" "payload ! 0 = ACK_BATCH_VERSION"
      "unat (u16_from_le [payload ! 1, payload ! 2]) = expected" "0 < expected"
      and len: "length payload = 3 + (expected + 7) div 8"
    by (auto simp: decode_ack_batch_def Let_def ACK_BATCH_HEADER_LEN_def div_ceil_def split: if_splits)
  have small: "expected < 2 ^ 16"
    using pre(3) unat_lt2p [of "u16_from_le [payload ! 1, payload ! 2]"] by simp
  have hdr: "take 3 payload = ACK_BATCH_VERSION # u16_le (as_u16 expected)"
    using pre(3) by (intro ack_header_fields pre) auto
  note bits = decode_ack_batch_bits [OF hdr pre(4) small len]
  have bs: "bs = map (\<lambda>i. bit (payload ! (3 + i div 8)) (i mod 8)) [0..<expected]"
    and pad: "\<And>i. expected mod 8 \<noteq> 0 \<Longrightarrow> expected mod 8 \<le> i \<Longrightarrow> i < 8 \<Longrightarrow>
                \<not> bit (payload ! (3 + expected div 8)) i"
    using dec unfolding bits by (auto split: if_splits)
  have n: "length bs = expected" by (simp add: bs)
  have "payload = encode_ack_batch bs"
  proof (rule ack_payload_eqI)
    fix k i :: nat assume k: "k < length payload - 3" and i: "i < 8"
    have "bit (payload ! (3 + k)) i \<longleftrightarrow> 8 * k + i < expected \<and> bs ! (8 * k + i)"
    proof (cases "8 * k + i < expected")
      case True
      then show ?thesis using i by (simp add: bs)
    next
      case False
      then show ?thesis using ack_beyond_last [of k expected i] k i len pad [of i] by auto
    qed
    then show "bit (payload ! (3 + k)) i = bit (encode_ack_batch bs ! (3 + k)) i"
      using k i len by (simp add: encode_ack_batch_bit n)
  qed (use len pre hdr n in \<open>simp_all add: encode_ack_batch_header\<close>)
  then show ?rhs using n pre small by simp
next
  assume r: ?rhs
  have dec: "decode_ack_batch payload expected =
    (if expected mod 8 \<noteq> 0 \<and> (\<exists>i. expected mod 8 \<le> i \<and> i < 8 \<and> bit (payload ! (3 + expected div 8)) i)
     then Err (PaddingNotZero (payload ! (3 + expected div 8)))
     else Ok (map (\<lambda>i. bit (payload ! (3 + i div 8)) (i mod 8)) [0..<expected]))"
    using r by (intro decode_ack_batch_bits) (auto simp: encode_ack_batch_header)
  have "\<not> bit (payload ! (3 + expected div 8)) i"
    if "expected mod 8 \<noteq> 0" "expected mod 8 \<le> i" "i < 8" for i
  proof -
    have "expected div 8 < (expected + 7) div 8" using ack_last_index [OF that(1)] by simp
    moreover have "\<not> 8 * (expected div 8) + i < expected"
      using that(2) mult_div_mod_eq [of 8 expected] by linarith
    ultimately show ?thesis using that r by (auto simp: encode_ack_batch_bit)
  qed
  moreover have "map (\<lambda>i. bit (payload ! (3 + i div 8)) (i mod 8)) [0..<expected] = bs"
    using r by (intro nth_equalityI) (auto simp: encode_ack_batch_bit)
  ultimately show ?dec unfolding dec by auto
qed

end
