(* ===== verification/Coordinate.thy ===== *)
theory Coordinate
  imports Batch
begin

text \<open>
  The durable address of one accepted record and its \<open>AckTracked\<close> payload codec,
  \<open>weir-core/src/coordinate.rs\<close>.  A Rust \<open>String\<close> is its UTF-8 bytes; that they are
  valid UTF-8 is part of the well-formedness predicate \<open>coordinate_wf\<close>, which \<open>new\<close>
  establishes for a valid name and the decoder checks.

  Main results: the decoder accepts exactly the encodings of well-formed coordinates, an
  encoding never exceeds the response bound, and the hexadecimal record id determines the
  digest.
\<close>

definition COORDINATE_VERSION :: u8 where "COORDINATE_VERSION = 1"
definition COORDINATE_FIXED_LEN :: nat where "COORDINATE_FIXED_LEN = 1 + 8 + 32 + 2"
definition MAX_SEGMENT_NAME_LEN :: nat where "MAX_SEGMENT_NAME_LEN = 255"
definition MAX_TRACKED_ACK_PAYLOAD_LEN :: nat where
  "MAX_TRACKED_ACK_PAYLOAD_LEN = COORDINATE_FIXED_LEN + MAX_SEGMENT_NAME_LEN"

lemmas coordinate_consts [layout] =
  COORDINATE_VERSION_def COORDINATE_FIXED_LEN_def MAX_SEGMENT_NAME_LEN_def
  MAX_TRACKED_ACK_PAYLOAD_LEN_def

record record_coordinate =
  coord_segment :: bytes
  coord_index :: u64
  coord_record_id :: bytes    \<comment> \<open>\<open>[u8; 32]\<close>\<close>

datatype coordinate_error =
    CoordTruncated nat nat            \<comment> \<open>len, need\<close>
  | CoordUnsupportedVersion u8
  | SegmentTooLong nat nat            \<comment> \<open>len, cap\<close>
  | CoordLengthMismatch nat nat       \<comment> \<open>declared, actual\<close>
  | SegmentNotUtf8

definition coordinate_new :: "bytes \<Rightarrow> u64 \<Rightarrow> bytes \<Rightarrow> coordinate_error + record_coordinate" where
  "coordinate_new segment index record_id =
     (if length segment > MAX_SEGMENT_NAME_LEN
      then Err (SegmentTooLong (length segment) MAX_SEGMENT_NAME_LEN)
      else Ok \<lparr>coord_segment = segment, coord_index = index, coord_record_id = record_id\<rparr>)"

text \<open>\<open>write!(out, "{b:02x}")\<close> for each byte of the digest.\<close>

definition hex_digit :: "nat \<Rightarrow> u8" where
  "hex_digit d = (if d < 10 then of_nat (48 + d) else of_nat (87 + d))"

definition hex_byte :: "u8 \<Rightarrow> bytes" where
  "hex_byte b = [hex_digit (unat b div 16), hex_digit (unat b mod 16)]"

definition record_id_hex :: "record_coordinate \<Rightarrow> bytes" where
  "record_id_hex c = concat (map hex_byte (coord_record_id c))"

definition coordinate_encode :: "record_coordinate \<Rightarrow> bytes" where
  "coordinate_encode c =
     [COORDINATE_VERSION] @ u64_le (coord_index c) @ coord_record_id c @
     u16_le (as_u16 (length (coord_segment c))) @ coord_segment c"

definition coordinate_decode :: "bytes \<Rightarrow> coordinate_error + record_coordinate" where
  "coordinate_decode buf =
     (if length buf < COORDINATE_FIXED_LEN
      then Err (CoordTruncated (length buf) COORDINATE_FIXED_LEN)
      else let version = buf ! 0 in
      if version \<noteq> COORDINATE_VERSION then Err (CoordUnsupportedVersion version)
      else let index = u64_from_le (subslice 1 9 buf);
               record_id = subslice 9 41 buf;
               segment_len = unat (u16_from_le (subslice 41 43 buf)) in
      if segment_len > MAX_SEGMENT_NAME_LEN
      then Err (SegmentTooLong segment_len MAX_SEGMENT_NAME_LEN)
      else let expected = COORDINATE_FIXED_LEN + segment_len in
      if length buf \<noteq> expected then Err (CoordLengthMismatch expected (length buf))
      else let segment = drop COORDINATE_FIXED_LEN buf in
      if \<not> utf8_valid segment then Err SegmentNotUtf8
      else Ok \<lparr>coord_segment = segment, coord_index = index, coord_record_id = record_id\<rparr>)"

section \<open>Well-formedness and exactness\<close>

definition coordinate_wf :: "record_coordinate \<Rightarrow> bool" where
  "coordinate_wf c \<longleftrightarrow>
     utf8_valid (coord_segment c) \<and> length (coord_segment c) \<le> MAX_SEGMENT_NAME_LEN \<and>
     length (coord_record_id c) = 32"

lemma coordinate_new_wf:
  "utf8_valid segment \<Longrightarrow> length record_id = 32 \<Longrightarrow>
   coordinate_new segment index record_id = Ok c \<Longrightarrow> coordinate_wf c"
  by (auto simp: coordinate_new_def coordinate_wf_def split: if_splits)

lemma coordinate_fields:
  assumes "43 \<le> length buf"
  obtains v i rid n seg where
    "buf = v # u64_le i @ rid @ u16_le n @ seg" "length rid = 32"
proof -
  obtain v b1 where b1: "buf = v # b1" using assms by (cases buf) auto
  with assms have "8 \<le> length b1" by simp
  then obtain i b2 where b2: "b1 = u64_le i @ b2" by (rule u64_field)
  with assms b1 have "32 \<le> length b2" by simp
  then obtain rid b3 where b3: "b2 = rid @ b3" "length rid = 32" by (rule bytes_field)
  with assms b1 b2 have "2 \<le> length b3" by simp
  then obtain n seg where "b3 = u16_le n @ seg" by (rule u16_field)
  with that b1 b2 b3 show thesis by simp
qed

lemma coordinate_decode_fields:
  assumes "length rid = 32"
  shows "coordinate_decode (v # u64_le i @ rid @ u16_le n @ seg) =
    (if v \<noteq> COORDINATE_VERSION then Err (CoordUnsupportedVersion v)
     else if unat n > MAX_SEGMENT_NAME_LEN then Err (SegmentTooLong (unat n) MAX_SEGMENT_NAME_LEN)
     else if length seg \<noteq> unat n
     then Err (CoordLengthMismatch (COORDINATE_FIXED_LEN + unat n) (COORDINATE_FIXED_LEN + length seg))
     else if \<not> utf8_valid seg then Err SegmentNotUtf8
     else Ok \<lparr>coord_segment = seg, coord_index = i, coord_record_id = rid\<rparr>)"
  using assms by (simp add: coordinate_decode_def Let_def COORDINATE_FIXED_LEN_def codec)

text \<open>
  \<open>RecordCoordinate::decode\<close> accepts exactly the encodings of well-formed coordinates.  A
  payload decodes to \<open>c\<close> if and only if \<open>c\<close> has a UTF-8 segment name of at most 255 bytes
  and a 32-byte digest, and the payload is \<open>encode c\<close>; no other spelling of an address is
  accepted, so a producer never gets a coordinate the daemon did not write.
\<close>

theorem coordinate_decode_exact:
  "coordinate_decode buf = Ok c \<longleftrightarrow> coordinate_wf c \<and> buf = coordinate_encode c"
proof
  assume dec: "coordinate_decode buf = Ok c"
  then have "43 \<le> length buf"
    by (auto simp: coordinate_decode_def COORDINATE_FIXED_LEN_def split: if_splits)
  then obtain v i rid n seg where buf: "buf = v # u64_le i @ rid @ u16_le n @ seg"
    and rid: "length rid = 32" by (rule coordinate_fields)
  from dec show "coordinate_wf c \<and> buf = coordinate_encode c"
    unfolding buf coordinate_decode_fields [OF rid]
    by (auto simp: coordinate_wf_def coordinate_encode_def rid split: if_splits)
next
  assume "coordinate_wf c \<and> buf = coordinate_encode c"
  then show "coordinate_decode buf = Ok c"
    by (auto simp: coordinate_wf_def coordinate_encode_def coordinate_decode_fields
        MAX_SEGMENT_NAME_LEN_def unat_as_u16)
qed

text \<open>
  Every payload the daemon answers a push with fits the cap a client allocates.  A
  coordinate \<open>new\<close> accepted encodes to at most \<open>MAX_TRACKED_ACK_PAYLOAD_LEN\<close> (298) bytes.
\<close>

theorem coordinate_encode_bound:
  assumes "coordinate_new segment index record_id = Ok c" "length record_id = 32"
  shows "length (coordinate_encode c) = COORDINATE_FIXED_LEN + length segment \<and>
         length (coordinate_encode c) \<le> MAX_TRACKED_ACK_PAYLOAD_LEN"
  using assms by (auto simp: coordinate_new_def coordinate_encode_def layout split: if_splits)

theorem coordinate_encode_bound_witness:
  "length (coordinate_encode \<lparr>coord_segment = ascii ''shard_00/seg_00000001.wab.sealed'',
     coord_index = 1, coord_record_id = replicate 32 7\<rparr>) = 43 + 32"
  using coordinate_encode_bound [of "ascii ''shard_00/seg_00000001.wab.sealed''" 1 "replicate 32 7"]
  by (simp add: coordinate_new_def layout)

section \<open>The hexadecimal record id\<close>

lemma unat_hex_digit: "d < 16 \<Longrightarrow> unat (hex_digit d) = (if d < 10 then 48 + d else 87 + d)"
  by (simp add: hex_digit_def unat_of_nat_eq del: of_nat_add)

lemma hex_digit_inject:
  assumes "a < 16" "b < 16" "hex_digit a = hex_digit b"
  shows "a = b"
proof -
  have "unat (hex_digit a) = unat (hex_digit b)" using assms(3) by simp
  then show ?thesis using assms(1,2) by (simp only: unat_hex_digit) (simp split: if_splits)
qed

lemma hex_byte_inject: "hex_byte a = hex_byte b \<longleftrightarrow> a = b"
proof
  assume eq: "hex_byte a = hex_byte b"
  have "unat a < 256" "unat b < 256" using unat_lt2p [of a] unat_lt2p [of b] by simp_all
  then have "unat a div 16 = unat b div 16" "unat a mod 16 = unat b mod 16"
    using eq by (auto simp: hex_byte_def intro: hex_digit_inject)
  then have "unat a = unat b" by (metis div_mult_mod_eq)
  then show "a = b" by (rule unsigned_word_eqI)
qed simp

lemma hex_byte_not_Nil [simp]: "hex_byte b \<noteq> []"
  by (simp add: hex_byte_def)

lemma hex_byte_append_inject: "hex_byte a @ p = hex_byte b @ q \<longleftrightarrow> a = b \<and> p = q"
  by (subst append_eq_append_conv) (simp_all add: hex_byte_inject, simp add: hex_byte_def)

lemma hex_concat_inject:
  "concat (map hex_byte xs) = concat (map hex_byte ys) \<longleftrightarrow> xs = ys"
proof (induction xs arbitrary: ys)
  case Nil
  show ?case by (cases ys) simp_all
next
  case (Cons x xs)
  then show ?case by (cases ys) (simp_all add: hex_byte_append_inject)
qed

lemma length_hex_concat: "length (concat (map hex_byte xs)) = 2 * length xs"
  by (induction xs) (auto simp: hex_byte_def)

text \<open>
  The idempotency key is faithful.  \<open>record_id_hex\<close> prints two lowercase hexadecimal
  digits per byte, so a 32-byte digest gives 64 characters, and two coordinates print the
  same key only if their digests are equal.
\<close>

theorem record_id_hex_faithful:
  "length (record_id_hex c) = 2 * length (coord_record_id c) \<and>
   (record_id_hex c = record_id_hex d \<longleftrightarrow> coord_record_id c = coord_record_id d)"
  by (simp add: record_id_hex_def hex_concat_inject length_hex_concat)

end
