(* ===== verification/WabFormat.thy ===== *)
theory WabFormat
  imports Wire
begin

unbundle bit_operations_syntax

text \<open>
  The on-disk formats of the write-ahead buffer (WAB), \<open>weir-wab/src/format.rs\<close>: the
  24-byte segment header (format v1 without and v2 with a flags byte), the sentinel, the
  32-byte footer, the 36-byte \<open>.confirmed\<close> sidecar and the file-name extensions.  The
  clock (\<open>unix_nanos_now\<close>) is an argument; the byte layout of a record frame, which the
  readers and the writer share, is the specification \<open>frame\<close>.  Paths are the bytes of
  their (UTF-8) names.

  Main results: each parser accepts exactly the spellings of its metadata, and what the
  builders write parses back.
\<close>

definition SEGMENT_MAGIC :: bytes where "SEGMENT_MAGIC = ascii ''WEIR''"
definition FORMAT_VERSION_V1 :: u8 where "FORMAT_VERSION_V1 = 1"
definition FORMAT_VERSION_V2 :: u8 where "FORMAT_VERSION_V2 = 2"
definition FORMAT_VERSION_MAX_SUPPORTED :: u8 where "FORMAT_VERSION_MAX_SUPPORTED = FORMAT_VERSION_V2"
definition FLAG_ZSTD :: u8 where "FLAG_ZSTD = 1"
definition KNOWN_FLAGS :: u8 where "KNOWN_FLAGS = FLAG_ZSTD"
definition SEGMENT_HEADER_LEN :: nat where "SEGMENT_HEADER_LEN = 24"
definition SEGMENT_FOOTER_LEN :: nat where "SEGMENT_FOOTER_LEN = 32"
definition SENTINEL :: bytes where "SENTINEL = [0, 0, 0, 0]"
definition SEGMENT_MAX_BYTES :: nat where "SEGMENT_MAX_BYTES = 256 * 1024 * 1024"
definition CONFIRMED_MAGIC :: bytes where "CONFIRMED_MAGIC = ascii ''WCON''"
definition CONFIRMED_VERSION :: u8 where "CONFIRMED_VERSION = 1"
definition CONFIRMED_LEN :: nat where "CONFIRMED_LEN = 36"
definition EXT_ACTIVE :: bytes where "EXT_ACTIVE = ascii ''.wab''"
definition EXT_SEALED :: bytes where "EXT_SEALED = ascii ''.wab.sealed''"
definition EXT_CONFIRMED :: bytes where "EXT_CONFIRMED = ascii ''.wab.confirmed''"

lemmas format_versions =
  FORMAT_VERSION_V1_def FORMAT_VERSION_V2_def FORMAT_VERSION_MAX_SUPPORTED_def
  FLAG_ZSTD_def KNOWN_FLAGS_def

lemma length_format_consts [simp, layout]:
  "length SEGMENT_MAGIC = 4" "length SENTINEL = 4" "length CONFIRMED_MAGIC = 4"
  by (simp_all add: SEGMENT_MAGIC_def SENTINEL_def CONFIRMED_MAGIC_def)

datatype compression = CompNone | CompZstd

primrec compression_flags :: "compression \<Rightarrow> u8" where
  "compression_flags CompNone = 0"
| "compression_flags CompZstd = FLAG_ZSTD"

primrec compression_format_version :: "compression \<Rightarrow> u8" where
  "compression_format_version CompNone = FORMAT_VERSION_V1"
| "compression_format_version CompZstd = FORMAT_VERSION_V2"

definition compress_bound :: "nat \<Rightarrow> nat" where
  "compress_bound n = n + n div 255 + 16"

definition max_stored_record_bytes :: nat where
  "max_stored_record_bytes = compress_bound MAX_PAYLOAD_HARD_CAP"

text \<open>The reader's \<open>match self.compression\<close> that picks the bound on a stored record.\<close>

primrec stored_cap :: "compression \<Rightarrow> nat" where
  "stored_cap CompNone = MAX_PAYLOAD_HARD_CAP"
| "stored_cap CompZstd = max_stored_record_bytes"

text \<open>\<open>str::strip_suffix\<close> and \<open>str::ends_with\<close>.\<close>

definition strip_suffix :: "bytes \<Rightarrow> bytes \<Rightarrow> bytes option" where
  "strip_suffix sfx s =
     (if suffix sfx s then Some (take (length s - length sfx) s) else None)"

definition confirmed_path_for :: "bytes \<Rightarrow> bytes" where
  "confirmed_path_for sealed =
     (let base = (case strip_suffix EXT_SEALED sealed of Some b \<Rightarrow> b | None \<Rightarrow> sealed)
      in base @ EXT_CONFIRMED)"

section \<open>Segment header\<close>

record segment_header_meta =
  hm_format_version :: u8
  hm_compression :: compression
  hm_shard_id :: u16
  hm_created_at :: i64

datatype segment_header_parse_error =
    HdrWrongLength nat
  | HdrBadMagic
  | HdrUnknownVersion u8
  | HdrReservedFlagsSet u8 u8         \<comment> \<open>version, flags\<close>

definition build_segment_header :: "i64 \<Rightarrow> u16 \<Rightarrow> compression \<Rightarrow> bytes" where
  "build_segment_header now shard_id cmp =
     SEGMENT_MAGIC @ [compression_format_version cmp, compression_flags cmp] @
     u16_le shard_id @ u64_le now @ replicate 8 0"

definition parse_header_compression :: "u8 \<Rightarrow> u8 \<Rightarrow> segment_header_parse_error + compression" where
  "parse_header_compression version flags =
     (if version = FORMAT_VERSION_V1 \<and> flags = 0 then Ok CompNone
      else if version = FORMAT_VERSION_V1 then Err (HdrReservedFlagsSet FORMAT_VERSION_V1 flags)
      else if version = FORMAT_VERSION_V2 \<and> flags AND NOT KNOWN_FLAGS \<noteq> 0
      then Err (HdrReservedFlagsSet FORMAT_VERSION_V2 flags)
      else if version = FORMAT_VERSION_V2 \<and> flags AND FLAG_ZSTD \<noteq> 0 then Ok CompZstd
      else if version = FORMAT_VERSION_V2 then Ok CompNone
      else Err (HdrUnknownVersion version))"

definition parse_segment_header :: "bytes \<Rightarrow> segment_header_parse_error + segment_header_meta" where
  "parse_segment_header buf =
     (if length buf \<noteq> SEGMENT_HEADER_LEN then Err (HdrWrongLength (length buf))
      else if subslice 0 4 buf \<noteq> SEGMENT_MAGIC then Err HdrBadMagic
      else let flags = buf ! 5 in
      case parse_header_compression (buf ! 4) flags of
        Inl e \<Rightarrow> Err e
      | Inr cmp \<Rightarrow> Ok \<lparr>hm_format_version = buf ! 4, hm_compression = cmp,
                        hm_shard_id = u16_from_le (subslice 6 8 buf),
                        hm_created_at = u64_from_le (subslice 8 16 buf)\<rparr>)"

section \<open>Sentinel and footer\<close>

definition build_sentinel :: bytes where "build_sentinel = SENTINEL"

record segment_footer_meta =
  fm_record_count :: u64
  fm_data_bytes :: u64
  fm_file_crc32 :: u32
  fm_sealed_at :: i64

datatype segment_footer_parse_error = FtrWrongLength nat

definition build_segment_footer :: "u64 \<Rightarrow> u64 \<Rightarrow> u32 \<Rightarrow> i64 \<Rightarrow> bytes" where
  "build_segment_footer record_count data_bytes file_crc32 sealed_at =
     u64_le record_count @ u64_le data_bytes @ u32_le file_crc32 @ u64_le sealed_at @ replicate 4 0"

definition parse_segment_footer :: "bytes \<Rightarrow> segment_footer_parse_error + segment_footer_meta" where
  "parse_segment_footer buf =
     (if length buf \<noteq> SEGMENT_FOOTER_LEN then Err (FtrWrongLength (length buf))
      else Ok \<lparr>fm_record_count = u64_from_le (subslice 0 8 buf),
               fm_data_bytes = u64_from_le (subslice 8 16 buf),
               fm_file_crc32 = u32_from_le (subslice 16 20 buf),
               fm_sealed_at = u64_from_le (subslice 20 28 buf)\<rparr>)"

section \<open>Confirmation sidecar\<close>

record confirmed_meta =
  cm_sealed_at :: i64
  cm_record_count :: u64
  cm_drained_at :: i64

datatype confirmed_parse_error =
    ConfWrongLength nat
  | ConfBadMagic
  | ConfUnknownVersion u8
  | ConfCrcMismatch u32 u32           \<comment> \<open>expected, computed\<close>

definition build_confirmed :: "(bytes \<Rightarrow> u32) \<Rightarrow> i64 \<Rightarrow> u64 \<Rightarrow> i64 \<Rightarrow> bytes" where
  "build_confirmed crc sealed_at record_count drained_at =
     (let buf = CONFIRMED_MAGIC @ [CONFIRMED_VERSION] @ replicate 3 0 @ u64_le sealed_at @
                u64_le record_count @ u64_le drained_at
      in buf @ u32_le (crc buf))"

definition parse_confirmed :: "(bytes \<Rightarrow> u32) \<Rightarrow> bytes \<Rightarrow> confirmed_parse_error + confirmed_meta" where
  "parse_confirmed crc buf =
     (if length buf \<noteq> CONFIRMED_LEN then Err (ConfWrongLength (length buf))
      else if subslice 0 4 buf \<noteq> CONFIRMED_MAGIC then Err ConfBadMagic
      else if buf ! 4 \<noteq> CONFIRMED_VERSION then Err (ConfUnknownVersion (buf ! 4))
      else let expected_crc = u32_from_le (subslice 32 36 buf);
               computed_crc = crc (take 32 buf) in
      if expected_crc \<noteq> computed_crc then Err (ConfCrcMismatch expected_crc computed_crc)
      else Ok \<lparr>cm_sealed_at = u64_from_le (subslice 8 16 buf),
               cm_record_count = u64_from_le (subslice 16 24 buf),
               cm_drained_at = u64_from_le (subslice 24 32 buf)\<rparr>)"

section \<open>Lengths\<close>

lemma length_build_segment_header [simp]: "length (build_segment_header now s c) = 24"
  by (simp add: build_segment_header_def)

lemma length_build_segment_footer [simp]: "length (build_segment_footer n d c t) = 32"
  by (simp add: build_segment_footer_def)

lemma length_build_confirmed [simp]: "length (build_confirmed crc s n d) = 36"
  by (simp add: build_confirmed_def Let_def)

section \<open>Exactness of the parsers\<close>

text \<open>The version and flags bytes a header of a given compression can carry.\<close>

definition header_version_flags :: "u8 \<Rightarrow> u8 \<Rightarrow> compression \<Rightarrow> bool" where
  "header_version_flags v f c \<longleftrightarrow>
     (v = 1 \<and> f = 0 \<and> c = CompNone) \<or> (v = 2 \<and> f = 0 \<and> c = CompNone) \<or> (v = 2 \<and> f = 1 \<and> c = CompZstd)"

lemma byte_known_flags: "(f :: u8) AND - 2 = 0 \<longleftrightarrow> f = 0 \<or> f = 1"
proof
  assume "f AND - 2 = 0"
  then have h: "f AND NOT 1 = 0" by simp
  have "n = 0" if "bit f n" for n
  proof (rule ccontr)
    assume "n \<noteq> 0"
    with that have "bit (f AND NOT 1) n"
      by (simp only: bit_and_iff bit_not_iff bit_1_iff) (auto dest: bit_imp_possible_bit)
    then show False unfolding h by simp
  qed
  then have "f = (if bit f 0 then 1 else 0)"
    by (intro bit_eqI) (auto simp: bit_1_iff)
  then show "f = 0 \<or> f = 1" by metis
qed auto

lemma parse_header_compression_Ok_iff:
  "parse_header_compression v f = Ok c \<longleftrightarrow> header_version_flags v f c"
  by (auto simp: parse_header_compression_def format_versions header_version_flags_def
      dest: byte_known_flags [THEN iffD1] split: if_splits)

lemma segment_header_fields:
  assumes "length buf = 24"
  obtains m v f sh t r where
    "buf = m @ [v, f] @ u16_le sh @ u64_le t @ r" "length m = 4" "length r = 8"
proof -
  have "4 \<le> length buf" using assms by simp
  then obtain m b1 where b1: "buf = m @ b1" "length m = 4" by (rule bytes_field)
  obtain v f b2 where b2: "b1 = v # f # b2"
    using assms b1 by (cases b1; cases "tl b1") auto
  have "2 \<le> length b2" using assms b1 b2 by simp
  then obtain sh b3 where b3: "b2 = u16_le sh @ b3" by (rule u16_field)
  have "8 \<le> length b3" using assms b1 b2 b3 by simp
  then obtain t r where "b3 = u64_le t @ r" by (rule u64_field)
  with that [of m v f sh t r] assms b1 b2 b3 show thesis by simp
qed

text \<open>The header spelling of a metadata value with given reserved bytes.\<close>

definition header_bytes :: "segment_header_meta \<Rightarrow> u8 \<Rightarrow> bytes \<Rightarrow> bytes" where
  "header_bytes h flags reserved =
     SEGMENT_MAGIC @ [hm_format_version h, flags] @ u16_le (hm_shard_id h) @
     u64_le (hm_created_at h) @ reserved"

lemma parse_segment_header_fields:
  assumes "length m = 4" "length r = 8"
  shows "parse_segment_header (m @ [v, f] @ u16_le sh @ u64_le t @ r) =
    (if m \<noteq> SEGMENT_MAGIC then Err HdrBadMagic
     else case parse_header_compression v f of
       Inl e \<Rightarrow> Err e
     | Inr c \<Rightarrow> Ok \<lparr>hm_format_version = v, hm_compression = c, hm_shard_id = sh, hm_created_at = t\<rparr>)"
  using assms by (simp add: parse_segment_header_def SEGMENT_HEADER_LEN_def codec nth_append Let_def
      split: sum.split)

text \<open>
  \<open>parse_segment_header\<close> accepts exactly the 24-byte headers with the segment magic, a
  version and flags pair this build understands (v1 without flags, v2 without flags, v2 with
  the zstd flag) and any reserved tail; the metadata is then the fields of the header.  A
  flags bit from a newer weir, a flag in a v1 header and an unknown version are refused.
\<close>

theorem parse_segment_header_exact:
  "parse_segment_header buf = Ok h \<longleftrightarrow>
     (\<exists>flags reserved. header_version_flags (hm_format_version h) flags (hm_compression h) \<and>
        length reserved = 8 \<and> buf = header_bytes h flags reserved)"
proof
  assume p: "parse_segment_header buf = Ok h"
  then have "length buf = 24"
    by (auto simp: parse_segment_header_def SEGMENT_HEADER_LEN_def split: if_splits)
  then obtain m v f sh t r where buf: "buf = m @ [v, f] @ u16_le sh @ u64_le t @ r"
    and len: "length m = 4" "length r = 8" by (rule segment_header_fields)
  from p show "\<exists>flags reserved. header_version_flags (hm_format_version h) flags (hm_compression h) \<and>
        length reserved = 8 \<and> buf = header_bytes h flags reserved"
    unfolding buf parse_segment_header_fields [OF len]
    by (intro exI [of _ f] exI [of _ r])
      (auto simp: header_bytes_def len parse_header_compression_Ok_iff split: if_splits sum.splits)
next
  assume "\<exists>flags reserved. header_version_flags (hm_format_version h) flags (hm_compression h) \<and>
        length reserved = 8 \<and> buf = header_bytes h flags reserved"
  then show "parse_segment_header buf = Ok h"
    by (auto simp: header_bytes_def parse_segment_header_fields [simplified]
        simp flip: parse_header_compression_Ok_iff)
qed

lemma parse_build_segment_header:
  "parse_segment_header (build_segment_header now shard cmp) =
     Ok \<lparr>hm_format_version = compression_format_version cmp, hm_compression = cmp,
         hm_shard_id = shard, hm_created_at = now\<rparr>"
proof -
  have "parse_header_compression (compression_format_version cmp) (compression_flags cmp) = Ok cmp"
    by (cases cmp) (simp_all add: parse_header_compression_def format_versions)
  then show ?thesis
    using parse_segment_header_fields [of SEGMENT_MAGIC "replicate 8 0"]
    by (simp add: build_segment_header_def)
qed

lemma parse_segment_footer_fields:
  assumes "length r = 4"
  shows "parse_segment_footer (u64_le n @ u64_le d @ u32_le c @ u64_le t @ r) =
    Ok \<lparr>fm_record_count = n, fm_data_bytes = d, fm_file_crc32 = c, fm_sealed_at = t\<rparr>"
  using assms by (simp add: parse_segment_footer_def SEGMENT_FOOTER_LEN_def codec)

lemma segment_footer_fields:
  assumes "length buf = 32"
  obtains n d c t r where "buf = u64_le n @ u64_le d @ u32_le c @ u64_le t @ r" "length r = 4"
proof -
  have "8 \<le> length buf" using assms by simp
  then obtain n b1 where b1: "buf = u64_le n @ b1" by (rule u64_field)
  have "8 \<le> length b1" using assms b1 by simp
  then obtain d b2 where b2: "b1 = u64_le d @ b2" by (rule u64_field)
  have "4 \<le> length b2" using assms b1 b2 by simp
  then obtain c b3 where b3: "b2 = u32_le c @ b3" by (rule u32_field)
  have "8 \<le> length b3" using assms b1 b2 b3 by simp
  then obtain t r where "b3 = u64_le t @ r" by (rule u64_field)
  with that [of n d c t r] assms b1 b2 b3 show thesis by simp
qed

lemma parse_build_segment_footer:
  "parse_segment_footer (build_segment_footer n d c t) =
     Ok \<lparr>fm_record_count = n, fm_data_bytes = d, fm_file_crc32 = c, fm_sealed_at = t\<rparr>"
  by (simp add: build_segment_footer_def parse_segment_footer_fields)

text \<open>
  The header and the footer a segment is written with read back as they were written:
  for every shard, clock value, compression mode, record count, byte count, file checksum and
  seal time, and the two blocks have the fixed lengths the readers consume.
\<close>

theorem segment_header_footer_roundtrip:
  "parse_segment_header (build_segment_header now shard cmp) =
     Ok \<lparr>hm_format_version = compression_format_version cmp, hm_compression = cmp,
         hm_shard_id = shard, hm_created_at = now\<rparr> \<and>
   parse_segment_footer (build_segment_footer n d c t) =
     Ok \<lparr>fm_record_count = n, fm_data_bytes = d, fm_file_crc32 = c, fm_sealed_at = t\<rparr> \<and>
   length (build_segment_header now shard cmp) = SEGMENT_HEADER_LEN \<and>
   length (build_segment_footer n d c t) = SEGMENT_FOOTER_LEN"
  by (simp add: parse_build_segment_header parse_build_segment_footer SEGMENT_HEADER_LEN_def
      SEGMENT_FOOTER_LEN_def)

section \<open>The confirmation sidecar\<close>

text \<open>Everything before the checksum, with the three reserved bytes as found.\<close>

definition confirmed_prefix :: "confirmed_meta \<Rightarrow> bytes \<Rightarrow> bytes" where
  "confirmed_prefix m reserved =
     CONFIRMED_MAGIC @ [CONFIRMED_VERSION] @ reserved @ u64_le (cm_sealed_at m) @
     u64_le (cm_record_count m) @ u64_le (cm_drained_at m)"

lemma confirmed_fields:
  assumes "length buf = 36"
  obtains g v r s n d c where
    "buf = g @ [v] @ r @ u64_le s @ u64_le n @ u64_le d @ u32_le c" "length g = 4" "length r = 3"
proof -
  have "4 \<le> length buf" using assms by simp
  then obtain g b1 where b1: "buf = g @ b1" "length g = 4" by (rule bytes_field)
  then obtain v b2 where b2: "b1 = v # b2" using assms by (cases b1) auto
  have "3 \<le> length b2" using assms b1 b2 by simp
  then obtain r b3 where b3: "b2 = r @ b3" "length r = 3" by (rule bytes_field)
  have "8 \<le> length b3" using assms b1 b2 b3 by simp
  then obtain s b4 where b4: "b3 = u64_le s @ b4" by (rule u64_field)
  have "8 \<le> length b4" using assms b1 b2 b3 b4 by simp
  then obtain n b5 where b5: "b4 = u64_le n @ b5" by (rule u64_field)
  have "8 \<le> length b5" using assms b1 b2 b3 b4 b5 by simp
  then obtain d b6 where b6: "b5 = u64_le d @ b6" by (rule u64_field)
  have l6: "length b6 = 4" using assms b1 b2 b3 b4 b5 b6 by simp
  then obtain c b7 where "b6 = u32_le c @ b7" by (metis u32_field order_refl)
  with l6 have "b6 = u32_le c" by simp
  with that [of g v r s n d c] b1 b2 b3 b4 b5 b6 show thesis by simp
qed

lemma parse_confirmed_fields:
  assumes "length g = 4" "length r = 3"
  shows "parse_confirmed crc (g @ [v] @ r @ u64_le s @ u64_le n @ u64_le d @ u32_le c) =
    (if g \<noteq> CONFIRMED_MAGIC then Err ConfBadMagic
     else if v \<noteq> CONFIRMED_VERSION then Err (ConfUnknownVersion v)
     else let computed = crc (g @ [v] @ r @ u64_le s @ u64_le n @ u64_le d) in
     if c \<noteq> computed then Err (ConfCrcMismatch c computed)
     else Ok \<lparr>cm_sealed_at = s, cm_record_count = n, cm_drained_at = d\<rparr>)"
  using assms by (simp add: parse_confirmed_def CONFIRMED_LEN_def codec nth_append Let_def)

lemma parse_build_confirmed:
  "parse_confirmed crc (build_confirmed crc s n d) =
     Ok \<lparr>cm_sealed_at = s, cm_record_count = n, cm_drained_at = d\<rparr>"
  using parse_confirmed_fields [of CONFIRMED_MAGIC "replicate 3 0" crc CONFIRMED_VERSION s n d]
  by (simp add: build_confirmed_def Let_def)

text \<open>
  A confirmation is accepted exactly when it is whole.  \<open>parse_confirmed\<close> returns \<open>m\<close>
  if and only if the file is the magic, the version, three reserved bytes, the three fields
  of \<open>m\<close> and the CRC-32 of the 32 bytes before it; in particular what \<open>build_confirmed\<close>
  wrote reads back, and no shorter, longer or differently-versioned file confirms a segment.
\<close>

theorem parse_confirmed_exact:
  "parse_confirmed crc buf = Ok m \<longleftrightarrow>
     (\<exists>reserved. length reserved = 3 \<and>
        buf = confirmed_prefix m reserved @ u32_le (crc (confirmed_prefix m reserved)))"
proof
  assume p: "parse_confirmed crc buf = Ok m"
  then have "length buf = 36"
    by (auto simp: parse_confirmed_def CONFIRMED_LEN_def split: if_splits)
  then obtain g v r s n d c where buf: "buf = g @ [v] @ r @ u64_le s @ u64_le n @ u64_le d @ u32_le c"
    and len: "length g = 4" "length r = 3" by (rule confirmed_fields)
  from p show "\<exists>reserved. length reserved = 3 \<and>
        buf = confirmed_prefix m reserved @ u32_le (crc (confirmed_prefix m reserved))"
    unfolding buf parse_confirmed_fields [OF len]
    by (intro exI [of _ r]) (auto simp: confirmed_prefix_def len Let_def split: if_splits)
next
  assume "\<exists>reserved. length reserved = 3 \<and>
        buf = confirmed_prefix m reserved @ u32_le (crc (confirmed_prefix m reserved))"
  then obtain r where r: "length r = 3"
    and buf: "buf = confirmed_prefix m r @ u32_le (crc (confirmed_prefix m r))" by blast
  show "parse_confirmed crc buf = Ok m"
    using parse_confirmed_fields [of CONFIRMED_MAGIC r crc CONFIRMED_VERSION "cm_sealed_at m"
        "cm_record_count m" "cm_drained_at m" "crc (confirmed_prefix m r)"] r
    by (simp add: buf confirmed_prefix_def Let_def)
qed

section \<open>File names\<close>

lemma strip_suffix_append [simp]: "strip_suffix x (b @ x) = Some b"
  by (auto simp: strip_suffix_def suffix_def)

lemma strip_suffix_Some: "strip_suffix x s = Some b \<longleftrightarrow> s = b @ x"
  by (auto simp: strip_suffix_def suffix_def)

lemma confirmed_path_sealed [simp]: "confirmed_path_for (b @ EXT_SEALED) = b @ EXT_CONFIRMED"
  by (simp add: confirmed_path_for_def)

text \<open>
  The sidecar name identifies its segment.  For two sealed paths the confirmation paths
  are equal only if the paths are, and a confirmation path never is a sealed path: the drain,
  which writes the sidecar, and recovery, which reads it, cannot mix two segments up.
\<close>

theorem confirmed_path_injective:
  "(confirmed_path_for (a @ EXT_SEALED) = confirmed_path_for (b @ EXT_SEALED) \<longleftrightarrow> a = b) \<and>
   confirmed_path_for (a @ EXT_SEALED) \<noteq> b @ EXT_SEALED"
proof -
  have "butlast (butlast (a @ EXT_CONFIRMED)) = butlast (butlast (b @ EXT_SEALED)) \<Longrightarrow> False"
    using arg_cong [of "butlast (butlast (a @ EXT_CONFIRMED))" "butlast (butlast (b @ EXT_SEALED))" last]
    by (simp add: EXT_CONFIRMED_def EXT_SEALED_def ascii_def butlast_append)
  then show ?thesis by (metis append_same_eq confirmed_path_sealed)
qed

end
