(* ===== verification/Io.thy ===== *)
theory Io
  imports Prelude
begin

text \<open>
  The parts of \<open>std::io\<close> the WAB readers use.  A buffered file reader is what is left to
  read and how the stream ends: at end of file, or with an I/O error of some kind (a failing
  disk).  \<open>read_exact\<close> then behaves as the standard library documents: it fills the buffer
  or fails, and end of file inside the buffer is \<open>UnexpectedEof\<close>.
\<close>

datatype io_kind =
    UnexpectedEof
  | InvalidData
  | NotFound
  | AlreadyExists
  | StorageFull
  | InvalidInput
  | WriteZero
  | OtherIo nat

record reader =
  rd_rest :: bytes
  rd_fail :: "io_kind option"

definition file_reader :: "bytes \<Rightarrow> reader" where
  "file_reader bs = \<lparr>rd_rest = bs, rd_fail = None\<rparr>"

definition rd_end :: "reader \<Rightarrow> io_kind" where
  "rd_end r = (case rd_fail r of None \<Rightarrow> UnexpectedEof | Some k \<Rightarrow> k)"

definition read_exact :: "nat \<Rightarrow> reader \<Rightarrow> io_kind + (bytes \<times> reader)" where
  "read_exact n r =
     (if n \<le> length (rd_rest r)
      then Ok (take n (rd_rest r), r\<lparr>rd_rest := drop n (rd_rest r)\<rparr>)
      else Err (rd_end r))"

text \<open>\<open>Read::read\<close> into a one-byte buffer: how many bytes arrived.\<close>

definition read_one :: "reader \<Rightarrow> io_kind + nat" where
  "read_one r =
     (if rd_rest r \<noteq> [] then Ok 1
      else case rd_fail r of None \<Rightarrow> Ok 0 | Some k \<Rightarrow> Err k)"

lemma read_exact_Ok:
  "read_exact n r = Ok (bs, r') \<longleftrightarrow>
     length bs = n \<and> rd_rest r = bs @ rd_rest r' \<and> rd_fail r' = rd_fail r"
  by (cases r; cases r') (auto simp: read_exact_def split: if_splits)

lemma read_exact_append [simp]:
  "length bs = n \<Longrightarrow>
   read_exact n \<lparr>rd_rest = bs @ rest, rd_fail = f\<rparr> = Ok (bs, \<lparr>rd_rest = rest, rd_fail = f\<rparr>)"
  by (simp add: read_exact_def)

lemma read_exact_short:
  "length (rd_rest r) < n \<Longrightarrow> read_exact n r = Err (rd_end r)"
  by (simp add: read_exact_def)

lemma read_exact_ErrD: "read_exact n r = Err k \<Longrightarrow> length (rd_rest r) < n \<and> k = rd_end r"
  by (simp add: read_exact_def split: if_splits)

lemma rd_end_file [simp]: "rd_end (file_reader bs) = UnexpectedEof"
  by (simp add: rd_end_def file_reader_def)

lemma file_reader_simps [simp]:
  "rd_rest (file_reader bs) = bs" "rd_fail (file_reader bs) = None"
  by (simp_all add: file_reader_def)

end
