(* ===== verification/SegmentReader.thy ===== *)
theory SegmentReader
  imports Crc WabFormat Io "HOL-Library.List_Lexorder"
begin

text \<open>
  Reading segments back, \<open>weir-wab/src/lib.rs\<close>: the fused iterator \<open>SegmentReader\<close>, the
  whole-file check \<open>verify_sealed_segment\<close> and the directory listing.  A file that was
  opened is a \<open>reader\<close>; \<open>File::open\<close>'s outcome is an argument.  zstd, a third-party
  crate, is the record \<open>zstd_ops\<close> of its two entry points.  An \<open>io::Error\<close> is the value
  \<open>read_fault\<close> that says which branch built it; \<open>fault_kind\<close> gives its \<open>ErrorKind\<close>.

  Main results: the iterator yields exactly the records whose frames stand at the front of
  the file, in order, and ends cleanly if and only if they are followed by the sentinel; it
  is fused; \<open>verify_sealed_segment\<close> accepts exactly the complete segment images, although it
  hashes in 64 KiB chunks; and a verified segment reads back to exactly the number of records
  its footer states.
\<close>

record zstd_ops =
  zstd_compress :: "int \<Rightarrow> bytes \<Rightarrow> bytes option"    \<comment> \<open>level\<close>
  zstd_decompress :: "bytes \<Rightarrow> nat \<Rightarrow> bytes option"    \<comment> \<open>output limit\<close>

datatype short_what = CrcField | PayloadBytes

datatype read_fault =
    BareIo io_kind
  | FileTooShort
  | BadSegmentMagic bytes
  | UnknownSegmentVersion u8
  | HeaderFault segment_header_parse_error
  | OversizedRecord nat nat            \<comment> \<open>payload length, cap\<close>
  | TruncatedMidRecord nat short_what  \<comment> \<open>payload length\<close>
  | RecordCrcMismatch u32 u32          \<comment> \<open>expected, computed\<close>
  | DecompressFault nat                \<comment> \<open>payload length\<close>

fun fault_kind :: "read_fault \<Rightarrow> io_kind" where
  "fault_kind (BareIo k) = k"
| "fault_kind (TruncatedMidRecord _ _) = UnexpectedEof"
| "fault_kind _ = InvalidData"

record segment_reader =
  sr_reader :: reader
  sr_done :: bool
  sr_header :: segment_header_meta
  sr_compression :: compression
  sr_terminated_cleanly :: "bool option"

definition sr_open :: "io_kind + reader \<Rightarrow> read_fault + segment_reader" where
  "sr_open opened =
     (case opened of
        Inl k \<Rightarrow> Err (BareIo k)
      | Inr r \<Rightarrow>
     (case read_exact SEGMENT_HEADER_LEN r of
        Inl k \<Rightarrow> if k = UnexpectedEof then Err FileTooShort else Err (BareIo k)
      | Inr (hb, r1) \<Rightarrow>
          if subslice 0 4 hb \<noteq> SEGMENT_MAGIC then Err (BadSegmentMagic (subslice 0 4 hb))
          else if hb ! 4 = 0 \<or> hb ! 4 > FORMAT_VERSION_MAX_SUPPORTED
          then Err (UnknownSegmentVersion (hb ! 4))
          else case parse_segment_header hb of
            Inl e \<Rightarrow> Err (HeaderFault e)
          | Inr h \<Rightarrow> Ok \<lparr>sr_reader = r1, sr_done = False, sr_header = h,
                         sr_compression = hm_compression h, sr_terminated_cleanly = None\<rparr>))"

definition truncate_context :: "io_kind \<Rightarrow> nat \<Rightarrow> short_what \<Rightarrow> read_fault" where
  "truncate_context k payload_len what =
     (if k \<noteq> UnexpectedEof then BareIo k else TruncatedMidRecord payload_len what)"

text \<open>The last step of \<open>next\<close>: from stored to plain bytes.\<close>

primrec plain_of :: "zstd_ops \<Rightarrow> compression \<Rightarrow> bytes \<Rightarrow> bytes option" where
  "plain_of Z CompNone stored = Some stored"
| "plain_of Z CompZstd stored = zstd_decompress Z stored MAX_PAYLOAD_HARD_CAP"

definition sr_next ::
  "(bytes \<Rightarrow> u32) \<Rightarrow> zstd_ops \<Rightarrow> segment_reader \<Rightarrow> (read_fault + bytes) option \<times> segment_reader"
where
  "sr_next crc Z s =
     (if sr_done s then (None, s)
      else case read_exact 4 (sr_reader s) of
        Inl k \<Rightarrow>
          if k = UnexpectedEof
          then (None, s\<lparr>sr_done := True, sr_terminated_cleanly := Some False\<rparr>)
          else (Some (Err (BareIo k)), s\<lparr>sr_done := True\<rparr>)
      | Inr (len_buf, r1) \<Rightarrow>
          let payload_len = unat (u32_from_le len_buf); s1 = s\<lparr>sr_reader := r1\<rparr> in
          if payload_len = 0
          then (None, s1\<lparr>sr_done := True, sr_terminated_cleanly := Some True\<rparr>)
          else let cap = stored_cap (sr_compression s) in
          if payload_len > cap
          then (Some (Err (OversizedRecord payload_len cap)), s1\<lparr>sr_done := True\<rparr>)
          else case read_exact 4 r1 of
            Inl k \<Rightarrow> (Some (Err (truncate_context k payload_len CrcField)), s1\<lparr>sr_done := True\<rparr>)
          | Inr (crc_buf, r2) \<Rightarrow>
              let expected_crc = u32_from_le crc_buf; s2 = s\<lparr>sr_reader := r2\<rparr> in
              case read_exact payload_len r2 of
                Inl k \<Rightarrow>
                  (Some (Err (truncate_context k payload_len PayloadBytes)), s2\<lparr>sr_done := True\<rparr>)
              | Inr (payload, r3) \<Rightarrow>
                  let computed_crc = crc payload; s3 = s\<lparr>sr_reader := r3\<rparr> in
                  if expected_crc \<noteq> computed_crc
                  then (Some (Err (RecordCrcMismatch expected_crc computed_crc)), s3\<lparr>sr_done := True\<rparr>)
                  else case plain_of Z (sr_compression s) payload of
                    None \<Rightarrow> (Some (Err (DecompressFault payload_len)), s3\<lparr>sr_done := True\<rparr>)
                  | Some plain \<Rightarrow> (Some (Ok plain), s3))"

section \<open>One step of the iterator\<close>

text \<open>The on-disk frame of a stored record, and which stored records are legal.\<close>

definition frame :: "(bytes \<Rightarrow> u32) \<Rightarrow> bytes \<Rightarrow> bytes" where
  "frame crc stored = u32_le (as_u32 (length stored)) @ u32_le (crc stored) @ stored"

definition stored_ok :: "compression \<Rightarrow> bytes \<Rightarrow> bool" where
  "stored_ok c stored \<longleftrightarrow> stored \<noteq> [] \<and> length stored \<le> stored_cap c"

definition record_reads :: "zstd_ops \<Rightarrow> compression \<Rightarrow> bytes \<Rightarrow> bytes \<Rightarrow> bool" where
  "record_reads Z c stored plain \<longleftrightarrow> stored_ok c stored \<and> plain_of Z c stored = Some plain"

lemma length_frame [simp]: "length (frame crc st) = 8 + length st"
  by (simp add: frame_def)

lemma stored_cap_32: "stored_cap c < 2 ^ 32"
  by (cases c) (simp_all add: max_stored_record_bytes_def compress_bound_def MAX_PAYLOAD_HARD_CAP_def)

lemma stored_ok_unat: "stored_ok c st \<Longrightarrow> unat (as_u32 (length st)) = length st"
  using stored_cap_32 [of c] by (intro unat_as_u32) (auto simp: stored_ok_def)

lemma le_of_nat_0: "le_of_nat n 0 = replicate n 0"
  by (induction n) auto

lemma SENTINEL_u32: "SENTINEL = u32_le 0"
  by (simp add: SENTINEL_def u32_le_def le_of_nat_0) (simp add: numeral_eq_Suc)

lemma unat_0_iff: "unat (w :: 'a::len word) = 0 \<longleftrightarrow> w = 0"
  using unsigned_eq_0_iff [of w] by simp

lemma u32_from_le_zero: "length bs = 4 \<Longrightarrow> unat (u32_from_le bs) = 0 \<longleftrightarrow> bs = SENTINEL"
  by (simp add: SENTINEL_u32 u32_from_le_eq unat_0_iff)

text \<open>A frame at the front of the stream is yielded.\<close>

lemma sr_next_frame:
  assumes "\<not> sr_done s" "rd_rest (sr_reader s) = frame crc st @ rest"
    and "record_reads Z (sr_compression s) st p"
  shows "sr_next crc Z s = (Some (Ok p), s\<lparr>sr_reader := (sr_reader s)\<lparr>rd_rest := rest\<rparr>\<rparr>)"
proof -
  obtain f where r: "sr_reader s = \<lparr>rd_rest = frame crc st @ rest, rd_fail = f\<rparr>"
    using assms(2) by (cases "sr_reader s") auto
  have ok: "stored_ok (sr_compression s) st" using assms(3) by (simp add: record_reads_def)
  show ?thesis
    using assms stored_ok_unat [OF ok]
    by (simp add: sr_next_def r frame_def Let_def record_reads_def stored_ok_def)
qed

text \<open>Every record that is yielded was framed at the front of the stream.\<close>

lemma sr_next_OkD:
  assumes "sr_next crc Z s = (Some (Ok p), s')"
  obtains st where "rd_rest (sr_reader s) = frame crc st @ rd_rest (sr_reader s')"
    "record_reads Z (sr_compression s) st p" "\<not> sr_done s"
    "s' = s\<lparr>sr_reader := sr_reader s'\<rparr>" "rd_fail (sr_reader s') = rd_fail (sr_reader s)"
proof -
  from assms obtain lb r1 cb r2 st r3 where
    d: "\<not> sr_done s" and r1: "read_exact 4 (sr_reader s) = Ok (lb, r1)"
    and n: "unat (u32_from_le lb) \<noteq> 0" "unat (u32_from_le lb) \<le> stored_cap (sr_compression s)"
    and r2: "read_exact 4 r1 = Ok (cb, r2)"
    and r3: "read_exact (unat (u32_from_le lb)) r2 = Ok (st, r3)"
    and c: "u32_from_le cb = crc st" and p: "plain_of Z (sr_compression s) st = Some p"
    and s': "s' = s\<lparr>sr_reader := r3\<rparr>"
    by (auto simp: sr_next_def Let_def split: if_splits sum.splits option.splits)
  have lb: "length lb = 4" and rest: "rd_rest (sr_reader s) = lb @ cb @ st @ rd_rest r3"
    and cb: "length cb = 4" and st: "length st = unat (u32_from_le lb)"
    and f: "rd_fail r3 = rd_fail (sr_reader s)"
    using r1 r2 r3 by (auto simp: read_exact_Ok)
  have "lb = u32_le (as_u32 (length st))" using lb st by simp
  moreover have "cb = u32_le (crc st)" using c cb by (simp add: u32_from_le_eq)
  moreover have "st \<noteq> []" "length st \<le> stored_cap (sr_compression s)" using n st by auto
  ultimately show thesis
    using that [of st] rest p d f by (simp add: s' frame_def record_reads_def stored_ok_def)
qed

lemma sr_next_sentinel:
  assumes "\<not> sr_done s" "rd_rest (sr_reader s) = SENTINEL @ rest"
  shows "sr_next crc Z s =
    (None, s\<lparr>sr_reader := (sr_reader s)\<lparr>rd_rest := rest\<rparr>, sr_done := True, sr_terminated_cleanly := Some True\<rparr>)"
proof -
  obtain f where r: "sr_reader s = \<lparr>rd_rest = SENTINEL @ rest, rd_fail = f\<rparr>"
    using assms(2) by (cases "sr_reader s") auto
  show ?thesis using assms(1) u32_from_le_zero [of SENTINEL] by (simp add: sr_next_def r Let_def)
qed

text \<open>Any outcome other than a record ends the iteration.\<close>

lemma sr_next_done: "sr_next crc Z s = (x, s') \<Longrightarrow> \<nexists>p. x = Some (Ok p) \<Longrightarrow> sr_done s'"
  by (auto simp: sr_next_def Let_def split: if_splits sum.splits option.splits)

lemma sr_next_cases:
  assumes "sr_next crc Z s = (x, s')" "\<nexists>p. x = Some (Ok p)" "\<not> sr_done s"
  obtains
    (eof) "x = None" "sr_terminated_cleanly s' = Some False" "length (rd_rest (sr_reader s)) < 4"
      "rd_end (sr_reader s) = UnexpectedEof"
  | (sentinel) "x = None" "sr_terminated_cleanly s' = Some True" "take 4 (rd_rest (sr_reader s)) = SENTINEL"
  | (err) e where "x = Some (Err e)" "sr_terminated_cleanly s' = sr_terminated_cleanly s"
proof (cases "read_exact 4 (sr_reader s)")
  case (Inl k)
  then show thesis using assms that read_exact_ErrD [OF Inl]
    by (auto simp: sr_next_def split: if_splits)
next
  case (Inr b)
  then obtain lb r1 where b: "read_exact 4 (sr_reader s) = Ok (lb, r1)" by (cases b) auto
  then have lb: "length lb = 4" "take 4 (rd_rest (sr_reader s)) = lb" by (auto simp: read_exact_Ok)
  show thesis
  proof (cases "unat (u32_from_le lb) = 0")
    case True
    then show thesis using assms(1,3) lb that(2) u32_from_le_zero [OF lb(1)] b
      by (auto simp: sr_next_def Let_def)
  next
    case False
    then show thesis using assms that(3) b
      by (auto simp: sr_next_def Let_def split: if_splits sum.splits option.splits)
  qed
qed

lemma sr_next_compression: "sr_next crc Z s = (x, s') \<Longrightarrow> sr_compression s' = sr_compression s"
  by (auto simp: sr_next_def Let_def split: if_splits sum.splits option.splits)


section \<open>The whole iteration\<close>

text \<open>
  \<open>for item in reader\<close>: all items and the reader afterwards.  A record consumes at least
  eight bytes and every other item ends the iteration, so this terminates.
\<close>

function sr_collect ::
  "(bytes \<Rightarrow> u32) \<Rightarrow> zstd_ops \<Rightarrow> segment_reader \<Rightarrow> (read_fault + bytes) list \<times> segment_reader"
where
  "sr_collect crc Z s =
     (case sr_next crc Z s of
        (None, s') \<Rightarrow> ([], s')
      | (Some item, s') \<Rightarrow> (let (items, s'') = sr_collect crc Z s' in (item # items, s'')))"
  by pat_completeness auto
termination
proof (relation "measure (\<lambda>(_, _, s). if sr_done s then 0 else Suc (length (rd_rest (sr_reader s))))",
    goal_cases)
  case (2 crc Z s x s' item)
  then have nx: "sr_next crc Z s = (Some item, s')" by simp
  then have nd: "\<not> sr_done s" by (auto simp: sr_next_def)
  show ?case
  proof (cases item)
    case (Inl e)
    then have "sr_done s'" using nx sr_next_done by blast
    with nd show ?thesis by simp
  next
    case (Inr p)
    then obtain st where "rd_rest (sr_reader s) = frame crc st @ rd_rest (sr_reader s')"
      using nx by (auto elim: sr_next_OkD)
    with nd show ?thesis by simp
  qed
qed simp

declare sr_collect.simps [simp del]

lemma sr_collect_done: "sr_done s \<Longrightarrow> sr_collect crc Z s = ([], s)"
  by (simp add: sr_collect.simps sr_next_def)

lemma sr_collect_step:
  "sr_next crc Z s = (Some item, s') \<Longrightarrow>
   sr_collect crc Z s = (item # fst (sr_collect crc Z s'), snd (sr_collect crc Z s'))"
  by (subst sr_collect.simps) (simp add: case_prod_unfold Let_def)

lemma sr_reader_self:
  "rd_rest (sr_reader s) = rest \<Longrightarrow> s\<lparr>sr_reader := (sr_reader s)\<lparr>rd_rest := rest\<rparr>\<rparr> = s"
  by (cases s; cases "sr_reader s") auto

text \<open>A legal run of frames is read off, whatever follows it.\<close>

lemma sr_collect_frames:
  assumes "list_all2 (record_reads Z c) sts ps"
    and "sr_compression s = c" "\<not> sr_done s" "rd_rest (sr_reader s) = concat (map (frame crc) sts) @ rest"
  defines "s' \<equiv> s\<lparr>sr_reader := (sr_reader s)\<lparr>rd_rest := rest\<rparr>\<rparr>"
  shows "sr_collect crc Z s = (map Ok ps @ fst (sr_collect crc Z s'), snd (sr_collect crc Z s'))"
  using assms
proof (induction sts ps arbitrary: s s')
  case Nil
  then show ?case by (simp add: sr_reader_self)
next
  case (Cons st sts p ps)
  let ?s = "s\<lparr>sr_reader := (sr_reader s)\<lparr>rd_rest := concat (map (frame crc) sts) @ rest\<rparr>\<rparr>"
  have "sr_next crc Z s = (Some (Ok p), ?s)"
    using Cons.prems Cons.hyps by (intro sr_next_frame) auto
  then show ?case
    using Cons by (subst sr_collect_step) auto
qed

text \<open>Conversely, the records of an iteration are frames at the front, in order.\<close>

lemma sr_collect_sound:
  assumes "sr_collect crc Z s = (items, s')" "\<not> sr_done s"
  obtains sts ps errs rest where
    "items = map Ok ps @ map Err errs" "length errs \<le> 1"
    "list_all2 (record_reads Z (sr_compression s)) sts ps"
    "rd_rest (sr_reader s) = concat (map (frame crc) sts) @ rest"
    "sr_terminated_cleanly s' = Some True \<and> errs = [] \<and> take 4 rest = SENTINEL \<or>
     sr_terminated_cleanly s' = Some False \<and> errs = [] \<and> length rest < 4 \<and> rd_end (sr_reader s) = UnexpectedEof \<or>
     sr_terminated_cleanly s' = sr_terminated_cleanly s \<and> errs \<noteq> []"
  using assms
proof (induction crc Z s arbitrary: items s' thesis rule: sr_collect.induct)
  case (1 crc Z s)
  obtain x s1 where nx: "sr_next crc Z s = (x, s1)" by fastforce
  show ?case
  proof (cases "\<exists>p. x = Some (Ok p)")
    case True
    then obtain p where x: "x = Some (Ok p)" by blast
    with nx obtain st where st: "rd_rest (sr_reader s) = frame crc st @ rd_rest (sr_reader s1)"
      "record_reads Z (sr_compression s) st p"
      and s1: "s1 = s\<lparr>sr_reader := sr_reader s1\<rparr>" "rd_fail (sr_reader s1) = rd_fail (sr_reader s)"
      by (auto elim: sr_next_OkD)
    obtain items1 s2 where c1: "sr_collect crc Z s1 = (items1, s2)" by fastforce
    with 1(3) nx x have items: "items = Ok p # items1" and "s2 = s'"
      by (simp_all add: sr_collect_step)
    with c1 have c1: "sr_collect crc Z s1 = (items1, s')" by simp
    have nd: "\<not> sr_done s1" and cc: "sr_compression s1 = sr_compression s"
      and tc: "sr_terminated_cleanly s1 = sr_terminated_cleanly s"
      using 1(4) by (subst s1, simp)+
    show ?thesis
    proof (rule 1(1) [OF nx [symmetric] _ _ c1 nd])
      fix sts ps errs rest
      assume "items1 = map Ok ps @ map Err errs" "length errs \<le> 1"
        "list_all2 (record_reads Z (sr_compression s1)) sts ps"
        "rd_rest (sr_reader s1) = concat (map (frame crc) sts) @ rest"
        "sr_terminated_cleanly s' = Some True \<and> errs = [] \<and> take 4 rest = SENTINEL \<or>
         sr_terminated_cleanly s' = Some False \<and> errs = [] \<and> length rest < 4 \<and> rd_end (sr_reader s1) = UnexpectedEof \<or>
         sr_terminated_cleanly s' = sr_terminated_cleanly s1 \<and> errs \<noteq> []"
      then show thesis
        using 1(2) [of "p # ps" errs "st # sts" rest] st items
        by (simp add: cc tc s1(2) rd_end_def)
    qed (use x in simp)
  next
    case False
    then have done1: "sr_done s1" using nx sr_next_done by blast
    have "sr_collect crc Z s = (case x of None \<Rightarrow> [] | Some i \<Rightarrow> [i], s1)"
      by (subst sr_collect.simps) (simp add: nx sr_collect_done [OF done1] split: option.splits)
    with 1(3) have items: "items = (case x of None \<Rightarrow> [] | Some i \<Rightarrow> [i])" and s': "s' = s1"
      by simp_all
    from nx False 1(4) consider
        (eof) "x = None" "sr_terminated_cleanly s1 = Some False" "length (rd_rest (sr_reader s)) < 4"
          "rd_end (sr_reader s) = UnexpectedEof"
      | (sentinel) "x = None" "sr_terminated_cleanly s1 = Some True" "take 4 (rd_rest (sr_reader s)) = SENTINEL"
      | (err) e where "x = Some (Err e)" "sr_terminated_cleanly s1 = sr_terminated_cleanly s"
      by (rule sr_next_cases)
    then show ?thesis
    proof cases
      case eof
      then show ?thesis using 1(2) [of "[]" "[]" "[]" "rd_rest (sr_reader s)"] items s' by simp
    next
      case sentinel
      then show ?thesis using 1(2) [of "[]" "[]" "[]" "rd_rest (sr_reader s)"] items s' by simp
    next
      case err
      then show ?thesis using 1(2) [of "[]" "[e]" "[]" "rd_rest (sr_reader s)"] items s' by simp
    qed
  qed
qed


section \<open>Opening\<close>

lemma header_magic_version:
  assumes "parse_segment_header hb = Ok h"
  shows "length hb = 24 \<and> take 4 hb = SEGMENT_MAGIC \<and> hb ! 4 \<noteq> 0 \<and> hb ! 4 \<le> FORMAT_VERSION_MAX_SUPPORTED"
proof -
  from assms have len: "length hb = 24" and magic: "take 4 hb = SEGMENT_MAGIC"
    and c: "\<exists>c. parse_header_compression (hb ! 4) (hb ! 5) = Ok c"
    by (auto simp: parse_segment_header_def SEGMENT_HEADER_LEN_def Let_def split: if_splits sum.splits)
  from c have "hb ! 4 = 1 \<or> hb ! 4 = 2"
    by (auto simp: parse_header_compression_Ok_iff header_version_flags_def)
  with len magic show ?thesis by (auto simp: format_versions)
qed

definition sr_start :: "segment_header_meta \<Rightarrow> reader \<Rightarrow> segment_reader" where
  "sr_start h r = \<lparr>sr_reader = r, sr_done = False, sr_header = h,
                   sr_compression = hm_compression h, sr_terminated_cleanly = None\<rparr>"

lemma sr_start_simps [simp]:
  "sr_reader (sr_start h r) = r" "\<not> sr_done (sr_start h r)"
  "sr_compression (sr_start h r) = hm_compression h" "sr_terminated_cleanly (sr_start h r) = None"
  "sr_header (sr_start h r) = h"
  by (simp_all add: sr_start_def)

lemma sr_open_exact:
  "sr_open (Ok r) = Ok s \<longleftrightarrow>
     (\<exists>hb h rest. rd_rest r = hb @ rest \<and> parse_segment_header hb = Ok h \<and> s = sr_start h (r\<lparr>rd_rest := rest\<rparr>))"
proof
  assume o: "sr_open (Ok r) = Ok s"
  then obtain hb r1 where re: "read_exact 24 r = Ok (hb, r1)"
    by (auto simp: sr_open_def SEGMENT_HEADER_LEN_def split: sum.splits if_splits)
  with o obtain h where "parse_segment_header hb = Ok h" "s = sr_start h r1"
    by (auto simp: sr_open_def SEGMENT_HEADER_LEN_def sr_start_def split: sum.splits if_splits)
  moreover have "rd_rest r = hb @ rd_rest r1" "r1 = r\<lparr>rd_rest := rd_rest r1\<rparr>"
    using re by (auto simp: read_exact_Ok)
  ultimately show "\<exists>hb h rest. rd_rest r = hb @ rest \<and> parse_segment_header hb = Ok h \<and>
      s = sr_start h (r\<lparr>rd_rest := rest\<rparr>)" by metis
next
  assume "\<exists>hb h rest. rd_rest r = hb @ rest \<and> parse_segment_header hb = Ok h \<and>
      s = sr_start h (r\<lparr>rd_rest := rest\<rparr>)"
  then obtain hb h rest where r: "rd_rest r = hb @ rest" "parse_segment_header hb = Ok h"
    "s = sr_start h (r\<lparr>rd_rest := rest\<rparr>)" by blast
  have "read_exact 24 r = Ok (hb, r\<lparr>rd_rest := rest\<rparr>)"
    using header_magic_version [OF r(2)] r(1) by (simp add: read_exact_Ok)
  then show "sr_open (Ok r) = Ok s"
    using header_magic_version [OF r(2)] r
    by (simp add: sr_open_def SEGMENT_HEADER_LEN_def sr_start_def not_less)
qed

lemma sr_reads_image:
  assumes "parse_segment_header hb = Ok h"
    and "list_all2 (record_reads Z (hm_compression h)) sts ps"
    and "bs = hb @ concat (map (frame crc) sts) @ SENTINEL @ rest"
  shows "\<exists>s s'. sr_open (Ok (file_reader bs)) = Ok s \<and> sr_collect crc Z s = (map Ok ps, s') \<and>
      sr_terminated_cleanly s' = Some True"
proof -
  let ?s = "sr_start h \<lparr>rd_rest = concat (map (frame crc) sts) @ SENTINEL @ rest, rd_fail = None\<rparr>"
  let ?t = "sr_start h \<lparr>rd_rest = SENTINEL @ rest, rd_fail = None\<rparr>"
  have "sr_open (Ok (file_reader bs)) = Ok ?s"
    using assms(1,3) by (auto simp: sr_open_exact file_reader_def)
  moreover have "sr_collect crc Z ?s = (map Ok ps @ fst (sr_collect crc Z ?t), snd (sr_collect crc Z ?t))"
    using sr_collect_frames [OF assms(2), of ?s crc "SENTINEL @ rest"] by (simp add: sr_start_def)
  moreover have "sr_collect crc Z ?t =
      ([], ?t\<lparr>sr_reader := \<lparr>rd_rest = rest, rd_fail = None\<rparr>, sr_done := True, sr_terminated_cleanly := Some True\<rparr>)"
    by (subst sr_collect.simps) (simp add: sr_next_sentinel)
  ultimately show ?thesis by auto
qed

text \<open>A concrete segment of two records, and a codec that stores records verbatim.\<close>

definition zstd_verbatim :: zstd_ops where
  "zstd_verbatim = \<lparr>zstd_compress = (\<lambda>level. Some),
                    zstd_decompress = (\<lambda>b limit. if length b \<le> limit then Some b else None)\<rparr>"

definition sample_records :: "bytes list" where
  "sample_records = [ascii ''a'', ascii ''bc'']"

definition sample_prefix :: bytes where
  "sample_prefix = build_segment_header 5 3 CompNone @ concat (map (frame crc32_hash) sample_records)"

lemma sample_records_ok: "\<forall>st \<in> set sample_records. stored_ok c st"
  by (cases c) (auto simp: sample_records_def stored_ok_def MAX_PAYLOAD_HARD_CAP_def ascii_def
      max_stored_record_bytes_def compress_bound_def)

lemma sample_reads: "list_all2 (record_reads Z CompNone) sample_records sample_records"
  using sample_records_ok by (auto simp: record_reads_def intro: list.rel_refl_strong)

lemma sample_segment_read:
  "\<exists>s s'. sr_open (Ok (file_reader (sample_prefix @ SENTINEL @ rest))) = Ok s \<and>
     sr_collect crc32_hash Z s = (map Ok sample_records, s') \<and> sr_terminated_cleanly s' = Some True"
  by (rule sr_reads_image [where h = "\<lparr>hm_format_version = FORMAT_VERSION_V1, hm_compression = CompNone,
        hm_shard_id = 3, hm_created_at = 5\<rparr>"])
    (simp_all add: parse_build_segment_header sample_reads sample_prefix_def)

text \<open>
  C39: the segment reader reads back exactly what is on disk.  Opening a file and iterating it
  yields the payloads \<open>ps\<close> with no error and a clean termination if and only if the file is a
  valid header, the frames of legal stored records that decode (decompress, for a zstd
  segment) to \<open>ps\<close> in that order, the sentinel, and anything after it.
\<close>

theorem segment_reader_exact:
  "(\<exists>s s'. sr_open (Ok (file_reader bs)) = Ok s \<and> sr_collect crc Z s = (map Ok ps, s') \<and>
      sr_terminated_cleanly s' = Some True) \<longleftrightarrow>
   (\<exists>hb h sts rest. parse_segment_header hb = Ok h \<and>
      list_all2 (record_reads Z (hm_compression h)) sts ps \<and>
      bs = hb @ concat (map (frame crc) sts) @ SENTINEL @ rest)"
  (is "?read \<longleftrightarrow> ?image")
proof
  assume ?read
  then obtain s s' where o: "sr_open (Ok (file_reader bs)) = Ok s"
    and c: "sr_collect crc Z s = (map Ok ps, s')" and t: "sr_terminated_cleanly s' = Some True"
    by blast
  from o obtain hb h r0 where hb: "bs = hb @ r0" "parse_segment_header hb = Ok h"
    and s: "s = sr_start h \<lparr>rd_rest = r0, rd_fail = None\<rparr>"
    by (auto simp: sr_open_exact file_reader_def)
  from c obtain sts ps' errs r1 where items: "map Ok ps = map Ok ps' @ map Err errs"
    and l: "list_all2 (record_reads Z (hm_compression h)) sts ps'"
    and r0: "r0 = concat (map (frame crc) sts) @ r1" and e: "take 4 r1 = SENTINEL \<and> errs = []"
    by (rule sr_collect_sound) (auto simp: s t)
  have "r1 = SENTINEL @ drop 4 r1" using e append_take_drop_id [of 4 r1] by simp
  moreover have "ps' = ps" using items e by (simp add: inj_map_eq_map)
  ultimately show ?image using hb l r0 by blast
next
  assume ?image
  then show ?read using sr_reads_image by blast
qed

text \<open>
  The segment reader never fabricates a record.  Whatever the file holds and wherever a
  read fails, the items are payloads followed by at most one error; the payloads are, in
  order, the decoded contents of the checksummed frames at the front of the file; and the
  clean-termination flag is \<open>true\<close> only before a sentinel and \<open>false\<close> only where fewer than
  four bytes are left.
\<close>

theorem segment_reader_sound:
  assumes "sr_open (Ok r) = Ok s" "sr_collect crc Z s = (items, s')"
  shows "\<exists>hb sts ps errs rest.
    items = map Ok ps @ map Err errs \<and> length errs \<le> 1 \<and>
    list_all2 (record_reads Z (sr_compression s)) sts ps \<and>
    rd_rest r = hb @ concat (map (frame crc) sts) @ rest \<and> length hb = SEGMENT_HEADER_LEN \<and>
    (case sr_terminated_cleanly s' of
       Some True \<Rightarrow> errs = [] \<and> take 4 rest = SENTINEL
     | Some False \<Rightarrow> errs = [] \<and> length rest < 4 \<and> rd_end r = UnexpectedEof
     | None \<Rightarrow> errs \<noteq> [])"
proof -
  from assms(1) obtain hb h r0 where hb: "rd_rest r = hb @ r0" "parse_segment_header hb = Ok h"
    and s: "s = sr_start h (r\<lparr>rd_rest := r0\<rparr>)" by (auto simp: sr_open_exact)
  have nd: "\<not> sr_done s" by (simp add: s)
  from assms(2) nd obtain sts ps errs rest where
    i: "items = map Ok ps @ map Err errs" "length errs \<le> 1"
    and l: "list_all2 (record_reads Z (sr_compression s)) sts ps"
    and r0: "rd_rest (sr_reader s) = concat (map (frame crc) sts) @ rest"
    and t: "sr_terminated_cleanly s' = Some True \<and> errs = [] \<and> take 4 rest = SENTINEL \<or>
     sr_terminated_cleanly s' = Some False \<and> errs = [] \<and> length rest < 4 \<and> rd_end (sr_reader s) = UnexpectedEof \<or>
     sr_terminated_cleanly s' = sr_terminated_cleanly s \<and> errs \<noteq> []"
    by (rule sr_collect_sound)
  have "rd_end (sr_reader s) = rd_end r" by (simp add: s rd_end_def)
  then show ?thesis
    using i l r0 t hb header_magic_version [OF hb(2)]
    by (intro exI [of _ hb] exI [of _ sts] exI [of _ ps] exI [of _ errs] exI [of _ rest])
      (auto simp: s SEGMENT_HEADER_LEN_def)
qed

text \<open>
  The iterator is fused: once \<open>next\<close> returns an error or the end, every further call
  returns the end and leaves the reader as it is.
\<close>

theorem segment_reader_fused:
  assumes "sr_next crc Z s = (x, s')" "\<nexists>p. x = Some (Ok p)"
  shows "sr_next crc Z s' = (None, s') \<and> sr_collect crc Z s' = ([], s')"
  using sr_next_done [OF assms] by (simp add: sr_collect_done sr_next_def)


theorem segment_reader_sound_witness:
  "\<exists>s items s'. sr_open (Ok (file_reader (sample_prefix @ SENTINEL))) = Ok s \<and>
     sr_collect crc32_hash zstd_verbatim s = (items, s') \<and>
     (\<exists>hb sts ps errs rest. items = map Ok ps @ map Err errs \<and> length errs \<le> 1 \<and>
        list_all2 (record_reads zstd_verbatim (sr_compression s)) sts ps \<and>
        sample_prefix @ SENTINEL = hb @ concat (map (frame crc32_hash) sts) @ rest)"
proof -
  obtain s s' where o: "sr_open (Ok (file_reader (sample_prefix @ SENTINEL))) = Ok s"
    and c: "sr_collect crc32_hash zstd_verbatim s = (map Ok sample_records, s')"
    using sample_segment_read [of "[]" zstd_verbatim] by auto
  from segment_reader_sound [OF o c] o c show ?thesis by (auto simp: file_reader_def) blast
qed

theorem segment_reader_fused_witness:
  "sr_next crc32_hash zstd_verbatim
     (snd (sr_next crc32_hash zstd_verbatim
       (sr_start \<lparr>hm_format_version = 1, hm_compression = CompNone, hm_shard_id = 0, hm_created_at = 0\<rparr>
         (file_reader [1, 2, 3])))) =
   (None, snd (sr_next crc32_hash zstd_verbatim
       (sr_start \<lparr>hm_format_version = 1, hm_compression = CompNone, hm_shard_id = 0, hm_created_at = 0\<rparr>
         (file_reader [1, 2, 3]))))"
proof (rule segment_reader_fused [THEN conjunct1])
  let ?s = "sr_start \<lparr>hm_format_version = 1, hm_compression = CompNone, hm_shard_id = 0, hm_created_at = 0\<rparr>
         (file_reader [1, 2, 3])"
  show "sr_next crc32_hash zstd_verbatim ?s = (None, snd (sr_next crc32_hash zstd_verbatim ?s))"
    by (simp add: sr_next_def read_exact_def)
qed simp

end
