(* ===== verification/SegmentVerify.thy ===== *)
theory SegmentVerify
  imports SegmentReader
begin

text \<open>
  The whole-file check \<open>verify_sealed_segment\<close> and the directory listing
  \<open>list_segment_files\<close> of \<open>weir-wab/src/lib.rs\<close>.  The check streams the file through two
  \<open>crc32fast::Hasher\<close>s, so it takes the hasher operations \<open>crc_ops\<close>; the payload loop
  with its 64 KiB chunk is \<open>verify_payload\<close> and the record loop is \<open>verify_walk\<close>.

  Main results: the check accepts exactly the segment images whose footer agrees with the
  records, although it never holds more than a chunk; and a verified uncompressed segment
  reads back to the number of records and bytes its footer states.
\<close>

datatype segment_verify_error =
    VIo io_kind
  | VHeader segment_header_parse_error
  | VTooShort
  | VBadRecord read_fault
  | VNoSentinel
  | VMissingFooter
  | VCrcMismatch u32 u32                \<comment> \<open>expected, computed\<close>
  | VTrailingBytes
  | VFooterMismatch string u64 u64      \<comment> \<open>field, expected, computed\<close>

record segment_verification =
  sv_header :: segment_header_meta
  sv_footer :: segment_footer_meta

definition VERIFY_CHUNK :: nat where "VERIFY_CHUNK = 64 * 1024"

function verify_payload ::
  "'h crc_ops \<Rightarrow> nat \<Rightarrow> nat \<Rightarrow> reader \<Rightarrow> 'h \<Rightarrow> 'h \<Rightarrow> segment_verify_error + (reader \<times> 'h \<times> 'h)"
where
  "verify_payload C payload_len remaining r hasher record_hasher =
     (if remaining = 0 then Ok (r, hasher, record_hasher)
      else let want = min remaining VERIFY_CHUNK in
      case read_exact want r of
        Inl k \<Rightarrow> Err (VBadRecord (truncate_context k payload_len PayloadBytes))
      | Inr (chunk, r') \<Rightarrow>
          verify_payload C payload_len (remaining - want) r'
            (crc_update C hasher chunk) (crc_update C record_hasher chunk))"
  by pat_completeness auto
termination
  by (relation "measure (\<lambda>(_, _, remaining, _). remaining)") (auto simp: VERIFY_CHUNK_def)

declare verify_payload.simps [simp del]

text \<open>One pass of the record loop: \<open>None\<close> in the result is the sentinel's \<open>break\<close>.\<close>

definition verify_record ::
  "'h crc_ops \<Rightarrow> compression \<Rightarrow> reader \<Rightarrow> 'h \<Rightarrow>
   segment_verify_error + (reader \<times> 'h \<times> nat option)"
where
  "verify_record C cmp r hasher =
     (case read_exact 4 r of
        Inl k \<Rightarrow> if k = UnexpectedEof then Err VNoSentinel else Err (VIo k)
      | Inr (len_buf, r1) \<Rightarrow>
          let payload_len = unat (u32_from_le len_buf) in
          if payload_len = 0 then Ok (r1, hasher, None)
          else let h1 = crc_update C hasher len_buf; cap = stored_cap cmp in
          if payload_len > cap then Err (VBadRecord (OversizedRecord payload_len cap))
          else case read_exact 4 r1 of
            Inl k \<Rightarrow> Err (VBadRecord (truncate_context k payload_len CrcField))
          | Inr (crc_buf, r2) \<Rightarrow>
              let h2 = crc_update C h1 crc_buf; expected_crc = u32_from_le crc_buf in
              case verify_payload C payload_len payload_len r2 h2 (crc_new C) of
                Inl e \<Rightarrow> Err e
              | Inr (r3, h3, record_hasher) \<Rightarrow>
                  let computed_crc = crc_finalize C record_hasher in
                  if expected_crc \<noteq> computed_crc
                  then Err (VBadRecord (RecordCrcMismatch expected_crc computed_crc))
                  else Ok (r3, h3, Some payload_len))"

lemma verify_payload_shrinks:
  "verify_payload C pl n r h rh = Ok (r', h', rh') \<Longrightarrow> length (rd_rest r') + n = length (rd_rest r)"
proof (induction C pl n r h rh rule: verify_payload.induct)
  case (1 C pl n r h rh)
  show ?case
  proof (cases "n = 0")
    case True
    with 1(2) show ?thesis by (simp add: verify_payload.simps)
  next
    case False
    with 1(2) obtain chunk r1 where
      r1: "read_exact (min n VERIFY_CHUNK) r = Ok (chunk, r1)"
      and rec: "verify_payload C pl (n - min n VERIFY_CHUNK) r1 (crc_update C h chunk) (crc_update C rh chunk)
           = Ok (r', h', rh')"
      by (subst (asm) verify_payload.simps) (auto simp: Let_def split: sum.splits)
    from 1(1) [OF False refl r1 refl rec] r1 show ?thesis
      by (auto simp: read_exact_Ok)
  qed
qed

lemma verify_record_shrinks:
  "verify_record C cmp r h = Ok (r', h', Some n) \<Longrightarrow> length (rd_rest r') < length (rd_rest r)"
  by (auto simp: verify_record_def Let_def read_exact_Ok dest!: verify_payload_shrinks
      split: sum.splits if_splits)

text \<open>The record loop, with the counters \<open>walked_records\<close> and \<open>walked_data_bytes\<close>.\<close>

function verify_walk ::
  "'h crc_ops \<Rightarrow> compression \<Rightarrow> reader \<Rightarrow> 'h \<Rightarrow> u64 \<Rightarrow> u64 \<Rightarrow>
   segment_verify_error + (reader \<times> 'h \<times> u64 \<times> u64)"
where
  "verify_walk C cmp r hasher walked_records walked_data_bytes =
     (case verify_record C cmp r hasher of
        Inl e \<Rightarrow> Err e
      | Inr (r', h', None) \<Rightarrow> Ok (r', h', walked_records, walked_data_bytes)
      | Inr (r', h', Some payload_len) \<Rightarrow>
          verify_walk C cmp r' h' (walked_records + 1) (walked_data_bytes + of_nat payload_len))"
  by pat_completeness auto
termination
  by (relation "measure (\<lambda>(_, _, r, _). length (rd_rest r))") (auto dest!: sym [of _ "verify_record _ _ _ _"] verify_record_shrinks)

declare verify_walk.simps [simp del]

definition verify_sealed_segment ::
  "'h crc_ops \<Rightarrow> io_kind + reader \<Rightarrow> segment_verify_error + segment_verification"
where
  "verify_sealed_segment C opened =
     (case opened of Inl k \<Rightarrow> Err (VIo k) | Inr r \<Rightarrow>
      case read_exact SEGMENT_HEADER_LEN r of
        Inl k \<Rightarrow> if k = UnexpectedEof then Err VTooShort else Err (VIo k)
      | Inr (header_buf, r1) \<Rightarrow>
      let hasher = crc_update C (crc_new C) header_buf in
      case parse_segment_header header_buf of Inl e \<Rightarrow> Err (VHeader e) | Inr header \<Rightarrow>
      case verify_walk C (hm_compression header) r1 hasher 0 0 of Inl e \<Rightarrow> Err e
      | Inr (r2, hasher, walked_records, walked_data_bytes) \<Rightarrow>
      case read_exact SEGMENT_FOOTER_LEN r2 of
        Inl k \<Rightarrow> if k = UnexpectedEof then Err VMissingFooter else Err (VIo k)
      | Inr (footer_buf, r3) \<Rightarrow>
      case parse_segment_footer footer_buf of Inl _ \<Rightarrow> Err VMissingFooter | Inr footer \<Rightarrow>
      let computed = crc_finalize C hasher in
      if fm_file_crc32 footer \<noteq> computed then Err (VCrcMismatch (fm_file_crc32 footer) computed)
      else if fm_record_count footer \<noteq> walked_records
      then Err (VFooterMismatch ''record_count'' (fm_record_count footer) walked_records)
      else if fm_data_bytes footer \<noteq> walked_data_bytes
      then Err (VFooterMismatch ''data_bytes'' (fm_data_bytes footer) walked_data_bytes)
      else case read_one r3 of
        Inl k \<Rightarrow> Err (VIo k)
      | Inr n \<Rightarrow> if n = 0 then Ok \<lparr>sv_header = header, sv_footer = footer\<rparr> else Err VTrailingBytes)"

section \<open>The loops against their specification\<close>

context crc_engine
begin

lemma verify_payload_ok:
  assumes "hashes C h bs" "hashes C rh rs" "rd_rest r = payload @ rest"
  shows "\<exists>h' rh'. verify_payload C pl (length payload) r h rh = Ok (r\<lparr>rd_rest := rest\<rparr>, h', rh') \<and>
           hashes C h' (bs @ payload) \<and> hashes C rh' (rs @ payload)"
  using assms
proof (induction "length payload" arbitrary: payload r h rh bs rs rule: less_induct)
  case less
  show ?case
  proof (cases "payload = []")
    case True
    with less.prems show ?thesis by (cases r) (auto simp: verify_payload.simps)
  next
    case False
    let ?w = "min (length payload) VERIFY_CHUNK"
    let ?c = "take ?w payload" and ?p = "drop ?w payload" and ?r = "r\<lparr>rd_rest := drop ?w payload @ rest\<rparr>"
    have "?w \<le> length payload" "0 < ?w" using False by (auto simp: VERIFY_CHUNK_def)
    then have re: "read_exact ?w r = Ok (?c, ?r)"
      using less.prems(3) by (simp add: read_exact_Ok)
    have "length ?p < length payload" using \<open>0 < ?w\<close> False by simp
    from less.hyps [OF this, of "crc_update C h ?c" "bs @ ?c" "crc_update C rh ?c" "rs @ ?c" ?r]
    obtain h' rh' where
      "verify_payload C pl (length ?p) ?r (crc_update C h ?c) (crc_update C rh ?c) = Ok (r\<lparr>rd_rest := rest\<rparr>, h', rh')"
      "hashes C h' ((bs @ ?c) @ ?p)" "hashes C rh' ((rs @ ?c) @ ?p)"
      using less.prems by (auto simp: hashes_update)
    moreover have "(xs @ ?c) @ ?p = xs @ payload" for xs by simp
    ultimately show ?thesis
      using re False by (subst verify_payload.simps) (auto simp: Let_def)
  qed
qed

lemma verify_record_frame:
  assumes "hashes C h bs" "rd_rest r = frame (crc_hash C) st @ rest" "stored_ok cmp st"
  shows "\<exists>h'. verify_record C cmp r h = Ok (r\<lparr>rd_rest := rest\<rparr>, h', Some (length st)) \<and>
           hashes C h' (bs @ frame (crc_hash C) st)"
proof -
  let ?lb = "u32_le (as_u32 (length st))" and ?cb = "u32_le (crc_hash C st)"
  have h2: "hashes C (crc_update C (crc_update C h ?lb) ?cb) ((bs @ ?lb) @ ?cb)"
    by (intro hashes_update assms)
  obtain h' rh' where p: "verify_payload C (length st) (length st) (r\<lparr>rd_rest := st @ rest\<rparr>)
        (crc_update C (crc_update C h ?lb) ?cb) (crc_new C)
      = Ok (r\<lparr>rd_rest := rest\<rparr>, h', rh')"
    and h': "hashes C h' (((bs @ ?lb) @ ?cb) @ st)" "hashes C rh' ([] @ st)"
    using verify_payload_ok [OF h2 hashes_new, of "r\<lparr>rd_rest := st @ rest\<rparr>" st rest "length st"] by auto
  have r1: "read_exact 4 r = Ok (?lb, r\<lparr>rd_rest := ?cb @ st @ rest\<rparr>)"
    using assms(2) by (simp add: read_exact_Ok frame_def)
  have r2: "read_exact 4 (r\<lparr>rd_rest := ?cb @ st @ rest\<rparr>) = Ok (?cb, r\<lparr>rd_rest := st @ rest\<rparr>)"
    by (simp add: read_exact_Ok)
  have "crc_finalize C rh' = crc_hash C st" using finalize_hashes h'(2) by simp
  then show ?thesis
    using assms(3) h' p by (auto simp: verify_record_def r1 r2 Let_def stored_ok_unat [OF assms(3)]
        stored_ok_def frame_def)
qed

lemma verify_walk_frames:
  assumes "hashes C h bs" "rd_rest r = concat (map (frame (crc_hash C)) sts) @ SENTINEL @ rest"
    and "\<forall>st \<in> set sts. stored_ok cmp st"
  shows "\<exists>h'. verify_walk C cmp r h n d =
             Ok (r\<lparr>rd_rest := rest\<rparr>, h', n + of_nat (length sts), d + of_nat (sum_list (map length sts))) \<and>
           hashes C h' (bs @ concat (map (frame (crc_hash C)) sts))"
  using assms
proof (induction sts arbitrary: r h bs n d)
  case Nil
  then have "read_exact 4 r = Ok (SENTINEL, r\<lparr>rd_rest := rest\<rparr>)" by (simp add: read_exact_Ok)
  with Nil show ?case
    using u32_from_le_zero [of SENTINEL] by (simp add: verify_walk.simps verify_record_def Let_def)
next
  case (Cons st sts)
  let ?r = "r\<lparr>rd_rest := concat (map (frame (crc_hash C)) sts) @ SENTINEL @ rest\<rparr>"
  obtain h1 where v: "verify_record C cmp r h = Ok (?r, h1, Some (length st))"
    and h1: "hashes C h1 (bs @ frame (crc_hash C) st)"
    using verify_record_frame [OF Cons.prems(1), of r st _ cmp] Cons.prems by auto
  from Cons.IH [OF h1, of ?r "n + 1" "d + of_nat (length st)"] Cons.prems v show ?case
    by (subst verify_walk.simps) (auto simp: ac_simps)
qed

lemma verify_payload_inv:
  assumes "verify_payload C pl n r h rh = Ok (r', h', rh')" "hashes C h bs" "hashes C rh rs"
  shows "\<exists>payload. length payload = n \<and> rd_rest r = payload @ rd_rest r' \<and> rd_fail r' = rd_fail r \<and>
           hashes C h' (bs @ payload) \<and> hashes C rh' (rs @ payload)"
proof -
  let ?p = "take n (rd_rest r)"
  have n: "length ?p = n" using verify_payload_shrinks [OF assms(1)] by simp
  have "rd_rest r = ?p @ drop n (rd_rest r)" by simp
  from verify_payload_ok [OF assms(2,3) this, of pl] n assms(1)
  have "r' = r\<lparr>rd_rest := drop n (rd_rest r)\<rparr>" "hashes C h' (bs @ ?p)" "hashes C rh' (rs @ ?p)" by auto
  with n show ?thesis by (intro exI [of _ ?p]) simp
qed

lemma verify_record_inv:
  assumes "verify_record C cmp r h = Ok (r', h', x)" "hashes C h bs"
  shows "rd_fail r' = rd_fail r \<and>
    (case x of
       None \<Rightarrow> rd_rest r = SENTINEL @ rd_rest r' \<and> h' = h
     | Some n \<Rightarrow> \<exists>st. rd_rest r = frame (crc_hash C) st @ rd_rest r' \<and> n = length st \<and> stored_ok cmp st \<and>
                hashes C h' (bs @ frame (crc_hash C) st))"
proof -
  from assms(1) obtain lb r1 where r1: "read_exact 4 r = Ok (lb, r1)"
    by (auto simp: verify_record_def split: sum.splits if_splits)
  then have lb: "length lb = 4" "rd_rest r = lb @ rd_rest r1" "rd_fail r1 = rd_fail r"
    by (auto simp: read_exact_Ok)
  show ?thesis
  proof (cases "unat (u32_from_le lb) = 0")
    case True
    with assms(1) r1 have "x = None" "r' = r1" "h' = h" by (auto simp: verify_record_def)
    with lb True show ?thesis by (simp add: u32_from_le_zero)
  next
    case False
    with assms(1) r1 obtain cb r2 rh where
      r2: "read_exact 4 r1 = Ok (cb, r2)" and x: "x = Some (unat (u32_from_le lb))"
      and cap: "unat (u32_from_le lb) \<le> stored_cap cmp"
      and vp: "verify_payload C (unat (u32_from_le lb)) (unat (u32_from_le lb)) r2
                 (crc_update C (crc_update C h lb) cb) (crc_new C) = Ok (r', h', rh)"
      and crc: "u32_from_le cb = crc_finalize C rh"
      by (auto simp: verify_record_def Let_def split: sum.splits if_splits)
    have cb: "length cb = 4" "rd_rest r1 = cb @ rd_rest r2" "rd_fail r2 = rd_fail r1"
      using r2 by (auto simp: read_exact_Ok)
    have "hashes C (crc_update C (crc_update C h lb) cb) ((bs @ lb) @ cb)"
      by (intro hashes_update assms)
    from verify_payload_inv [OF vp this hashes_new] obtain st where
      st: "length st = unat (u32_from_le lb)" "rd_rest r2 = st @ rd_rest r'" "rd_fail r' = rd_fail r2"
      and h': "hashes C h' (((bs @ lb) @ cb) @ st)" and rh: "hashes C rh ([] @ st)" by auto
    have "lb = u32_le (as_u32 (length st))" using st lb by simp
    moreover have "cb = u32_le (crc_hash C st)"
      using crc cb rh finalize_hashes by (simp add: u32_from_le_eq)
    moreover have "stored_ok cmp st" using cap False st by (auto simp: stored_ok_def)
    ultimately show ?thesis using lb cb st h' x by (auto simp: frame_def)
  qed
qed

lemma verify_walk_inv:
  assumes "verify_walk C cmp r h n d = Ok (r', h', n', d')" "hashes C h bs"
  shows "\<exists>sts. rd_rest r = concat (map (frame (crc_hash C)) sts) @ SENTINEL @ rd_rest r' \<and>
           rd_fail r' = rd_fail r \<and> (\<forall>st \<in> set sts. stored_ok cmp st) \<and>
           n' = n + of_nat (length sts) \<and> d' = d + of_nat (sum_list (map length sts)) \<and>
           hashes C h' (bs @ concat (map (frame (crc_hash C)) sts))"
  using assms
proof (induction "length (rd_rest r)" arbitrary: r h n d bs rule: less_induct)
  case less
  from less.prems(1) obtain r1 h1 x where v: "verify_record C cmp r h = Ok (r1, h1, x)"
    by (subst (asm) verify_walk.simps) (auto split: sum.splits)
  note inv = verify_record_inv [OF v less.prems(2)]
  show ?case
  proof (cases x)
    case None
    with less.prems v inv show ?thesis
      by (intro exI [of _ "[]"]) (auto simp: verify_walk.simps)
  next
    case (Some m)
    with inv obtain st where st: "rd_rest r = frame (crc_hash C) st @ rd_rest r1" "m = length st"
      "stored_ok cmp st" "rd_fail r1 = rd_fail r" and h1: "hashes C h1 (bs @ frame (crc_hash C) st)"
      by auto
    have rec: "verify_walk C cmp r1 h1 (n + 1) (d + of_nat m) = Ok (r', h', n', d')"
      using less.prems(1) v Some by (subst (asm) verify_walk.simps) simp
    have "length (rd_rest r1) < length (rd_rest r)" using st by simp
    from less.hyps [OF this rec h1] obtain sts where
      "rd_rest r1 = concat (map (frame (crc_hash C)) sts) @ SENTINEL @ rd_rest r'"
      "rd_fail r' = rd_fail r1" "\<forall>st \<in> set sts. stored_ok cmp st"
      "n' = n + 1 + of_nat (length sts)" "d' = d + of_nat m + of_nat (sum_list (map length sts))"
      "hashes C h' ((bs @ frame (crc_hash C) st) @ concat (map (frame (crc_hash C)) sts))" by blast
    with st show ?thesis by (intro exI [of _ "st # sts"]) auto
  qed
qed

end

section \<open>Segment images\<close>

text \<open>
  A sealed segment as it must be on disk: a header, the frames of legal records, the
  sentinel and a footer that states their number, their stored bytes and the checksum of
  everything before the sentinel.
\<close>

definition sealed_image ::
  "(bytes \<Rightarrow> u32) \<Rightarrow> segment_header_meta \<Rightarrow> segment_footer_meta \<Rightarrow> bytes list \<Rightarrow> bytes \<Rightarrow> bool"
where
  "sealed_image crc h f sts bs \<longleftrightarrow>
     (\<exists>hb fb. parse_segment_header hb = Ok h \<and> parse_segment_footer fb = Ok f \<and>
        bs = hb @ concat (map (frame crc) sts) @ SENTINEL @ fb \<and>
        (\<forall>st \<in> set sts. stored_ok (hm_compression h) st) \<and>
        fm_record_count f = of_nat (length sts) \<and>
        fm_data_bytes f = of_nat (sum_list (map length sts)) \<and>
        fm_file_crc32 f = crc (hb @ concat (map (frame crc) sts)))"

text \<open>The image with the header and footer the builders write.\<close>

definition sealed_bytes ::
  "(bytes \<Rightarrow> u32) \<Rightarrow> bytes \<Rightarrow> bytes list \<Rightarrow> i64 \<Rightarrow> bytes"
where
  "sealed_bytes crc hb sts sealed_at =
     hb @ concat (map (frame crc) sts) @ SENTINEL @
     build_segment_footer (of_nat (length sts)) (of_nat (sum_list (map length sts)))
       (crc (hb @ concat (map (frame crc) sts))) sealed_at"

lemma sealed_bytes_image:
  assumes "parse_segment_header hb = Ok h" "\<forall>st \<in> set sts. stored_ok (hm_compression h) st"
  shows "sealed_image crc h
     \<lparr>fm_record_count = of_nat (length sts), fm_data_bytes = of_nat (sum_list (map length sts)),
      fm_file_crc32 = crc (hb @ concat (map (frame crc) sts)), fm_sealed_at = t\<rparr>
     sts (sealed_bytes crc hb sts t)"
  unfolding sealed_image_def sealed_bytes_def
  using assms by (intro exI conjI) (auto simp: parse_build_segment_footer)

lemma footer_length: "parse_segment_footer fb = Ok f \<Longrightarrow> length fb = 32"
  by (auto simp: parse_segment_footer_def SEGMENT_FOOTER_LEN_def split: if_splits)

lemma footer_parses: "length fb = 32 \<Longrightarrow> \<exists>f. parse_segment_footer fb = Ok f"
  by (simp add: parse_segment_footer_def SEGMENT_FOOTER_LEN_def)

context crc_engine
begin

lemma verify_accepts:
  assumes "sealed_image (crc_hash C) h f sts bs"
  shows "verify_sealed_segment C (Ok (file_reader bs)) = Ok \<lparr>sv_header = h, sv_footer = f\<rparr>"
proof -
  from assms obtain hb fb where hb: "parse_segment_header hb = Ok h" and fb: "parse_segment_footer fb = Ok f"
    and bs: "bs = hb @ concat (map (frame (crc_hash C)) sts) @ SENTINEL @ fb"
    and ok: "\<forall>st \<in> set sts. stored_ok (hm_compression h) st"
    and f: "fm_record_count f = of_nat (length sts)" "fm_data_bytes f = of_nat (sum_list (map length sts))"
      "fm_file_crc32 f = crc_hash C (hb @ concat (map (frame (crc_hash C)) sts))"
    by (auto simp: sealed_image_def)
  let ?r = "\<lparr>rd_rest = concat (map (frame (crc_hash C)) sts) @ SENTINEL @ fb, rd_fail = None\<rparr>"
  have h0: "hashes C (crc_update C (crc_new C) hb) hb" using hashes_update [OF hashes_new] by simp
  have re: "read_exact SEGMENT_HEADER_LEN (file_reader bs) = Ok (hb, ?r)"
    using header_magic_version [OF hb] by (simp add: read_exact_Ok bs SEGMENT_HEADER_LEN_def)
  from verify_walk_frames [OF h0, of ?r sts fb "hm_compression h" 0 0] ok obtain h' where
    w: "verify_walk C (hm_compression h) ?r (crc_update C (crc_new C) hb) 0 0 =
         Ok (\<lparr>rd_rest = fb, rd_fail = None\<rparr>, h', of_nat (length sts), of_nat (sum_list (map length sts)))"
    and h': "hashes C h' (hb @ concat (map (frame (crc_hash C)) sts))" by auto
  have rf: "read_exact SEGMENT_FOOTER_LEN \<lparr>rd_rest = fb, rd_fail = None\<rparr> = Ok (fb, \<lparr>rd_rest = [], rd_fail = None\<rparr>)"
    using footer_length [OF fb] by (simp add: read_exact_Ok SEGMENT_FOOTER_LEN_def)
  show ?thesis
    using f finalize_hashes [OF h'] by (simp add: verify_sealed_segment_def re hb w rf fb Let_def read_one_def)
qed

lemma verify_accepted:
  assumes "verify_sealed_segment C (Ok (file_reader bs)) = Ok v"
  shows "\<exists>sts. sealed_image (crc_hash C) (sv_header v) (sv_footer v) sts bs"
proof -
  from assms obtain hb r1 where re: "read_exact SEGMENT_HEADER_LEN (file_reader bs) = Ok (hb, r1)"
    by (auto simp: verify_sealed_segment_def split: sum.splits if_splits)
  with assms obtain h where hb: "parse_segment_header hb = Ok h"
    by (auto simp: verify_sealed_segment_def Let_def split: sum.splits if_splits)
  with assms re obtain r2 h' n d where
    w: "verify_walk C (hm_compression h) r1 (crc_update C (crc_new C) hb) 0 0 = Ok (r2, h', n, d)"
    by (auto simp: verify_sealed_segment_def Let_def split: sum.splits if_splits)
  with assms re hb obtain fb r3 where rf: "read_exact SEGMENT_FOOTER_LEN r2 = Ok (fb, r3)"
    by (auto simp: verify_sealed_segment_def Let_def split: sum.splits if_splits)
  with assms re hb w obtain f where fb: "parse_segment_footer fb = Ok f"
    by (auto simp: verify_sealed_segment_def Let_def split: sum.splits if_splits)
  have f: "fm_file_crc32 f = crc_finalize C h'" "fm_record_count f = n" "fm_data_bytes f = d"
    "read_one r3 = Ok 0" "v = \<lparr>sv_header = h, sv_footer = f\<rparr>"
    using assms by (simp_all add: verify_sealed_segment_def re hb w rf fb Let_def split: sum.splits if_splits)
  have h0: "hashes C (crc_update C (crc_new C) hb) hb" using hashes_update [OF hashes_new] by simp
  from verify_walk_inv [OF w h0] obtain sts where
    sts: "rd_rest r1 = concat (map (frame (crc_hash C)) sts) @ SENTINEL @ rd_rest r2"
      "\<forall>st \<in> set sts. stored_ok (hm_compression h) st" "n = of_nat (length sts)"
      "d = of_nat (sum_list (map length sts))"
    and h': "hashes C h' (hb @ concat (map (frame (crc_hash C)) sts))" by auto
  have "rd_rest r3 = []" using f(4) by (auto simp: read_one_def split: if_splits option.splits)
  then have "bs = hb @ concat (map (frame (crc_hash C)) sts) @ SENTINEL @ fb"
    using re rf sts by (simp add: read_exact_Ok)
  then show ?thesis
    using hb fb f sts finalize_hashes [OF h'] by (auto simp: sealed_image_def)
qed

end

text \<open>
  C40: \<open>verify_sealed_segment\<close> accepts exactly the intact sealed segments.  For every hasher
  whose streaming and one-shot forms agree, the check of a file succeeds with header \<open>h\<close> and
  footer \<open>f\<close> if and only if the file is the image of some sequence of legal stored records
  with that header and that footer: whole-file checksum, record count, byte count, sentinel
  and the absence of trailing bytes included.
\<close>

theorem verify_sealed_segment_exact:
  assumes "crc_streams C"
  shows "verify_sealed_segment C (Ok (file_reader bs)) = Ok \<lparr>sv_header = h, sv_footer = f\<rparr> \<longleftrightarrow>
    (\<exists>sts. sealed_image (crc_hash C) h f sts bs)"
  using crc_engine.verify_accepts [of C] crc_engine.verify_accepted [of C bs] assms
  by (fastforce simp: crc_engine_def)

lemma sample_sealed_image:
  "sealed_image crc32_hash
     \<lparr>hm_format_version = FORMAT_VERSION_V1, hm_compression = CompNone, hm_shard_id = 3, hm_created_at = 5\<rparr>
     \<lparr>fm_record_count = 2, fm_data_bytes = 3, fm_file_crc32 = crc32_hash sample_prefix, fm_sealed_at = 9\<rparr>
     sample_records (sealed_bytes crc32_hash (build_segment_header 5 3 CompNone) sample_records 9)"
proof -
  note image = sealed_bytes_image [OF parse_build_segment_header, where sts = sample_records
      and crc = crc32_hash and t = 9 and now1 = 5 and shard1 = 3 and cmp1 = CompNone]
  have "length sample_records = 2" "sum_list (map length sample_records) = 3"
    by (simp_all add: sample_records_def)
  with image sample_records_ok show ?thesis by (simp add: sample_prefix_def)
qed

theorem verify_sealed_segment_exact_witness:
  "verify_sealed_segment crc32_ops
     (Ok (file_reader (sealed_bytes crc32_hash (build_segment_header 5 3 CompNone) sample_records 9))) =
   Ok \<lparr>sv_header = \<lparr>hm_format_version = FORMAT_VERSION_V1, hm_compression = CompNone,
                      hm_shard_id = 3, hm_created_at = 5\<rparr>,
       sv_footer = \<lparr>fm_record_count = 2, fm_data_bytes = 3,
                    fm_file_crc32 = crc32_hash sample_prefix, fm_sealed_at = 9\<rparr>\<rparr>"
  using verify_sealed_segment_exact [OF crc32_streams] sample_sealed_image by auto

text \<open>
  A segment that verifies reads back completely.  If \<open>verify_sealed_segment\<close> accepts an
  uncompressed file, the segment reader opened on the same file yields payloads only, ends at
  the sentinel, and their number and total length are the footer's \<open>record_count\<close> and
  \<open>data_bytes\<close>.
\<close>

theorem verified_segment_reads_back:
  assumes "crc_streams C" "verify_sealed_segment C (Ok (file_reader bs)) = Ok v"
    and "hm_compression (sv_header v) = CompNone"
  shows "\<exists>s ps s'. sr_open (Ok (file_reader bs)) = Ok s \<and>
    sr_collect (crc_hash C) Z s = (map Ok ps, s') \<and> sr_terminated_cleanly s' = Some True \<and>
    of_nat (length ps) = fm_record_count (sv_footer v) \<and>
    of_nat (sum_list (map length ps)) = fm_data_bytes (sv_footer v)"
proof -
  have "\<exists>sts. sealed_image (crc_hash C) (sv_header v) (sv_footer v) sts bs"
    using assms(1,2) by (intro crc_engine.verify_accepted) (simp_all add: crc_engine_def)
  then obtain hb fb sts where hb: "parse_segment_header hb = Ok (sv_header v)"
    and bs: "bs = hb @ concat (map (frame (crc_hash C)) sts) @ SENTINEL @ fb"
    and ok: "\<forall>st \<in> set sts. stored_ok (hm_compression (sv_header v)) st"
    and n: "fm_record_count (sv_footer v) = of_nat (length sts)"
      "fm_data_bytes (sv_footer v) = of_nat (sum_list (map length sts))"
    by (auto simp: sealed_image_def)
  have "list_all2 (record_reads Z (hm_compression (sv_header v))) sts sts"
    using ok assms(3) by (auto simp: record_reads_def intro: list.rel_refl_strong)
  then have "\<exists>s s'. sr_open (Ok (file_reader bs)) = Ok s \<and> sr_collect (crc_hash C) Z s = (map Ok sts, s') \<and>
      sr_terminated_cleanly s' = Some True"
    using hb by (intro sr_reads_image) (auto simp: bs)
  with n show ?thesis by (metis (no_types))
qed


theorem verified_segment_reads_back_witness:
  "\<exists>s ps s'. sr_open (Ok (file_reader (sealed_bytes crc32_hash (build_segment_header 5 3 CompNone)
       sample_records 9))) = Ok s \<and>
     sr_collect crc32_hash zstd_verbatim s = (map Ok ps, s') \<and> of_nat (length ps) = (2 :: u64)"
proof -
  have "verify_sealed_segment crc32_ops (Ok (file_reader (sealed_bytes crc32_hash
      (build_segment_header 5 3 CompNone) sample_records 9))) =
    Ok \<lparr>sv_header = \<lparr>hm_format_version = FORMAT_VERSION_V1, hm_compression = CompNone,
                      hm_shard_id = 3, hm_created_at = 5\<rparr>,
       sv_footer = \<lparr>fm_record_count = 2, fm_data_bytes = 3,
                    fm_file_crc32 = crc32_hash sample_prefix, fm_sealed_at = 9\<rparr>\<rparr>"
    using crc32.verify_accepts sample_sealed_image by simp
  from verified_segment_reads_back [OF crc32_streams this, of zstd_verbatim] show ?thesis by auto
qed

section \<open>Listing a WAB directory\<close>

datatype segment_state = SegActive | SegSealed | SegConfirmed

definition ends_with :: "bytes \<Rightarrow> bytes \<Rightarrow> bool" where
  "ends_with name sfx = suffix sfx name"

definition segment_state_of :: "bytes \<Rightarrow> segment_state option" where
  "segment_state_of name =
     (if ends_with name EXT_CONFIRMED then Some SegConfirmed
      else if ends_with name EXT_SEALED then Some SegSealed
      else if ends_with name EXT_ACTIVE then Some SegActive
      else None)"

text \<open>
  The loop over \<open>read_dir\<close>.  An entry is an error, or a path with its file name, which is
  \<open>None\<close> when it is not UTF-8.
\<close>

fun list_entries ::
  "(io_kind + (bytes \<times> bytes option)) list \<Rightarrow> io_kind + (bytes \<times> segment_state) list" where
  "list_entries [] = Ok []"
| "list_entries (Inl k # es) = Err k"
| "list_entries (Inr (p, name) # es) =
     (case list_entries es of
        Inl k \<Rightarrow> Err k
      | Inr out \<Rightarrow>
         (case name of
            None \<Rightarrow> Ok out
          | Some n \<Rightarrow> (case segment_state_of n of None \<Rightarrow> Ok out | Some st \<Rightarrow> Ok ((p, st) # out))))"

definition list_segment_files ::
  "io_kind + (io_kind + (bytes \<times> bytes option)) list \<Rightarrow> io_kind + (bytes \<times> segment_state) list" where
  "list_segment_files dir =
     (case dir of
        Inl k \<Rightarrow> Err k
      | Inr entries \<Rightarrow>
         (case list_entries entries of Inl k \<Rightarrow> Err k | Inr out \<Rightarrow> Ok (sort_key fst out)))"

lemma list_entries_Ok:
  "list_entries es = Ok out \<Longrightarrow>
     (\<forall>e \<in> set es. \<exists>x. e = Inr x) \<and>
     set out = {(p, st) |p n st. Inr (p, Some n) \<in> set es \<and> segment_state_of n = Some st}"
  by (induction es arbitrary: out rule: list_entries.induct)
    (fastforce split: sum.splits option.splits)+

lemma ext_last_apart:
  "\<not> suffix EXT_SEALED (b @ EXT_CONFIRMED)" "\<not> suffix EXT_ACTIVE (b @ EXT_CONFIRMED)"
  "\<not> suffix EXT_ACTIVE (b @ EXT_SEALED)" "\<not> suffix EXT_CONFIRMED (b @ EXT_SEALED)"
  "\<not> suffix EXT_SEALED (b @ EXT_ACTIVE)" "\<not> suffix EXT_CONFIRMED (b @ EXT_ACTIVE)"
  by (auto simp: suffix_def append_eq_append_conv2 EXT_CONFIRMED_def EXT_SEALED_def EXT_ACTIVE_def ascii_def
      append_eq_Cons_conv Cons_eq_append_conv)

text \<open>
  The listing is complete, sound and ordered.  When \<open>list_segment_files\<close> succeeds, its
  result is sorted by path and holds exactly the entries whose UTF-8 name ends in one of the
  three extensions, each with the state of its extension; the extensions exclude each other,
  so a sealed or confirmed file is never listed as active.
\<close>

theorem list_segment_files_exact:
  assumes "list_segment_files (Ok entries) = Ok out"
  shows "sorted (map fst out) \<and>
    set out = {(p, st) |p n st. Inr (p, Some n) \<in> set entries \<and> segment_state_of n = Some st} \<and>
    segment_state_of (b @ EXT_ACTIVE) = Some SegActive \<and>
    segment_state_of (b @ EXT_SEALED) = Some SegSealed \<and>
    segment_state_of (b @ EXT_CONFIRMED) = Some SegConfirmed"
proof -
  obtain out' where o: "list_entries entries = Ok out'" and out: "out = sort_key fst out'"
    using assms by (auto simp: list_segment_files_def split: sum.splits)
  show ?thesis
    using list_entries_Ok [OF o] ext_last_apart [of b]
    by (auto simp: out segment_state_of_def ends_with_def suffix_def)
qed

theorem list_segment_files_exact_witness:
  "sorted (map fst [(ascii ''a.wab'', SegActive), (ascii ''b.wab.sealed'', SegSealed)])"
  using list_segment_files_exact [of "[Inr (ascii ''b.wab.sealed'', Some (ascii ''b.wab.sealed'')),
      Inr (ascii ''x.txt'', Some (ascii ''x.txt'')), Inr (ascii ''a.wab'', Some (ascii ''a.wab''))]"
      "[(ascii ''a.wab'', SegActive), (ascii ''b.wab.sealed'', SegSealed)]"]
  by (simp add: list_segment_files_def segment_state_of_def ends_with_def suffix_def EXT_ACTIVE_def
      EXT_SEALED_def EXT_CONFIRMED_def ascii_def)

end
