(* ===== verification/RecoveryReader.thy ===== *)
theory RecoveryReader
  imports SegmentVerify
begin

text \<open>
  The forensic reader, \<open>weir-wab/src/recovery_reader.rs\<close>, which continues past corrupt
  records.  File offsets are natural numbers; the source's saturating additions are
  written out.  The texts of the reasons are the constructors of \<open>recovery_reason\<close>.

  Main results: the items account for the file byte by byte, in order, so the absence of a
  trailing \<open>Desynced\<close> means the walk reached the end of the record stream; and as long as no
  three consecutive records are corrupt, every intact record is recovered and every corrupt
  one is reported at its offset.
\<close>

definition MAX_CONSECUTIVE_SKIPS :: nat where "MAX_CONSECUTIVE_SKIPS = 3"

datatype recovery_reason =
    TrailingBytesAtEof nat
  | ReadLengthFailed io_kind
  | NotASentinelOffset nat nat
  | DeclaredAboveCap nat nat
  | ReadCrcFailed io_kind
  | TruncatedRecordRead nat io_kind
  | FramingLost
  | CrcMismatchSkip
  | DecompressionFailed

datatype recovery_item =
    RecRecord bytes
  | RecSkipped nat u32 recovery_reason    \<comment> \<open>offset, declared length\<close>
  | RecDesynced nat recovery_reason       \<comment> \<open>offset\<close>

record recovery_reader =
  rr_reader :: reader
  rr_header :: segment_header_meta
  rr_pos :: nat
  rr_file_len :: nat
  rr_done :: bool
  rr_consecutive_skips :: nat
  rr_pending_desync :: "(nat \<times> recovery_reason) option"

text \<open>The outcomes of \<open>File::open\<close> and of \<open>metadata().len()\<close> are arguments.\<close>

definition rr_open ::
  "io_kind + reader \<Rightarrow> io_kind + nat \<Rightarrow> read_fault + recovery_reader" where
  "rr_open opened metadata_len =
     (case opened of Inl k \<Rightarrow> Err (BareIo k) | Inr r \<Rightarrow>
      case metadata_len of Inl k \<Rightarrow> Err (BareIo k) | Inr file_len \<Rightarrow>
      case read_exact SEGMENT_HEADER_LEN r of
        Inl k \<Rightarrow> if k = UnexpectedEof then Err FileTooShort else Err (BareIo k)
      | Inr (hb, r1) \<Rightarrow>
      case parse_segment_header hb of
        Inl e \<Rightarrow> Err (HeaderFault e)
      | Inr h \<Rightarrow> Ok \<lparr>rr_reader = r1, rr_header = h, rr_pos = SEGMENT_HEADER_LEN,
                     rr_file_len = file_len, rr_done = False, rr_consecutive_skips = 0,
                     rr_pending_desync = None\<rparr>)"

definition u64_saturating_add :: "nat \<Rightarrow> nat \<Rightarrow> nat" where
  "u64_saturating_add a b = min (a + b) (2 ^ 64 - 1)"

definition is_sentinel_offset :: "recovery_reader \<Rightarrow> nat \<Rightarrow> bool" where
  "is_sentinel_offset s offset \<longleftrightarrow>
     (let after = u64_saturating_add offset (length SENTINEL) in
      u64_saturating_add after SEGMENT_FOOTER_LEN = rr_file_len s \<or> after = rr_file_len s)"

definition rr_desync ::
  "recovery_reader \<Rightarrow> nat \<Rightarrow> recovery_reason \<Rightarrow> recovery_item option \<times> recovery_reader" where
  "rr_desync s offset reason = (Some (RecDesynced offset reason), s\<lparr>rr_done := True\<rparr>)"

text \<open>The part of \<open>next\<close> after a complete record was read: verify and decode it.\<close>

definition rr_verify ::
  "(bytes \<Rightarrow> u32) \<Rightarrow> zstd_ops \<Rightarrow> recovery_reader \<Rightarrow> nat \<Rightarrow> u32 \<Rightarrow> u32 \<Rightarrow> bytes \<Rightarrow>
   recovery_item option \<times> recovery_reader" where
  "rr_verify crc Z s record_offset declared_len expected_crc stored =
     (if crc stored \<noteq> expected_crc
      then let skips = rr_consecutive_skips s + 1 in
        (Some (RecSkipped record_offset declared_len CrcMismatchSkip),
         s\<lparr>rr_consecutive_skips := skips,
            rr_pending_desync :=
              (if skips \<ge> MAX_CONSECUTIVE_SKIPS then Some (record_offset, FramingLost)
               else rr_pending_desync s)\<rparr>)
      else let s = s\<lparr>rr_consecutive_skips := 0\<rparr> in
        (case plain_of Z (hm_compression (rr_header s)) stored of
           Some plain \<Rightarrow> (Some (RecRecord plain), s)
         | None \<Rightarrow> (Some (RecSkipped record_offset declared_len DecompressionFailed), s)))"

definition rr_next ::
  "(bytes \<Rightarrow> u32) \<Rightarrow> zstd_ops \<Rightarrow> recovery_reader \<Rightarrow> recovery_item option \<times> recovery_reader" where
  "rr_next crc Z s =
     (case rr_pending_desync s of
        Some (offset, reason) \<Rightarrow>
          (Some (RecDesynced offset reason), s\<lparr>rr_pending_desync := None, rr_done := True\<rparr>)
      | None \<Rightarrow>
      if rr_done s then (None, s)
      else let record_offset = rr_pos s in
      case read_exact 4 (rr_reader s) of
        Inl k \<Rightarrow>
          if k = UnexpectedEof
          then (if record_offset = rr_file_len s then (None, s\<lparr>rr_done := True\<rparr>)
                else (Some (RecDesynced record_offset (TrailingBytesAtEof (rr_file_len s - record_offset))),
                      s\<lparr>rr_done := True\<rparr>))
          else rr_desync s record_offset (ReadLengthFailed k)
      | Inr (len_buf, r1) \<Rightarrow>
      let declared_len = u32_from_le len_buf; s1 = s\<lparr>rr_reader := r1\<rparr> in
      if declared_len = 0
      then (if is_sentinel_offset s record_offset then (None, s1\<lparr>rr_done := True\<rparr>)
            else (Some (RecDesynced record_offset (NotASentinelOffset record_offset (rr_file_len s))),
                  s1\<lparr>rr_done := True\<rparr>))
      else let cap = stored_cap (hm_compression (rr_header s)) in
      if unat declared_len > cap
      then rr_desync s1 record_offset (DeclaredAboveCap (unat declared_len) cap)
      else case read_exact 4 r1 of
        Inl k \<Rightarrow> rr_desync s1 record_offset (ReadCrcFailed k)
      | Inr (crc_buf, r2) \<Rightarrow>
      let expected_crc = u32_from_le crc_buf in
      case read_exact (unat declared_len) r2 of
        Inl k \<Rightarrow> rr_desync (s\<lparr>rr_reader := r2\<rparr>) record_offset
                   (TruncatedRecordRead (unat declared_len) k)
      | Inr (stored, r3) \<Rightarrow>
          rr_verify crc Z (s\<lparr>rr_reader := r3, rr_pos := record_offset + 8 + unat declared_len\<rparr>)
            record_offset declared_len expected_crc stored)"

section \<open>One step\<close>

text \<open>A record as found on disk: its checksum field and its stored bytes.\<close>

type_synonym chunk = "u32 \<times> bytes"

definition chunk_bytes :: "chunk \<Rightarrow> bytes" where
  "chunk_bytes c = u32_le (as_u32 (length (snd c))) @ u32_le (fst c) @ snd c"

definition chunk_ok :: "compression \<Rightarrow> chunk \<Rightarrow> bool" where
  "chunk_ok cmp c \<longleftrightarrow> stored_ok cmp (snd c)"

definition chunk_intact :: "(bytes \<Rightarrow> u32) \<Rightarrow> chunk \<Rightarrow> bool" where
  "chunk_intact crc c \<longleftrightarrow> fst c = crc (snd c)"

text \<open>What the reader must say about the record at an offset.\<close>

definition chunk_item ::
  "(bytes \<Rightarrow> u32) \<Rightarrow> zstd_ops \<Rightarrow> compression \<Rightarrow> nat \<Rightarrow> chunk \<Rightarrow> recovery_item" where
  "chunk_item crc Z cmp offset c =
     (if \<not> chunk_intact crc c then RecSkipped offset (as_u32 (length (snd c))) CrcMismatchSkip
      else case plain_of Z cmp (snd c) of
        Some plain \<Rightarrow> RecRecord plain
      | None \<Rightarrow> RecSkipped offset (as_u32 (length (snd c))) DecompressionFailed)"

lemma length_chunk_bytes [simp]: "length (chunk_bytes c) = 8 + length (snd c)"
  by (simp add: chunk_bytes_def)

definition rr_after ::
  "(bytes \<Rightarrow> u32) \<Rightarrow> recovery_reader \<Rightarrow> chunk \<Rightarrow> reader \<Rightarrow> recovery_reader" where
  "rr_after crc s c r =
     (let skips = (if chunk_intact crc c then 0 else rr_consecutive_skips s + 1) in
      s\<lparr>rr_reader := r, rr_pos := rr_pos s + 8 + length (snd c), rr_consecutive_skips := skips,
         rr_pending_desync := (if skips \<ge> MAX_CONSECUTIVE_SKIPS then Some (rr_pos s, FramingLost) else None)\<rparr>)"

lemma rr_next_chunk:
  assumes "rr_pending_desync s = None" "\<not> rr_done s" "chunk_ok (hm_compression (rr_header s)) c"
    and "rd_rest (rr_reader s) = chunk_bytes c @ rest"
  shows "rr_next crc Z s =
    (Some (chunk_item crc Z (hm_compression (rr_header s)) (rr_pos s) c),
     rr_after crc s c ((rr_reader s)\<lparr>rd_rest := rest\<rparr>))"
proof -
  obtain cb st where c: "c = (cb, st)" by (cases c)
  let ?lb = "u32_le (as_u32 (length st))" and ?r = "rr_reader s"
  have ok: "stored_ok (hm_compression (rr_header s)) st" using assms(3) by (simp add: chunk_ok_def c)
  have n: "unat (as_u32 (length st)) = length st" by (rule stored_ok_unat [OF ok])
  then have nz: "as_u32 (length st) \<noteq> 0" using ok by (auto simp: stored_ok_def)
  have r1: "read_exact 4 ?r = Ok (?lb, ?r\<lparr>rd_rest := u32_le cb @ st @ rest\<rparr>)"
    using assms(4) by (simp add: read_exact_Ok c chunk_bytes_def)
  have r2: "read_exact 4 (?r\<lparr>rd_rest := u32_le cb @ st @ rest\<rparr>) = Ok (u32_le cb, ?r\<lparr>rd_rest := st @ rest\<rparr>)"
    by (simp add: read_exact_Ok)
  have r3: "read_exact (length st) (?r\<lparr>rd_rest := st @ rest\<rparr>) = Ok (st, ?r\<lparr>rd_rest := rest\<rparr>)"
    by (simp add: read_exact_Ok)
  show ?thesis
    using assms(1,2) ok nz
    by (simp add: rr_next_def r1 r2 r3 n Let_def stored_ok_def rr_verify_def chunk_item_def
        chunk_intact_def rr_after_def c MAX_CONSECUTIVE_SKIPS_def split: option.split)
qed

text \<open>Every item other than a \<open>Desynced\<close> consumed a record at the front of the stream.\<close>

lemma rr_next_inv:
  assumes "rr_next crc Z s = (x, s')" "rr_pending_desync s = None" "\<not> rr_done s"
  obtains
    (chunk) c rest where "chunk_ok (hm_compression (rr_header s)) c"
      "rd_rest (rr_reader s) = chunk_bytes c @ rest"
      "x = Some (chunk_item crc Z (hm_compression (rr_header s)) (rr_pos s) c)"
      "s' = rr_after crc s c ((rr_reader s)\<lparr>rd_rest := rest\<rparr>)"
  | (eof) "x = None" "length (rd_rest (rr_reader s)) < 4" "rr_pos s = rr_file_len s"
      "rr_done s'" "rr_pending_desync s' = None"
  | (sentinel) "x = None" "take 4 (rd_rest (rr_reader s)) = SENTINEL" "is_sentinel_offset s (rr_pos s)"
      "rr_done s'" "rr_pending_desync s' = None"
  | (desync) reason where "x = Some (RecDesynced (rr_pos s) reason)" "rr_done s'" "rr_pending_desync s' = None"
proof (cases "\<exists>lb cb st r3 r1 r2. read_exact 4 (rr_reader s) = Ok (lb, r1) \<and> u32_from_le lb \<noteq> 0 \<and>
    unat (u32_from_le lb) \<le> stored_cap (hm_compression (rr_header s)) \<and>
    read_exact 4 r1 = Ok (cb, r2) \<and> read_exact (unat (u32_from_le lb)) r2 = Ok (st, r3)")
  case True
  then obtain lb cb st r3 r1 r2 where r: "read_exact 4 (rr_reader s) = Ok (lb, r1)"
    "read_exact 4 r1 = Ok (cb, r2)" "read_exact (unat (u32_from_le lb)) r2 = Ok (st, r3)"
    and n: "u32_from_le lb \<noteq> 0" "unat (u32_from_le lb) \<le> stored_cap (hm_compression (rr_header s))" by blast
  have len: "length lb = 4" "length cb = 4" "length st = unat (u32_from_le lb)"
    and rest: "rd_rest (rr_reader s) = lb @ cb @ st @ rd_rest r3"
    using r by (auto simp: read_exact_Ok)
  have eqs: "lb = u32_le (as_u32 (length st))" "cb = u32_le (u32_from_le cb)" using len by simp_all
  then have bytes: "rd_rest (rr_reader s) = chunk_bytes (u32_from_le cb, st) @ rd_rest r3"
    using rest by (metis append_assoc chunk_bytes_def fst_conv snd_conv)
  have ok: "chunk_ok (hm_compression (rr_header s)) (u32_from_le cb, st)"
    using n len by (auto simp: chunk_ok_def stored_ok_def unat_0_iff)
  show thesis
    using rr_next_chunk [OF assms(2,3) ok bytes, of crc Z] assms(1) chunk [OF ok bytes] by simp
next
  case False
  show thesis
  proof (cases "read_exact 4 (rr_reader s)")
    case (Inl k)
    with assms that(2,4) read_exact_ErrD [OF Inl] show thesis
      by (auto simp: rr_next_def rr_desync_def Let_def split: if_splits)
  next
    case (Inr b)
    obtain lb r1 where b: "read_exact 4 (rr_reader s) = Ok (lb, r1)" using Inr by (cases b) auto
    have lb: "length lb = 4" "take 4 (rd_rest (rr_reader s)) = lb" using b by (auto simp: read_exact_Ok)
    show thesis
    proof (cases "u32_from_le lb = 0")
      case True
      then have "lb = SENTINEL" using u32_from_le_zero [OF lb(1)] by simp
      with True assms that(3,4) lb(2) b show thesis
        by (auto simp: rr_next_def Let_def split: if_splits)
    next
      case nz: False
      with assms that(4) b False show thesis
        by (auto simp: rr_next_def rr_desync_def Let_def split: if_splits sum.splits)
    qed
  qed
qed


section \<open>The whole walk\<close>

definition rr_measure :: "recovery_reader \<Rightarrow> nat" where
  "rr_measure s = 2 * length (rd_rest (rr_reader s)) + (if rr_done s then 0 else 2) +
     (if rr_pending_desync s = None then 0 else 1)"

lemma rr_next_measure: "rr_next crc Z s = (Some item, s') \<Longrightarrow> rr_measure s' < rr_measure s"
proof (cases "rr_pending_desync s")
  case (Some p)
  then show "rr_next crc Z s = (Some item, s') \<Longrightarrow> ?thesis"
    by (cases p) (auto simp: rr_next_def rr_measure_def)
next
  case None
  assume nx: "rr_next crc Z s = (Some item, s')"
  have nd: "\<not> rr_done s" using nx None by (auto simp: rr_next_def)
  from nx None nd show ?thesis
  proof (cases rule: rr_next_inv)
    case (chunk c rest)
    then show ?thesis using None nd by (simp add: rr_measure_def rr_after_def Let_def)
  next
    case (desync reason)
    moreover have "length (rd_rest (rr_reader s')) \<le> length (rd_rest (rr_reader s))"
      using nx None nd desync
      by (auto simp: rr_next_def Let_def rr_desync_def rr_verify_def read_exact_Ok
          split: if_splits sum.splits option.splits)
    ultimately show ?thesis using None nd by (simp add: rr_measure_def)
  qed simp_all
qed

function rr_collect ::
  "(bytes \<Rightarrow> u32) \<Rightarrow> zstd_ops \<Rightarrow> recovery_reader \<Rightarrow> recovery_item list" where
  "rr_collect crc Z s =
     (case rr_next crc Z s of (None, s') \<Rightarrow> [] | (Some item, s') \<Rightarrow> item # rr_collect crc Z s')"
  by pat_completeness auto
termination
  by (relation "measure (\<lambda>(_, _, s). rr_measure s)") (auto dest!: sym [of _ "rr_next _ _ _"] rr_next_measure)

declare rr_collect.simps [simp del]

text \<open>
  An explanation of the bytes at position \<open>pos\<close> by items: every item stands for the record
  at its position, and only a trailing \<open>Desynced\<close> may leave bytes unexplained.  Without one the
  bytes end here, or at a sentinel that ends the file or is followed by one footer.
\<close>

fun rr_explains ::
  "(bytes \<Rightarrow> u32) \<Rightarrow> zstd_ops \<Rightarrow> compression \<Rightarrow> nat \<Rightarrow> recovery_item list \<Rightarrow> bytes \<Rightarrow> bool" where
  "rr_explains crc Z cmp pos [] bs \<longleftrightarrow>
     bs = [] \<or> (take 4 bs = SENTINEL \<and> (length bs = 4 \<or> length bs = 4 + SEGMENT_FOOTER_LEN))"
| "rr_explains crc Z cmp pos (RecDesynced offset reason # items) bs \<longleftrightarrow> items = [] \<and> offset \<le> pos"
| "rr_explains crc Z cmp pos (item # items) bs \<longleftrightarrow>
     (\<exists>c rest. chunk_ok cmp c \<and> bs = chunk_bytes c @ rest \<and> item = chunk_item crc Z cmp pos c \<and>
        rr_explains crc Z cmp (pos + 8 + length (snd c)) items rest)"

lemma chunk_item_not_desynced: "chunk_item crc Z cmp pos c \<noteq> RecDesynced o' r"
  by (simp add: chunk_item_def split: option.split)

lemma rr_explains_chunk:
  assumes "chunk_ok cmp c" "bs = chunk_bytes c @ rest"
    and "rr_explains crc Z cmp (pos + 8 + length (snd c)) items rest"
  shows "rr_explains crc Z cmp pos (chunk_item crc Z cmp pos c # items) bs"
proof (cases "chunk_item crc Z cmp pos c")
  case (RecRecord p)
  then show ?thesis using assms by (simp del: split_paired_Ex) metis
next
  case (RecSkipped x y z)
  then show ?thesis using assms by (simp del: split_paired_Ex) metis
next
  case (RecDesynced x y)
  then show ?thesis using chunk_item_not_desynced by metis
qed

lemma sentinel_offset_lengths:
  assumes "is_sentinel_offset s (rr_pos s)" "rr_pos s + n = rr_file_len s" "rr_file_len s < 2 ^ 63"
  shows "n = 4 \<or> n = 36"
  using assms by (auto simp: is_sentinel_offset_def u64_saturating_add_def SEGMENT_FOOTER_LEN_def Let_def min_def
      split: if_splits)

lemma rr_after_simps [simp]:
  "rr_done (rr_after crc s c r) = rr_done s" "rr_reader (rr_after crc s c r) = r"
  "rr_header (rr_after crc s c r) = rr_header s" "rr_file_len (rr_after crc s c r) = rr_file_len s"
  "rr_pos (rr_after crc s c r) = rr_pos s + 8 + length (snd c)"
  by (simp_all add: rr_after_def Let_def)

lemma rr_collect_done: "rr_done s \<Longrightarrow> rr_pending_desync s = None \<Longrightarrow> rr_collect crc Z s = []"
  by (simp add: rr_collect.simps rr_next_def)

lemma rr_collect_step:
  "rr_next crc Z s = (x, s') \<Longrightarrow>
   rr_collect crc Z s = (case x of None \<Rightarrow> [] | Some item \<Rightarrow> item # rr_collect crc Z s')"
  by (subst rr_collect.simps) (simp split: option.split)

lemma rr_collect_explains:
  assumes "\<not> rr_done s" "rr_pos s + length (rd_rest (rr_reader s)) = rr_file_len s"
    and "rr_file_len s < 2 ^ 63" "rd_end (rr_reader s) = UnexpectedEof"
    and "\<forall>off reason. rr_pending_desync s = Some (off, reason) \<longrightarrow> off \<le> rr_pos s"
  shows "rr_explains crc Z (hm_compression (rr_header s)) (rr_pos s) (rr_collect crc Z s) (rd_rest (rr_reader s))"
  using assms
proof (induction crc Z s rule: rr_collect.induct)
  case (1 crc Z s)
  show ?case
  proof (cases "rr_pending_desync s")
    case (Some p)
    obtain o1 r1 where p: "p = (o1, r1)" by (cases p)
    have "rr_next crc Z s = (Some (RecDesynced o1 r1), s\<lparr>rr_pending_desync := None, rr_done := True\<rparr>)"
      by (simp add: rr_next_def Some p)
    then have "rr_collect crc Z s = [RecDesynced o1 r1]"
      by (simp add: rr_collect_step rr_collect_done)
    then show ?thesis using 1(6) Some p by simp
  next
    case None
    obtain x s' where nx: "rr_next crc Z s = (x, s')" by fastforce
    from nx None 1(2) show ?thesis
    proof (cases rule: rr_next_inv)
      case (chunk c rest)
      have "rr_explains crc Z (hm_compression (rr_header s')) (rr_pos s') (rr_collect crc Z s') (rd_rest (rr_reader s'))"
        using 1(2-5) chunk nx by (intro 1(1)) (auto simp: rr_after_def Let_def rd_end_def)
      then show ?thesis
        using chunk by (simp add: rr_collect_step [OF nx] rr_explains_chunk)
    next
      case eof
      then show ?thesis using 1(3) by (simp add: rr_collect_step [OF nx])
    next
      case sentinel
      then show ?thesis using sentinel_offset_lengths [OF _ 1(3,4)]
        by (auto simp: rr_collect_step [OF nx] SEGMENT_FOOTER_LEN_def)
    next
      case (desync reason)
      then show ?thesis by (simp add: rr_collect_step [OF nx] rr_collect_done)
    qed
  qed
qed

lemma rr_open_exact:
  "rr_open (Ok r) (Ok n) = Ok s \<longleftrightarrow>
     (\<exists>hb h rest. rd_rest r = hb @ rest \<and> parse_segment_header hb = Ok h \<and>
        s = \<lparr>rr_reader = r\<lparr>rd_rest := rest\<rparr>, rr_header = h, rr_pos = 24, rr_file_len = n, rr_done = False,
             rr_consecutive_skips = 0, rr_pending_desync = None\<rparr>)"
proof
  assume o: "rr_open (Ok r) (Ok n) = Ok s"
  then obtain hb r1 where re: "read_exact 24 r = Ok (hb, r1)"
    by (auto simp: rr_open_def SEGMENT_HEADER_LEN_def split: sum.splits if_splits)
  with o obtain h where "parse_segment_header hb = Ok h"
    "s = \<lparr>rr_reader = r1, rr_header = h, rr_pos = 24, rr_file_len = n, rr_done = False,
             rr_consecutive_skips = 0, rr_pending_desync = None\<rparr>"
    by (auto simp: rr_open_def SEGMENT_HEADER_LEN_def split: sum.splits)
  moreover have "rd_rest r = hb @ rd_rest r1" "r1 = r\<lparr>rd_rest := rd_rest r1\<rparr>"
    using re by (auto simp: read_exact_Ok)
  ultimately show "\<exists>hb h rest. rd_rest r = hb @ rest \<and> parse_segment_header hb = Ok h \<and>
        s = \<lparr>rr_reader = r\<lparr>rd_rest := rest\<rparr>, rr_header = h, rr_pos = 24, rr_file_len = n, rr_done = False,
             rr_consecutive_skips = 0, rr_pending_desync = None\<rparr>" by metis
next
  assume "\<exists>hb h rest. rd_rest r = hb @ rest \<and> parse_segment_header hb = Ok h \<and>
        s = \<lparr>rr_reader = r\<lparr>rd_rest := rest\<rparr>, rr_header = h, rr_pos = 24, rr_file_len = n, rr_done = False,
             rr_consecutive_skips = 0, rr_pending_desync = None\<rparr>"
  then obtain hb h rest where r: "rd_rest r = hb @ rest" "parse_segment_header hb = Ok h"
    and s: "s = \<lparr>rr_reader = r\<lparr>rd_rest := rest\<rparr>, rr_header = h, rr_pos = 24, rr_file_len = n, rr_done = False,
             rr_consecutive_skips = 0, rr_pending_desync = None\<rparr>" by blast
  have "read_exact 24 r = Ok (hb, r\<lparr>rd_rest := rest\<rparr>)"
    using header_magic_version [OF r(2)] r(1) by (simp add: read_exact_Ok)
  then show "rr_open (Ok r) (Ok n) = Ok s"
    using r by (simp add: rr_open_def SEGMENT_HEADER_LEN_def s)
qed

text \<open>
  C34: the forensic walk accounts for the whole file.  For every file of realistic size whose
  header parses, the items explain the bytes after the header in order: a \<open>Record\<close> is the
  decoded content of a checksummed frame at that place, a \<open>Skipped\<close> names the offset and
  declared length of a frame whose checksum or decompression failed, a \<open>Desynced\<close> can only
  be last; and if there is none, nothing is left but an optional sentinel with its footer.
  So no record is fabricated and none is dropped silently.
\<close>

theorem recovery_reader_accounts:
  assumes "rr_open (Ok (file_reader bs)) (Ok (length bs)) = Ok s" "length bs < 2 ^ 63"
  shows "\<exists>hb rest. bs = hb @ rest \<and> parse_segment_header hb = Ok (rr_header s) \<and>
    rr_explains crc Z (hm_compression (rr_header s)) SEGMENT_HEADER_LEN (rr_collect crc Z s) rest"
proof -
  from assms(1) obtain hb rest where bs: "bs = hb @ rest" and hb: "parse_segment_header hb = Ok (rr_header s)"
    and s: "rr_reader s = \<lparr>rd_rest = rest, rd_fail = None\<rparr>" "rr_pos s = 24" "rr_file_len s = length bs"
      "\<not> rr_done s" "rr_pending_desync s = None"
    by (auto simp: rr_open_exact file_reader_def)
  have "rr_explains crc Z (hm_compression (rr_header s)) (rr_pos s) (rr_collect crc Z s) (rd_rest (rr_reader s))"
    using s assms(2) header_magic_version [OF hb]
    by (intro rr_collect_explains) (auto simp: bs rd_end_def)
  with bs hb s show ?thesis by (auto simp: SEGMENT_HEADER_LEN_def)
qed

section \<open>Isolated corruption\<close>

text \<open>No three consecutive records with a wrong checksum; \<open>n\<close> counts the run so far.\<close>

fun short_runs :: "(bytes \<Rightarrow> u32) \<Rightarrow> nat \<Rightarrow> chunk list \<Rightarrow> bool" where
  "short_runs crc n [] \<longleftrightarrow> True"
| "short_runs crc n (c # cs) \<longleftrightarrow>
     (if chunk_intact crc c then short_runs crc 0 cs
      else n + 1 < MAX_CONSECUTIVE_SKIPS \<and> short_runs crc (n + 1) cs)"

fun chunk_items ::
  "(bytes \<Rightarrow> u32) \<Rightarrow> zstd_ops \<Rightarrow> compression \<Rightarrow> nat \<Rightarrow> chunk list \<Rightarrow> recovery_item list" where
  "chunk_items crc Z cmp pos [] = []"
| "chunk_items crc Z cmp pos (c # cs) =
     chunk_item crc Z cmp pos c # chunk_items crc Z cmp (pos + 8 + length (snd c)) cs"

lemma rr_collect_chunks:
  assumes "short_runs crc (rr_consecutive_skips s) cs" "\<forall>c \<in> set cs. chunk_ok (hm_compression (rr_header s)) c"
    and "\<not> rr_done s" "rr_pending_desync s = None"
    and "rd_rest (rr_reader s) = concat (map chunk_bytes cs) @ SENTINEL @ fb"
    and "rr_pos s + length (rd_rest (rr_reader s)) = rr_file_len s" "rr_file_len s < 2 ^ 63"
    and "fb = [] \<or> length fb = SEGMENT_FOOTER_LEN"
  shows "rr_collect crc Z s = chunk_items crc Z (hm_compression (rr_header s)) (rr_pos s) cs"
  using assms
proof (induction cs arbitrary: s)
  case Nil
  let ?r = "(rr_reader s)\<lparr>rd_rest := fb\<rparr>"
  have re: "read_exact 4 (rr_reader s) = Ok (SENTINEL, ?r)" using Nil by (simp add: read_exact_Ok)
  have z: "u32_from_le SENTINEL = 0" using u32_from_le_zero [of SENTINEL] by (simp add: unat_0_iff)
  have "is_sentinel_offset s (rr_pos s)"
    using Nil by (auto simp: is_sentinel_offset_def u64_saturating_add_def SEGMENT_FOOTER_LEN_def)
  then have "rr_next crc Z s = (None, s\<lparr>rr_reader := ?r, rr_done := True\<rparr>)"
    using Nil re z by (simp add: rr_next_def Let_def)
  then show ?case by (simp add: rr_collect_step)
next
  case (Cons c cs)
  let ?s = "rr_after crc s c ((rr_reader s)\<lparr>rd_rest := concat (map chunk_bytes cs) @ SENTINEL @ fb\<rparr>)"
  have nx: "rr_next crc Z s = (Some (chunk_item crc Z (hm_compression (rr_header s)) (rr_pos s) c), ?s)"
    using Cons.prems by (intro rr_next_chunk) auto
  have "rr_collect crc Z ?s = chunk_items crc Z (hm_compression (rr_header ?s)) (rr_pos ?s) cs"
    using Cons.prems by (intro Cons.IH) (auto simp: rr_after_def Let_def MAX_CONSECUTIVE_SKIPS_def split: if_splits)
  then show ?case by (simp add: rr_collect_step [OF nx])
qed

text \<open>
  Corruption costs only the corrupt records.  In a sealed segment (header, records,
  sentinel, footer) in which arbitrary records were damaged in their payload or checksum, as
  long as no three consecutive ones are, the forensic reader yields exactly one item per record, in
  order: every intact record's payload, and for every damaged one a \<open>Skipped\<close> at its
  offset; it never gives up.
\<close>

theorem recovery_reader_isolated_corruption:
  assumes "parse_segment_header hb = Ok h" "\<forall>c \<in> set cs. chunk_ok (hm_compression h) c"
    and "short_runs crc 0 cs" "length fb = SEGMENT_FOOTER_LEN"
    and "bs = hb @ concat (map chunk_bytes cs) @ SENTINEL @ fb" "length bs < 2 ^ 63"
  shows "\<exists>s. rr_open (Ok (file_reader bs)) (Ok (length bs)) = Ok s \<and>
    rr_collect crc Z s = chunk_items crc Z (hm_compression h) SEGMENT_HEADER_LEN cs"
proof -
  let ?s = "\<lparr>rr_reader = \<lparr>rd_rest = concat (map chunk_bytes cs) @ SENTINEL @ fb, rd_fail = None\<rparr>,
      rr_header = h, rr_pos = 24, rr_file_len = length bs, rr_done = False,
      rr_consecutive_skips = 0, rr_pending_desync = None\<rparr>"
  have "rr_open (Ok (file_reader bs)) (Ok (length bs)) = Ok ?s"
    using assms(1,5) by (auto simp: rr_open_exact file_reader_def)
  moreover have "rr_collect crc Z ?s = chunk_items crc Z (hm_compression (rr_header ?s)) (rr_pos ?s) cs"
    using assms header_magic_version [OF assms(1)] by (intro rr_collect_chunks) auto
  ultimately show ?thesis by (auto simp: SEGMENT_HEADER_LEN_def)
qed

text \<open>Two records with the first one's checksum damaged.\<close>

definition sample_damaged :: "chunk list" where
  "sample_damaged = [(0, ascii ''a''), (crc32_hash (ascii ''bc''), ascii ''bc'')]"

lemma sample_damaged_ok: "\<forall>c \<in> set sample_damaged. chunk_ok CompNone c" "short_runs crc32_hash 0 sample_damaged"
  by (auto simp: sample_damaged_def chunk_ok_def stored_ok_def MAX_PAYLOAD_HARD_CAP_def ascii_def
      MAX_CONSECUTIVE_SKIPS_def)

theorem recovery_reader_isolated_corruption_witness:
  "\<exists>s. rr_open (Ok (file_reader (build_segment_header 5 3 CompNone @
       concat (map chunk_bytes sample_damaged) @ SENTINEL @ replicate 32 0))) (Ok 79) = Ok s \<and>
     rr_collect crc32_hash zstd_verbatim s =
       [RecSkipped 24 1 CrcMismatchSkip, RecRecord (ascii ''bc'')]"
proof -
  have items: "chunk_items crc32_hash zstd_verbatim CompNone 24 sample_damaged =
      [RecSkipped 24 1 CrcMismatchSkip, RecRecord (ascii ''bc'')]"
    by (simp add: sample_damaged_def chunk_item_def chunk_intact_def crc32_eval ascii_def as_u32_def)
  have len: "length (concat (map chunk_bytes sample_damaged)) = 19" by (simp add: sample_damaged_def)
  show ?thesis
    using recovery_reader_isolated_corruption [OF parse_build_segment_header, where cs = sample_damaged
        and crc = crc32_hash and fb = "replicate 32 0" and Z = zstd_verbatim and now1 = 5 and shard1 = 3
        and cmp1 = CompNone] sample_damaged_ok items len
    by (simp add: SEGMENT_FOOTER_LEN_def SEGMENT_HEADER_LEN_def)
qed

theorem recovery_reader_accounts_witness:
  "\<exists>s hb rest. rr_open (Ok (file_reader (build_segment_header 5 3 CompNone @ [1, 2, 3]))) (Ok 27) = Ok s \<and>
     build_segment_header 5 3 CompNone @ [1, 2, 3] = hb @ rest \<and>
     rr_explains crc32_hash zstd_verbatim (hm_compression (rr_header s)) SEGMENT_HEADER_LEN
       (rr_collect crc32_hash zstd_verbatim s) rest"
proof -
  have "\<exists>s. rr_open (Ok (file_reader (build_segment_header 5 3 CompNone @ [1, 2, 3])))
      (Ok (length (build_segment_header 5 3 CompNone @ [1, 2, 3]))) = Ok s"
    using parse_build_segment_header [of 5 3 CompNone] by (auto simp: rr_open_exact file_reader_def)
  then obtain s where "rr_open (Ok (file_reader (build_segment_header 5 3 CompNone @ [1, 2, 3])))
      (Ok (length (build_segment_header 5 3 CompNone @ [1, 2, 3]))) = Ok s" by blast
  from recovery_reader_accounts [OF this, of crc32_hash zstd_verbatim] this show ?thesis by auto
qed

end
