(* ===== verification/Disk.thy ===== *)
theory Disk
  imports SegmentVerify "HOL-Library.AList"
begin

text \<open>
  The file system as the writer and the recovery of the WAB use it.  A world has the
  directory entries as they are now and as they are guaranteed to survive a power failure, and
  for every inode the bytes a reader sees and the bytes known to be on stable storage.  Every
  system call consumes the next outcome of \<open>w_io\<close>, an arbitrary sequence, so a theorem about
  all worlds covers every pattern of I/O failures.

  Two facts of POSIX file systems the code depends on are part of the model: a directory entry
  (a create or a rename) is durable only after an fsync of the directory, and after a failed
  fsync of a file the kernel may report success for the lost pages, so a later successful
  fsync of the same inode guarantees nothing.

  A path is a directory and a file name.  \<open>stable_records\<close> (theory \<open>Segment\<close>) is the sequence of records that stand
  on stable storage for the segment created at \<open>p\<close>, which is what a restart can recover.
\<close>

type_synonym path = "bytes \<times> bytes"

datatype io_outcome = IoDone | IoShort nat nat | IoFail io_kind   \<comment> \<open>IoShort: how many bytes, and the error number that ends a read\<close>

record world =
  w_dir :: "(path \<times> nat) list"
  w_ddir :: "path \<Rightarrow> nat option"
  w_data :: "nat \<Rightarrow> bytes"
  w_disk :: "nat \<Rightarrow> bytes"
  w_lost :: "nat \<Rightarrow> bool"
  w_next :: nat
  w_io :: "nat \<Rightarrow> io_outcome"
  w_clock :: "nat \<Rightarrow> i64"
  w_tick :: nat

definition w_entry :: "world \<Rightarrow> path \<Rightarrow> nat option" where
  "w_entry w p = map_of (w_dir w) p"

definition io_step :: "world \<Rightarrow> io_outcome \<times> world" where
  "io_step w = (w_io w (w_tick w), w\<lparr>w_tick := Suc (w_tick w)\<rparr>)"

definition unix_nanos_now :: "world \<Rightarrow> i64" where
  "unix_nanos_now w = w_clock w (w_tick w)"

section \<open>System calls\<close>

text \<open>\<open>OpenOptions::create_new\<close> (\<open>O_CREAT | O_EXCL\<close>).\<close>

definition fs_create_new :: "path \<Rightarrow> world \<Rightarrow> (io_kind + nat) \<times> world" where
  "fs_create_new p w =
     (case io_step w of
        (IoFail k, w) \<Rightarrow> (Err k, w)
      | (_, w) \<Rightarrow>
          if w_entry w p \<noteq> None then (Err AlreadyExists, w)
          else (Ok (w_next w),
                w\<lparr>w_dir := AList.update p (w_next w) (w_dir w), w_data := (w_data w)(w_next w := []),
                   w_disk := (w_disk w)(w_next w := []), w_lost := (w_lost w)(w_next w := False),
                   w_next := Suc (w_next w)\<rparr>))"

definition w_append :: "nat \<Rightarrow> bytes \<Rightarrow> world \<Rightarrow> world" where
  "w_append i bs w = w\<lparr>w_data := (w_data w)(i := w_data w i @ bs)\<rparr>"

text \<open>\<open>Write::write_all\<close>: on failure a prefix may have been written.\<close>

definition fs_write_all :: "nat \<Rightarrow> bytes \<Rightarrow> world \<Rightarrow> (io_kind + unit) \<times> world" where
  "fs_write_all i bs w =
     (case io_step w of
        (IoDone, w) \<Rightarrow> (Ok (), w_append i bs w)
      | (IoShort n _, w) \<Rightarrow> (if n < length bs then Err WriteZero else Ok (), w_append i (take n bs) w)
      | (IoFail k, w) \<Rightarrow> (Err k, w))"

text \<open>One \<open>write_vectored\<close>: how many bytes were taken.\<close>

definition fs_write_vectored :: "nat \<Rightarrow> bytes \<Rightarrow> world \<Rightarrow> (io_kind + nat) \<times> world" where
  "fs_write_vectored i bs w =
     (case io_step w of
        (IoDone, w) \<Rightarrow> (Ok (length bs), w_append i bs w)
      | (IoShort n _, w) \<Rightarrow> (Ok (min n (length bs)), w_append i (take n bs) w)
      | (IoFail k, w) \<Rightarrow> (Err k, w))"

definition fs_sync_data :: "nat \<Rightarrow> world \<Rightarrow> (io_kind + unit) \<times> world" where
  "fs_sync_data i w =
     (case io_step w of
        (IoFail k, w) \<Rightarrow> (Err k, w\<lparr>w_lost := (w_lost w)(i := True)\<rparr>)
      | (_, w) \<Rightarrow>
          (Ok (), if w_lost w i then w else w\<lparr>w_disk := (w_disk w)(i := w_data w i)\<rparr>))"

definition fs_sync_dir :: "bytes \<Rightarrow> world \<Rightarrow> (io_kind + unit) \<times> world" where
  "fs_sync_dir d w =
     (case io_step w of
        (IoFail k, w) \<Rightarrow> (Err k, w)
      | (_, w) \<Rightarrow> (Ok (), w\<lparr>w_ddir := (\<lambda>p. if fst p = d then w_entry w p else w_ddir w p)\<rparr>))"

definition fs_try_exists :: "path \<Rightarrow> world \<Rightarrow> (io_kind + bool) \<times> world" where
  "fs_try_exists p w =
     (case io_step w of (IoFail k, w) \<Rightarrow> (Err k, w) | (_, w) \<Rightarrow> (Ok (w_entry w p \<noteq> None), w))"

definition fs_rename :: "path \<Rightarrow> path \<Rightarrow> world \<Rightarrow> (io_kind + unit) \<times> world" where
  "fs_rename a b w =
     (case io_step w of
        (IoFail k, w) \<Rightarrow> (Err k, w)
      | (_, w) \<Rightarrow>
         (case w_entry w a of
            None \<Rightarrow> (Err NotFound, w)
          | Some i \<Rightarrow> (Ok (), w\<lparr>w_dir := AList.update b i (AList.delete a (w_dir w))\<rparr>)))"

definition fs_read_dir :: "bytes \<Rightarrow> world \<Rightarrow> (io_kind + path list) \<times> world" where
  "fs_read_dir d w =
     (case io_step w of
        (IoFail k, w) \<Rightarrow> (Err k, w)
      | (_, w) \<Rightarrow> (Ok (filter (\<lambda>p. fst p = d) (map fst (w_dir w))), w))"

lemmas fs_defs =
  fs_create_new_def fs_write_all_def fs_write_vectored_def fs_sync_data_def fs_sync_dir_def
  fs_try_exists_def fs_rename_def fs_read_dir_def io_step_def

section \<open>What is on stable storage\<close>

text \<open>The stored records whose frames stand at the front of a record stream.\<close>

function scan_frames :: "(bytes \<Rightarrow> u32) \<Rightarrow> compression \<Rightarrow> bytes \<Rightarrow> bytes list" where
  "scan_frames crc cmp bs =
     (let n = unat (u32_from_le (take 4 bs)); st = take n (drop 8 bs) in
      if 8 + n \<le> length bs \<and> stored_ok cmp st \<and> u32_from_le (take 4 (drop 4 bs)) = crc st
      then st # scan_frames crc cmp (drop (8 + n) bs)
      else [])"
  by pat_completeness auto
termination
  by (relation "measure (\<lambda>(_, _, bs). length bs)") auto

declare scan_frames.simps [simp del]

lemma scan_frames_frame:
  assumes "stored_ok cmp st"
  shows "scan_frames crc cmp (frame crc st @ bs) = st # scan_frames crc cmp bs"
  using assms stored_ok_unat [OF assms]
  by (subst scan_frames.simps) (simp add: frame_def Let_def)

lemma scan_frames_frames:
  "\<forall>st \<in> set sts. stored_ok cmp st \<Longrightarrow>
   scan_frames crc cmp (concat (map (frame crc) sts) @ bs) = sts @ scan_frames crc cmp bs"
  by (induction sts) (auto simp: scan_frames_frame)

lemma scan_frames_short: "length bs < 8 \<Longrightarrow> scan_frames crc cmp bs = []"
  by (subst scan_frames.simps) (simp add: Let_def)

lemma scan_frames_sentinel: "scan_frames crc cmp (SENTINEL @ bs) = []"
  using u32_from_le_zero [of SENTINEL]
  by (subst scan_frames.simps) (simp add: Let_def stored_ok_def)

text \<open>The scan splits a stream into frames and a remainder in which no frame starts.\<close>

lemma scan_frames_split:
  obtains rest where "bs = concat (map (frame crc) (scan_frames crc cmp bs)) @ rest"
    "\<forall>st \<in> set (scan_frames crc cmp bs). stored_ok cmp st" "scan_frames crc cmp rest = []"
proof (induction crc cmp bs arbitrary: thesis rule: scan_frames.induct)
  case (1 crc cmp bs)
  let ?n = "unat (u32_from_le (take 4 bs))" and ?st = "take (unat (u32_from_le (take 4 bs))) (drop 8 bs)"
  show ?case
  proof (cases "8 + ?n \<le> length bs \<and> stored_ok cmp ?st \<and> u32_from_le (take 4 (drop 4 bs)) = crc ?st")
    case True
    have len: "length (take 4 bs) = 4" "length (take 4 (drop 4 bs)) = 4" "length ?st = ?n" using True by auto
    have "u32_le (as_u32 (length ?st)) = take 4 bs" "u32_le (crc ?st) = take 4 (drop 4 bs)"
      using len True u32_le_from_le [of "take 4 (drop 4 bs)"] by simp_all
    moreover have "take 4 bs @ take 4 (drop 4 bs) @ ?st @ drop (8 + ?n) bs = bs"
    proof -
      have "drop 8 bs = drop 4 (drop 4 bs)" "drop (8 + ?n) bs = drop ?n (drop 8 bs)" by (simp_all add: ac_simps)
      then show ?thesis by (metis append_take_drop_id)
    qed
    ultimately have bs: "bs = frame crc ?st @ drop (8 + ?n) bs" by (simp add: frame_def)
    from True have "\<exists>r. drop (8 + ?n) bs = concat (map (frame crc) (scan_frames crc cmp (drop (8 + ?n) bs))) @ r \<and>
        (\<forall>st \<in> set (scan_frames crc cmp (drop (8 + ?n) bs)). stored_ok cmp st) \<and> scan_frames crc cmp r = []"
      using 1(1) [OF refl refl] by metis
    then obtain r where r: "drop (8 + ?n) bs = concat (map (frame crc) (scan_frames crc cmp (drop (8 + ?n) bs))) @ r"
      "\<forall>st \<in> set (scan_frames crc cmp (drop (8 + ?n) bs)). stored_ok cmp st" "scan_frames crc cmp r = []" by blast
    have "scan_frames crc cmp bs = ?st # scan_frames crc cmp (drop (8 + ?n) bs)"
      using True by (subst scan_frames.simps) (simp add: Let_def)
    with bs r True show ?thesis by (intro 1(2) [of r]) auto
  next
    case False
    then have "scan_frames crc cmp bs = []" by (subst scan_frames.simps) (simp add: Let_def)
    then show ?thesis by (intro 1(2) [of bs]) auto
  qed
qed

lemma scan_frames_mono: "prefix a b \<Longrightarrow> prefix (scan_frames crc cmp a) (scan_frames crc cmp b)"
proof -
  assume "prefix a b"
  then obtain c where b: "b = a @ c" by (auto simp: prefix_def)
  obtain rest where a: "a = concat (map (frame crc) (scan_frames crc cmp a)) @ rest"
    "\<forall>st \<in> set (scan_frames crc cmp a). stored_ok cmp st" by (rule scan_frames_split)
  have "b = concat (map (frame crc) (scan_frames crc cmp a)) @ rest @ c" using a(1) b by (metis append_assoc)
  then have "scan_frames crc cmp b = scan_frames crc cmp a @ scan_frames crc cmp (rest @ c)"
    using scan_frames_frames [OF a(2), of crc "rest @ c"] by metis
  then show ?thesis by simp
qed

text \<open>The records of a segment file, by its header.\<close>

definition file_records :: "(bytes \<Rightarrow> u32) \<Rightarrow> bytes \<Rightarrow> bytes list" where
  "file_records crc bs =
     (case parse_segment_header (take SEGMENT_HEADER_LEN bs) of
        Inl _ \<Rightarrow> []
      | Inr h \<Rightarrow> scan_frames crc (hm_compression h) (drop SEGMENT_HEADER_LEN bs))"

lemma file_records_mono: "prefix a b \<Longrightarrow> prefix (file_records crc a) (file_records crc b)"
proof (cases "length a < 24")
  case True
  then have "parse_segment_header (take 24 a) = Err (HdrWrongLength (length a))"
    by (simp add: parse_segment_header_def SEGMENT_HEADER_LEN_def)
  then show ?thesis by (simp add: file_records_def SEGMENT_HEADER_LEN_def)
next
  case False
  assume ab: "prefix a b"
  then have "take 24 b = take 24 a" "prefix (drop 24 a) (drop 24 b)"
    using False by (auto simp: prefix_def)
  then show ?thesis by (auto simp: file_records_def SEGMENT_HEADER_LEN_def scan_frames_mono split: sum.split)
qed

lemma file_records_image:
  assumes "parse_segment_header hb = Ok h" "\<forall>st \<in> set sts. stored_ok (hm_compression h) st"
  shows "file_records crc (hb @ concat (map (frame crc) sts)) = sts"
    and "file_records crc (hb @ concat (map (frame crc) sts) @ SENTINEL @ fb) = sts"
proof -
  have "length hb = 24" using header_magic_version [OF assms(1)] by simp
  then show "file_records crc (hb @ concat (map (frame crc) sts)) = sts"
    and "file_records crc (hb @ concat (map (frame crc) sts) @ SENTINEL @ fb) = sts"
    using scan_frames_frames [OF assms(2), of crc "[]"] scan_frames_frames [OF assms(2), of crc "SENTINEL @ fb"]
    by (simp_all add: file_records_def SEGMENT_HEADER_LEN_def assms(1) scan_frames_short scan_frames_sentinel)
qed

end
