(* ===== verification/SegmentName.thy ===== *)
theory SegmentName
  imports Disk
begin

text \<open>
  How segments are named, \<open>weir-server/src/wab/segment.rs\<close>: \<open>seg_<counter, 8 digits>.wab\<close>
  inside a shard directory, the sealed name, the address \<open><shard-dir>/<file>\<close> that record ids
  and coordinates use, and the parsers that read counters and shard ids back.

  Main results: the counter of a segment reads back from its name in every lifecycle state, so
  the start-up scan sees sealed and confirmed segments too; and the address of a sealed segment
  determines its counter, so two segments of a shard never share one.
\<close>

section \<open>Decimal numbers\<close>

text \<open>\<open>{n}\<close> and \<open>{n:0width$}\<close> of \<open>format!\<close>, and \<open>str::parse\<close> for unsigned integers.\<close>

definition dec_digit :: "nat \<Rightarrow> u8" where "dec_digit d = of_nat (48 + d)"

fun dec :: "nat \<Rightarrow> bytes" where
  "dec n = (if n < 10 then [dec_digit n] else dec (n div 10) @ [dec_digit (n mod 10)])"

declare dec.simps [simp del]

definition dec_pad :: "nat \<Rightarrow> nat \<Rightarrow> bytes" where
  "dec_pad width n = replicate (width - length (dec n)) 48 @ dec n"

definition is_ascii_digit :: "u8 \<Rightarrow> bool" where
  "is_ascii_digit c \<longleftrightarrow> 48 \<le> c \<and> c \<le> 57"

definition dec_value :: "bytes \<Rightarrow> nat" where
  "dec_value ds = foldl (\<lambda>a d. 10 * a + (unat d - 48)) 0 ds"

definition parse_digits :: "nat \<Rightarrow> bytes \<Rightarrow> nat option" where
  "parse_digits limit ds =
     (if ds \<noteq> [] \<and> list_all is_ascii_digit ds \<and> dec_value ds < limit then Some (dec_value ds) else None)"

text \<open>\<open>usize::from_str\<close> accepts one leading plus sign.\<close>

definition parse_usize :: "bytes \<Rightarrow> nat option" where
  "parse_usize s = parse_digits (2 ^ 64) (case s of c # cs \<Rightarrow> if c = 0x2B then cs else s | [] \<Rightarrow> [])"

lemma unat_dec_digit: "d < 10 \<Longrightarrow> unat (dec_digit d) = 48 + d"
  by (simp add: dec_digit_def unat_of_nat_eq del: of_nat_add)

lemma is_digit_dec_digit: "d < 10 \<Longrightarrow> is_ascii_digit (dec_digit d)"
  by (simp add: is_ascii_digit_def word_le_nat_alt unat_dec_digit)

lemma dec_digits: "list_all is_ascii_digit (dec n)"
  by (induction n rule: dec.induct) (subst dec.simps, auto simp: is_digit_dec_digit)

lemma dec_not_Nil [simp]: "dec n \<noteq> []"
  by (subst dec.simps) simp

lemma foldl_dec_value:
  "foldl (\<lambda>a d. 10 * a + (unat d - 48)) a (ds @ [d]) = 10 * foldl (\<lambda>a d. 10 * a + (unat d - 48)) a ds + (unat (d :: u8) - 48)"
  by simp

lemma dec_value_dec [simp]: "dec_value (dec n) = n"
proof (induction n rule: dec.induct)
  case (1 n)
  show ?case
  proof (cases "n < 10")
    case True
    then show ?thesis by (subst dec.simps) (simp add: dec_value_def unat_dec_digit)
  next
    case False
    with 1 have "dec_value (dec (n div 10)) = n div 10" by simp
    moreover have "n mod 10 < 10" by simp
    ultimately show ?thesis
      using False by (subst dec.simps) (simp add: dec_value_def unat_dec_digit)
  qed
qed

lemma dec_value_zeros: "dec_value (replicate k 48 @ ds) = dec_value ds"
  by (induction k) (simp_all add: dec_value_def)

lemma dec_pad_value [simp]: "dec_value (dec_pad k n) = n"
  by (simp add: dec_pad_def dec_value_zeros)

lemma dec_pad_digits: "list_all is_ascii_digit (dec_pad k n)"
  using dec_digits [of n] by (auto simp: dec_pad_def list_all_iff is_ascii_digit_def)

lemma dec_pad_not_Nil [simp]: "dec_pad k n \<noteq> []"
  by (simp add: dec_pad_def)

lemma dec_pad_inject: "dec_pad k m = dec_pad k n \<longleftrightarrow> m = n"
  by (metis dec_pad_value)

section \<open>Names and paths\<close>

definition segment_file_name :: "nat \<Rightarrow> bytes" where
  "segment_file_name counter = ascii ''seg_'' @ dec_pad 8 counter @ EXT_ACTIVE"

definition segment_path :: "bytes \<Rightarrow> nat \<Rightarrow> path" where
  "segment_path shard_dir counter = (shard_dir, segment_file_name counter)"

definition strip_prefix :: "bytes \<Rightarrow> bytes \<Rightarrow> bytes option" where
  "strip_prefix pre s = (if prefix pre s then Some (drop (length pre) s) else None)"

definition sealed_path_for :: "path \<Rightarrow> path" where
  "sealed_path_for p =
     (fst p, snd p @ (case strip_prefix EXT_ACTIVE EXT_SEALED of Some x \<Rightarrow> x | None \<Rightarrow> []))"

text \<open>\<open>Path::file_name\<close> of a directory: what follows the last separator.\<close>

definition dir_file_name :: "bytes \<Rightarrow> bytes option" where
  "dir_file_name d =
     (let name = rev (takeWhile (\<lambda>c. c \<noteq> 0x2F) (rev d)) in if name = [] then None else Some name)"

definition segment_identity :: "path \<Rightarrow> bytes" where
  "segment_identity p =
     (case dir_file_name (fst p) of
        Some shard \<Rightarrow> shard @ ascii ''/'' @ snd p
      | None \<Rightarrow> snd p)"

definition segment_counter_from_path :: "path \<Rightarrow> nat option" where
  "segment_counter_from_path p =
     (case strip_prefix (ascii ''seg_'') (snd p) of
        None \<Rightarrow> None
      | Some rest \<Rightarrow>
          (let digits = takeWhile is_ascii_digit rest in
           if digits = [] then None else parse_digits (2 ^ 64) digits))"

definition shard_id_from_path :: "path \<Rightarrow> nat option" where
  "shard_id_from_path p =
     (case strip_prefix (ascii ''shard_'') (snd p) of None \<Rightarrow> None | Some s \<Rightarrow> parse_usize s)"

lemma strip_prefix_append [simp]: "strip_prefix a (a @ b) = Some b"
  by (simp add: strip_prefix_def)

lemma sealed_path_for_eq: "sealed_path_for p = (fst p, snd p @ ascii ''.sealed'')"
  by (simp add: sealed_path_for_def strip_prefix_def EXT_ACTIVE_def EXT_SEALED_def ascii_def)

lemma sealed_segment_path:
  "sealed_path_for (segment_path d n) = (d, ascii ''seg_'' @ dec_pad 8 n @ EXT_SEALED)"
  by (simp add: sealed_path_for_eq segment_path_def segment_file_name_def EXT_ACTIVE_def EXT_SEALED_def ascii_def)

lemma ext_first: "ext \<in> {EXT_ACTIVE, EXT_SEALED, EXT_CONFIRMED} \<Longrightarrow> \<exists>r. ext = 0x2E # r"
  by (auto simp: EXT_ACTIVE_def EXT_SEALED_def EXT_CONFIRMED_def ascii_def)

lemma takeWhile_digits_ext:
  assumes "ext \<in> {EXT_ACTIVE, EXT_SEALED, EXT_CONFIRMED}"
  shows "takeWhile is_ascii_digit (dec_pad 8 n @ ext) = dec_pad 8 n"
proof -
  obtain r where "ext = 0x2E # r" using ext_first [OF assms] by blast
  then show ?thesis
    using dec_pad_digits [of 8 n]
    by (simp add: takeWhile_append list_all_iff is_ascii_digit_def)
qed

text \<open>
  A segment's counter reads back from its name whatever its lifecycle state: active,
  sealed or confirmed.  The start-up scan therefore counts recovered-but-undrained segments.
\<close>

theorem segment_counter_roundtrip:
  assumes "n < 2 ^ 64" "ext \<in> {EXT_ACTIVE, EXT_SEALED, EXT_CONFIRMED}"
  shows "segment_counter_from_path (d, ascii ''seg_'' @ dec_pad 8 n @ ext) = Some n"
  using assms dec_pad_digits [of 8 n]
  by (simp add: segment_counter_from_path_def takeWhile_digits_ext [OF assms(2)] parse_digits_def Let_def)

theorem segment_counter_roundtrip_witness:
  "segment_counter_from_path (ascii ''/wab/shard_00'', ascii ''seg_'' @ dec_pad 8 42 @ EXT_SEALED) = Some 42"
  using segment_counter_roundtrip [of 42 EXT_SEALED "ascii ''/wab/shard_00''"] by simp

lemma segment_path_inject: "segment_path d m = segment_path d n \<longleftrightarrow> m = n"
  by (simp add: segment_path_def segment_file_name_def dec_pad_inject)

lemma segment_path_counter:
  "n < 2 ^ 64 \<Longrightarrow> segment_counter_from_path (segment_path d n) = Some n"
  "n < 2 ^ 64 \<Longrightarrow> segment_counter_from_path (sealed_path_for (segment_path d n)) = Some n"
  using dec_pad_digits [of 8 n] takeWhile_digits_ext [of EXT_ACTIVE n] takeWhile_digits_ext [of EXT_SEALED n]
  unfolding sealed_segment_path
  by (simp_all add: segment_path_def segment_file_name_def segment_counter_from_path_def parse_digits_def Let_def)

lemma sealed_path_inject [simp]: "sealed_path_for p = sealed_path_for q \<longleftrightarrow> p = q"
  by (auto simp: sealed_path_for_eq prod_eq_iff)

lemma dir_file_name_no_sep: "dir_file_name d = Some s \<Longrightarrow> 0x2F \<notin> set s"
  by (auto simp: dir_file_name_def Let_def dest: set_takeWhileD split: if_splits)

text \<open>
  The address of a sealed segment identifies it among all shards and counters.  For shard
  directories with a last component, equal addresses \<open><shard-dir>/<file>\<close> come from shard
  directories of the same name and from the same counter, so records of different segments
  never share an identity.
\<close>

theorem segment_identity_injective:
  assumes "dir_file_name d1 = Some s1" "dir_file_name d2 = Some s2"
    and "segment_identity (sealed_path_for (segment_path d1 m)) = segment_identity (sealed_path_for (segment_path d2 n))"
  shows "s1 = s2 \<and> m = n"
proof -
  have split: "a = b \<and> x = y"
    if "0x2F \<notin> set a" "0x2F \<notin> set b" "a @ 0x2F # x = b @ 0x2F # y" for a b x y :: bytes
  proof -
    have "takeWhile (\<lambda>c. c \<noteq> 0x2F) (a @ 0x2F # x) = a" "takeWhile (\<lambda>c. c \<noteq> 0x2F) (b @ 0x2F # y) = b"
      using that(1,2) by (auto simp: takeWhile_append)
    with that(3) show ?thesis by auto
  qed
  have "s1 @ 0x2F # (ascii ''seg_'' @ dec_pad 8 m @ EXT_SEALED) = s2 @ 0x2F # (ascii ''seg_'' @ dec_pad 8 n @ EXT_SEALED)"
    using assms by (simp add: segment_identity_def sealed_segment_path ascii_def)
  from split [OF dir_file_name_no_sep [OF assms(1)] dir_file_name_no_sep [OF assms(2)] this] show ?thesis
    by (simp add: dec_pad_inject)
qed

theorem segment_identity_injective_witness:
  "segment_identity (sealed_path_for (segment_path (ascii ''/wab/shard_00'') 1)) \<noteq>
   segment_identity (sealed_path_for (segment_path (ascii ''/wab/shard_01'') 1))"
  using segment_identity_injective [of "ascii ''/wab/shard_00''" "ascii ''shard_00''"
      "ascii ''/wab/shard_01''" "ascii ''shard_01''" 1 1]
  by (auto simp: dir_file_name_def ascii_def)

end
