(* ===== verification/Segment.thy ===== *)
theory Segment
  imports SegmentName
begin

text \<open>
  An active segment file, \<open>WabSegment\<close> of \<open>weir-server/src/wab/segment.rs\<close>: creation,
  appending a record with one vectored write, fsync, and the seal (sentinel, footer, fsync,
  rename, directory fsync).  The running checksum is the streaming hasher \<open>crc_ops\<close>.  The
  byte and record counters are natural numbers: the source's \<open>checked_add\<close> panics beyond
  \<open>u64::MAX\<close> bytes in one file, which is outside the model.

  Main results: an open segment's accounting always agrees with the bytes in its file, a
  successful fsync puts exactly its records on stable storage, and a sealed segment is an image
  that \<open>verify_sealed_segment\<close> accepts and the reader reads back.  No operation, failing or
  not, ever shrinks what is on stable storage.
\<close>

record 'h wab_segment =
  ws_file :: nat
  ws_path :: path
  ws_bytes_written :: nat
  ws_record_count :: nat
  ws_data_bytes :: nat
  ws_file_crc_hasher :: 'h
  ws_compression :: compression
  ws_poisoned :: bool

definition ws_create ::
  "'h crc_ops \<Rightarrow> path \<Rightarrow> u16 \<Rightarrow> compression \<Rightarrow> world \<Rightarrow> (io_kind + 'h wab_segment) \<times> world"
where
  "ws_create C path shard_id cmp w =
     (case fs_create_new path w of
        (Inl k, w) \<Rightarrow> (Err k, w)
      | (Inr file, w) \<Rightarrow>
      let header = build_segment_header (unix_nanos_now w) shard_id cmp;
          hasher = crc_update C (crc_new C) header;
          seg = \<lparr>ws_file = file, ws_path = path, ws_bytes_written = SEGMENT_HEADER_LEN,
                 ws_record_count = 0, ws_data_bytes = 0, ws_file_crc_hasher = hasher,
                 ws_compression = cmp, ws_poisoned = False\<rparr> in
      case fs_write_all file header w of
        (Inl k, w) \<Rightarrow> (Err k, w)
      | (Inr _, w) \<Rightarrow>
      case fs_sync_dir (fst path) w of
        (Inl k, w) \<Rightarrow> (Err k, w)
      | (Inr _, w) \<Rightarrow> (Ok seg, w))"

definition ws_write_record ::
  "'h crc_ops \<Rightarrow> 'h wab_segment \<Rightarrow> bytes \<Rightarrow> world \<Rightarrow> (io_kind + unit) \<times> 'h wab_segment \<times> world"
where
  "ws_write_record C seg payload w =
     (if ws_poisoned seg then (Err (OtherIo 0), seg, w)
      else if payload = [] then (Err InvalidInput, seg, w)
      else case u32_try_from (length payload) of
        None \<Rightarrow> (Err InvalidInput, seg, w)
      | Some payload_len \<Rightarrow>
      if length payload > stored_cap (ws_compression seg) then (Err InvalidInput, seg, w)
      else let crc = crc_hash C payload; len_bytes = u32_le payload_len; crc_bytes = u32_le crc;
               total = length len_bytes + length crc_bytes + length payload in
      case fs_write_vectored (ws_file seg) (len_bytes @ crc_bytes @ payload) w of
        (Inl k, w) \<Rightarrow> (Err k, seg\<lparr>ws_poisoned := True\<rparr>, w)
      | (Inr n, w) \<Rightarrow>
          if n \<noteq> total then (Err WriteZero, seg\<lparr>ws_poisoned := True\<rparr>, w)
          else (Ok (),
            seg\<lparr>ws_file_crc_hasher :=
                  crc_update C (crc_update C (crc_update C (ws_file_crc_hasher seg) len_bytes) crc_bytes) payload,
                 ws_bytes_written := ws_bytes_written seg + 8 + length payload,
                 ws_record_count := ws_record_count seg + 1,
                 ws_data_bytes := ws_data_bytes seg + length payload\<rparr>, w))"

definition ws_fsync :: "'h wab_segment \<Rightarrow> world \<Rightarrow> (io_kind + unit) \<times> world" where
  "ws_fsync seg w = fs_sync_data (ws_file seg) w"

definition ws_should_rotate :: "'h wab_segment \<Rightarrow> nat \<Rightarrow> bool" where
  "ws_should_rotate seg max_bytes \<longleftrightarrow> ws_bytes_written seg \<ge> max_bytes"

definition ws_finalize_to_disk ::
  "'h crc_ops \<Rightarrow> 'h wab_segment \<Rightarrow> world \<Rightarrow> (io_kind + path) \<times> world"
where
  "ws_finalize_to_disk C seg w =
     (let sealed_at = unix_nanos_now w;
          file_crc32 = crc_finalize C (ws_file_crc_hasher seg) in
      case fs_write_all (ws_file seg) build_sentinel w of
        (Inl k, w) \<Rightarrow> (Err k, w)
      | (Inr _, w) \<Rightarrow>
      let footer = build_segment_footer (of_nat (ws_record_count seg)) (of_nat (ws_data_bytes seg))
                     file_crc32 sealed_at in
      case fs_write_all (ws_file seg) footer w of
        (Inl k, w) \<Rightarrow> (Err k, w)
      | (Inr _, w) \<Rightarrow>
      case fs_sync_data (ws_file seg) w of
        (Inl k, w) \<Rightarrow> (Err k, w)
      | (Inr _, w) \<Rightarrow> (Ok (ws_path seg), w))"

definition ws_seal ::
  "'h crc_ops \<Rightarrow> 'h wab_segment \<Rightarrow> world \<Rightarrow> (io_kind + path) \<times> world"
where
  "ws_seal C seg w =
     (case ws_finalize_to_disk C seg w of
        (Inl k, w) \<Rightarrow> (Err k, w)
      | (Inr active_path, w) \<Rightarrow>
      let sealed_path = sealed_path_for active_path in
      case fs_try_exists sealed_path w of
        (Inl k, w) \<Rightarrow> (Err k, w)
      | (Inr True, w) \<Rightarrow> (Err AlreadyExists, w)
      | (Inr False, w) \<Rightarrow>
      case fs_rename active_path sealed_path w of
        (Inl k, w) \<Rightarrow> (Err k, w)
      | (Inr _, w) \<Rightarrow>
      case fs_sync_dir (fst sealed_path) w of
        (Inl k, w) \<Rightarrow> (Err k, w)
      | (Inr _, w) \<Rightarrow> (Ok sealed_path, w))"

section \<open>Segments and stable storage\<close>

text \<open>Paths are pairs, but quantified as wholes.\<close>

declare split_paired_All [simp del] split_paired_Ex [simp del]

text \<open>
  The inode of the segment created at \<open>p\<close>: linked under its active or its sealed name, now
  and after a crash.
\<close>

definition active_name :: "path \<Rightarrow> bool" where
  "active_name p \<longleftrightarrow> suffix EXT_ACTIVE (snd p)"

definition cur_inode :: "world \<Rightarrow> path \<Rightarrow> nat option" where
  "cur_inode w p = (case w_entry w p of Some i \<Rightarrow> Some i | None \<Rightarrow> w_entry w (sealed_path_for p))"

definition dur_inode :: "world \<Rightarrow> path \<Rightarrow> nat option" where
  "dur_inode w p = (case w_ddir w p of Some i \<Rightarrow> Some i | None \<Rightarrow> w_ddir w (sealed_path_for p))"

definition stable_records :: "(bytes \<Rightarrow> u32) \<Rightarrow> world \<Rightarrow> path \<Rightarrow> bytes list" where
  "stable_records crc w p = (case dur_inode w p of None \<Rightarrow> [] | Some i \<Rightarrow> file_records crc (w_disk w i))"

text \<open>
  The invariant of the shard directories: inode numbers are fresh, stable bytes are a prefix of
  the current ones, what is durably linked is still linked, and no segment has two files.
\<close>

definition world_wf :: "world \<Rightarrow> bool" where
  "world_wf w \<longleftrightarrow>
     (\<forall>p i. w_entry w p = Some i \<longrightarrow> i < w_next w) \<and>
     (\<forall>p i. w_ddir w p = Some i \<longrightarrow> i < w_next w) \<and>
     (\<forall>i. prefix (w_disk w i) (w_data w i)) \<and>
     (\<forall>p i. active_name p \<longrightarrow> dur_inode w p = Some i \<longrightarrow> cur_inode w p = Some i) \<and>
     (\<forall>p. active_name p \<longrightarrow> w_entry w p = None \<or> w_entry w (sealed_path_for p) = None)"

definition grows :: "(bytes \<Rightarrow> u32) \<Rightarrow> world \<Rightarrow> world \<Rightarrow> bool" where
  "grows crc w w' \<longleftrightarrow> (\<forall>p. active_name p \<longrightarrow> prefix (stable_records crc w p) (stable_records crc w' p))"

text \<open>No file, current or durable, for the segment at \<open>p\<close>.\<close>

definition unused :: "path \<Rightarrow> world \<Rightarrow> bool" where
  "unused p w \<longleftrightarrow> cur_inode w p = None \<and> dur_inode w p = None"

lemma grows_refl [simp]: "grows crc w w"
  by (simp add: grows_def)

lemma grows_trans [trans]: "grows crc a b \<Longrightarrow> grows crc b c \<Longrightarrow> grows crc a c"
  by (meson grows_def prefix_order.trans)

lemma active_sealed_apart:
  assumes "active_name p" shows "\<not> active_name (sealed_path_for q)" "sealed_path_for q \<noteq> p" "p \<noteq> sealed_path_for q"
proof -
  show s: "\<not> active_name (sealed_path_for q)"
    by (auto simp: active_name_def sealed_path_for_eq suffix_def append_eq_append_conv2 EXT_ACTIVE_def ascii_def
        append_eq_Cons_conv Cons_eq_append_conv)
  show "sealed_path_for q \<noteq> p" "p \<noteq> sealed_path_for q" using s assms by auto
qed

lemma active_segment_path [simp]: "active_name (segment_path d n)"
  by (simp add: active_name_def segment_path_def segment_file_name_def suffix_def)

lemma w_entry_update [simp]: "w_entry (w\<lparr>w_dir := AList.update p i (w_dir w)\<rparr>) q = (if q = p then Some i else w_entry w q)"
  by (simp add: w_entry_def update_conv')

text \<open>Worlds that differ only in the call counter.\<close>

definition io_tick :: "world \<Rightarrow> world" where
  "io_tick w = w\<lparr>w_tick := Suc (w_tick w)\<rparr>"

lemma io_tick_simps [simp]:
  "w_dir (io_tick w) = w_dir w" "w_ddir (io_tick w) = w_ddir w" "w_data (io_tick w) = w_data w"
  "w_disk (io_tick w) = w_disk w" "w_lost (io_tick w) = w_lost w" "w_next (io_tick w) = w_next w"
  "w_entry (io_tick w) = w_entry w"
  by (simp_all add: io_tick_def w_entry_def fun_eq_iff)

lemma io_step_tick: "io_step w = (w_io w (w_tick w), io_tick w)"
  by (simp add: io_step_def io_tick_def)

lemma inode_tick [simp]: "cur_inode (io_tick w) = cur_inode w" "dur_inode (io_tick w) = dur_inode w"
  by (rule ext, simp add: cur_inode_def dur_inode_def cong: option.case_cong)+

lemma view_tick [simp]:
  "stable_records crc (io_tick w) = stable_records crc w" "world_wf (io_tick w) = world_wf w" "unused p (io_tick w) = unused p w"
  "grows crc w (io_tick v) = grows crc w v"
  by (simp_all add: stable_records_def world_wf_def unused_def grows_def fun_eq_iff cong: option.case_cong)

text \<open>
  What an operation on the segment at \<open>p\<close> may do to the world: keep the invariant, add to
  stable storage, leave the paths of other segments unused.
\<close>

definition evolves :: "(bytes \<Rightarrow> u32) \<Rightarrow> path \<Rightarrow> world \<Rightarrow> world \<Rightarrow> bool" where
  "evolves crc p w w' \<longleftrightarrow> world_wf w' \<and> grows crc w w' \<and>
     (\<forall>q. active_name q \<longrightarrow> q \<noteq> p \<longrightarrow> unused q w \<longrightarrow> unused q w')"

lemma evolves_trans: "evolves crc p a b \<Longrightarrow> evolves crc p b c \<Longrightarrow> evolves crc p a c"
  by (auto simp: evolves_def intro: grows_trans)

lemma evolves_wf: "evolves crc p a b \<Longrightarrow> world_wf b"
  by (simp add: evolves_def)

lemma evolves_tick: "world_wf w \<Longrightarrow> evolves crc p w (io_tick w)"
  by (simp add: evolves_def)

lemma evolves_tick_left [simp]: "evolves crc p (io_tick w) v = evolves crc p w v"
  by (simp add: evolves_def grows_def)

text \<open>The elementary changes.\<close>

lemma cur_inode_cong: "w_entry w' = w_entry w \<Longrightarrow> cur_inode w' = cur_inode w"
  by (rule ext) (simp only: cur_inode_def)

lemma dur_inode_cong: "w_ddir w' = w_ddir w \<Longrightarrow> dur_inode w' = dur_inode w"
  by (rule ext) (simp only: dur_inode_def)

lemma stable_records_cong: "dur_inode w' = dur_inode w \<Longrightarrow> w_disk w' = w_disk w \<Longrightarrow> stable_records crc w' = stable_records crc w"
  by (rule ext) (simp only: stable_records_def)

lemma w_entry_cong: "w_dir w' = w_dir w \<Longrightarrow> w_entry w' = w_entry w"
  by (rule ext) (simp only: w_entry_def)

lemma create_evolves:
  assumes "world_wf w" "active_name p" "unused p w"
  defines "w' \<equiv> w\<lparr>w_dir := AList.update p (w_next w) (w_dir w), w_data := (w_data w)(w_next w := []),
                 w_disk := (w_disk w)(w_next w := []), w_lost := (w_lost w)(w_next w := False),
                 w_next := Suc (w_next w)\<rparr>"
  shows "evolves crc p w w'"
proof -
  have e: "w_entry w' q = (if q = p then Some (w_next w) else w_entry w q)" for q
    by (simp add: w'_def w_entry_def update_conv')
  have d: "w_ddir w' = w_ddir w" "dur_inode w' = dur_inode w"
    by (simp add: w'_def, rule dur_inode_cong, simp add: w'_def)
  have c: "cur_inode w' q = (if q = p then Some (w_next w) else cur_inode w q)" if "active_name q" for q
    using active_sealed_apart [OF assms(2)] by (simp add: cur_inode_def e split: option.split)
  have "stable_records crc w' q = stable_records crc w q" for q
  proof (cases "dur_inode w q")
    case (Some i)
    then have "i < w_next w" using assms(1) by (auto simp: dur_inode_def world_wf_def split: option.splits)
    moreover have "w_disk w' = (w_disk w)(w_next w := [])" by (simp add: w'_def)
    ultimately show ?thesis by (simp add: stable_records_def d Some)
  qed (simp add: stable_records_def d)
  moreover have "world_wf w'"
    unfolding world_wf_def
  proof (intro conjI allI impI)
    have n: "w_next w' = Suc (w_next w)" by (simp add: w'_def)
    fix q i
    show "w_entry w' q = Some i \<Longrightarrow> i < w_next w'" "w_ddir w' q = Some i \<Longrightarrow> i < w_next w'"
      using assms(1) by (auto simp: e d n world_wf_def less_Suc_eq split: if_splits)
  next
    fix i show "prefix (w_disk w' i) (w_data w' i)" using assms(1) by (simp add: w'_def world_wf_def)
  next
    fix q i assume "active_name q" "dur_inode w' q = Some i"
    then show "cur_inode w' q = Some i" using assms(1,3) by (auto simp: c d world_wf_def unused_def)
  next
    fix q assume "active_name q"
    then show "w_entry w' q = None \<or> w_entry w' (sealed_path_for q) = None"
      using assms(1,3) active_sealed_apart [OF assms(2)]
      by (auto simp: e world_wf_def unused_def cur_inode_def split: option.splits)
  qed
  ultimately show ?thesis by (auto simp: evolves_def grows_def unused_def c d)
qed

lemma append_evolves:
  assumes "world_wf w" shows "evolves crc p w (w_append i bs w)"
proof -
  have e: "w_entry (w_append i bs w) = w_entry w" by (rule w_entry_cong) (simp add: w_append_def)
  have c: "cur_inode (w_append i bs w) = cur_inode w" "dur_inode (w_append i bs w) = dur_inode w"
    by (rule cur_inode_cong [OF e], rule dur_inode_cong, simp add: w_append_def)
  have "stable_records crc (w_append i bs w) = stable_records crc w"
    by (rule stable_records_cong [OF c(2)]) (simp add: w_append_def)
  moreover have "world_wf (w_append i bs w)"
    using assms unfolding world_wf_def c e by (auto simp: w_append_def prefix_append)
  ultimately show ?thesis by (auto simp: evolves_def grows_def unused_def c)
qed

lemma sync_evolves:
  assumes "world_wf w" shows "evolves crc p w (w\<lparr>w_disk := (w_disk w)(i := w_data w i)\<rparr>)"
proof -
  let ?w = "w\<lparr>w_disk := (w_disk w)(i := w_data w i)\<rparr>"
  have e: "w_entry ?w = w_entry w" by (rule w_entry_cong) simp
  have c: "cur_inode ?w = cur_inode w" "dur_inode ?w = dur_inode w"
    by (rule cur_inode_cong [OF e], rule dur_inode_cong, simp)
  have "prefix (file_records crc (w_disk w j)) (file_records crc (w_disk ?w j))" for j
    using assms by (auto simp: world_wf_def intro: file_records_mono)
  then have "prefix (stable_records crc w q) (stable_records crc ?w q)" for q
    by (auto simp: stable_records_def c split: option.split)
  moreover have "world_wf ?w" using assms unfolding world_wf_def c e by auto
  ultimately show ?thesis by (auto simp: evolves_def grows_def unused_def c)
qed

lemma lost_evolves:
  assumes "world_wf w" shows "evolves crc p w (w\<lparr>w_lost := l\<rparr>)"
proof -
  let ?w = "w\<lparr>w_lost := l\<rparr>"
  have e: "w_entry ?w = w_entry w" by (rule w_entry_cong) simp
  have c: "cur_inode ?w = cur_inode w" "dur_inode ?w = dur_inode w"
    by (rule cur_inode_cong [OF e], rule dur_inode_cong, simp)
  have "stable_records crc ?w = stable_records crc w" by (rule stable_records_cong [OF c(2)]) simp
  moreover have "world_wf ?w" using assms unfolding world_wf_def c e by auto
  ultimately show ?thesis by (auto simp: evolves_def grows_def unused_def c)
qed

lemma sync_dir_evolves:
  fixes d :: bytes
  assumes "world_wf w"
  defines "w' \<equiv> w\<lparr>w_ddir := (\<lambda>q. if fst q = d then w_entry w q else w_ddir w q)\<rparr>"
  shows "evolves crc p w w'"
proof -
  have e: "w_entry w' = w_entry w" by (rule w_entry_cong) (simp add: w'_def)
  have c: "cur_inode w' = cur_inode w" by (rule cur_inode_cong [OF e])
  have "fst (sealed_path_for q) = fst q" for q by (simp add: sealed_path_for_eq)
  then have dur: "dur_inode w' q = (if fst q = d then cur_inode w q else dur_inode w q)" for q
    by (simp add: dur_inode_def cur_inode_def w'_def split: option.split)
  have "prefix (stable_records crc w q) (stable_records crc w' q)" if "active_name q" for q
  proof (cases "dur_inode w q")
    case (Some i)
    then have "cur_inode w q = Some i" using assms(1) that by (simp add: world_wf_def)
    then show ?thesis using Some by (simp add: stable_records_def dur) (simp add: w'_def)
  qed (simp add: stable_records_def)
  moreover have "world_wf w'"
    unfolding world_wf_def c e
  proof (intro conjI allI impI)
    fix q i show "w_ddir w' q = Some i \<Longrightarrow> i < w_next w'" "w_entry w q = Some i \<Longrightarrow> i < w_next w'"
      using assms(1) by (auto simp: w'_def world_wf_def split: if_splits)
  next
    fix q i assume "active_name q" "dur_inode w' q = Some i"
    then show "cur_inode w q = Some i" using assms(1) by (auto simp: dur world_wf_def split: if_splits)
  qed (use assms(1) in \<open>auto simp: world_wf_def w'_def\<close>)
  ultimately show ?thesis by (auto simp: evolves_def grows_def unused_def c dur)
qed

lemma rename_evolves:
  assumes "world_wf w" "active_name p" "w_entry w p = Some i" "w_entry w (sealed_path_for p) = None"
  defines "w' \<equiv> w\<lparr>w_dir := AList.update (sealed_path_for p) i (AList.delete p (w_dir w))\<rparr>"
  shows "evolves crc p w w'"
proof -
  have e: "w_entry w' q = (if q = sealed_path_for p then Some i else if q = p then None else w_entry w q)" for q
    by (simp add: w'_def w_entry_def update_conv' delete_conv')
  have d: "w_ddir w' = w_ddir w" "dur_inode w' = dur_inode w"
    by (simp add: w'_def, rule dur_inode_cong, simp add: w'_def)
  have c: "cur_inode w' q = cur_inode w q" if "active_name q" for q
    using active_sealed_apart [OF assms(2)] active_sealed_apart [OF that] assms(3)
    by (simp add: cur_inode_def e split: option.split)
  have "stable_records crc w' = stable_records crc w" by (rule stable_records_cong [OF d(2)]) (simp add: w'_def)
  moreover have "world_wf w'"
    unfolding world_wf_def d
  proof (intro conjI allI impI)
    have n: "w_next w' = w_next w" by (simp add: w'_def)
    fix q j show "w_entry w' q = Some j \<Longrightarrow> j < w_next w'" "w_ddir w q = Some j \<Longrightarrow> j < w_next w'"
      using assms(1,3) by (auto simp: e n world_wf_def split: if_splits)
  next
    fix q assume "active_name q"
    then show "w_entry w' q = None \<or> w_entry w' (sealed_path_for q) = None"
      using assms(1) active_sealed_apart [of q] active_sealed_apart [OF assms(2)]
      by (auto simp: e world_wf_def)
  qed (use assms(1) c in \<open>auto simp: world_wf_def w'_def\<close>)
  ultimately show ?thesis by (auto simp: evolves_def grows_def unused_def c d)
qed


section \<open>The system calls on a well-formed world\<close>

lemma fs_write_all_effect:
  assumes "fs_write_all i bs w = (x, w')"
  shows "\<exists>n. w' = w_append i (take n bs) (io_tick w) \<and> (x = Ok () \<longrightarrow> take n bs = bs)"
proof (cases "w_io w (w_tick w)")
  case IoDone
  with assms show ?thesis
    by (intro exI [of _ "length bs"]) (simp add: fs_write_all_def io_step_tick)
next
  case (IoShort n errno)
  with assms show ?thesis
    by (intro exI [of _ n]) (auto simp: fs_write_all_def io_step_tick split: if_splits)
next
  case (IoFail k)
  have "w_append i [] (io_tick w) = io_tick w" by (simp add: w_append_def)
  with IoFail assms show ?thesis
    by (intro exI [of _ 0]) (auto simp: fs_write_all_def io_step_tick)
qed

lemma fs_write_vectored_effect:
  assumes "fs_write_vectored i bs w = (x, w')"
  shows "\<exists>n. w' = w_append i (take n bs) (io_tick w) \<and> (x = Ok (length bs) \<longrightarrow> take n bs = bs)"
proof (cases "w_io w (w_tick w)")
  case IoDone
  with assms show ?thesis
    by (intro exI [of _ "length bs"]) (simp add: fs_write_vectored_def io_step_tick)
next
  case (IoShort n errno)
  with assms show ?thesis
    by (intro exI [of _ n]) (auto simp: fs_write_vectored_def io_step_tick min_def split: if_splits)
next
  case (IoFail k)
  have "w_append i [] (io_tick w) = io_tick w" by (simp add: w_append_def)
  with IoFail assms show ?thesis
    by (intro exI [of _ 0]) (auto simp: fs_write_vectored_def io_step_tick)
qed

lemma fs_sync_data_effect:
  assumes "fs_sync_data i w = (x, w')"
  shows "x \<noteq> Ok () \<and> w' = (io_tick w)\<lparr>w_lost := (w_lost w)(i := True)\<rparr> \<or>
         x = Ok () \<and> w_lost w i \<and> w' = io_tick w \<or>
         x = Ok () \<and> \<not> w_lost w i \<and> w' = (io_tick w)\<lparr>w_disk := (w_disk w)(i := w_data w i)\<rparr>"
  using assms by (auto simp: fs_sync_data_def io_step_tick split: io_outcome.splits if_splits)

lemma fs_sync_dir_effect:
  assumes "fs_sync_dir d w = (x, w')"
  shows "x \<noteq> Ok () \<and> w' = io_tick w \<or>
         x = Ok () \<and> w' = (io_tick w)\<lparr>w_ddir := (\<lambda>q. if fst q = d then w_entry w q else w_ddir w q)\<rparr>"
  using assms by (auto simp: fs_sync_dir_def io_step_tick cong: if_cong split: io_outcome.splits)

lemma write_all_evolves:
  "world_wf w \<Longrightarrow> fs_write_all i bs w = (x, w') \<Longrightarrow> evolves crc p w w'"
  by (drule fs_write_all_effect) (auto intro!: append_evolves [where w = "io_tick w", simplified])

lemma write_vectored_evolves:
  "world_wf w \<Longrightarrow> fs_write_vectored i bs w = (x, w') \<Longrightarrow> evolves crc p w w'"
  by (drule fs_write_vectored_effect) (auto intro!: append_evolves [where w = "io_tick w", simplified])

lemma sync_data_evolves:
  "world_wf w \<Longrightarrow> fs_sync_data i w = (x, w') \<Longrightarrow> evolves crc p w w'"
  using fs_sync_data_effect [of i w x w'] sync_evolves [of "io_tick w" crc p i]
    lost_evolves [of "io_tick w" crc p] evolves_tick [of w crc p] by auto

lemma sync_dir_call_evolves:
  "world_wf w \<Longrightarrow> fs_sync_dir d w = (x, w') \<Longrightarrow> evolves crc p w w'"
  using fs_sync_dir_effect [of d w x w'] sync_dir_evolves [of "io_tick w" crc p d]
    evolves_tick [of w crc p] by (auto cong: if_cong)

section \<open>The segment invariant\<close>

text \<open>
  \<open>seg\<close> is an open, healthy segment created at \<open>p\<close> that holds the stored records \<open>rs\<close>: its
  file is linked at \<open>p\<close>, durably so, holds the header and the frames of \<open>rs\<close> and nothing
  else, and the in-memory accounting agrees with the file.
\<close>

definition ws_ok :: "'h crc_ops \<Rightarrow> 'h wab_segment \<Rightarrow> path \<Rightarrow> bytes list \<Rightarrow> world \<Rightarrow> bool" where
  "ws_ok C seg p rs w \<longleftrightarrow>
     active_name p \<and> ws_path seg = p \<and> \<not> ws_poisoned seg \<and>
     w_entry w p = Some (ws_file seg) \<and> w_ddir w p = Some (ws_file seg) \<and> \<not> w_lost w (ws_file seg) \<and>
     (\<exists>hb h. parse_segment_header hb = Ok h \<and> hm_compression h = ws_compression seg \<and>
        w_data w (ws_file seg) = hb @ concat (map (frame (crc_hash C)) rs)) \<and>
     hashes C (ws_file_crc_hasher seg) (w_data w (ws_file seg)) \<and>
     ws_bytes_written seg = length (w_data w (ws_file seg)) \<and>
     ws_record_count seg = length rs \<and> ws_data_bytes seg = sum_list (map length rs) \<and>
     (\<forall>st \<in> set rs. stored_ok (ws_compression seg) st)"

lemma ws_create_correct:
  assumes wf: "world_wf w" and p: "active_name p" "unused p w"
    and c: "ws_create C p shard cmp w = (x, w')"
  shows "evolves (crc_hash C) p w w' \<and>
    (\<forall>seg. x = Ok seg \<longrightarrow> ws_ok C seg p [] w' \<and> ws_compression seg = cmp)"
proof -
  have e0: "w_entry w p = None" using p(2) by (auto simp: unused_def cur_inode_def split: option.splits)
  show ?thesis
  proof (cases "fs_create_new p w")
    case (Pair y w1)
    show ?thesis
    proof (cases y)
      case (Inl k)
      then have "w1 = io_tick w" using Pair e0
        by (auto simp: fs_create_new_def io_step_tick split: io_outcome.splits)
      then show ?thesis using Inl Pair c wf by (auto simp: ws_create_def evolves_tick)
    next
      case (Inr i)
      then have i: "i = w_next w" and w1: "w1 = (io_tick w)\<lparr>w_dir := AList.update p (w_next w) (w_dir w),
          w_data := (w_data w)(w_next w := []), w_disk := (w_disk w)(w_next w := []),
          w_lost := (w_lost w)(w_next w := False), w_next := Suc (w_next w)\<rparr>"
        using Pair e0 by (auto simp: fs_create_new_def io_step_tick split: io_outcome.splits)
      have ev1: "evolves (crc_hash C) p w w1"
        using create_evolves [of "io_tick w" p "crc_hash C"] wf p by (simp add: w1)
      let ?h = "build_segment_header (unix_nanos_now w1) shard cmp"
      obtain y2 w2 where wr: "fs_write_all i ?h w1 = (y2, w2)" by fastforce
      have ev2: "evolves (crc_hash C) p w w2"
        using evolves_trans [OF ev1 write_all_evolves [OF evolves_wf [OF ev1] wr]] .
      show ?thesis
      proof (cases y2)
        case (Inl k)
        then show ?thesis using ev2 c Pair Inr wr by (auto simp: ws_create_def Let_def)
      next
        case Inr2: (Inr u)
        obtain y3 w3 where sy: "fs_sync_dir (fst p) w2 = (y3, w3)" by fastforce
        have ev3: "evolves (crc_hash C) p w w3"
          using evolves_trans [OF ev2 sync_dir_call_evolves [OF evolves_wf [OF ev2] sy]] .
        have w2: "w2 = w_append i ?h (io_tick w1)"
          using fs_write_all_effect [OF wr] Inr2 by auto
        have d2: "w_data w2 i = ?h" "w_entry w2 p = Some i" "\<not> w_lost w2 i"
          by (simp_all add: w2 w_append_def w1 i w_entry_def update_conv')
        show ?thesis
        proof (cases y3)
          case (Inl k)
          then show ?thesis using ev3 c Pair Inr wr Inr2 sy by (auto simp: ws_create_def Let_def)
        next
          case Inr3: (Inr u')
          then have w3: "w3 = (io_tick w2)\<lparr>w_ddir := (\<lambda>q. if fst q = fst p then w_entry w2 q else w_ddir w2 q)\<rparr>"
            using fs_sync_dir_effect [OF sy] by auto
          have "w_entry w3 p = Some i" "w_data w3 i = ?h" "\<not> w_lost w3 i" "w_ddir w3 p = Some i"
            using d2 by (simp_all add: w3 w_entry_def)
          moreover have "hashes C (crc_update C (crc_new C) ?h) ?h"
            using hashes_update [OF hashes_new] by simp
          ultimately show ?thesis
            using ev3 c Pair Inr wr Inr2 sy Inr3 p(1) parse_build_segment_header [of "unix_nanos_now w1" shard cmp]
            by (auto simp: ws_create_def Let_def ws_ok_def SEGMENT_HEADER_LEN_def)
        qed
      qed
    qed
  qed
qed


lemma evolves_refl: "world_wf w \<Longrightarrow> evolves crc p w w"
  by (simp add: evolves_def)

lemma ws_write_correct:
  assumes ok: "ws_ok C seg p rs w" and wf: "world_wf w"
    and wr: "ws_write_record C seg st w = (x, seg', w')"
  shows "evolves (crc_hash C) p w w' \<and>
    (x = Ok () \<longrightarrow> ws_ok C seg' p (rs @ [st]) w' \<and> ws_compression seg' = ws_compression seg)"
proof (cases "stored_ok (ws_compression seg) st")
  case False
  have "length st < 2 ^ 32 \<or> length st > stored_cap (ws_compression seg)"
    using stored_cap_32 [of "ws_compression seg"] by auto
  then have "x \<noteq> Ok () \<and> w' = w"
    using wr False ok by (auto simp: ws_write_record_def u32_try_from_def stored_ok_def split: if_splits)
  then show ?thesis using evolves_refl [OF wf] by auto
next
  case True
  have small: "length st < 2 ^ 32" using True stored_cap_32 [of "ws_compression seg"] by (auto simp: stored_ok_def)
  let ?f = "frame (crc_hash C) st"
  obtain y w1 where v: "fs_write_vectored (ws_file seg) ?f w = (y, w1)" by fastforce
  have rec: "(x, seg', w') = (case y of
        Inl k \<Rightarrow> (Err k, seg\<lparr>ws_poisoned := True\<rparr>, w1)
      | Inr n \<Rightarrow> if n \<noteq> length ?f then (Err WriteZero, seg\<lparr>ws_poisoned := True\<rparr>, w1)
          else (Ok (), seg\<lparr>ws_file_crc_hasher :=
                  crc_update C (crc_update C (crc_update C (ws_file_crc_hasher seg)
                    (u32_le (as_u32 (length st)))) (u32_le (crc_hash C st))) st,
                 ws_bytes_written := ws_bytes_written seg + 8 + length st,
                 ws_record_count := ws_record_count seg + 1,
                 ws_data_bytes := ws_data_bytes seg + length st\<rparr>, w1))"
    using wr v ok True small
    by (auto simp: ws_write_record_def ws_ok_def u32_try_from_def stored_ok_def Let_def frame_def as_u32_def
        split: sum.splits)
  have "evolves (crc_hash C) p w w1" using write_vectored_evolves [OF wf v] .
  moreover have "w' = w1" using rec by (auto split: sum.splits if_splits)
  moreover have "ws_ok C seg' p (rs @ [st]) w' \<and> ws_compression seg' = ws_compression seg" if "x = Ok ()"
  proof -
    have "y = Ok (length ?f)" using rec that by (auto split: sum.splits if_splits)
    then have w1: "w1 = w_append (ws_file seg) ?f (io_tick w)"
      using fs_write_vectored_effect [OF v] by auto
    have d: "w_data w1 (ws_file seg) = w_data w (ws_file seg) @ ?f" "w_entry w1 p = w_entry w p"
      "w_ddir w1 = w_ddir w" "w_lost w1 = w_lost w"
      by (simp_all add: w1 w_append_def w_entry_def)
    have h: "hashes C (crc_update C (crc_update C (crc_update C (ws_file_crc_hasher seg)
                    (u32_le (as_u32 (length st)))) (u32_le (crc_hash C st))) st) (w_data w1 (ws_file seg))"
      using hashes_update3 [of C "ws_file_crc_hasher seg"] ok by (simp add: d ws_ok_def frame_def)
    show ?thesis
      using ok True that rec \<open>w' = w1\<close> \<open>y = Ok (length ?f)\<close> h d by (auto simp: ws_ok_def)
  qed
  ultimately show ?thesis by simp
qed

lemma ws_fsync_correct:
  assumes ok: "ws_ok C seg p rs w" and wf: "world_wf w" and sy: "ws_fsync seg w = (x, w')"
  shows "evolves (crc_hash C) p w w' \<and>
    (x = Ok () \<longrightarrow> ws_ok C seg p rs w' \<and> stable_records (crc_hash C) w' p = rs)"
proof -
  have s: "fs_sync_data (ws_file seg) w = (x, w')" using sy by (simp add: ws_fsync_def)
  have "evolves (crc_hash C) p w w'" by (rule sync_data_evolves [OF wf s])
  moreover have "ws_ok C seg p rs w' \<and> stable_records (crc_hash C) w' p = rs" if "x = Ok ()"
  proof -
    have w': "w' = (io_tick w)\<lparr>w_disk := (w_disk w)(ws_file seg := w_data w (ws_file seg))\<rparr>"
      using fs_sync_data_effect [OF s] ok that by (auto simp: ws_ok_def)
    have d: "w_data w' = w_data w" "w_entry w' p = w_entry w p" "w_ddir w' = w_ddir w" "w_lost w' = w_lost w"
      "w_disk w' (ws_file seg) = w_data w (ws_file seg)"
      by (simp_all add: w' w_entry_def)
    obtain hb h where hb: "parse_segment_header hb = Ok h" "hm_compression h = ws_compression seg"
      "w_data w (ws_file seg) = hb @ concat (map (frame (crc_hash C)) rs)" using ok by (auto simp: ws_ok_def)
    have "file_records (crc_hash C) (w_data w (ws_file seg)) = rs"
      using file_records_image(1) [OF hb(1), of rs] ok hb by (simp add: ws_ok_def)
    then show ?thesis using ok d by (simp add: ws_ok_def stable_records_def dur_inode_def)
  qed
  ultimately show ?thesis by simp
qed

text \<open>The seal, up to the directory operations.\<close>

lemma ws_finalize_correct:
  assumes ok: "ws_ok C seg p rs w" and wf: "world_wf w" and fin: "ws_finalize_to_disk C seg w = (x, w')"
  shows "evolves (crc_hash C) p w w' \<and>
    (\<forall>q. x = Ok q \<longrightarrow> q = p \<and> w_entry w' = w_entry w \<and> w_ddir w' = w_ddir w \<and>
       w_data w' (ws_file seg) = w_data w (ws_file seg) @ SENTINEL @
         build_segment_footer (of_nat (length rs)) (of_nat (sum_list (map length rs)))
           (crc_finalize C (ws_file_crc_hasher seg)) (unix_nanos_now w) \<and>
       w_disk w' (ws_file seg) = w_data w' (ws_file seg))"
proof -
  let ?i = "ws_file seg"
  let ?ft = "build_segment_footer (of_nat (ws_record_count seg)) (of_nat (ws_data_bytes seg))
               (crc_finalize C (ws_file_crc_hasher seg)) (unix_nanos_now w)"
  obtain y1 w1 where s1: "fs_write_all ?i SENTINEL w = (y1, w1)" by fastforce
  obtain y2 w2 where s2: "fs_write_all ?i ?ft w1 = (y2, w2)" by fastforce
  obtain y3 w3 where s3: "fs_sync_data ?i w2 = (y3, w3)" by fastforce
  have e1: "evolves (crc_hash C) p w w1" by (rule write_all_evolves [OF wf s1])
  have e2: "evolves (crc_hash C) p w w2"
    by (rule evolves_trans [OF e1 write_all_evolves [OF evolves_wf [OF e1] s2]])
  have e3: "evolves (crc_hash C) p w w3"
    by (rule evolves_trans [OF e2 sync_data_evolves [OF evolves_wf [OF e2] s3]])
  have run: "(x, w') = (case y1 of Inl k \<Rightarrow> (Err k, w1) | Inr _ \<Rightarrow>
      (case y2 of Inl k \<Rightarrow> (Err k, w2) | Inr _ \<Rightarrow>
      (case y3 of Inl k \<Rightarrow> (Err k, w3) | Inr _ \<Rightarrow> (Ok (ws_path seg), w3))))"
    using fin s1 s2 s3 by (auto simp: ws_finalize_to_disk_def build_sentinel_def Let_def split: sum.splits)
  show ?thesis
  proof (cases "\<exists>q. x = Ok q")
    case True
    then have y: "y1 = Ok ()" "y2 = Ok ()" "y3 = Ok ()" "x = Ok p" "w' = w3"
      using run ok by (auto simp: ws_ok_def split: sum.splits)
    have w1: "w1 = w_append ?i SENTINEL (io_tick w)" using fs_write_all_effect [OF s1] y by auto
    have w2: "w2 = w_append ?i ?ft (io_tick w1)" using fs_write_all_effect [OF s2] y by auto
    have nl: "\<not> w_lost w2 ?i" using ok by (simp add: w1 w2 w_append_def ws_ok_def)
    have w3: "w3 = (io_tick w2)\<lparr>w_disk := (w_disk w2)(?i := w_data w2 ?i)\<rparr>"
      using fs_sync_data_effect [OF s3] y nl by auto
    have d: "w_data w3 ?i = w_data w ?i @ SENTINEL @ ?ft" "w_disk w3 ?i = w_data w3 ?i" "w_ddir w3 = w_ddir w"
      by (simp_all add: w3 w2 w1 w_append_def)
    have "w_entry w3 = w_entry w" by (rule w_entry_cong) (simp add: w3 w2 w1 w_append_def)
    then show ?thesis using e3 y d ok by (auto simp: ws_ok_def)
  next
    case False
    then show ?thesis using run e1 e2 e3 by (auto split: sum.splits)
  qed
qed

lemma ws_seal_correct:
  assumes ok: "ws_ok C seg p rs w" and wf: "world_wf w" and se: "ws_seal C seg w = (x, w')"
  shows "evolves (crc_hash C) p w w' \<and>
    (\<forall>q. x = Ok q \<longrightarrow> q = sealed_path_for p \<and> stable_records (crc_hash C) w' p = rs \<and>
       w_entry w' q = Some (ws_file seg) \<and> w_ddir w' q = Some (ws_file seg) \<and>
       w_disk w' (ws_file seg) = w_data w' (ws_file seg) \<and>
       w_data w' (ws_file seg) = w_data w (ws_file seg) @ SENTINEL @
         build_segment_footer (of_nat (length rs)) (of_nat (sum_list (map length rs)))
           (crc_finalize C (ws_file_crc_hasher seg)) (unix_nanos_now w))"
proof -
  let ?i = "ws_file seg" and ?s = "sealed_path_for p"
  obtain y1 w1 where s1: "ws_finalize_to_disk C seg w = (y1, w1)" by fastforce
  note f1 = ws_finalize_correct [OF ok wf s1]
  have e1: "evolves (crc_hash C) p w w1" using f1 by simp
  show ?thesis
  proof (cases y1)
    case (Inl k)
    then show ?thesis using se s1 e1 by (auto simp: ws_seal_def)
  next
    case Inr1: (Inr q1)
    have q1: "q1 = p" and n1: "w_entry w1 = w_entry w" "w_ddir w1 = w_ddir w" using f1 Inr1 by auto
    obtain y2 w2 where s2: "fs_try_exists ?s w1 = (y2, w2)" by fastforce
    then have w2: "w2 = io_tick w1" and y2: "y2 = Ok b \<Longrightarrow> b = (w_entry w1 ?s \<noteq> None)" for b
      by (auto simp: fs_try_exists_def io_step_tick split: io_outcome.splits)
    have e2: "evolves (crc_hash C) p w w2"
      using e1 evolves_tick [OF evolves_wf [OF e1]] evolves_trans by (metis w2)
    show ?thesis
    proof (cases "y2 = Ok False")
      case False
      then show ?thesis using se s1 Inr1 s2 q1 e2
        by (auto simp: ws_seal_def Let_def split: sum.splits bool.splits)
    next
      case True
      then have free: "w_entry w2 ?s = None" and ent: "w_entry w2 p = Some ?i"
        using y2 [of False] ok by (auto simp: w2 n1 ws_ok_def)
      obtain y3 w3 where s3: "fs_rename p ?s w2 = (y3, w3)" by fastforce
      show ?thesis
      proof (cases y3)
        case (Inl k)
        then have "w3 = io_tick w2" using s3 ent by (auto simp: fs_rename_def io_step_tick split: io_outcome.splits)
        then have "evolves (crc_hash C) p w w3"
          using e2 evolves_tick [OF evolves_wf [OF e2]] evolves_trans by metis
        then show ?thesis using Inl se s1 Inr1 s2 True q1 s3 by (auto simp: ws_seal_def Let_def)
      next
        case Inr3: (Inr u)
        have w3: "w3 = (io_tick w2)\<lparr>w_dir := AList.update ?s ?i (AList.delete p (w_dir w2))\<rparr>"
          using s3 ent Inr3 by (auto simp: fs_rename_def io_step_tick split: io_outcome.splits)
        have ap: "active_name p" using ok by (simp add: ws_ok_def)
        have "evolves (crc_hash C) p w2 w3"
          using rename_evolves [of "io_tick w2" p ?i "crc_hash C"] evolves_wf [OF e2] ap free ent by (simp add: w3)
        then have e3: "evolves (crc_hash C) p w w3" using e2 evolves_trans by blast
        obtain y4 w4 where s4: "fs_sync_dir (fst ?s) w3 = (y4, w4)" by fastforce
        have e4: "evolves (crc_hash C) p w w4"
          by (rule evolves_trans [OF e3 sync_dir_call_evolves [OF evolves_wf [OF e3] s4]])
        have x: "(x, w') = (case y4 of Inl k \<Rightarrow> (Err k, w4) | Inr _ \<Rightarrow> (Ok ?s, w4))"
          using se s1 Inr1 s2 True q1 s3 Inr3 s4 by (auto simp: ws_seal_def Let_def split: sum.splits)
        show ?thesis
        proof (cases y4)
          case (Inl k)
          then show ?thesis using x e4 by auto
        next
          case Inr4: (Inr u')
          have w4: "w4 = (io_tick w3)\<lparr>w_ddir := (\<lambda>q. if fst q = fst ?s then w_entry w3 q else w_ddir w3 q)\<rparr>"
            using fs_sync_dir_effect [OF s4] Inr4 by auto
          have d: "w_entry w4 ?s = Some ?i" "w_ddir w4 ?s = Some ?i" "w_ddir w4 p = None"
            "w_data w4 = w_data w1" "w_disk w4 = w_disk w1"
            using active_sealed_apart [OF ap]
            by (simp_all add: w4 w3 w2 w_entry_def update_conv' delete_conv' sealed_path_for_eq prod_eq_iff ascii_def)
          obtain hb h where hb: "parse_segment_header hb = Ok h" "hm_compression h = ws_compression seg"
            "w_data w ?i = hb @ concat (map (frame (crc_hash C)) rs)" using ok by (auto simp: ws_ok_def)
          have "file_records (crc_hash C) (w_data w1 ?i) = rs"
            using f1 Inr1 file_records_image(2) [OF hb(1), of rs] ok hb by (simp add: ws_ok_def)
          moreover have "w_disk w1 ?i = w_data w1 ?i" using f1 Inr1 by simp
          ultimately have "stable_records (crc_hash C) w4 p = rs" by (simp add: stable_records_def dur_inode_def d)
          then show ?thesis using x Inr4 e4 f1 Inr1 d by auto
        qed
      qed
    qed
  qed
qed


section \<open>A sealed segment verifies\<close>

text \<open>A file system without files on which every call succeeds.\<close>

definition quiet_world :: world where
  "quiet_world = \<lparr>w_dir = [], w_ddir = (\<lambda>_. None), w_data = (\<lambda>_. []), w_disk = (\<lambda>_. []),
                  w_lost = (\<lambda>_. False), w_next = 0, w_io = (\<lambda>_. IoDone), w_clock = (\<lambda>_. 7), w_tick = 0\<rparr>"

lemma quiet_world_views [simp]: "cur_inode quiet_world p = None" "dur_inode quiet_world p = None"
  by (simp_all add: cur_inode_def dur_inode_def quiet_world_def w_entry_def)

lemma quiet_world_wf [simp]: "world_wf quiet_world" "unused p quiet_world"
  by (simp_all add: world_wf_def unused_def) (simp_all add: quiet_world_def w_entry_def)

lemma quiet_create:
  "\<exists>seg w. ws_create C p shard cmp quiet_world = (Ok seg, w) \<and> w_io w = (\<lambda>_. IoDone)"
  by (simp add: ws_create_def fs_defs quiet_world_def w_entry_def Let_def w_append_def)

lemma quiet_write:
  assumes "ws_ok C seg p rs w" "w_io w = (\<lambda>_. IoDone)" "stored_ok (ws_compression seg) st"
  shows "\<exists>seg' w'. ws_write_record C seg st w = (Ok (), seg', w') \<and> w_io w' = (\<lambda>_. IoDone)"
  using assms stored_cap_32 [of "ws_compression seg"]
  by (auto simp: ws_write_record_def ws_ok_def fs_defs Let_def w_append_def u32_try_from_def stored_ok_def)

lemma quiet_fsync: "w_io w = (\<lambda>_. IoDone) \<Longrightarrow> \<exists>w'. ws_fsync seg w = (Ok (), w') \<and> w_io w' = (\<lambda>_. IoDone)"
  by (auto simp: ws_fsync_def fs_defs)

lemma quiet_seal:
  assumes "ws_ok C seg p rs w" "w_io w = (\<lambda>_. IoDone)" "world_wf w"
  shows "\<exists>q w'. ws_seal C seg w = (Ok q, w') \<and> w_io w' = (\<lambda>_. IoDone)"
proof -
  have "w_entry w (sealed_path_for p) = None" "ws_path seg = p" "w_entry w p = Some (ws_file seg)"
    using assms(1,3) by (auto simp: ws_ok_def world_wf_def)
  then show ?thesis using assms(2)
    by (simp add: ws_seal_def ws_finalize_to_disk_def fs_defs Let_def w_append_def w_entry_def)
qed

text \<open>
  C5: what is sealed can be read back.  From an open, healthy segment holding the records
  \<open>rs\<close>, whenever \<open>seal\<close> reports success the file stands under the sealed name, now and after
  a crash, its bytes are on stable storage, \<open>verify_sealed_segment\<close> accepts them with a footer
  stating the number and the bytes of \<open>rs\<close>, and the records in them are exactly \<open>rs\<close>.
\<close>

theorem sealed_segment_verifies:
  assumes "crc_streams C" "world_wf w" "ws_ok C seg p rs w" "ws_seal C seg w = (Ok sealed, w')"
  shows "sealed = sealed_path_for p \<and>
    (\<exists>i h f. w_entry w' sealed = Some i \<and> w_ddir w' sealed = Some i \<and> w_disk w' i = w_data w' i \<and>
       verify_sealed_segment C (Ok (file_reader (w_disk w' i))) = Ok \<lparr>sv_header = h, sv_footer = f\<rparr> \<and>
       fm_record_count f = of_nat (length rs) \<and> fm_data_bytes f = of_nat (sum_list (map length rs)) \<and>
       file_records (crc_hash C) (w_disk w' i) = rs)"
proof -
  note sc = ws_seal_correct [OF assms(3,2,4)]
  let ?i = "ws_file seg"
  obtain hb h where hb: "parse_segment_header hb = Ok h" "hm_compression h = ws_compression seg"
    "w_data w ?i = hb @ concat (map (frame (crc_hash C)) rs)" using assms(3) by (auto simp: ws_ok_def)
  have "crc_finalize C (ws_file_crc_hasher seg) = crc_hash C (hb @ concat (map (frame (crc_hash C)) rs))"
    using crc_engine.finalize_hashes [of C "ws_file_crc_hasher seg"] assms(1,3) hb(3)
    by (simp add: crc_engine_def ws_ok_def)
  then have d: "w_disk w' ?i = sealed_bytes (crc_hash C) hb rs (unix_nanos_now w)"
    using sc hb(3) by (simp add: sealed_bytes_def)
  have ok: "\<forall>st \<in> set rs. stored_ok (hm_compression h) st" using assms(3) hb(2) by (simp add: ws_ok_def)
  let ?f = "\<lparr>fm_record_count = of_nat (length rs), fm_data_bytes = of_nat (sum_list (map length rs)),
      fm_file_crc32 = crc_hash C (hb @ concat (map (frame (crc_hash C)) rs)), fm_sealed_at = unix_nanos_now w\<rparr>"
  have "verify_sealed_segment C (Ok (file_reader (w_disk w' ?i))) = Ok \<lparr>sv_header = h, sv_footer = ?f\<rparr>"
    unfolding d by (rule crc_engine.verify_accepts [OF _ sealed_bytes_image [OF hb(1) ok]])
      (simp add: crc_engine_def assms(1))
  moreover have "file_records (crc_hash C) (w_disk w' ?i) = rs"
    unfolding d sealed_bytes_def by (rule file_records_image(2) [OF hb(1) ok])
  ultimately show ?thesis using sc by (intro conjI exI [of _ ?i] exI [of _ h] exI [of _ ?f]) auto
qed

theorem sealed_segment_verifies_witness:
  "\<exists>seg w sealed w'. ws_create crc32_ops (segment_path (ascii ''d'') 1) 3 CompNone quiet_world = (Ok seg, w) \<and>
     ws_seal crc32_ops seg w = (Ok sealed, w') \<and> sealed = sealed_path_for (segment_path (ascii ''d'') 1) \<and>
     (\<exists>i. w_entry w' sealed = Some i \<and> file_records crc32_hash (w_disk w' i) = [])"
proof -
  let ?p = "segment_path (ascii ''d'') 1"
  obtain seg w where c: "ws_create crc32_ops ?p 3 CompNone quiet_world = (Ok seg, w)" and io: "w_io w = (\<lambda>_. IoDone)"
    using quiet_create [of crc32_ops ?p 3 CompNone] by blast
  have ok: "ws_ok crc32_ops seg ?p [] w" and wf: "world_wf w"
    using ws_create_correct [OF quiet_world_wf(1) active_segment_path quiet_world_wf(2) c] by (auto simp: evolves_def)
  obtain q w' where s: "ws_seal crc32_ops seg w = (Ok q, w')" using quiet_seal [OF ok io wf] by blast
  from sealed_segment_verifies [OF crc32_streams wf ok s] c s show ?thesis by auto
qed

end
