(* ===== verification/ShardWriter.thy ===== *)
theory ShardWriter
  imports Segment
begin

text \<open>
  The writer of one shard, \<open>ShardWriter\<close> of \<open>weir-server/src/wab/segment.rs\<close>.  The source
  reaches the file system through the trait objects \<open>SegmentStore\<close> and \<open>SegmentHandle\<close>; here
  they are the record \<open>segment_store\<close> of their operations, over any type of handles and of
  worlds, and \<open>fs_store\<close> is the production backend on \<open>WabSegment\<close>.  \<open>Instant::now()\<close> is an
  argument; metrics are not modelled.

  The contract a backend owes the writer is the locale \<open>segment_backend\<close>; the writer's
  invariant and the effect of each of its operations are proved there once, and the
  interpretation discharges the contract for \<open>fs_store\<close>.

  Main results: a record the writer accepted is in the active segment at the reported index; a
  record whose write rotated the segment is on stable storage, as are all before it; a refused
  record leaves the segment open, every other failure retires it; and the classification
  \<open>last_write_failure\<close> tells exactly which.
\<close>

record ('s, 'w) segment_store =
  st_create :: "path \<Rightarrow> u16 \<Rightarrow> compression \<Rightarrow> 'w \<Rightarrow> (io_kind + 's) \<times> 'w"
  st_segment_counters :: "bytes \<Rightarrow> 'w \<Rightarrow> (io_kind + nat list) \<times> 'w"
  st_write_record :: "'s \<Rightarrow> bytes \<Rightarrow> 'w \<Rightarrow> (io_kind + unit) \<times> 's \<times> 'w"
  st_fsync :: "'s \<Rightarrow> 'w \<Rightarrow> (io_kind + unit) \<times> 'w"
  st_should_rotate :: "'s \<Rightarrow> nat \<Rightarrow> bool"
  st_seal :: "'s \<Rightarrow> 'w \<Rightarrow> (io_kind + path) \<times> 'w"

definition fs_segment_counters :: "bytes \<Rightarrow> world \<Rightarrow> (io_kind + nat list) \<times> world" where
  "fs_segment_counters dir w =
     (case fs_read_dir dir w of
        (Inl k, w) \<Rightarrow> (Err k, w)
      | (Inr entries, w) \<Rightarrow> (Ok (List.map_filter segment_counter_from_path entries), w))"

definition fs_store :: "'h crc_ops \<Rightarrow> ('h wab_segment, world) segment_store" where
  "fs_store C =
     \<lparr>st_create = ws_create C, st_segment_counters = fs_segment_counters,
      st_write_record = ws_write_record C, st_fsync = ws_fsync,
      st_should_rotate = ws_should_rotate, st_seal = ws_seal C\<rparr>"

datatype write_failure = RecordRejected | SegmentDropped

record 's shard_writer =
  sw_shard_id :: u16
  sw_shard_dir :: bytes
  sw_next_counter :: nat
  sw_segment_max_bytes :: nat
  sw_active :: "'s option"
  sw_active_opened_at :: nat
  sw_active_path :: "path option"
  sw_active_records :: nat
  sw_compression :: compression
  sw_compression_level :: int
  sw_last_write_failure :: "write_failure option"

definition last_write_failure :: "'s shard_writer \<Rightarrow> write_failure" where
  "last_write_failure sw =
     (case sw_last_write_failure sw of Some f \<Rightarrow> f | None \<Rightarrow> SegmentDropped)"

definition sw_new_with_store ::
  "u16 \<Rightarrow> bytes \<Rightarrow> nat \<Rightarrow> compression \<Rightarrow> int \<Rightarrow> nat \<Rightarrow> 's shard_writer" where
  "sw_new_with_store shard_id shard_dir segment_max_bytes cmp level now =
     \<lparr>sw_shard_id = shard_id, sw_shard_dir = shard_dir, sw_next_counter = 1,
      sw_segment_max_bytes = segment_max_bytes, sw_active = None, sw_active_opened_at = now,
      sw_active_path = None, sw_active_records = 0, sw_compression = cmp,
      sw_compression_level = level, sw_last_write_failure = None\<rparr>"

definition sw_scan_and_advance_counter ::
  "('s, 'w) segment_store \<Rightarrow> 's shard_writer \<Rightarrow> 'w \<Rightarrow> (io_kind + unit) \<times> 's shard_writer \<times> 'w"
where
  "sw_scan_and_advance_counter S sw w =
     (case st_segment_counters S (sw_shard_dir sw) w of
        (Inl k, w) \<Rightarrow> (Err k, sw, w)
      | (Inr counters, w) \<Rightarrow>
          let mx = foldr max counters 0 in
          if mx \<ge> sw_next_counter sw then (Ok (), sw\<lparr>sw_next_counter := mx + 1\<rparr>, w)
          else (Ok (), sw, w))"

definition sw_ensure_open ::
  "('s, 'w) segment_store \<Rightarrow> nat \<Rightarrow> 's shard_writer \<Rightarrow> 'w \<Rightarrow> (io_kind + unit) \<times> 's shard_writer \<times> 'w"
where
  "sw_ensure_open S now sw w =
     (if sw_active sw = None
      then let path = segment_path (sw_shard_dir sw) (sw_next_counter sw);
               sw = sw\<lparr>sw_next_counter := sw_next_counter sw + 1\<rparr> in
        (case st_create S path (sw_shard_id sw) (sw_compression sw) w of
           (Inl k, w) \<Rightarrow> (Err k, sw, w)
         | (Inr seg, w) \<Rightarrow>
             (Ok (), sw\<lparr>sw_active := Some seg, sw_active_opened_at := now,
                       sw_active_path := Some path, sw_active_records := 0\<rparr>, w))
      else (Ok (), sw, w))"

text \<open>\<open>match self.compression\<close>: the bytes that are stored for a payload.\<close>

definition stored_form :: "zstd_ops \<Rightarrow> 's shard_writer \<Rightarrow> bytes \<Rightarrow> bytes option" where
  "stored_form Z sw payload =
     (case sw_compression sw of
        CompNone \<Rightarrow> Some payload
      | CompZstd \<Rightarrow> zstd_compress Z (sw_compression_level sw) payload)"

definition sw_write_record ::
  "('s, 'w) segment_store \<Rightarrow> zstd_ops \<Rightarrow> nat \<Rightarrow> bytes \<Rightarrow> 's shard_writer \<Rightarrow> 'w \<Rightarrow>
   (io_kind + path option) \<times> 's shard_writer \<times> 'w"
where
  "sw_write_record S Z now payload sw w =
     (if payload = [] then (Err InvalidInput, sw\<lparr>sw_last_write_failure := Some RecordRejected\<rparr>, w)
      else case stored_form Z sw payload of
        None \<Rightarrow> (Err (OtherIo 1), sw\<lparr>sw_last_write_failure := Some RecordRejected\<rparr>, w)
      | Some stored \<Rightarrow>
      case sw_ensure_open S now sw w of
        (Inl k, sw, w) \<Rightarrow> (Err k, sw\<lparr>sw_last_write_failure := Some SegmentDropped\<rparr>, w)
      | (Inr _, sw, w) \<Rightarrow>
      case sw_active sw of
        None \<Rightarrow> (Err (OtherIo 2), sw, w)    \<comment> \<open>\<open>expect\<close>: unreachable\<close>
      | Some seg \<Rightarrow>
      case st_write_record S seg stored w of
        (Inl k, _, w) \<Rightarrow>
          (Err k, sw\<lparr>sw_last_write_failure := Some SegmentDropped, sw_active := None,
                     sw_active_path := None\<rparr>, w)
      | (Inr _, seg, w) \<Rightarrow>
      let sw = sw\<lparr>sw_active := Some seg, sw_active_records := sw_active_records sw + 1\<rparr> in
      if st_should_rotate S seg (sw_segment_max_bytes sw)
      then (case st_seal S seg w of
              (Inr sealed, w) \<Rightarrow>
                (Ok (Some sealed), sw\<lparr>sw_active := None, sw_active_path := None,
                                      sw_last_write_failure := None\<rparr>, w)
            | (Inl k, w) \<Rightarrow>
                (Err k, sw\<lparr>sw_active := None, sw_last_write_failure := Some SegmentDropped,
                           sw_active_path := None\<rparr>, w))
      else (Ok None, sw\<lparr>sw_last_write_failure := None\<rparr>, w))"

definition sw_fsync_current ::
  "('s, 'w) segment_store \<Rightarrow> 's shard_writer \<Rightarrow> 'w \<Rightarrow> (io_kind + unit) \<times> 's shard_writer \<times> 'w"
where
  "sw_fsync_current S sw w =
     (case sw_active sw of
        None \<Rightarrow> (Ok (), sw, w)
      | Some seg \<Rightarrow>
         (case st_fsync S seg w of
            (Inl k, w) \<Rightarrow> (Err k, sw\<lparr>sw_active := None, sw_active_path := None\<rparr>, w)
          | (Inr _, w) \<Rightarrow> (Ok (), sw, w)))"

definition sw_seal_current ::
  "('s, 'w) segment_store \<Rightarrow> 's shard_writer \<Rightarrow> 'w \<Rightarrow> (io_kind + path option) \<times> 's shard_writer \<times> 'w"
where
  "sw_seal_current S sw w =
     (let active = sw_active sw; sw = sw\<lparr>sw_active_path := None, sw_active := None\<rparr> in
      case active of
        Some seg \<Rightarrow>
         (case st_seal S seg w of
            (Inl k, w) \<Rightarrow> (Err k, sw, w)
          | (Inr sealed, w) \<Rightarrow> (Ok (Some sealed), sw, w))
      | None \<Rightarrow> (Ok None, sw, w))"

definition has_active_segment :: "'s shard_writer \<Rightarrow> bool" where
  "has_active_segment sw \<longleftrightarrow> sw_active sw \<noteq> None"

definition active_segment_age :: "nat \<Rightarrow> 's shard_writer \<Rightarrow> nat option" where
  "active_segment_age now sw = map_option (\<lambda>_. now - sw_active_opened_at sw) (sw_active sw)"

definition last_record_index :: "'s shard_writer \<Rightarrow> nat" where
  "last_record_index sw = sw_active_records sw"

definition drain_address :: "'s shard_writer \<Rightarrow> path option \<Rightarrow> bytes option" where
  "drain_address sw rotated =
     (case rotated of
        Some sealed \<Rightarrow> Some (segment_identity sealed)
      | None \<Rightarrow> map_option (\<lambda>active. segment_identity (sealed_path_for active)) (sw_active_path sw))"

definition same_codec :: "'s shard_writer \<Rightarrow> 's shard_writer \<Rightarrow> bool" where
  "same_codec sw sw' \<longleftrightarrow> sw_compression sw' = sw_compression sw \<and> sw_compression_level sw' = sw_compression_level sw"

lemma stored_form_codec: "same_codec sw sw' \<Longrightarrow> stored_form Z sw' = stored_form Z sw"
  by (cases "sw_compression sw") (simp_all add: fun_eq_iff same_codec_def stored_form_def)

section \<open>The branches of a write\<close>

lemma sw_write_rejected:
  "payload = [] \<or> stored_form Z sw payload = None \<Longrightarrow>
   \<exists>k. sw_write_record S Z now payload sw w = (Err k, sw\<lparr>sw_last_write_failure := Some RecordRejected\<rparr>, w)"
  by (cases "payload = []") (auto simp: sw_write_record_def)

text \<open>The write after the segment is open, and the rotation after the write.\<close>

definition sw_rotate ::
  "('s, 'w) segment_store \<Rightarrow> 's \<Rightarrow> 's shard_writer \<Rightarrow> 'w \<Rightarrow> (io_kind + path option) \<times> 's shard_writer \<times> 'w" where
  "sw_rotate S seg sw w =
     (if st_should_rotate S seg (sw_segment_max_bytes sw)
      then (case st_seal S seg w of
              (Inr sealed, w) \<Rightarrow>
                (Ok (Some sealed), sw\<lparr>sw_active := None, sw_active_path := None,
                                      sw_last_write_failure := None\<rparr>, w)
            | (Inl k, w) \<Rightarrow>
                (Err k, sw\<lparr>sw_active := None, sw_last_write_failure := Some SegmentDropped,
                           sw_active_path := None\<rparr>, w))
      else (Ok None, sw\<lparr>sw_last_write_failure := None\<rparr>, w))"

lemma sw_write_open_failed:
  "payload \<noteq> [] \<Longrightarrow> stored_form Z sw payload = Some st \<Longrightarrow> sw_ensure_open S now sw w = (Inl k, sw1, w1) \<Longrightarrow>
   sw_write_record S Z now payload sw w = (Err k, sw1\<lparr>sw_last_write_failure := Some SegmentDropped\<rparr>, w1)"
  by (simp add: sw_write_record_def)

lemma sw_write_opened:
  assumes "payload \<noteq> []" "stored_form Z sw payload = Some st" "sw_ensure_open S now sw w = (Inr u, sw1, w1)"
    "sw_active sw1 = Some seg" "st_write_record S seg st w1 = (z, seg', w2)"
  shows "sw_write_record S Z now payload sw w =
    (case z of
       Inl k \<Rightarrow> (Err k, sw1\<lparr>sw_last_write_failure := Some SegmentDropped, sw_active := None, sw_active_path := None\<rparr>, w2)
     | Inr _ \<Rightarrow> sw_rotate S seg' (sw1\<lparr>sw_active := Some seg', sw_active_records := sw_active_records sw1 + 1\<rparr>) w2)"
  using assms by (cases z) (simp_all add: sw_write_record_def sw_rotate_def Let_def)

section \<open>The contract of a backend\<close>

text \<open>
  \<open>good\<close> is the world's invariant, \<open>stab w p\<close> the records on stable storage for the segment
  at \<open>p\<close>, \<open>free p\<close> says that no segment was created at \<open>p\<close>, and \<open>healthy s p rs\<close> that the
  handle \<open>s\<close> is an open segment at \<open>p\<close> holding \<open>rs\<close>.
\<close>

definition store_step ::
  "('w \<Rightarrow> bool) \<Rightarrow> ('w \<Rightarrow> path \<Rightarrow> bytes list) \<Rightarrow> (path \<Rightarrow> 'w \<Rightarrow> bool) \<Rightarrow> path \<Rightarrow> 'w \<Rightarrow> 'w \<Rightarrow> bool"
where
  "store_step good stab free p w w' \<longleftrightarrow>
     good w' \<and> (\<forall>q. active_name q \<longrightarrow> prefix (stab w q) (stab w' q)) \<and>
     (\<forall>q. active_name q \<longrightarrow> q \<noteq> p \<longrightarrow> free q w \<longrightarrow> free q w')"

definition stab_le :: "('w \<Rightarrow> path \<Rightarrow> bytes list) \<Rightarrow> 'w \<Rightarrow> 'w \<Rightarrow> bool" where
  "stab_le stab w w' \<longleftrightarrow> (\<forall>q. active_name q \<longrightarrow> prefix (stab w q) (stab w' q))"

text \<open>
  The writer's invariant, for the records \<open>rs\<close> of the active segment: every counter from
  \<open>next_counter\<close> on is unused, and an open segment is healthy, has a counter below, and holds
  at least one record.
\<close>

definition writer_inv ::
  "('w \<Rightarrow> bool) \<Rightarrow> (path \<Rightarrow> 'w \<Rightarrow> bool) \<Rightarrow> ('s \<Rightarrow> path \<Rightarrow> bytes list \<Rightarrow> 'w \<Rightarrow> bool) \<Rightarrow>
   bytes list \<Rightarrow> 's shard_writer \<Rightarrow> 'w \<Rightarrow> bool" where
  "writer_inv good free healthy rs sw w \<longleftrightarrow> good w \<and>
     (\<forall>n \<ge> sw_next_counter sw. free (segment_path (sw_shard_dir sw) n) w) \<and>
     (case sw_active sw of
        None \<Rightarrow> rs = [] \<and> sw_active_path sw = None
      | Some s \<Rightarrow> rs \<noteq> [] \<and> sw_active_records sw = length rs \<and>
          (\<exists>n < sw_next_counter sw. sw_active_path sw = Some (segment_path (sw_shard_dir sw) n) \<and>
             healthy s (segment_path (sw_shard_dir sw) n) rs w))"

lemma writer_inv_last_failure [simp]:
  "writer_inv good free healthy rs (sw\<lparr>sw_last_write_failure := f\<rparr>) w = writer_inv good free healthy rs sw w"
  by (cases "sw_active sw") (simp_all add: writer_inv_def)

lemma writer_inv_None:
  "good w \<Longrightarrow> \<forall>n \<ge> sw_next_counter sw. free (segment_path (sw_shard_dir sw) n) w \<Longrightarrow>
   sw_active sw = None \<Longrightarrow> sw_active_path sw = None \<Longrightarrow> writer_inv good free healthy [] sw w"
  by (simp add: writer_inv_def)

lemma writer_inv_active_None: "writer_inv good free healthy [] sw w \<Longrightarrow> sw_active sw = None"
  by (auto simp: writer_inv_def split: option.splits)

lemma stab_le_refl [simp]: "stab_le stab w w" by (simp add: stab_le_def)

lemma stab_le_trans: "stab_le stab a b \<Longrightarrow> stab_le stab b c \<Longrightarrow> stab_le stab a c"
  by (meson stab_le_def prefix_order.trans)

lemma step_stab_le: "store_step good stab free p w w' \<Longrightarrow> stab_le stab w w'"
  by (simp add: store_step_def stab_le_def)

lemma step_good: "store_step good stab free p w w' \<Longrightarrow> good w'"
  by (simp add: store_step_def)

lemma step_free:
  "store_step good stab free (segment_path d n) w w' \<Longrightarrow> m \<noteq> n \<Longrightarrow>
   free (segment_path d m) w \<Longrightarrow> free (segment_path d m) w'"
  by (simp add: store_step_def segment_path_inject)

locale segment_backend =
  fixes S :: "('s, 'w) segment_store"
    and good :: "'w \<Rightarrow> bool"
    and stab :: "'w \<Rightarrow> path \<Rightarrow> bytes list"
    and free :: "path \<Rightarrow> 'w \<Rightarrow> bool"
    and healthy :: "'s \<Rightarrow> path \<Rightarrow> bytes list \<Rightarrow> 'w \<Rightarrow> bool"
  assumes create_law: "\<And>w p sh c x w'.
      good w \<Longrightarrow> active_name p \<Longrightarrow> free p w \<Longrightarrow> st_create S p sh c w = (x, w') \<Longrightarrow>
      store_step good stab free p w w' \<and> (\<forall>s. x = Ok s \<longrightarrow> healthy s p [] w')"
    and write_law: "\<And>w s p rs st x s' w'.
      good w \<Longrightarrow> healthy s p rs w \<Longrightarrow> st_write_record S s st w = (x, s', w') \<Longrightarrow>
      store_step good stab free p w w' \<and> (x = Ok () \<longrightarrow> healthy s' p (rs @ [st]) w')"
    and fsync_law: "\<And>w s p rs x w'.
      good w \<Longrightarrow> healthy s p rs w \<Longrightarrow> st_fsync S s w = (x, w') \<Longrightarrow>
      store_step good stab free p w w' \<and> (x = Ok () \<longrightarrow> healthy s p rs w' \<and> stab w' p = rs)"
    and seal_law: "\<And>w s p rs x w'.
      good w \<Longrightarrow> healthy s p rs w \<Longrightarrow> st_seal S s w = (x, w') \<Longrightarrow>
      store_step good stab free p w w' \<and> (\<forall>q. x = Ok q \<longrightarrow> q = sealed_path_for p \<and> stab w' p = rs)"
begin

abbreviation inv :: "bytes list \<Rightarrow> 's shard_writer \<Rightarrow> 'w \<Rightarrow> bool" where
  "inv \<equiv> writer_inv good free healthy"

text \<open>Opening: the same segment, or a fresh one without records.\<close>

lemma ensure_open_correct:
  assumes iv: "inv rs sw w" and op: "sw_ensure_open S now sw w = (x, sw', w')"
  shows "stab_le stab w w' \<and>
    (case x of
       Inl k \<Rightarrow> sw_active sw = None \<and> inv [] sw' w'
     | Inr _ \<Rightarrow> \<exists>s n. sw_active sw' = Some s \<and> n < sw_next_counter sw' \<and>
         sw_active_path sw' = Some (segment_path (sw_shard_dir sw') n) \<and>
         healthy s (segment_path (sw_shard_dir sw') n) rs w' \<and> good w' \<and> sw_active_records sw' = length rs \<and>
         (\<forall>m \<ge> sw_next_counter sw'. free (segment_path (sw_shard_dir sw') m) w')) \<and>
    sw_compression sw' = sw_compression sw \<and> sw_compression_level sw' = sw_compression_level sw \<and>
    sw_shard_dir sw' = sw_shard_dir sw \<and> sw_segment_max_bytes sw' = sw_segment_max_bytes sw \<and>
    (sw_active sw \<noteq> None \<longrightarrow> sw_active_path sw' = sw_active_path sw)"
proof (cases "sw_active sw")
  case (Some s)
  then show ?thesis using iv op by (auto simp: sw_ensure_open_def writer_inv_def)
next
  case None
  let ?n = "sw_next_counter sw" and ?p = "segment_path (sw_shard_dir sw) (sw_next_counter sw)"
  obtain y w1 where c: "st_create S ?p (sw_shard_id sw) (sw_compression sw) w = (y, w1)" by fastforce
  have pre: "good w" "free ?p w" "rs = []" using iv None by (auto simp: writer_inv_def)
  note law = create_law [OF pre(1) active_segment_path pre(2) c]
  have fr: "free (segment_path (sw_shard_dir sw) m) w1" if "Suc ?n \<le> m" for m
    by (rule step_free [OF law [THEN conjunct1]]) (use iv that in \<open>auto simp: writer_inv_def\<close>)
  have le: "stab_le stab w w1" and gd: "good w1"
    by (rule step_stab_le [OF law [THEN conjunct1]], rule step_good [OF law [THEN conjunct1]])
  show ?thesis
  proof (cases y)
    case (Inl k)
    then have "x = Err k" "sw' = sw\<lparr>sw_next_counter := ?n + 1\<rparr>" "w' = w1"
      using op c None by (simp_all add: sw_ensure_open_def Let_def)
    then show ?thesis using None le gd fr iv by (simp add: writer_inv_def)
  next
    case (Inr s)
    then have "x = Ok ()" and sw': "sw' = sw\<lparr>sw_next_counter := ?n + 1, sw_active := Some s,
        sw_active_opened_at := now, sw_active_path := Some ?p, sw_active_records := 0\<rparr>" and "w' = w1"
      using op c None by (simp_all add: sw_ensure_open_def Let_def)
    moreover have "healthy s ?p [] w1" using law Inr by simp
    ultimately show ?thesis using None le gd fr pre(3) by (auto intro: exI [of _ ?n])
  qed
qed

text \<open>
  Writing one record: it is appended to the active segment (or to a fresh one), and the segment
  may rotate; a refused record changes nothing, any other failure retires the segment.
\<close>

lemma write_record_correct:
  assumes iv: "inv rs sw w" and wr: "sw_write_record S Z now payload sw w = (x, sw', w')"
  shows "stab_le stab w w' \<and> sw_compression sw' = sw_compression sw \<and>
    sw_compression_level sw' = sw_compression_level sw \<and> sw_shard_dir sw' = sw_shard_dir sw \<and>
    (case x of
       Inl k \<Rightarrow>
         (last_write_failure sw' = RecordRejected \<and> sw_active sw' = sw_active sw \<and>
            sw_active_path sw' = sw_active_path sw \<and> w' = w \<and> inv rs sw' w') \<or>
         (last_write_failure sw' = SegmentDropped \<and> sw_active sw' = None \<and> inv [] sw' w')
     | Inr None \<Rightarrow> \<exists>st p. stored_form Z sw payload = Some st \<and> inv (rs @ [st]) sw' w' \<and>
         sw_active_path sw' = Some p \<and> active_name p \<and> (sw_active sw \<noteq> None \<longrightarrow> sw_active_path sw = Some p)
     | Inr (Some sealed) \<Rightarrow> \<exists>st p. stored_form Z sw payload = Some st \<and> inv [] sw' w' \<and> sw_active sw' = None \<and>
         active_name p \<and> sealed = sealed_path_for p \<and> stab w' p = rs @ [st] \<and>
         last_record_index sw' = length (rs @ [st]) \<and> (sw_active sw \<noteq> None \<longrightarrow> sw_active_path sw = Some p))"
proof (cases "payload = [] \<or> stored_form Z sw payload = None")
  case True
  then have "sw' = sw\<lparr>sw_last_write_failure := Some RecordRejected\<rparr>" "w' = w" "\<exists>k. x = Err k"
    using wr sw_write_rejected [of payload Z sw S now w] by auto
  then show ?thesis using iv by (auto simp: last_write_failure_def)
next
  case False
  then obtain st where st: "stored_form Z sw payload = Some st" and ne: "payload \<noteq> []" by auto
  obtain y sw1 w1 where op: "sw_ensure_open S now sw w = (y, sw1, w1)" by (metis prod_cases3)
  note eo = ensure_open_correct [OF iv op]
  show ?thesis
  proof (cases y)
    case (Inl k)
    then have "sw' = sw1\<lparr>sw_last_write_failure := Some SegmentDropped\<rparr>" "w' = w1" "x = Err k"
      using wr sw_write_open_failed [OF ne st op [unfolded Inl]] by simp_all
    moreover have "inv [] sw1 w1" using eo Inl by auto
    moreover have "sw_active sw1 = None" using \<open>inv [] sw1 w1\<close> by (rule writer_inv_active_None)
    ultimately show ?thesis using eo by (simp add: last_write_failure_def)
  next
    case (Inr u)
    with eo obtain s n where s: "sw_active sw1 = Some s" "n < sw_next_counter sw1"
      "sw_active_path sw1 = Some (segment_path (sw_shard_dir sw1) n)"
      and hl: "healthy s (segment_path (sw_shard_dir sw1) n) rs w1" and gd: "good w1"
      and ar: "sw_active_records sw1 = length rs"
      and fr: "\<forall>m \<ge> sw_next_counter sw1. free (segment_path (sw_shard_dir sw1) m) w1" by auto
    let ?p = "segment_path (sw_shard_dir sw1) n"
    obtain z s2 w2 where wl: "st_write_record S s st w1 = (z, s2, w2)" by (metis prod_cases3)
    note run = sw_write_opened [OF ne st op [unfolded Inr] s(1) wl]
    note l2 = write_law [OF gd hl wl]
    have fr2: "free (segment_path (sw_shard_dir sw1) m) w2" if "sw_next_counter sw1 \<le> m" for m
      by (rule step_free [OF l2 [THEN conjunct1]]) (use fr that s(2) in auto)
    have le2: "stab_le stab w w2" and gd2: "good w2"
      by (rule stab_le_trans [OF eo [THEN conjunct1] step_stab_le [OF l2 [THEN conjunct1]]],
          rule step_good [OF l2 [THEN conjunct1]])
    have same: "sw_active sw \<noteq> None \<Longrightarrow> sw_active_path sw = Some ?p" using eo s(3) by auto
    show ?thesis
    proof (cases z)
      case (Inl k)
      then show ?thesis using wr run le2 gd2 fr2 eo by (auto simp: last_write_failure_def writer_inv_def)
    next
      case (Inr u')
      have hl2: "healthy s2 ?p (rs @ [st]) w2" using l2 Inr by simp
      let ?sw = "sw1\<lparr>sw_active := Some s2, sw_active_records := sw_active_records sw1 + 1\<rparr>"
      have r: "sw_rotate S s2 ?sw w2 = (x, sw', w')" using wr run Inr by simp
      show ?thesis
      proof (cases "st_should_rotate S s2 (sw_segment_max_bytes sw1)")
        case False
        then have "x = Ok None" "sw' = ?sw\<lparr>sw_last_write_failure := None\<rparr>" "w' = w2"
          using r by (simp_all add: sw_rotate_def)
        then show ?thesis using le2 gd2 fr2 eo hl2 s ar st same
          by (auto simp: writer_inv_def)
      next
        case True
        obtain v w3 where se: "st_seal S s2 w2 = (v, w3)" by fastforce
        note l3 = seal_law [OF gd2 hl2 se]
        have fr3: "free (segment_path (sw_shard_dir sw1) m) w3" if "sw_next_counter sw1 \<le> m" for m
          by (rule step_free [OF l3 [THEN conjunct1]]) (use fr2 that s(2) in auto)
        have le3: "stab_le stab w w3" and gd3: "good w3"
          by (rule stab_le_trans [OF le2 step_stab_le [OF l3 [THEN conjunct1]]],
              rule step_good [OF l3 [THEN conjunct1]])
        show ?thesis
          using r True se l3 le3 gd3 fr3 eo ar st same
          by (cases v) (auto simp: sw_rotate_def last_write_failure_def writer_inv_def last_record_index_def)
      qed
    qed
  qed
qed

lemma fsync_current_correct:
  assumes iv: "inv rs sw w" and sy: "sw_fsync_current S sw w = (x, sw', w')"
  shows "stab_le stab w w' \<and>
    (case x of
       Inl k \<Rightarrow> inv [] sw' w'
     | Inr _ \<Rightarrow> sw' = sw \<and> inv rs sw w' \<and> (\<forall>p. sw_active_path sw = Some p \<longrightarrow> active_name p \<and> stab w' p = rs))"
proof (cases "sw_active sw")
  case None
  then show ?thesis using iv sy by (auto simp: sw_fsync_current_def writer_inv_def)
next
  case (Some s)
  then obtain n where n: "n < sw_next_counter sw" "sw_active_path sw = Some (segment_path (sw_shard_dir sw) n)"
    and hl: "healthy s (segment_path (sw_shard_dir sw) n) rs w" and gd: "good w"
    and fr: "\<forall>m \<ge> sw_next_counter sw. free (segment_path (sw_shard_dir sw) m) w"
    and rs: "rs \<noteq> []" "sw_active_records sw = length rs"
    using iv by (auto simp: writer_inv_def)
  obtain y w1 where c: "st_fsync S s w = (y, w1)" by fastforce
  note law = fsync_law [OF gd hl c]
  have fr1: "free (segment_path (sw_shard_dir sw) m) w1" if "sw_next_counter sw \<le> m" for m
    by (rule step_free [OF law [THEN conjunct1]]) (use fr that n in auto)
  have le: "stab_le stab w w1" and gd1: "good w1"
    by (rule step_stab_le [OF law [THEN conjunct1]], rule step_good [OF law [THEN conjunct1]])
  show ?thesis
  proof (cases y)
    case (Inl k)
    then show ?thesis using sy Some c le gd1 fr1 by (auto simp: sw_fsync_current_def writer_inv_def)
  next
    case (Inr u)
    then show ?thesis using sy Some c le gd1 fr1 law n rs by (auto simp: sw_fsync_current_def writer_inv_def)
  qed
qed

lemma seal_current_correct:
  assumes iv: "inv rs sw w" and se: "sw_seal_current S sw w = (x, sw', w')"
  shows "stab_le stab w w' \<and> inv [] sw' w' \<and> sw_active sw' = None \<and>
    (case x of
       Inl k \<Rightarrow> sw_active sw \<noteq> None
     | Inr None \<Rightarrow> sw_active sw = None \<and> rs = []
     | Inr (Some sealed) \<Rightarrow> \<exists>p. sw_active_path sw = Some p \<and> sealed = sealed_path_for p \<and> stab w' p = rs)"
proof (cases "sw_active sw")
  case None
  then show ?thesis using iv se by (auto simp: sw_seal_current_def writer_inv_def Let_def)
next
  case (Some s)
  then obtain n where n: "n < sw_next_counter sw" "sw_active_path sw = Some (segment_path (sw_shard_dir sw) n)"
    and hl: "healthy s (segment_path (sw_shard_dir sw) n) rs w" and gd: "good w"
    and fr: "\<forall>m \<ge> sw_next_counter sw. free (segment_path (sw_shard_dir sw) m) w"
    using iv by (auto simp: writer_inv_def)
  obtain y w1 where c: "st_seal S s w = (y, w1)" by fastforce
  note law = seal_law [OF gd hl c]
  have fr1: "free (segment_path (sw_shard_dir sw) m) w1" if "sw_next_counter sw \<le> m" for m
    by (rule step_free [OF law [THEN conjunct1]]) (use fr that n in auto)
  have le: "stab_le stab w w1" and gd1: "good w1"
    by (rule step_stab_le [OF law [THEN conjunct1]], rule step_good [OF law [THEN conjunct1]])
  show ?thesis
    using se Some c le gd1 fr1 law n
    by (cases y) (auto simp: sw_seal_current_def writer_inv_def Let_def)
qed

end

section \<open>The production backend meets the contract\<close>

lemma evolves_store_step: "evolves crc p w w' = store_step world_wf (stable_records crc) unused p w w'"
  by (simp add: evolves_def store_step_def grows_def)

lemma fs_store_simps [simp]:
  "st_create (fs_store C) = ws_create C" "st_segment_counters (fs_store C) = fs_segment_counters"
  "st_write_record (fs_store C) = ws_write_record C" "st_fsync (fs_store C) = ws_fsync"
  "st_should_rotate (fs_store C) = ws_should_rotate" "st_seal (fs_store C) = ws_seal C"
  by (simp_all add: fs_store_def)

interpretation fs: segment_backend "fs_store C" world_wf "stable_records (crc_hash C)" unused "ws_ok C" for C
proof
  fix w p sh c x w'
  assume "world_wf w" "active_name p" "unused p w" "st_create (fs_store C) p sh c w = (x, w')"
  then show "store_step world_wf (stable_records (crc_hash C)) unused p w w' \<and> (\<forall>s. x = Ok s \<longrightarrow> ws_ok C s p [] w')"
    using ws_create_correct [of w p C sh c x w'] by (auto simp: evolves_store_step)
next
  fix w s p rs st x s' w'
  assume "world_wf w" "ws_ok C s p rs w" "st_write_record (fs_store C) s st w = (x, s', w')"
  then show "store_step world_wf (stable_records (crc_hash C)) unused p w w' \<and>
      (x = Ok () \<longrightarrow> ws_ok C s' p (rs @ [st]) w')"
    using ws_write_correct [of C s p rs w st x s' w'] by (auto simp: evolves_store_step)
next
  fix w s p rs x w'
  assume "world_wf w" "ws_ok C s p rs w" "st_fsync (fs_store C) s w = (x, w')"
  then show "store_step world_wf (stable_records (crc_hash C)) unused p w w' \<and>
      (x = Ok () \<longrightarrow> ws_ok C s p rs w' \<and> stable_records (crc_hash C) w' p = rs)"
    using ws_fsync_correct [of C s p rs w x w'] by (auto simp: evolves_store_step)
next
  fix w s p rs x w'
  assume "world_wf w" "ws_ok C s p rs w" "st_seal (fs_store C) s w = (x, w')"
  then show "store_step world_wf (stable_records (crc_hash C)) unused p w w' \<and>
      (\<forall>q. x = Ok q \<longrightarrow> q = sealed_path_for p \<and> stable_records (crc_hash C) w' p = rs)"
    using ws_seal_correct [of C s p rs w x w'] by (auto simp: evolves_store_step)
qed

text \<open>The invariant of a shard writer on the file system, holding the records \<open>rs\<close>.\<close>

definition shard_ok :: "'h crc_ops \<Rightarrow> bytes list \<Rightarrow> 'h wab_segment shard_writer \<Rightarrow> world \<Rightarrow> bool" where
  "shard_ok C rs sw w \<longleftrightarrow> writer_inv world_wf unused (ws_ok C) rs sw w"


section \<open>Properties of the shard writer\<close>

lemma foldr_max_ge: "x \<in> set xs \<Longrightarrow> x \<le> foldr max xs (0 :: nat)"
  by (induction xs) auto

lemma scan_counter_bound:
  assumes "sw_scan_and_advance_counter (fs_store C) sw w = (Ok (), sw', w')"
    and "w_entry w (sw_shard_dir sw, nm) = Some i" "segment_counter_from_path (sw_shard_dir sw, nm) = Some c"
  shows "c < sw_next_counter sw'"
proof -
  obtain es where rd: "fs_read_dir (sw_shard_dir sw) w = (Ok es, w')"
    and es: "es = filter (\<lambda>p. fst p = sw_shard_dir sw) (map fst (w_dir w))"
    using assms(1)
    by (auto simp: sw_scan_and_advance_counter_def fs_segment_counters_def fs_read_dir_def io_step_def Let_def
        split: io_outcome.splits if_splits)
  have "(sw_shard_dir sw, nm) \<in> set es"
    using assms(2) by (force simp: es w_entry_def dest: map_of_SomeD)
  then have "c \<in> set (List.map_filter segment_counter_from_path es)"
    using assms(3) by (force simp: List.map_filter_def)
  then show ?thesis
    using assms(1) rd foldr_max_ge [of c "List.map_filter segment_counter_from_path es"]
    by (auto simp: sw_scan_and_advance_counter_def fs_segment_counters_def Let_def split: if_splits)
qed

text \<open>A scan moves only the counter; a successful one puts it above every counter on disk.\<close>

lemma scan_fields:
  assumes "sw_scan_and_advance_counter (fs_store C) sw w = (x, sw', w')"
  shows "w' = io_tick w" "sw_shard_dir sw' = sw_shard_dir sw" "sw_active sw' = sw_active sw"
    "sw_active_path sw' = sw_active_path sw" "same_codec sw sw'"
  using assms
  by (auto simp: sw_scan_and_advance_counter_def fs_segment_counters_def fs_read_dir_def same_codec_def
      io_step_tick Let_def split: io_outcome.splits if_splits)

lemma scan_fresh:
  assumes wf: "world_wf w" and big: "\<forall>n \<ge> 2 ^ 64. unused (segment_path (sw_shard_dir sw) n) w"
    and idle: "sw_active sw = None" "sw_active_path sw = None"
    and scan: "sw_scan_and_advance_counter (fs_store C) sw w = (Ok (), sw', w')"
  shows "shard_ok C [] sw' w'"
proof -
  let ?d = "sw_shard_dir sw"
  have "unused (segment_path ?d n) w" if n: "sw_next_counter sw' \<le> n" for n
  proof (cases "n < 2 ^ 64")
    case True
    have "cur_inode w (segment_path ?d n) = None"
    proof (rule ccontr)
      assume "cur_inode w (segment_path ?d n) \<noteq> None"
      then consider i where "w_entry w (segment_path ?d n) = Some i"
        | i where "w_entry w (sealed_path_for (segment_path ?d n)) = Some i"
        by (auto simp: cur_inode_def split: option.splits)
      then have "n < sw_next_counter sw'"
      proof cases
        case 1
        then show ?thesis
          using scan_counter_bound [OF scan, of "snd (segment_path ?d n)"] segment_path_counter(1) [OF True, of ?d]
          by (simp add: segment_path_def)
      next
        case 2
        then show ?thesis
          using scan_counter_bound [OF scan, of "snd (sealed_path_for (segment_path ?d n))"]
            segment_path_counter(2) [OF True, of ?d]
          by (simp add: sealed_segment_path)
      qed
      with n show False by simp
    qed
    moreover have "dur_inode w (segment_path ?d n) = None"
      using calculation wf by (cases "dur_inode w (segment_path ?d n)") (auto simp: world_wf_def)
    ultimately show ?thesis by (simp add: unused_def)
  next
    case False
    then show ?thesis using big by simp
  qed
  then show ?thesis using wf scan_fields [OF scan] idle by (simp add: shard_ok_def writer_inv_def)
qed

text \<open>
  C6: a writer that has scanned its directory never collides with an existing segment.  After a
  successful \<open>scan_and_advance_counter\<close>, in any world (sealed, active and half-written segments
  included, as long as no file name carries a counter beyond 64 bits), every counter from
  \<open>next_counter\<close> on is unused under its active and its sealed name, now and after a crash: the
  writer's invariant holds, and no seal can overwrite an undrained segment.
\<close>

theorem scan_establishes_invariant:
  assumes "world_wf w" "\<forall>n \<ge> 2 ^ 64. unused (segment_path d n) w"
    and "sw_scan_and_advance_counter (fs_store C) (sw_new_with_store shard d mx cmp lvl now) w = (Ok (), sw, w')"
  shows "shard_ok C [] sw w'"
  by (rule scan_fresh [OF assms(1) _ _ _ assms(3)]) (simp_all add: sw_new_with_store_def assms(2))

theorem scan_establishes_invariant_witness:
  "\<exists>sw w'. sw_scan_and_advance_counter (fs_store crc32_ops)
       (sw_new_with_store 0 (ascii ''d'') 100 CompNone 3 0) quiet_world = (Ok (), sw, w') \<and>
     shard_ok crc32_ops [] sw w'"
proof -
  have "\<exists>sw w'. sw_scan_and_advance_counter (fs_store crc32_ops)
       (sw_new_with_store 0 (ascii ''d'') 100 CompNone 3 0) quiet_world = (Ok (), sw, w')"
    by (simp add: sw_scan_and_advance_counter_def fs_segment_counters_def fs_defs quiet_world_def Let_def)
  then show ?thesis
    using scan_establishes_invariant [OF quiet_world_wf(1), of "ascii ''d''" crc32_ops 0 100 CompNone 3 0] by fastforce
qed

lemma new_writer_shard_ok:
  "shard_ok C [] (sw_new_with_store shard d mx cmp lvl now) quiet_world"
  by (simp add: shard_ok_def writer_inv_def sw_new_with_store_def)

text \<open>
  C4: what a write reports is what happened, whatever the disk does.  From a writer whose active
  segment holds \<open>rs\<close>: success without rotation means the stored form of the payload is now the
  next record of the active segment; success with rotation means the whole segment, this record
  included, is on stable storage under the sealed path returned; a refusal leaves segment and
  world untouched; and any other failure retires the active segment and says so.  In no case
  does anything on stable storage change.
\<close>

theorem shard_write_record_correct:
  assumes "shard_ok C rs sw w" "sw_write_record (fs_store C) Z now payload sw w = (x, sw', w')"
  shows "(\<forall>q. active_name q \<longrightarrow> prefix (stable_records (crc_hash C) w q) (stable_records (crc_hash C) w' q)) \<and>
    (case x of
       Inl k \<Rightarrow>
         (last_write_failure sw' = RecordRejected \<and> sw_active sw' = sw_active sw \<and> w' = w \<and> shard_ok C rs sw' w') \<or>
         (last_write_failure sw' = SegmentDropped \<and> sw_active sw' = None \<and> shard_ok C [] sw' w')
     | Inr None \<Rightarrow> \<exists>st. stored_form Z sw payload = Some st \<and> shard_ok C (rs @ [st]) sw' w'
     | Inr (Some sealed) \<Rightarrow> \<exists>st p. stored_form Z sw payload = Some st \<and> shard_ok C [] sw' w' \<and>
         sw_active sw' = None \<and> sealed = sealed_path_for p \<and> stable_records (crc_hash C) w' p = rs @ [st])"
  using fs.write_record_correct [of C rs sw w Z now payload x sw' w'] assms
  by (auto simp: shard_ok_def stab_le_def split: sum.splits option.splits)

theorem shard_write_record_correct_witness:
  "\<exists>sw' w'. sw_write_record (fs_store crc32_ops) zstd_verbatim 0 (ascii ''a'')
       (sw_new_with_store 0 (ascii ''d'') 100 CompNone 3 0) quiet_world = (Ok None, sw', w') \<and>
     (\<exists>st. stored_form zstd_verbatim (sw_new_with_store 0 (ascii ''d'') 100 CompNone 3 0 :: u32 wab_segment shard_writer)
          (ascii ''a'') = Some st \<and> shard_ok crc32_ops [st] sw' w')"
proof -
  have "\<exists>sw' w'. sw_write_record (fs_store crc32_ops) zstd_verbatim 0 (ascii ''a'')
       (sw_new_with_store 0 (ascii ''d'') 100 CompNone 3 0) quiet_world = (Ok None, sw', w')"
    by (simp add: sw_write_record_def sw_ensure_open_def stored_form_def sw_new_with_store_def ws_create_def
        ws_write_record_def ws_should_rotate_def fs_defs quiet_world_def w_append_def w_entry_def Let_def
        u32_try_from_def MAX_PAYLOAD_HARD_CAP_def SEGMENT_HEADER_LEN_def ascii_def)
  then show ?thesis
    using shard_write_record_correct [OF new_writer_shard_ok, of crc32_ops zstd_verbatim 0 "ascii ''a''" 0 "ascii ''d''"
        100 CompNone 3 0] by fastforce
qed

text \<open>
  C7: an fsync that succeeds covers every record of the active segment, and one that fails
  retires it.  So no later fsync can vouch for pages the kernel dropped after the failure.
\<close>

theorem shard_fsync_correct:
  assumes "shard_ok C rs sw w" "sw_fsync_current (fs_store C) sw w = (x, sw', w')"
  shows "(\<forall>q. active_name q \<longrightarrow> prefix (stable_records (crc_hash C) w q) (stable_records (crc_hash C) w' q)) \<and>
    (case x of
       Inl k \<Rightarrow> \<not> has_active_segment sw' \<and> shard_ok C [] sw' w'
     | Inr _ \<Rightarrow> sw' = sw \<and> shard_ok C rs sw w' \<and>
         (\<forall>p. sw_active_path sw = Some p \<longrightarrow> stable_records (crc_hash C) w' p = rs))"
  using fs.fsync_current_correct [of C rs sw w x sw' w'] assms writer_inv_active_None
  by (auto simp: shard_ok_def stab_le_def has_active_segment_def split: sum.splits)

theorem shard_fsync_correct_witness:
  "\<exists>x sw' w'. sw_fsync_current (fs_store crc32_ops)
       (sw_new_with_store 0 (ascii ''d'') 100 CompNone 3 0) quiet_world = (x, sw', w') \<and>
     (x = Ok () \<longrightarrow> shard_ok crc32_ops [] sw' w')"
proof -
  have run: "sw_fsync_current (fs_store crc32_ops) (sw_new_with_store 0 (ascii ''d'') 100 CompNone 3 0) quiet_world
    = (Ok (), sw_new_with_store 0 (ascii ''d'') 100 CompNone 3 0, quiet_world)"
    by (simp add: sw_fsync_current_def sw_new_with_store_def)
  from shard_fsync_correct [OF new_writer_shard_ok run] run show ?thesis by fastforce
qed

end
