(* ===== verification/Shards.thy ===== *)
theory Shards
  imports Prelude
begin

text \<open>
  The state of the shards and of the worker threads, \<open>weir-server/src/status/shards.rs\<close>, the
  routing of connections that reads it (\<open>socket/route.rs\<close>), and the panic supervisor of a
  flusher that writes it (\<open>run_with_panic_supervision\<close> of \<open>wab/mod.rs\<close>).  Atomic cells are
  values of a record, stored in the encodings of \<open>weir-status/src/evidence.rs\<close>; the wall clock is an
  argument.  The supervised body is a parameter: attempt \<open>k\<close> may mark the shard up and ends
  with an exit or with a panic.

  Main results: routing is an exact round robin over the shards that can take ingest, and a
  supervisor runs its body at most eleven times and leaves the shard in the terminal state
  that its exit means.
\<close>

section \<open>The closed sets\<close>

datatype shard_state = Starting | Up | Respawning | Offline | Stopped

definition shard_state_ALL :: "shard_state list" where
  "shard_state_ALL = [Starting, Up, Respawning, Offline, Stopped]"

datatype offline_reason = RespawnExhausted | CounterScanFailed | FlusherExited

definition offline_reason_ALL :: "offline_reason list" where
  "offline_reason_ALL = [RespawnExhausted, CounterScanFailed, FlusherExited]"

definition closed_as_u8 :: "'a list \<Rightarrow> 'a \<Rightarrow> u8" where
  "closed_as_u8 al x = of_nat (length (takeWhile (\<lambda>y. y \<noteq> x) al))"

definition closed_from_u8 :: "'a list \<Rightarrow> u8 \<Rightarrow> 'a option" where
  "closed_from_u8 al v = (if unat v < length al then Some (al ! unat v) else None)"

section \<open>Cells and registry\<close>

definition NO_REASON :: u8 where "NO_REASON = 255"

record shard_cell =
  sc_state :: u8
  sc_reason :: u8
  sc_since_ms :: nat
  sc_respawns :: u32
  sc_handoff_blocked_since_ms :: nat

definition shard_cell_new :: "nat \<Rightarrow> shard_cell" where
  "shard_cell_new now_ms =
     \<lparr>sc_state = closed_as_u8 shard_state_ALL Starting, sc_reason = NO_REASON, sc_since_ms = now_ms,
      sc_respawns = 0, sc_handoff_blocked_since_ms = 0\<rparr>"

definition shard_cell_set :: "shard_state \<Rightarrow> offline_reason option \<Rightarrow> nat \<Rightarrow> shard_cell \<Rightarrow> shard_cell" where
  "shard_cell_set state reason now_ms c =
     c\<lparr>sc_reason := (case reason of None \<Rightarrow> NO_REASON | Some r \<Rightarrow> closed_as_u8 offline_reason_ALL r),
       sc_since_ms := now_ms, sc_state := closed_as_u8 shard_state_ALL state\<rparr>"

definition shard_cell_state :: "shard_cell \<Rightarrow> shard_state" where
  "shard_cell_state c =
     (case closed_from_u8 shard_state_ALL (sc_state c) of Some s \<Rightarrow> s | None \<Rightarrow> Offline)"

record worker_cell =
  wc_running :: bool
  wc_exited_at_ms :: nat

record shard_registry =
  reg_shards :: "shard_cell list"
  reg_workers :: "worker_cell list"
  reg_shutting_down :: bool

definition registry_new :: "nat \<Rightarrow> nat \<Rightarrow> bool \<Rightarrow> nat \<Rightarrow> shard_registry" where
  "registry_new shard_count worker_count sd now =
     \<lparr>reg_shards = replicate shard_count (shard_cell_new now),
      reg_workers = replicate worker_count \<lparr>wc_running = False, wc_exited_at_ms = 0\<rparr>,
      reg_shutting_down = sd\<rparr>"

definition reg_state :: "shard_registry \<Rightarrow> nat \<Rightarrow> shard_state" where
  "reg_state r shard = shard_cell_state (reg_shards r ! shard)"

definition reg_reason :: "shard_registry \<Rightarrow> nat \<Rightarrow> offline_reason option" where
  "reg_reason r shard = closed_from_u8 offline_reason_ALL (sc_reason (reg_shards r ! shard))"

definition reg_respawns :: "shard_registry \<Rightarrow> nat \<Rightarrow> u32" where
  "reg_respawns r shard = sc_respawns (reg_shards r ! shard)"

definition reg_update :: "nat \<Rightarrow> (shard_cell \<Rightarrow> shard_cell) \<Rightarrow> shard_registry \<Rightarrow> shard_registry" where
  "reg_update shard f r = r\<lparr>reg_shards := (reg_shards r)[shard := f (reg_shards r ! shard)]\<rparr>"

definition mark_up :: "nat \<Rightarrow> nat \<Rightarrow> shard_registry \<Rightarrow> shard_registry" where
  "mark_up shard now = reg_update shard (shard_cell_set Up None now)"

definition mark_respawning :: "nat \<Rightarrow> nat \<Rightarrow> shard_registry \<Rightarrow> shard_registry" where
  "mark_respawning shard now =
     reg_update shard (\<lambda>c. shard_cell_set Respawning None now (c\<lparr>sc_respawns := sc_respawns c + 1\<rparr>))"

datatype supervisor_exit = InputClosed_exit | CounterScanFailed_exit | RespawnExhausted_exit

definition mark_exit :: "nat \<Rightarrow> supervisor_exit \<Rightarrow> nat \<Rightarrow> shard_registry \<Rightarrow> shard_registry" where
  "mark_exit shard exit now r =
     (let (state, reason) =
        (case exit of
           InputClosed_exit \<Rightarrow>
             if reg_shutting_down r then (Stopped, None) else (Offline, Some FlusherExited)
         | CounterScanFailed_exit \<Rightarrow> (Offline, Some CounterScanFailed)
         | RespawnExhausted_exit \<Rightarrow> (Offline, Some RespawnExhausted)) in
      reg_update shard (shard_cell_set state reason now) r)"

text \<open>\<open>compare_exchange(0, since)\<close>: the first stamp of an episode is kept; 0 clears.\<close>

definition set_handoff_blocked_since_ms :: "nat \<Rightarrow> nat \<Rightarrow> nat" where
  "set_handoff_blocked_since_ms since_unix_ms cell =
     (if since_unix_ms = 0 then 0 else if cell = 0 then since_unix_ms else cell)"

definition handoff_blocked_since_ms :: "shard_registry \<Rightarrow> nat \<Rightarrow> nat option" where
  "handoff_blocked_since_ms r shard =
     (let v = sc_handoff_blocked_since_ms (reg_shards r ! shard) in if v \<noteq> 0 then Some v else None)"

definition worker_running :: "shard_registry \<Rightarrow> nat \<Rightarrow> bool" where
  "worker_running r worker \<longleftrightarrow> worker < length (reg_workers r) \<and> wc_running (reg_workers r ! worker)"

definition ingest_capable :: "shard_registry \<Rightarrow> nat \<Rightarrow> bool" where
  "ingest_capable r shard \<longleftrightarrow>
     (reg_state r shard = Up \<or> reg_state r shard = Respawning) \<and>
     worker_running r (shard mod max 1 (length (reg_workers r)))"

definition ingest_capable_count :: "shard_registry \<Rightarrow> nat" where
  "ingest_capable_count r = length (filter (ingest_capable r) [0..<length (reg_shards r)])"

text \<open>Count and walk read the same registry here.\<close>

definition pick_live :: "shard_registry \<Rightarrow> u64 \<Rightarrow> nat option" where
  "pick_live r n =
     (let k = ingest_capable_count r in
      if k = 0 then None
      else
        let target = unat n mod k; capable = filter (ingest_capable r) [0..<length (reg_shards r)] in
        if target < length capable then Some (capable ! target)
        else (case capable of [] \<Rightarrow> None | s # _ \<Rightarrow> Some s))"

definition all_settled :: "shard_registry \<Rightarrow> bool" where
  "all_settled r = list_all (\<lambda>c. shard_cell_state c \<noteq> Starting) (reg_shards r)"

definition worker_enter :: "nat \<Rightarrow> shard_registry \<Rightarrow> shard_registry" where
  "worker_enter w r = r\<lparr>reg_workers := (reg_workers r)[w := (reg_workers r ! w)\<lparr>wc_running := True\<rparr>]\<rparr>"

definition worker_drop :: "nat \<Rightarrow> nat \<Rightarrow> shard_registry \<Rightarrow> shard_registry" where
  "worker_drop w now r =
     r\<lparr>reg_workers := (reg_workers r)[w := \<lparr>wc_running = False, wc_exited_at_ms = max 1 now\<rparr>]\<rparr>"

text \<open>\<open>ShardRouter::pick\<close>: round robin over a fixed count, or over the live shards.\<close>

datatype router_kind = RoundRobin u64 | Live

definition round_robin :: "nat \<Rightarrow> router_kind" where
  "round_robin shard_count = RoundRobin (of_nat (max 1 shard_count))"

definition router_pick :: "router_kind \<Rightarrow> shard_registry \<Rightarrow> u64 \<Rightarrow> nat option" where
  "router_pick kind r n =
     (case kind of RoundRobin k \<Rightarrow> Some (unat n mod unat k) | Live \<Rightarrow> pick_live r n)"

text \<open>\<open>WarnLimiter::due\<close> for one caller at a time: \<open>next_ms\<close> is the cell.\<close>

definition warn_due :: "nat \<Rightarrow> nat \<Rightarrow> nat \<Rightarrow> bool \<times> nat" where
  "warn_due interval_ms now next_ms =
     (if now \<ge> next_ms then (True, now + interval_ms) else (False, next_ms))"

section \<open>The panic supervisor\<close>

definition MAX_FLUSHER_RESPAWNS :: nat where "MAX_FLUSHER_RESPAWNS = 10"

datatype flusher_exit = InputClosed | ScanFailed

datatype body_end = BodyExit flusher_exit | BodyPanic

record supervision =
  sup_exit :: supervisor_exit
  sup_registry :: shard_registry
  sup_sleeps_ms :: "nat list"
  sup_panics :: nat

text \<open>
  \<open>body k\<close> is attempt \<open>k\<close>: whether it marked the shard up, and how it ended; \<open>ms k\<close> is the
  wall clock around it.  \<open>sd k\<close> is the shutdown flag, which other threads set, as it stands when
  attempt \<open>k\<close> has ended: \<open>mark_exit\<close> loads it then.
\<close>

function run_with_panic_supervision ::
  "nat \<Rightarrow> (nat \<Rightarrow> bool \<times> body_end) \<Rightarrow> (nat \<Rightarrow> bool) \<Rightarrow> (nat \<Rightarrow> nat) \<Rightarrow> nat \<Rightarrow> shard_registry \<Rightarrow> supervision"
where
  "run_with_panic_supervision shard body sd ms attempt r =
     (let (up, result) = body attempt;
          r = (if up then mark_up shard (ms attempt) r else r)\<lparr>reg_shutting_down := sd attempt\<rparr> in
      case result of
        BodyExit e \<Rightarrow>
          (let exit = (case e of InputClosed \<Rightarrow> InputClosed_exit | ScanFailed \<Rightarrow> CounterScanFailed_exit) in
           \<lparr>sup_exit = exit, sup_registry = mark_exit shard exit (ms attempt) r, sup_sleeps_ms = [], sup_panics = 0\<rparr>)
      | BodyPanic \<Rightarrow>
          if attempt + 1 > MAX_FLUSHER_RESPAWNS
          then \<lparr>sup_exit = RespawnExhausted_exit,
                sup_registry = mark_exit shard RespawnExhausted_exit (ms attempt) r,
                sup_sleeps_ms = [], sup_panics = 1\<rparr>
          else
            let s = run_with_panic_supervision shard body sd ms (attempt + 1)
                      (mark_respawning shard (ms attempt) r) in
            s\<lparr>sup_sleeps_ms := 10 * (attempt + 1) # sup_sleeps_ms s, sup_panics := sup_panics s + 1\<rparr>)"
  by pat_completeness auto
termination
  by (relation "measure (\<lambda>(_, _, _, _, attempt, _). MAX_FLUSHER_RESPAWNS - attempt)") auto

declare run_with_panic_supervision.simps [simp del]

section \<open>Routing\<close>

lemma shift_mod_unique:
  assumes "i < (k :: nat)"
  shows "\<exists>!m. m < k \<and> (a + m) mod k = i"
proof
  have le: "a mod k \<le> i + k" using assms by (simp add: trans_le_add2)
  have "(a mod k + (i + k - a mod k)) mod k = i" using assms le by simp
  then show "(i + k - a mod k) mod k < k \<and> (a + (i + k - a mod k) mod k) mod k = i"
    using assms by (metis mod_add_left_eq mod_add_right_eq mod_less_divisor not_less_zero neq0_conv)
  fix m
  assume m: "m < k \<and> (a + m) mod k = i"
  define b where "b = a mod k"
  have b: "b < k" using assms by (simp add: b_def)
  have "(b + m) mod k = i" using m by (simp add: b_def mod_add_left_eq)
  then have "i = (if b + m < k then b + m else b + m - k)"
    using m b by (auto simp: le_mod_geq intro!: mod_less)
  then have "m = (i + k - b) mod k" using m b by (auto split: if_splits)
  then show "m = (i + k - a mod k) mod k" by (simp add: b_def)
qed

lemma pick_live_nth:
  "pick_live r n =
     (let cs = filter (ingest_capable r) [0..<length (reg_shards r)] in
      if cs = [] then None else Some (cs ! (unat n mod length cs)))"
  by (auto simp: pick_live_def ingest_capable_count_def Let_def split: list.split)

text \<open>
  C31: connections are spread exactly evenly over the shards that can take ingest.
  \<open>pick_live\<close> refuses only when no shard is capable, never names an incapable shard, and among
  any \<open>k\<close> consecutive connection numbers (\<open>k\<close> the number of capable shards) each capable shard
  is picked exactly once.
\<close>

theorem pick_live_round_robin:
  "(pick_live r n = None \<longleftrightarrow> (\<forall>s < length (reg_shards r). \<not> ingest_capable r s)) \<and>
   (\<forall>s. pick_live r n = Some s \<longrightarrow> s < length (reg_shards r) \<and> ingest_capable r s) \<and>
   (\<forall>s < length (reg_shards r). ingest_capable r s \<longrightarrow> unat n + ingest_capable_count r \<le> 2 ^ 64 \<longrightarrow>
      (\<exists>!m. m < ingest_capable_count r \<and> pick_live r (n + of_nat m) = Some s))"
proof -
  let ?cs = "filter (ingest_capable r) [0..<length (reg_shards r)]"
  let ?k = "ingest_capable_count r"
  have k: "?k = length ?cs" by (simp add: ingest_capable_count_def)
  have mem: "?cs ! (i mod length ?cs) \<in> set ?cs" if "?cs \<noteq> []" for i using that by (intro nth_mem) simp
  have "\<exists>!m. m < ?k \<and> pick_live r (n + of_nat m) = Some s"
    if s: "s < length (reg_shards r)" "ingest_capable r s" and b: "unat n + ?k \<le> 2 ^ 64" for s
  proof -
    have "s \<in> set ?cs" using s by simp
    then obtain i where i: "i < length ?cs" "?cs ! i = s" unfolding in_set_conv_nth by blast
    have "pick_live r (n + of_nat m) = Some s \<longleftrightarrow> (unat n + m) mod ?k = i" if m: "m < ?k" for m
    proof -
      have u: "unat (n + of_nat m) = unat n + m"
      proof -
        have "unat n + m < 2 ^ LENGTH(64)" using b m by simp
        then show ?thesis using unat_of_nat_eq [of "unat n + m", where 'a = 64] by simp
      qed
      have "0 < length ?cs" using m unfolding k by linarith
      then have "(unat n + m) mod ?k < length ?cs" unfolding k by (rule mod_less_divisor)
      then have "?cs ! ((unat n + m) mod ?k) = ?cs ! i \<longleftrightarrow> (unat n + m) mod ?k = i"
        using i(1) by (intro nth_eq_iff_index_eq) simp_all
      then show ?thesis using i u by (auto simp: pick_live_nth Let_def k)
    qed
    moreover have "\<exists>!m. m < ?k \<and> (unat n + m) mod ?k = i" using i(1) by (intro shift_mod_unique) (simp add: k)
    ultimately show ?thesis by (metis (mono_tags, lifting))
  qed
  moreover have "pick_live r n = None \<longleftrightarrow> (\<forall>s < length (reg_shards r). \<not> ingest_capable r s)"
    by (auto simp: pick_live_nth Let_def filter_empty_conv)
  moreover have "s < length (reg_shards r) \<and> ingest_capable r s" if "pick_live r n = Some s" for s
    using mem [of "unat n"] that by (auto simp: pick_live_nth Let_def split: if_splits)
  ultimately show ?thesis by blast
qed

definition two_of_three :: shard_registry where
  "two_of_three = mark_up 2 0 (mark_up 0 0 (worker_enter 0 (registry_new 3 1 False 0)))"

theorem pick_live_round_robin_witness:
  "ingest_capable two_of_three 2 \<and> ingest_capable_count two_of_three = 2 \<and>
   (\<exists>!m. m < ingest_capable_count two_of_three \<and> pick_live two_of_three (5 + of_nat m) = Some 2)"
proof -
  have st: "reg_state two_of_three 0 = Up" "reg_state two_of_three 1 = Starting" "reg_state two_of_three 2 = Up"
    by (simp_all add: two_of_three_def registry_new_def mark_up_def reg_update_def worker_enter_def reg_state_def
        shard_cell_set_def shard_cell_state_def shard_cell_new_def closed_as_u8_def closed_from_u8_def
        shard_state_ALL_def eval_nat_numeral)
  have wk: "worker_running two_of_three 0" "length (reg_workers two_of_three) = 1" "length (reg_shards two_of_three) = 3"
    by (simp_all add: two_of_three_def registry_new_def mark_up_def reg_update_def worker_enter_def worker_running_def)
  have cap: "ingest_capable two_of_three 0" "\<not> ingest_capable two_of_three 1" "ingest_capable two_of_three 2"
    using st wk by (simp_all add: ingest_capable_def)
  have "ingest_capable_count two_of_three = 2"
    using cap wk by (simp add: ingest_capable_count_def eval_nat_numeral)
  then show ?thesis using pick_live_round_robin [of two_of_three 5] cap wk by simp
qed

section \<open>Supervision\<close>

lemma shard_state_codes [simp]: "closed_from_u8 shard_state_ALL (closed_as_u8 shard_state_ALL s) = Some s"
  by (cases s) (simp_all add: shard_state_ALL_def closed_as_u8_def closed_from_u8_def)

lemma offline_reason_codes [simp]: "closed_from_u8 offline_reason_ALL (closed_as_u8 offline_reason_ALL s) = Some s"
  by (cases s) (simp_all add: offline_reason_ALL_def closed_as_u8_def closed_from_u8_def)

definition exit_of :: "flusher_exit \<Rightarrow> supervisor_exit" where
  "exit_of e = (case e of InputClosed \<Rightarrow> InputClosed_exit | ScanFailed \<Rightarrow> CounterScanFailed_exit)"

lemma supervision_registry:
  "\<exists>t r'. sup_registry (run_with_panic_supervision shard body sd ms a r)
       = mark_exit shard (sup_exit (run_with_panic_supervision shard body sd ms a r)) t r' \<and>
     length (reg_shards r') = length (reg_shards r) \<and>
     (sup_exit (run_with_panic_supervision shard body sd ms a r) \<noteq> RespawnExhausted_exit \<longrightarrow>
        reg_shutting_down r' = sd (a + sup_panics (run_with_panic_supervision shard body sd ms a r)))"
proof (induction shard body sd ms a r rule: run_with_panic_supervision.induct)
  case (1 shard body sd ms a r)
  obtain up res where b: "body a = (up, res)" by fastforce
  let ?r = "(if up then mark_up shard (ms a) r else r)\<lparr>reg_shutting_down := sd a\<rparr>"
  have l: "length (reg_shards ?r) = length (reg_shards r)" "length (reg_shards (mark_respawning shard (ms a) ?r)) = length (reg_shards r)"
    by (simp_all add: mark_up_def mark_respawning_def reg_update_def)
  show ?case
  proof (cases res)
    case (BodyExit e)
    then show ?thesis using b l
      by (subst (1 2 3 4) run_with_panic_supervision.simps) (intro exI [of _ "ms a"] exI [of _ ?r], simp add: Let_def)
  next
    case BodyPanic
    show ?thesis
    proof (cases "a + 1 > MAX_FLUSHER_RESPAWNS")
      case True
      then show ?thesis using b l BodyPanic
        by (subst (1 2 3 4) run_with_panic_supervision.simps) (intro exI [of _ "ms a"] exI [of _ ?r], simp add: Let_def)
    next
      case False
      let ?s = "run_with_panic_supervision shard body sd ms (a + 1) (mark_respawning shard (ms a) ?r)"
      have s: "run_with_panic_supervision shard body sd ms a r =
          ?s\<lparr>sup_sleeps_ms := 10 * (a + 1) # sup_sleeps_ms ?s, sup_panics := sup_panics ?s + 1\<rparr>"
        using b BodyPanic False by (subst run_with_panic_supervision.simps) (simp add: Let_def)
      have "\<exists>t r'. sup_registry ?s = mark_exit shard (sup_exit ?s) t r' \<and>
          length (reg_shards r') = length (reg_shards (mark_respawning shard (ms a) ?r)) \<and>
          (sup_exit ?s \<noteq> RespawnExhausted_exit \<longrightarrow> reg_shutting_down r' = sd (a + 1 + sup_panics ?s))"
        by (rule 1 [OF refl b [symmetric] refl BodyPanic False])
      then show ?thesis unfolding s using l(2) by (simp add: add.commute add.left_commute)
    qed
  qed
qed

lemma supervision_exit:
  assumes "a \<le> k" "k \<le> MAX_FLUSHER_RESPAWNS" "snd (body k) = BodyExit e" "\<And>i. a \<le> i \<Longrightarrow> i < k \<Longrightarrow> snd (body i) = BodyPanic"
  shows "sup_exit (run_with_panic_supervision shard body sd ms a r) = exit_of e \<and>
    sup_panics (run_with_panic_supervision shard body sd ms a r) = k - a \<and>
    sup_sleeps_ms (run_with_panic_supervision shard body sd ms a r) = map (\<lambda>i. 10 * (i + 1)) [a..<k]"
  using assms
proof (induction "k - a" arbitrary: a r)
  case 0
  then show ?case
    by (subst (1 2 3) run_with_panic_supervision.simps) (simp add: Let_def case_prod_unfold exit_of_def)
next
  case (Suc n)
  then have "a < k" "snd (body a) = BodyPanic" by simp_all
  moreover have IH: "sup_exit (run_with_panic_supervision shard body sd ms (a + 1) r') = exit_of e \<and>
    sup_panics (run_with_panic_supervision shard body sd ms (a + 1) r') = k - (a + 1) \<and>
    sup_sleeps_ms (run_with_panic_supervision shard body sd ms (a + 1) r') = map (\<lambda>i. 10 * (i + 1)) [a + 1..<k]" for r'
    using Suc by (intro Suc.hyps(1)) simp_all
  ultimately show ?case using Suc.prems(2)
    by (subst (1 2 3) run_with_panic_supervision.simps) (simp add: Let_def case_prod_unfold upt_conv_Cons IH)
qed

lemma supervision_exhausted:
  assumes "a \<le> MAX_FLUSHER_RESPAWNS" "\<And>i. a \<le> i \<Longrightarrow> i \<le> MAX_FLUSHER_RESPAWNS \<Longrightarrow> snd (body i) = BodyPanic"
  shows "sup_exit (run_with_panic_supervision shard body sd ms a r) = RespawnExhausted_exit \<and>
    sup_panics (run_with_panic_supervision shard body sd ms a r) = Suc MAX_FLUSHER_RESPAWNS - a \<and>
    sup_sleeps_ms (run_with_panic_supervision shard body sd ms a r) = map (\<lambda>i. 10 * (i + 1)) [a..<MAX_FLUSHER_RESPAWNS]"
  using assms
proof (induction "MAX_FLUSHER_RESPAWNS - a" arbitrary: a r)
  case 0
  then show ?case
    by (subst (1 2 3) run_with_panic_supervision.simps) (simp add: Let_def case_prod_unfold)
next
  case (Suc n)
  then have "a < MAX_FLUSHER_RESPAWNS" "snd (body a) = BodyPanic" by simp_all
  moreover have IH: "sup_exit (run_with_panic_supervision shard body sd ms (a + 1) r') = RespawnExhausted_exit \<and>
    sup_panics (run_with_panic_supervision shard body sd ms (a + 1) r') = Suc MAX_FLUSHER_RESPAWNS - (a + 1) \<and>
    sup_sleeps_ms (run_with_panic_supervision shard body sd ms (a + 1) r')
      = map (\<lambda>i. 10 * (i + 1)) [a + 1..<MAX_FLUSHER_RESPAWNS]" for r'
    using Suc by (intro Suc.hyps(1)) simp_all
  ultimately show ?case
    by (subst (1 2 3) run_with_panic_supervision.simps) (simp add: Let_def case_prod_unfold upt_conv_Cons IH)
qed

definition exit_reason :: "supervisor_exit \<Rightarrow> bool \<Rightarrow> offline_reason option" where
  "exit_reason e stopping = (case e of InputClosed_exit \<Rightarrow> if stopping then None else Some FlusherExited
     | CounterScanFailed_exit \<Rightarrow> Some CounterScanFailed | RespawnExhausted_exit \<Rightarrow> Some RespawnExhausted)"

lemma no_reason_code [simp]: "closed_from_u8 offline_reason_ALL NO_REASON = None"
  by (simp add: closed_from_u8_def offline_reason_ALL_def NO_REASON_def)

lemma mark_exit_state:
  "shard < length (reg_shards r) \<Longrightarrow>
   reg_state (mark_exit shard e t r) shard =
     (if e = InputClosed_exit \<and> reg_shutting_down r then Stopped else Offline)"
  "shard < length (reg_shards r) \<Longrightarrow> reg_reason (mark_exit shard e t r) shard = exit_reason e (reg_shutting_down r)"
  by (cases e; simp add: mark_exit_def reg_update_def reg_state_def shard_cell_state_def shard_cell_set_def reg_reason_def exit_reason_def)+

text \<open>
  C30: a flusher that panics is respawned at most ten times, and the shard never stays routable
  afterwards.  If the first body to return is attempt \<open>k\<close> (at most the tenth respawn), the
  supervisor ends with its exit after \<open>k\<close> panics and sleeps of 10, 20, ..., 10k ms; if all
  eleven attempts panic it gives up after 550 ms of back-off.  Either way the shard's final
  state is \<open>Stopped\<close>, exactly when the input closed and the shutdown flag is set at that moment, or
  \<open>Offline\<close> with the reason that its exit means, so no connection is routed to it.
\<close>

theorem supervision_terminal:
  assumes "shard < length (reg_shards r)" "s = run_with_panic_supervision shard body sd ms 0 r"
  shows "(\<forall>k e. k \<le> MAX_FLUSHER_RESPAWNS \<and> snd (body k) = BodyExit e \<and> (\<forall>i < k. snd (body i) = BodyPanic) \<longrightarrow>
      sup_exit s = exit_of e \<and> sup_panics s = k \<and> sup_sleeps_ms s = map (\<lambda>i. 10 * (i + 1)) [0..<k]) \<and>
    ((\<forall>i \<le> MAX_FLUSHER_RESPAWNS. snd (body i) = BodyPanic) \<longrightarrow>
      sup_exit s = RespawnExhausted_exit \<and> sup_panics s = 11 \<and> sum_list (sup_sleeps_ms s) = 550) \<and>
    reg_state (sup_registry s) shard = (if sup_exit s = InputClosed_exit \<and> sd (sup_panics s) then Stopped else Offline) \<and>
    reg_reason (sup_registry s) shard = exit_reason (sup_exit s) (sd (sup_panics s)) \<and>
    \<not> ingest_capable (sup_registry s) shard"
proof -
  obtain t r' where r': "sup_registry s = mark_exit shard (sup_exit s) t r'"
    "length (reg_shards r') = length (reg_shards r)"
    "sup_exit s \<noteq> RespawnExhausted_exit \<longrightarrow> reg_shutting_down r' = sd (sup_panics s)"
    using supervision_registry [of shard body sd ms 0 r] assms(2) by auto
  have st: "reg_state (sup_registry s) shard = (if sup_exit s = InputClosed_exit \<and> sd (sup_panics s) then Stopped else Offline)"
    "reg_reason (sup_registry s) shard = exit_reason (sup_exit s) (sd (sup_panics s))"
    using assms(1) r' by (auto simp: mark_exit_state exit_reason_def split: supervisor_exit.splits)
  have "sum_list (map (\<lambda>i. 10 * (i + 1)) [0..<MAX_FLUSHER_RESPAWNS]) = 550"
    by (simp add: MAX_FLUSHER_RESPAWNS_def upt_rec)
  then show ?thesis
    using st supervision_exit [of 0 _ body _ shard sd ms r] supervision_exhausted [of 0 body shard sd ms r] assms(2)
    by (auto simp: ingest_capable_def MAX_FLUSHER_RESPAWNS_def)
qed

theorem supervision_terminal_witness:
  "let s = run_with_panic_supervision 0 (\<lambda>k. (True, if k < 2 then BodyPanic else BodyExit InputClosed)) (\<lambda>k. k = 2) (\<lambda>k. k) 0
       (registry_new 1 1 False 0) in
   sup_exit s = InputClosed_exit \<and> sup_panics s = 2 \<and> sup_sleeps_ms s = [10, 20] \<and>
   reg_state (sup_registry s) 0 = Stopped"
proof -
  let ?body = "\<lambda>k. (True, if k < 2 then BodyPanic else BodyExit InputClosed)"
  let ?s = "run_with_panic_supervision 0 ?body (\<lambda>k. k = 2) (\<lambda>k. k) 0 (registry_new 1 1 False 0)"
  note T = supervision_terminal [of 0 "registry_new 1 1 False 0", OF _ refl, of ?body "\<lambda>k. k = 2" "\<lambda>k. k"]
  have "sup_exit ?s = exit_of InputClosed \<and> sup_panics ?s = 2 \<and> sup_sleeps_ms ?s = map (\<lambda>i. 10 * (i + 1)) [0..<2]"
    using T [THEN conjunct1, rule_format, of 2 InputClosed] by (simp add: registry_new_def MAX_FLUSHER_RESPAWNS_def)
  then show ?thesis using T [THEN conjunct2]
    by (simp add: registry_new_def exit_of_def Let_def upt_rec)
qed

end
