(* ===== verification/Handoff.thy ===== *)
theory Handoff
  imports SegmentName Shards
begin

text \<open>
  The hand-off of a sealed segment to the drain, \<open>weir-server/src/wab/handoff.rs\<close>.  The drain's
  channel, the shutdown flag and the clock are other threads' work: \<open>drain_env\<close> holds what each
  100 ms timed send will find (there was room, it timed out, the receiver is gone), and the
  values of \<open>shutting_down\<close>, of \<open>BlockingClock::now\<close> and of the wall clock read after that
  send, as arbitrary sequences.  A theorem about all environments covers every interleaving.

  The loop may run forever (a full channel outside shutdown blocks the flusher by design), so it
  is a partial function into \<open>option\<close>.  Main results: it returns whenever the channel moves or
  the daemon shuts down, within ten slices in the latter case; and each hand-off has exactly one of
  three recorded outcomes.
\<close>

section \<open>The environment\<close>

datatype send_outcome = SendOk nat | SendTimeout | SendDisconnected

record drain_env =
  de_send :: "nat \<Rightarrow> send_outcome"
  de_shutting_down :: "nat \<Rightarrow> bool"
  de_now :: "nat \<Rightarrow> nat"
  de_unix_ms :: "nat \<Rightarrow> nat"
  de_slice :: nat
  de_queued :: "path list"

text \<open>One \<open>clock.send_timeout(tx, path, HANDOFF_SLICE)\<close>; a success also tells \<open>tx.len()\<close>.\<close>

definition send_timeout :: "path \<Rightarrow> drain_env \<Rightarrow> send_outcome \<times> drain_env" where
  "send_timeout path env =
     (let r = de_send env (de_slice env); env = env\<lparr>de_slice := Suc (de_slice env)\<rparr> in
      case r of
        SendOk _ \<Rightarrow> (r, env\<lparr>de_queued := de_queued env @ [path]\<rparr>)
      | _ \<Rightarrow> (r, env))"

definition shutting_down :: "drain_env \<Rightarrow> bool" where
  "shutting_down env = de_shutting_down env (de_slice env)"

definition clock_now :: "drain_env \<Rightarrow> nat" where
  "clock_now env = de_now env (de_slice env)"

section \<open>The flusher's view\<close>

definition HANDOFF_SLICE :: nat where "HANDOFF_SLICE = 100000000"
definition FINAL_HANDOFF_TIMEOUT :: nat where "FINAL_HANDOFF_TIMEOUT = 1000000000"
definition BUDGET_NOT_STARTED :: nat where "BUDGET_NOT_STARTED = 2 ^ 64 - 1"

record handoff_state =
  hs_drain_depth :: nat
  hs_marker :: "nat option"
  hs_shutdown_t0_ns :: nat
  hs_not_handed_off_budget :: nat
  hs_not_handed_off_disconnected :: nat

definition for_shard :: "nat \<Rightarrow> nat option \<Rightarrow> handoff_state" where
  "for_shard depth marker =
     \<lparr>hs_drain_depth = depth, hs_marker = marker, hs_shutdown_t0_ns = BUDGET_NOT_STARTED,
      hs_not_handed_off_budget = 0, hs_not_handed_off_disconnected = 0\<rparr>"

definition mark_blocked :: "drain_env \<Rightarrow> handoff_state \<Rightarrow> handoff_state" where
  "mark_blocked env sh =
     sh\<lparr>hs_marker := map_option (set_handoff_blocked_since_ms (max 1 (de_unix_ms env (de_slice env)))) (hs_marker sh)\<rparr>"

definition clear_blocked :: "handoff_state \<Rightarrow> handoff_state" where
  "clear_blocked sh = sh\<lparr>hs_marker := map_option (set_handoff_blocked_since_ms 0) (hs_marker sh)\<rparr>"

text \<open>The sum is in \<open>u64\<close>.\<close>

definition shutdown_budget_spent :: "nat \<Rightarrow> handoff_state \<Rightarrow> bool \<times> handoff_state" where
  "shutdown_budget_spent now sh =
     (let now_ns = (if now < 2 ^ 64 then now else 2 ^ 64 - 2);
          started = hs_shutdown_t0_ns sh \<noteq> BUDGET_NOT_STARTED;
          t0 = (if started then hs_shutdown_t0_ns sh else now_ns);
          sh = (if started then sh else sh\<lparr>hs_shutdown_t0_ns := now_ns\<rparr>) in
      (((now_ns - t0) + HANDOFF_SLICE) mod 2 ^ 64 \<ge> FINAL_HANDOFF_TIMEOUT, sh))"

datatype not_handed_off = ShutdownBudget | Disconnected

datatype hand_off_result = Delivered | NotHandedOff not_handed_off

datatype handoff_reason = reason_budget | reason_disconnected

definition count_not_handed_off :: "handoff_reason \<Rightarrow> handoff_state \<Rightarrow> handoff_state" where
  "count_not_handed_off r sh =
     (case r of
        reason_budget \<Rightarrow> sh\<lparr>hs_not_handed_off_budget := hs_not_handed_off_budget sh + 1\<rparr>
      | reason_disconnected \<Rightarrow>
          sh\<lparr>hs_not_handed_off_disconnected := hs_not_handed_off_disconnected sh + 1\<rparr>)"

partial_function (option) hand_off_loop ::
  "path \<Rightarrow> bool \<Rightarrow> handoff_state \<Rightarrow> drain_env \<Rightarrow> (hand_off_result \<times> handoff_state \<times> drain_env) option"
where
  "hand_off_loop path marked sh env =
     (case send_timeout path env of (r, env) \<Rightarrow>
      case r of
        SendOk len \<Rightarrow>
          (let sh = (if marked then clear_blocked sh else sh) in
           Some (Delivered, sh\<lparr>hs_drain_depth := len\<rparr>, env))
      | SendTimeout \<Rightarrow>
          (let sh = (if marked then sh else mark_blocked env sh) in
           if shutting_down env
           then (case shutdown_budget_spent (clock_now env) sh of (spent, sh) \<Rightarrow>
                 if spent
                 then Some (NotHandedOff ShutdownBudget,
                            count_not_handed_off reason_budget (clear_blocked sh), env)
                 else hand_off_loop path True sh env)
           else hand_off_loop path True sh env)
      | SendDisconnected \<Rightarrow>
          (let sh = (if marked then clear_blocked sh else sh) in
           Some (NotHandedOff Disconnected, count_not_handed_off reason_disconnected sh, env)))"

definition hand_off ::
  "path \<Rightarrow> handoff_state \<Rightarrow> drain_env \<Rightarrow> (hand_off_result \<times> handoff_state \<times> drain_env) option"
where
  "hand_off sealed sh env = hand_off_loop sealed False sh env"

section \<open>One slice\<close>

text \<open>Every slice ends the hand-off or continues it with the marker set.\<close>

definition hand_off_slice ::
  "path \<Rightarrow> bool \<Rightarrow> handoff_state \<Rightarrow> drain_env \<Rightarrow>
   (hand_off_result \<times> handoff_state \<times> drain_env) + (handoff_state \<times> drain_env)"
where
  "hand_off_slice path marked sh env =
     (case send_timeout path env of (r, env) \<Rightarrow>
      case r of
        SendOk len \<Rightarrow> Inl (Delivered, (if marked then clear_blocked sh else sh)\<lparr>hs_drain_depth := len\<rparr>, env)
      | SendTimeout \<Rightarrow>
          (let sh = (if marked then sh else mark_blocked env sh);
               (spent, sh') = shutdown_budget_spent (clock_now env) sh in
           if \<not> shutting_down env then Inr (sh, env)
           else if spent
           then Inl (NotHandedOff ShutdownBudget, count_not_handed_off reason_budget (clear_blocked sh'), env)
           else Inr (sh', env))
      | SendDisconnected \<Rightarrow>
          Inl (NotHandedOff Disconnected,
               count_not_handed_off reason_disconnected (if marked then clear_blocked sh else sh), env))"

lemma hand_off_loop_slice:
  "hand_off_loop path marked sh env =
     (case hand_off_slice path marked sh env of Inl r \<Rightarrow> Some r | Inr (sh, env) \<Rightarrow> hand_off_loop path True sh env)"
  by (subst hand_off_loop.simps) (auto simp: hand_off_slice_def Let_def split: send_outcome.split prod.split)

lemma hand_off_loop_induct [consumes 1, case_names stop more]:
  assumes "hand_off_loop path marked sh env = Some (r, sh', env')"
    and "\<And>marked sh env. hand_off_slice path marked sh env = Inl (r, sh', env') \<Longrightarrow> P marked sh env"
    and "\<And>marked sh env sh1 env1. hand_off_slice path marked sh env = Inr (sh1, env1) \<Longrightarrow>
           P True sh1 env1 \<Longrightarrow> P marked sh env"
  shows "P marked sh env"
proof -
  have "path' = path \<longrightarrow> y = (r, sh', env') \<longrightarrow> P marked sh env"
    if "hand_off_loop path' marked sh env = Some y" for path' marked sh env y
  proof (rule hand_off_loop.raw_induct [OF _ that,
      where P = "\<lambda>path' marked sh env y. path' = path \<longrightarrow> y = (r, sh', env') \<longrightarrow> P marked sh env"])
    fix f path' marked sh env y
    assume IH: "\<And>path' marked sh env y. f path' marked sh env = Some y \<Longrightarrow>
        path' = path \<longrightarrow> y = (r, sh', env') \<longrightarrow> P marked sh env"
      and run: "(case send_timeout path' env of (x, env) \<Rightarrow>
      case x of
        SendOk len \<Rightarrow>
          (let sh = (if marked then clear_blocked sh else sh) in
           Some (Delivered, sh\<lparr>hs_drain_depth := len\<rparr>, env))
      | SendTimeout \<Rightarrow>
          (let sh = (if marked then sh else mark_blocked env sh) in
           if shutting_down env
           then (case shutdown_budget_spent (clock_now env) sh of (spent, sh) \<Rightarrow>
                 if spent
                 then Some (NotHandedOff ShutdownBudget,
                            count_not_handed_off reason_budget (clear_blocked sh), env)
                 else f path' True sh env)
           else f path' True sh env)
      | SendDisconnected \<Rightarrow>
          (let sh = (if marked then clear_blocked sh else sh) in
           Some (NotHandedOff Disconnected, count_not_handed_off reason_disconnected sh, env))) = Some y"
    have sl: "(case hand_off_slice path' marked sh env of Inl r \<Rightarrow> Some r | Inr (sh, env) \<Rightarrow> f path' True sh env) = Some y"
      using run by (auto simp: hand_off_slice_def Let_def split: send_outcome.splits prod.splits if_splits)
    show "path' = path \<longrightarrow> y = (r, sh', env') \<longrightarrow> P marked sh env"
    proof (intro impI)
      assume e: "path' = path" "y = (r, sh', env')"
      show "P marked sh env"
      proof (cases "hand_off_slice path marked sh env")
        case (Inl a)
        then show ?thesis using assms(2) [of marked sh env] sl e by simp
      next
        case (Inr c)
        then show ?thesis
          using assms(3) [of marked sh env "fst c" "snd c"] IH [of path True "fst c" "snd c" y] sl e
          by (simp add: case_prod_unfold)
      qed
    qed
  qed
  then show ?thesis using assms(1) by blast
qed

definition marker_clear :: "handoff_state \<Rightarrow> bool" where
  "marker_clear sh \<longleftrightarrow> (case hs_marker sh of None \<Rightarrow> True | Some ms \<Rightarrow> ms = 0)"

lemma budget_fields:
  assumes "shutdown_budget_spent now sh = (spent, sh')"
  shows "hs_marker sh' = hs_marker sh" "hs_not_handed_off_budget sh' = hs_not_handed_off_budget sh"
    "hs_not_handed_off_disconnected sh' = hs_not_handed_off_disconnected sh"
  using assms by (auto simp: shutdown_budget_spent_def Let_def split: if_splits)

lemma set_blocked_0 [simp]: "set_handoff_blocked_since_ms 0 = (\<lambda>_. 0)"
  by (simp add: fun_eq_iff set_handoff_blocked_since_ms_def)

lemma marker_fields [simp]:
  "hs_marker (clear_blocked sh) = map_option (\<lambda>_. 0) (hs_marker sh)"
  "hs_not_handed_off_budget (clear_blocked sh) = hs_not_handed_off_budget sh"
  "hs_not_handed_off_disconnected (clear_blocked sh) = hs_not_handed_off_disconnected sh"
  "hs_marker (mark_blocked env sh) =
     map_option (set_handoff_blocked_since_ms (max 1 (de_unix_ms env (de_slice env)))) (hs_marker sh)"
  "hs_not_handed_off_budget (mark_blocked env sh) = hs_not_handed_off_budget sh"
  "hs_not_handed_off_disconnected (mark_blocked env sh) = hs_not_handed_off_disconnected sh"
  by (simp_all add: clear_blocked_def mark_blocked_def)

lemmas slice_defs =
  hand_off_slice_def send_timeout_def count_not_handed_off_def shutting_down_def marker_clear_def Let_def

lemmas handoff_defs =
  slice_defs clock_now_def shutdown_budget_spent_def mark_blocked_def clear_blocked_def
  set_handoff_blocked_since_ms_def

definition same_streams :: "drain_env \<Rightarrow> drain_env \<Rightarrow> bool" where
  "same_streams a b \<longleftrightarrow> de_send b = de_send a \<and> de_shutting_down b = de_shutting_down a \<and> de_now b = de_now a"

lemma slice_stop:
  assumes "hand_off_slice path marked sh env = Inl (r, sh', env')"
  shows "same_streams env env' \<and> de_slice env' = Suc (de_slice env) \<and>
    de_queued env' = de_queued env @ (if r = Delivered then [path] else []) \<and>
    hs_not_handed_off_budget sh' = hs_not_handed_off_budget sh + of_bool (r = NotHandedOff ShutdownBudget) \<and>
    hs_not_handed_off_disconnected sh' = hs_not_handed_off_disconnected sh + of_bool (r = NotHandedOff Disconnected) \<and>
    (r = NotHandedOff ShutdownBudget \<longrightarrow> shutting_down env') \<and>
    (hs_marker sh' = None \<longleftrightarrow> hs_marker sh = None) \<and> (marked \<or> marker_clear sh \<longrightarrow> marker_clear sh')"
  using assms
  by (auto simp: slice_defs same_streams_def dest: budget_fields
      split: send_outcome.splits if_splits prod.splits option.splits)

lemma slice_next:
  assumes "hand_off_slice path marked sh env = Inr (sh', env')"
  shows "same_streams env env' \<and> de_slice env' = Suc (de_slice env) \<and> de_queued env' = de_queued env \<and>
    hs_not_handed_off_budget sh' = hs_not_handed_off_budget sh \<and>
    hs_not_handed_off_disconnected sh' = hs_not_handed_off_disconnected sh \<and>
    (hs_marker sh' = None \<longleftrightarrow> hs_marker sh = None) \<and>
    de_send env (de_slice env) = SendTimeout"
  using assms
  by (auto simp: slice_defs same_streams_def dest: budget_fields
      split: send_outcome.splits if_splits prod.splits option.splits)

section \<open>What a hand-off does\<close>

lemma hand_off_loop_outcome:
  assumes "hand_off_loop path marked sh env = Some (r, sh', env')"
  shows "same_streams env env' \<and>
    de_queued env' = de_queued env @ (if r = Delivered then [path] else []) \<and>
    hs_not_handed_off_budget sh' = hs_not_handed_off_budget sh + of_bool (r = NotHandedOff ShutdownBudget) \<and>
    hs_not_handed_off_disconnected sh' = hs_not_handed_off_disconnected sh + of_bool (r = NotHandedOff Disconnected) \<and>
    (r = NotHandedOff ShutdownBudget \<longrightarrow> shutting_down env') \<and>
    (hs_marker sh' = None \<longleftrightarrow> hs_marker sh = None) \<and> (marked \<or> marker_clear sh \<longrightarrow> marker_clear sh')"
  using assms
proof (induction rule: hand_off_loop_induct)
  case (stop marked sh env)
  then show ?case using slice_stop [OF stop] by blast
next
  case (more marked sh env sh1 env1)
  then show ?case using slice_next [OF more(1)] by (simp add: same_streams_def)
qed

text \<open>
  C29: every hand-off has one recorded outcome.  When \<open>hand_off\<close> returns, either the path was
  queued for the drain (exactly once, behind what was queued before), or it was not queued and
  exactly one of the two counters of segments left for replay went up by one; it gives up for
  lack of budget only if the daemon is shutting down; and the shard's ``blocked on the drain''
  marker is clear.
\<close>

theorem hand_off_outcome:
  assumes "hand_off sealed sh env = Some (r, sh', env')" "marker_clear sh"
  shows "de_queued env' = de_queued env @ (if r = Delivered then [sealed] else []) \<and>
    hs_not_handed_off_budget sh' = hs_not_handed_off_budget sh + of_bool (r = NotHandedOff ShutdownBudget) \<and>
    hs_not_handed_off_disconnected sh' = hs_not_handed_off_disconnected sh + of_bool (r = NotHandedOff Disconnected) \<and>
    (r = NotHandedOff ShutdownBudget \<longrightarrow> shutting_down env') \<and>
    marker_clear sh'"
  using hand_off_loop_outcome [OF assms(1) [unfolded hand_off_def]] assms(2) by auto

definition busy_env :: drain_env where
  "busy_env = \<lparr>de_send = (\<lambda>k. if k < 2 then SendTimeout else SendOk 7), de_shutting_down = (\<lambda>_. False),
               de_now = (\<lambda>k. k * HANDOFF_SLICE), de_unix_ms = (\<lambda>k. 1000 + k), de_slice = 0, de_queued = []\<rparr>"

lemma busy_hand_off:
  "\<exists>sh' env'. hand_off p (for_shard 0 (Some 0)) busy_env = Some (Delivered, sh', env')"
  by (simp add: hand_off_def hand_off_loop_slice handoff_defs busy_env_def for_shard_def)

theorem hand_off_outcome_witness:
  "\<exists>sh' env'. hand_off (segment_path [] 1) (for_shard 0 (Some 0)) busy_env = Some (Delivered, sh', env') \<and>
     de_queued env' = [segment_path [] 1] \<and> marker_clear sh'"
proof -
  obtain sh' env' where r: "hand_off (segment_path [] 1) (for_shard 0 (Some 0)) busy_env = Some (Delivered, sh', env')"
    using busy_hand_off by blast
  show ?thesis using hand_off_outcome [OF r] r by (simp add: for_shard_def busy_env_def marker_clear_def)
qed

section \<open>A hand-off returns\<close>

lemma hand_off_loop_returns:
  "de_send env (de_slice env + n) \<noteq> SendTimeout \<Longrightarrow>
   \<exists>r sh' env'. hand_off_loop path marked sh env = Some (r, sh', env')"
proof (induction n arbitrary: marked sh env)
  case 0
  then show ?case
    by (subst hand_off_loop_slice) (auto dest!: slice_next split: sum.split)
next
  case (Suc n)
  show ?case
  proof (cases "hand_off_slice path marked sh env")
    case (Inr c)
    obtain sh1 env1 where c: "c = (sh1, env1)" by fastforce
    then show ?thesis
      using Suc.IH [of env1 True sh1] Suc.prems slice_next [OF Inr [unfolded c]] Inr
      by (simp add: hand_off_loop_slice [of path marked] same_streams_def)
  qed (auto simp: hand_off_loop_slice)
qed

text \<open>
  The shutdown budget, by the number \<open>m\<close> of slices left: \<open>t0\<close> is not set, or enough of the
  budget is gone when the next slice ends.
\<close>

definition shutdown_clock :: "nat \<Rightarrow> drain_env \<Rightarrow> bool" where
  "shutdown_clock m env \<longleftrightarrow> (\<forall>k. de_slice env < k \<and> k \<le> de_slice env + m \<longrightarrow>
     de_shutting_down env k \<and> de_now env k + HANDOFF_SLICE \<le> de_now env (Suc k) \<and> de_now env k < 2 ^ 63)"

lemma hand_off_loop_shutdown:
  assumes "shutdown_clock m env" "0 < m" "m \<le> 10"
    and "if hs_shutdown_t0_ns sh = BUDGET_NOT_STARTED then m = 10
         else hs_shutdown_t0_ns sh + (10 - m) * HANDOFF_SLICE \<le> de_now env (Suc (de_slice env))"
  shows "\<exists>r sh' env'. hand_off_loop path marked sh env = Some (r, sh', env') \<and> de_slice env' \<le> de_slice env + m"
  using assms
proof (induction m arbitrary: marked sh env)
  case (Suc m)
  show ?case
  proof (cases "hand_off_slice path marked sh env")
    case (Inl a)
    obtain r sh1 env1 where a: "a = (r, sh1, env1)" by (cases a)
    then show ?thesis using Inl slice_stop [OF Inl [unfolded a]] by (simp add: hand_off_loop_slice [of path marked])
  next
    case (Inr c)
    obtain sh1 env1 where c: "c = (sh1, env1)" by fastforce
    let ?now = "de_now env (Suc (de_slice env))"
    have lt: "?now < 2 ^ 63" and sd: "de_shutting_down env (Suc (de_slice env))"
      using Suc.prems(1) by (simp_all add: shutdown_clock_def)
    have step: "?now + HANDOFF_SLICE \<le> de_now env (Suc (Suc (de_slice env)))"
      using Suc.prems(1) by (simp add: shutdown_clock_def)
    define t0 where "t0 = (if hs_shutdown_t0_ns sh = BUDGET_NOT_STARTED then ?now else hs_shutdown_t0_ns sh)"
    have t0: "hs_shutdown_t0_ns sh1 = t0" and live: "?now - t0 + HANDOFF_SLICE < FINAL_HANDOFF_TIMEOUT"
      using Inr c lt sd by (auto simp: handoff_defs t0_def HANDOFF_SLICE_def split: send_outcome.splits if_splits)
    have le: "t0 + (10 - Suc m) * HANDOFF_SLICE \<le> ?now" using Suc.prems by (auto simp: t0_def split: if_splits)
    have "t0 \<noteq> BUDGET_NOT_STARTED" using lt by (auto simp: t0_def BUDGET_NOT_STARTED_def)
    moreover have "0 < m"
      using live le by (cases m) (auto simp: HANDOFF_SLICE_def FINAL_HANDOFF_TIMEOUT_def)
    moreover have "t0 + (10 - m) * HANDOFF_SLICE \<le> de_now env (Suc (Suc (de_slice env)))"
      using le step Suc.prems(3) by (simp add: HANDOFF_SLICE_def)
    moreover have "shutdown_clock m env1"
      using Suc.prems(1) slice_next [OF Inr [unfolded c]] by (simp add: shutdown_clock_def same_streams_def)
    ultimately show ?thesis
      using Suc.IH [of env1 sh1 True] Suc.prems(3) t0 slice_next [OF Inr [unfolded c]] Inr c
      by (auto simp: hand_off_loop_slice [of path marked] same_streams_def)
  qed
qed simp

text \<open>
  C28: a shutting-down flusher is never held up for more than the budget.  Once the flag is set
  and as long as each timed-out slice takes its 100 ms on the clock, \<open>hand_off\<close> returns after at most
  ten slices, whatever the channel does and whether or not an earlier hand-off started the
  budget.
\<close>

theorem hand_off_shutdown_bounded:
  assumes "shutdown_clock 10 env"
    and "hs_shutdown_t0_ns sh = BUDGET_NOT_STARTED \<or> hs_shutdown_t0_ns sh \<le> de_now env (Suc (de_slice env))"
  shows "\<exists>r sh' env'. hand_off path sh env = Some (r, sh', env') \<and> de_slice env' \<le> de_slice env + 10"
  using hand_off_loop_shutdown [OF assms(1), of sh path False] assms(2) by (auto simp: hand_off_def)

definition stuck_env :: drain_env where
  "stuck_env = \<lparr>de_send = (\<lambda>_. SendTimeout), de_shutting_down = (\<lambda>_. True),
                de_now = (\<lambda>k. k * HANDOFF_SLICE), de_unix_ms = (\<lambda>k. k), de_slice = 0, de_queued = []\<rparr>"

theorem hand_off_shutdown_bounded_witness:
  "\<exists>r sh' env'. hand_off (segment_path [] 1) (for_shard 0 None) stuck_env = Some (r, sh', env') \<and> de_slice env' \<le> 10"
  using hand_off_shutdown_bounded [of stuck_env "for_shard 0 None" "segment_path [] 1"]
  by (simp add: shutdown_clock_def stuck_env_def for_shard_def HANDOFF_SLICE_def)

end
