(* ===== verification/WabCap.thy ===== *)
theory WabCap
  imports Prelude
begin

text \<open>
  The disk-cap hysteresis of \<open>weir-server/src/wab/cap.rs\<close>, shared by the push path and the
  poll task, and the fsync-latency average of \<open>weir-server/src/wab/mod.rs\<close>.  The shared atomic
  flag is a value read and returned.  The theorem says what the flag is after any sequence of
  observations.
\<close>

definition low_water :: "u64 \<Rightarrow> u64" where
  "low_water cap = cap div 10 * 9"

definition cap_evaluate :: "u64 \<Rightarrow> u64 \<Rightarrow> bool \<Rightarrow> bool \<times> bool" where
  "cap_evaluate cap bs rejecting =
     (if cap = 0 then (False, rejecting)
      else
        let was = rejecting;
            now = (if was then bs \<ge> low_water cap else bs \<ge> cap) in
        (now, if now \<noteq> was then now else rejecting))"

definition u64_saturating_mul :: "u64 \<Rightarrow> u64 \<Rightarrow> u64" where
  "u64_saturating_mul a b = (if unat a * unat b < 2 ^ 64 then a * b else - 1)"

definition u64_sat_add :: "u64 \<Rightarrow> u64 \<Rightarrow> u64" where
  "u64_sat_add a b = (if unat a + unat b < 2 ^ 64 then a + b else - 1)"

definition ewma_update_us :: "u64 \<Rightarrow> u64 \<Rightarrow> u64" where
  "ewma_update_us current_us sample_us =
     u64_sat_add (u64_saturating_mul current_us 3 div 4) (sample_us div 4)"

text \<open>A run of observations, each storing the flag the next one loads.\<close>

fun cap_run :: "u64 \<Rightarrow> u64 list \<Rightarrow> bool \<Rightarrow> bool" where
  "cap_run cap [] r = r"
| "cap_run cap (b # bs) r = cap_run cap bs (snd (cap_evaluate cap b r))"

lemma unat_low_water: "unat (low_water cap) = unat cap div 10 * 9"
proof -
  have "unat cap div 10 * 9 < 2 ^ LENGTH(64)"
    using unat_lt2p [of cap] by simp
  then show ?thesis by (simp add: low_water_def unat_mult_lem [THEN iffD1] unat_div)
qed

lemma low_water_le: "low_water cap \<le> cap"
  by (simp add: word_le_nat_alt unat_low_water)

lemma snd_cap_evaluate:
  "cap \<noteq> 0 \<Longrightarrow> snd (cap_evaluate cap b r) = (b \<ge> cap \<or> (r \<and> b \<ge> low_water cap))"
  using low_water_le [of cap] by (auto simp: cap_evaluate_def Let_def)

lemma cap_run_snoc: "cap_run cap (bs @ [b]) r = snd (cap_evaluate cap b (cap_run cap bs r))"
  by (induction bs arbitrary: r) simp_all

lemma all_nth_snoc: "(\<forall>j < length (xs @ [x]). P ((xs @ [x]) ! j)) \<longleftrightarrow> (\<forall>j < length xs. P (xs ! j)) \<and> P x"
  by (auto simp: All_less_Suc nth_append)

lemma since_nth_snoc:
  "(\<exists>i < length (xs @ [x]). P ((xs @ [x]) ! i) \<and> (\<forall>j < length (xs @ [x]). i < j \<longrightarrow> Q ((xs @ [x]) ! j))) \<longleftrightarrow>
   P x \<or> (\<exists>i < length xs. P (xs ! i) \<and> (\<forall>j < length xs. i < j \<longrightarrow> Q (xs ! j))) \<and> Q x"
  by (auto simp: Ex_less_Suc All_less_Suc nth_append)

text \<open>
  The hysteresis remembers the last decisive observation.  For an enabled cap, after any
  history of observations the daemon rejects iff some observation reached the cap (or it was
  rejecting at the start) and none since has fallen below the low-water mark.
\<close>

theorem cap_hysteresis:
  assumes "cap \<noteq> 0"
  shows "cap_run cap bs r \<longleftrightarrow>
    (\<exists>i < length bs. bs ! i \<ge> cap \<and> (\<forall>j < length bs. i < j \<longrightarrow> bs ! j \<ge> low_water cap)) \<or>
    (r \<and> (\<forall>j < length bs. bs ! j \<ge> low_water cap))"
proof (induction bs rule: rev_induct)
  case (snoc b bs)
  have lw: "b \<ge> cap \<Longrightarrow> b \<ge> low_water cap" using low_water_le [of cap] by (rule order_trans)
  show ?case
    unfolding cap_run_snoc snd_cap_evaluate [OF assms] snoc.IH since_nth_snoc all_nth_snoc
    using lw by blast
qed simp

theorem cap_hysteresis_witness: "(1000 :: u64) \<noteq> 0 \<and> cap_run 1000 [999, 1000, 950] False"
proof
  have "\<exists>i < length [999, 1000, 950 :: u64]. [999, 1000, 950] ! i \<ge> (1000 :: u64) \<and>
      (\<forall>j < length [999, 1000, 950 :: u64]. i < j \<longrightarrow> [999, 1000, 950] ! j \<ge> low_water 1000)"
    by (rule exI [of _ "Suc 0"]) (simp add: low_water_def less_Suc_eq)
  then show "cap_run 1000 [999, 1000, 950] False"
    by (rule cap_hysteresis [THEN iffD2, OF _ disjI1, rotated]) simp
qed simp

end
