(* ===== verification/Flusher.thy ===== *)
theory Flusher
  imports ShardWriter Handoff WabCap "HOL-Library.Multiset"
begin

text \<open>
  The flusher of one shard, \<open>flusher_thread\<close> and \<open>flush_batch\<close> of \<open>weir-server/src/wab/mod.rs\<close>, with
  the records of \<open>weir-server/src/models.rs\<close>.  A flusher takes batches of records, writes them to
  the shard writer, covers the durable ones with one group fsync and resolves each producer's
  ack.  Its state is the writer, the world of the segment store, the hand-off state and
  environment, and the list of the acks sent so far; a oneshot sender is its number.
  \<open>Instant::now()\<close> and the channel of batches are arbitrary sequences.  A hand-off may block
  forever, so every operation that performs one is partial.

  Main results: a record whose ack says durable is on stable storage, at the coordinate the ack
  carries, for every pattern of I/O failures and of channel behaviour; and every record
  received is acked exactly once.
\<close>

section \<open>The records that flow\<close>

record record_slot =
  slot_segment :: bytes
  slot_index :: nat

record ack_outcome =
  ao_durable :: bool
  ao_coordinate :: "record_slot option"

definition ack_durable :: "record_slot option \<Rightarrow> ack_outcome" where
  "ack_durable coordinate = \<lparr>ao_durable = True, ao_coordinate = coordinate\<rparr>"

definition ack_failed :: ack_outcome where
  "ack_failed = \<lparr>ao_durable = False, ao_coordinate = None\<rparr>"

record work_unit =
  wu_shard_id :: u32
  wu_payload :: bytes
  wu_durability :: durability
  wu_wants_coordinate :: bool
  wu_ack_tx :: nat

record batch =
  ba_shard_id :: u32
  ba_records :: "work_unit list"

record pending_ack =
  pa_tx :: nat
  pa_slot :: "record_slot option"

section \<open>Flushing one batch\<close>

record ('s, 'w) flusher =
  fl_writer :: "'s shard_writer"
  fl_world :: 'w
  fl_env :: drain_env
  fl_handoff :: handoff_state
  fl_instants :: "nat \<Rightarrow> nat"
  fl_tick :: nat
  fl_acks :: "(nat \<times> ack_outcome) list"
  fl_coalesce_hint :: u64
  fl_sealed_total :: nat
  fl_fsync_failures :: nat

definition instant_now :: "('s, 'w) flusher \<Rightarrow> nat \<times> ('s, 'w) flusher" where
  "instant_now fl = (fl_instants fl (fl_tick fl), fl\<lparr>fl_tick := Suc (fl_tick fl)\<rparr>)"

definition send_ack :: "nat \<Rightarrow> ack_outcome \<Rightarrow> ('s, 'w) flusher \<Rightarrow> ('s, 'w) flusher" where
  "send_ack tx outcome fl = fl\<lparr>fl_acks := fl_acks fl @ [(tx, outcome)]\<rparr>"

definition pending_resolve :: "bool \<Rightarrow> pending_ack \<Rightarrow> ('s, 'w) flusher \<Rightarrow> ('s, 'w) flusher" where
  "pending_resolve durable p fl =
     (let outcome = (if durable then ack_durable (pa_slot p) else ack_failed) in
      send_ack (pa_tx p) outcome fl)"

text \<open>\<open>for pending in pending_acks \{ pending.resolve(durable) \}\<close>.\<close>

definition resolve_all :: "bool \<Rightarrow> pending_ack list \<Rightarrow> ('s, 'w) flusher \<Rightarrow> ('s, 'w) flusher" where
  "resolve_all durable ps fl = fold (pending_resolve durable) ps fl"

text \<open>\<open>hand_off\<close> with the flusher's own state; its verdict is ignored by every caller.\<close>

definition fl_hand_off :: "path \<Rightarrow> ('s, 'w) flusher \<Rightarrow> ('s, 'w) flusher option" where
  "fl_hand_off sealed fl =
     (case hand_off sealed (fl_handoff fl) (fl_env fl) of
        None \<Rightarrow> None
      | Some (_, sh, env) \<Rightarrow> Some (fl\<lparr>fl_handoff := sh, fl_env := env\<rparr>))"

text \<open>
  The body of the inner loop of \<open>flush_batch\<close>, on \<open>(durable_acks, pending_acks)\<close> and the
  flusher.
\<close>

type_synonym ('s, 'w) flush_state = "pending_ack list \<times> pending_ack list \<times> ('s, 'w) flusher"

definition flush_unit ::
  "('s, 'w) segment_store \<Rightarrow> zstd_ops \<Rightarrow> work_unit \<Rightarrow> ('s, 'w) flush_state \<Rightarrow> ('s, 'w) flush_state option"
where
  "flush_unit S Z unit st = (case st of (durable_acks, pending_acks, fl) \<Rightarrow>
     let (now, fl) = instant_now fl;
         (written, sw, w) = sw_write_record S Z now (wu_payload unit) (fl_writer fl) (fl_world fl);
         fl = fl\<lparr>fl_writer := sw, fl_world := w\<rparr> in
     case written of
       Inl _ \<Rightarrow>
         (if last_write_failure sw = SegmentDropped
          then Some (durable_acks, [], send_ack (wu_ack_tx unit) ack_failed (resolve_all False pending_acks fl))
          else Some (durable_acks, pending_acks, send_ack (wu_ack_tx unit) ack_failed fl))
     | Inr rotation \<Rightarrow>
         (let slot = (if wu_wants_coordinate unit
                      then map_option (\<lambda>segment. \<lparr>slot_segment = segment, slot_index = last_record_index sw\<rparr>)
                             (drain_address sw rotation)
                      else None);
              rotated = (rotation \<noteq> None) in
          case (case rotation of
                  None \<Rightarrow> Some (durable_acks, pending_acks, fl)
                | Some sealed \<Rightarrow>
                   (case fl_hand_off sealed (fl\<lparr>fl_sealed_total := fl_sealed_total fl + 1\<rparr>) of
                      None \<Rightarrow> None
                    | Some fl \<Rightarrow> Some (durable_acks @ pending_acks, [], fl))) of
            None \<Rightarrow> None
          | Some (durable_acks, pending_acks, fl) \<Rightarrow>
             (case wu_durability unit of
                Durable \<Rightarrow>
                  (let p = \<lparr>pa_tx = wu_ack_tx unit, pa_slot = slot\<rparr> in
                   if rotated then Some (durable_acks @ [p], pending_acks, fl)
                   else Some (durable_acks, pending_acks @ [p], fl))
              | Buffered \<Rightarrow> Some (durable_acks, pending_acks, send_ack (wu_ack_tx unit) (ack_durable slot) fl))))"

fun flush_units ::
  "('s, 'w) segment_store \<Rightarrow> zstd_ops \<Rightarrow> work_unit list \<Rightarrow> ('s, 'w) flush_state \<Rightarrow> ('s, 'w) flush_state option"
where
  "flush_units S Z [] st = Some st"
| "flush_units S Z (u # us) st =
     (case flush_unit S Z u st of None \<Rightarrow> None | Some st \<Rightarrow> flush_units S Z us st)"

fun flush_batches ::
  "('s, 'w) segment_store \<Rightarrow> zstd_ops \<Rightarrow> batch list \<Rightarrow> ('s, 'w) flush_state \<Rightarrow> ('s, 'w) flush_state option"
where
  "flush_batches S Z [] st = Some st"
| "flush_batches S Z (b # bs) st =
     (case flush_units S Z (ba_records b) st of None \<Rightarrow> None | Some st \<Rightarrow> flush_batches S Z bs st)"

definition fsync_observed :: "('s, 'w) segment_store \<Rightarrow> ('s, 'w) flusher \<Rightarrow> bool \<times> ('s, 'w) flusher" where
  "fsync_observed S fl =
     (let (t, fl) = instant_now fl;
          (result, sw, w) = sw_fsync_current S (fl_writer fl) (fl_world fl);
          (t', fl) = instant_now (fl\<lparr>fl_writer := sw, fl_world := w\<rparr>);
          sample_us = of_nat ((t' - t) div 1000);
          fl = fl\<lparr>fl_coalesce_hint := ewma_update_us (fl_coalesce_hint fl) sample_us\<rparr> in
      case result of
        Inr _ \<Rightarrow> (True, fl)
      | Inl _ \<Rightarrow> (False, fl\<lparr>fl_fsync_failures := fl_fsync_failures fl + 1\<rparr>))"

definition flush_batch ::
  "('s, 'w) segment_store \<Rightarrow> zstd_ops \<Rightarrow> batch list \<Rightarrow> ('s, 'w) flusher \<Rightarrow> ('s, 'w) flusher option"
where
  "flush_batch S Z batches fl =
     (case flush_batches S Z batches ([], [], fl) of
        None \<Rightarrow> None
      | Some (durable_acks, pending_acks, fl) \<Rightarrow>
         (let fl = (if pending_acks \<noteq> []
                    then (case fsync_observed S fl of (ok, fl) \<Rightarrow> resolve_all ok pending_acks fl)
                    else fl) in
          Some (resolve_all True durable_acks fl)))"

section \<open>Timed seals\<close>

datatype timed_seal = Idle | Lifetime

definition due_timed_seal ::
  "nat option \<Rightarrow> nat option \<Rightarrow> nat option \<Rightarrow> nat option \<Rightarrow> timed_seal option"
where
  "due_timed_seal segment_max_age idle_for segment_max_lifetime active_age =
     (let due = (\<lambda>limit t. case (limit, t) of (Some m, Some a) \<Rightarrow> a \<ge> m | _ \<Rightarrow> False) in
      if due segment_max_lifetime active_age then Some Lifetime
      else if due segment_max_age idle_for then Some Idle else None)"

definition seal_before_size_threshold ::
  "('s, 'w) segment_store \<Rightarrow> ('s, 'w) flusher \<Rightarrow> (bool \<times> ('s, 'w) flusher) option"
where
  "seal_before_size_threshold S fl =
     (let (r, sw, w) = sw_seal_current S (fl_writer fl) (fl_world fl);
          fl = fl\<lparr>fl_writer := sw, fl_world := w\<rparr> in
      case r of
        Inr (Some sealed) \<Rightarrow>
          map_option (Pair True) (fl_hand_off sealed (fl\<lparr>fl_sealed_total := fl_sealed_total fl + 1\<rparr>))
      | Inr None \<Rightarrow> Some (True, fl)
      | Inl _ \<Rightarrow> Some (False, fl))"

section \<open>The thread\<close>

record flusher_config =
  fc_batch_size :: nat
  fc_segment_max_age :: "nat option"
  fc_segment_max_lifetime :: "nat option"

text \<open>
  Startup: the counter scan, retried three times.  \<open>hook\<close> is the test hook that can make a
  scan fail.  The sleeps between the attempts are not modelled.
\<close>

fun scan_with_retries ::
  "('s, 'w) segment_store \<Rightarrow> nat \<Rightarrow> (nat \<Rightarrow> bool) \<Rightarrow> 's shard_writer \<Rightarrow> 'w \<Rightarrow> bool \<times> 's shard_writer \<times> 'w"
where
  "scan_with_retries S retries hook sw w =
     (case sw_scan_and_advance_counter S sw w of (r, sw, w) \<Rightarrow>
      if (case r of Inr _ \<Rightarrow> \<not> hook retries | Inl _ \<Rightarrow> False) then (True, sw, w)
      else (case retries of 0 \<Rightarrow> (False, sw, w) | Suc n \<Rightarrow> scan_with_retries S n hook sw w))"

declare scan_with_retries.simps [simp del]

text \<open>
  \<open>while record_count < batch_size \{ try_recv \}\<close> on the channel's queue: the batches taken
  and the queue left.
\<close>

fun drain_available :: "nat \<Rightarrow> nat \<Rightarrow> batch list \<Rightarrow> batch list \<times> batch list" where
  "drain_available batch_size record_count [] = ([], [])"
| "drain_available batch_size record_count (b # queue) =
     (if record_count < batch_size
      then (case drain_available batch_size (record_count + length (ba_records b)) queue of
              (taken, queue) \<Rightarrow> (b # taken, queue))
      else ([], b # queue))"

lemma drain_available_split: "drain_available n c q = (taken, rest) \<Longrightarrow> q = taken @ rest"
  by (induction n c q arbitrary: taken rest rule: drain_available.induct) (auto split: prod.splits if_splits)

text \<open>\<open>last_write_at.map(elapsed)\<close> and \<open>writer.active_segment_age()\<close>, each reading the clock.\<close>

definition timed_seal_reason ::
  "flusher_config \<Rightarrow> nat option \<Rightarrow> ('s, 'w) flusher \<Rightarrow> timed_seal option \<times> ('s, 'w) flusher"
where
  "timed_seal_reason cfg last_write_at fl =
     (let (n1, fl) = instant_now fl; (n2, fl) = instant_now fl in
      (due_timed_seal (fc_segment_max_age cfg) (map_option (\<lambda>t. n1 - t) last_write_at)
         (fc_segment_max_lifetime cfg) (active_segment_age n2 (fl_writer fl)), fl))"

text \<open>The seal, and \<open>last_write_at = None\<close> if no segment is active any more.\<close>

definition seal_and_stop_clock ::
  "('s, 'w) segment_store \<Rightarrow> nat option \<Rightarrow> ('s, 'w) flusher \<Rightarrow> (nat option \<times> ('s, 'w) flusher) option"
where
  "seal_and_stop_clock S last_write_at fl =
     map_option (\<lambda>(sealed, fl). (if sealed then None else last_write_at, fl)) (seal_before_size_threshold S fl)"

text \<open>The \<open>Timeout\<close> arm of the loop.\<close>

definition on_timeout ::
  "('s, 'w) segment_store \<Rightarrow> zstd_ops \<Rightarrow> flusher_config \<Rightarrow> batch list \<Rightarrow> nat option \<Rightarrow> ('s, 'w) flusher \<Rightarrow>
   (nat option \<times> ('s, 'w) flusher) option"
where
  "on_timeout S Z cfg batches last_write_at fl =
     (if batches \<noteq> []
      then (case flush_batch S Z batches fl of
              None \<Rightarrow> None
            | Some fl \<Rightarrow> (case instant_now fl of (now, fl) \<Rightarrow> Some (Some now, fl)))
      else (case timed_seal_reason cfg last_write_at fl of
              (None, fl) \<Rightarrow> Some (last_write_at, fl)
            | (Some _, fl) \<Rightarrow>
                if has_active_segment (fl_writer fl) then seal_and_stop_clock S last_write_at fl
                else Some (last_write_at, fl)))"

text \<open>The rest of an iteration after a batch arrived and the available ones were drained.\<close>

definition on_batches ::
  "('s, 'w) segment_store \<Rightarrow> zstd_ops \<Rightarrow> flusher_config \<Rightarrow> batch list \<Rightarrow> nat option \<Rightarrow> ('s, 'w) flusher \<Rightarrow>
   (nat option \<times> ('s, 'w) flusher) option"
where
  "on_batches S Z cfg batches last_write_at fl =
     (case flush_batch S Z batches fl of
        None \<Rightarrow> None
      | Some fl \<Rightarrow>
         (let (last_write_at, fl) =
                (if fc_segment_max_age cfg \<noteq> None
                 then (case instant_now fl of (now, fl) \<Rightarrow> (Some now, fl))
                 else (last_write_at, fl)) in
          if fc_segment_max_lifetime cfg = None then Some (last_write_at, fl)
          else (case timed_seal_reason cfg last_write_at fl of
                  (None, fl) \<Rightarrow> Some (last_write_at, fl)
                | (Some _, fl) \<Rightarrow> seal_and_stop_clock S last_write_at fl)))"

text \<open>
  The loop.  \<open>arrivals\<close> holds what the producers put into the channel before each wait; the
  channel is the FIFO \<open>queue\<close>.  A wait returns the head of the queue, times out if it is
  empty, and reports the disconnection once the producers are gone and the queue is empty.
\<close>

function flusher_loop ::
  "('s, 'w) segment_store \<Rightarrow> zstd_ops \<Rightarrow> flusher_config \<Rightarrow> batch list list \<Rightarrow> batch list \<Rightarrow> batch list \<Rightarrow>
   nat option \<Rightarrow> ('s, 'w) flusher \<Rightarrow> ('s, 'w) flusher option"
where
  "flusher_loop S Z cfg arrivals queue batches last_write_at fl =
     (case queue @ (case arrivals of [] \<Rightarrow> [] | a # _ \<Rightarrow> a) of
        [] \<Rightarrow>
          (if arrivals = [] then Some fl
           else case on_timeout S Z cfg batches last_write_at fl of
                  None \<Rightarrow> None
                | Some (last_write_at, fl) \<Rightarrow> flusher_loop S Z cfg (tl arrivals) [] [] last_write_at fl)
      | batch # queue \<Rightarrow>
          (case drain_available (fc_batch_size cfg) (length (ba_records batch)) queue of
             (taken, queue) \<Rightarrow>
               (case on_batches S Z cfg (batches @ batch # taken) last_write_at fl of
                  None \<Rightarrow> None
                | Some (last_write_at, fl) \<Rightarrow>
                    flusher_loop S Z cfg (tl arrivals) queue [] last_write_at fl)))"
  by pat_completeness auto
termination
proof (relation "measures [\<lambda>(_, _, _, arrivals, _). length arrivals, \<lambda>(_, _, _, _, queue, _). length queue]",
    goal_cases)
  case (3 S Z cfg arrivals queue batches last_write_at fl batch rest taken queue')
  then show ?case
    using drain_available_split [of "fc_batch_size cfg" "length (ba_records batch)" rest taken queue']
    by (cases arrivals) auto
qed (auto split: list.splits)

declare flusher_loop.simps [simp del]

text \<open>The seal on shutdown.\<close>

definition shutdown_seal :: "('s, 'w) segment_store \<Rightarrow> ('s, 'w) flusher \<Rightarrow> ('s, 'w) flusher option" where
  "shutdown_seal S fl =
     (let (r, sw, w) = sw_seal_current S (fl_writer fl) (fl_world fl);
          fl = fl\<lparr>fl_writer := sw, fl_world := w\<rparr> in
      case r of
        Inr (Some sealed) \<Rightarrow> fl_hand_off sealed (fl\<lparr>fl_sealed_total := fl_sealed_total fl + 1\<rparr>)
      | _ \<Rightarrow> Some fl)"

definition flusher_thread ::
  "('s, 'w) segment_store \<Rightarrow> zstd_ops \<Rightarrow> flusher_config \<Rightarrow> (nat \<Rightarrow> bool) \<Rightarrow> batch list list \<Rightarrow>
   ('s, 'w) flusher \<Rightarrow> (flusher_exit \<times> ('s, 'w) flusher) option"
where
  "flusher_thread S Z cfg hook arrivals fl =
     (case scan_with_retries S 3 hook (fl_writer fl) (fl_world fl) of (up, sw, w) \<Rightarrow>
      let fl = fl\<lparr>fl_writer := sw, fl_world := w\<rparr> in
      if \<not> up then Some (ScanFailed, fl)
      else case flusher_loop S Z cfg arrivals [] [] None fl of
             None \<Rightarrow> None
           | Some fl \<Rightarrow> map_option (Pair InputClosed) (shutdown_seal S fl))"

section \<open>Effects\<close>

lemma resolve_all_eq:
  "resolve_all d ps fl =
     fl\<lparr>fl_acks := fl_acks fl @ map (\<lambda>p. (pa_tx p, if d then ack_durable (pa_slot p) else ack_failed)) ps\<rparr>"
  by (induction ps arbitrary: fl) (simp_all add: resolve_all_def pending_resolve_def send_ack_def)

lemma fl_hand_off_eq:
  assumes "fl_hand_off sealed fl = Some fl'"
  shows "\<exists>sh env. fl' = fl\<lparr>fl_handoff := sh, fl_env := env\<rparr> \<and> same_streams (fl_env fl) env \<and>
    (\<exists>r. hand_off sealed (fl_handoff fl) (fl_env fl) = Some (r, sh, env))"
  using assms hand_off_loop_outcome [of sealed False "fl_handoff fl" "fl_env fl"]
  by (auto simp: fl_hand_off_def hand_off_def split: option.splits)

text \<open>The branches of one unit, after the write returned.\<close>

lemma flush_unit_failed:
  assumes "sw_write_record S Z (fl_instants fl (fl_tick fl)) (wu_payload u) (fl_writer fl) (fl_world fl) = (Inl k, sw, w)"
  shows "flush_unit S Z u (D, P, fl) = Some (D, if last_write_failure sw = SegmentDropped then [] else P,
    fl\<lparr>fl_tick := Suc (fl_tick fl), fl_writer := sw, fl_world := w,
       fl_acks := fl_acks fl @ (if last_write_failure sw = SegmentDropped
                                then map (\<lambda>p. (pa_tx p, ack_failed)) P else []) @ [(wu_ack_tx u, ack_failed)]\<rparr>)"
  using assms by (simp add: flush_unit_def instant_now_def resolve_all_eq send_ack_def)

definition unit_slot :: "work_unit \<Rightarrow> 's shard_writer \<Rightarrow> path option \<Rightarrow> record_slot option" where
  "unit_slot u sw rotation =
     (if wu_wants_coordinate u
      then map_option (\<lambda>segment. \<lparr>slot_segment = segment, slot_index = last_record_index sw\<rparr>) (drain_address sw rotation)
      else None)"

lemma flush_unit_stays:
  assumes "sw_write_record S Z (fl_instants fl (fl_tick fl)) (wu_payload u) (fl_writer fl) (fl_world fl) = (Inr None, sw, w)"
  shows "flush_unit S Z u (D, P, fl) =
    (let fl = fl\<lparr>fl_tick := Suc (fl_tick fl), fl_writer := sw, fl_world := w\<rparr> in
     case wu_durability u of
       Durable \<Rightarrow> Some (D, P @ [\<lparr>pa_tx = wu_ack_tx u, pa_slot = unit_slot u sw None\<rparr>], fl)
     | Buffered \<Rightarrow> Some (D, P, fl\<lparr>fl_acks := fl_acks fl @ [(wu_ack_tx u, ack_durable (unit_slot u sw None))]\<rparr>))"
  using assms by (simp add: flush_unit_def instant_now_def unit_slot_def send_ack_def Let_def split: durability.split)

lemma flush_unit_rotates:
  assumes "sw_write_record S Z (fl_instants fl (fl_tick fl)) (wu_payload u) (fl_writer fl) (fl_world fl) = (Inr (Some sealed), sw, w)"
    and "flush_unit S Z u (D, P, fl) = Some st"
  shows "\<exists>sh env. let fl = fl\<lparr>fl_tick := Suc (fl_tick fl), fl_writer := sw, fl_world := w,
                fl_sealed_total := fl_sealed_total fl + 1, fl_handoff := sh, fl_env := env\<rparr> in
     st = (case wu_durability u of
       Durable \<Rightarrow> (D @ P @ [\<lparr>pa_tx = wu_ack_tx u, pa_slot = unit_slot u sw (Some sealed)\<rparr>], [], fl)
     | Buffered \<Rightarrow> (D @ P, [], fl\<lparr>fl_acks := fl_acks fl @ [(wu_ack_tx u, ack_durable (unit_slot u sw (Some sealed)))]\<rparr>))"
proof -
  let ?fl = "fl\<lparr>fl_tick := Suc (fl_tick fl), fl_writer := sw, fl_world := w, fl_sealed_total := fl_sealed_total fl + 1\<rparr>"
  have "fl_hand_off sealed ?fl \<noteq> None"
    using assms by (cases "fl_hand_off sealed ?fl") (simp_all add: flush_unit_def instant_now_def Let_def)
  then obtain fl1 where h: "fl_hand_off sealed ?fl = Some fl1" by blast
  then obtain sh env where fl1: "fl1 = ?fl\<lparr>fl_handoff := sh, fl_env := env\<rparr>" using fl_hand_off_eq by blast
  show ?thesis
    using assms h by (intro exI [of _ sh] exI [of _ env])
      (cases "wu_durability u"; auto simp: flush_unit_def instant_now_def unit_slot_def send_ack_def Let_def fl1)
qed

section \<open>Every record is acked once\<close>

definition ack_ids :: "('s, 'w) flush_state \<Rightarrow> nat multiset" where
  "ack_ids st = (case st of (D, P, fl) \<Rightarrow> mset (map pa_tx D) + mset (map pa_tx P) + mset (map fst (fl_acks fl)))"

lemma flush_unit_ids: "flush_unit S Z u st = Some st' \<Longrightarrow> ack_ids st' = ack_ids st + {#wu_ack_tx u#}"
proof -
  assume run: "flush_unit S Z u st = Some st'"
  obtain D P fl where st: "st = (D, P, fl)" by (metis prod_cases3)
  obtain x sw w where wr:
    "sw_write_record S Z (fl_instants fl (fl_tick fl)) (wu_payload u) (fl_writer fl) (fl_world fl) = (x, sw, w)"
    by (metis prod_cases3)
  consider k where "x = Inl k" | "x = Inr None" | sealed where "x = Inr (Some sealed)"
    by (metis not_None_eq obj_sumE)
  then show ?thesis
  proof cases
    case 1
    then show ?thesis using run flush_unit_failed [OF wr [unfolded 1]]
      by (auto simp: st ack_ids_def multiset.map_comp comp_def)
  next
    case 2
    then show ?thesis using run flush_unit_stays [OF wr [unfolded 2]]
      by (auto simp: st ack_ids_def Let_def split: durability.splits)
  next
    case 3
    then show ?thesis using flush_unit_rotates [OF wr [unfolded 3] run [unfolded st]]
      by (cases "wu_durability u") (auto simp: st ack_ids_def Let_def)
  qed
qed

lemma flush_units_ids:
  "flush_units S Z us st = Some st' \<Longrightarrow> ack_ids st' = ack_ids st + mset (map wu_ack_tx us)"
  by (induction us arbitrary: st) (auto dest: flush_unit_ids split: option.splits)

lemma flush_batches_ids:
  "flush_batches S Z bs st = Some st' \<Longrightarrow>
   ack_ids st' = ack_ids st + mset (map wu_ack_tx (concat (map ba_records bs)))"
  by (induction bs arbitrary: st) (auto dest: flush_units_ids split: option.splits)

definition acked_ids :: "('s, 'w) flusher \<Rightarrow> nat multiset" where
  "acked_ids fl = mset (map fst (fl_acks fl))"

lemma fsync_observed_acks: "fsync_observed S fl = (ok, fl') \<Longrightarrow> fl_acks fl' = fl_acks fl"
  by (auto simp: fsync_observed_def instant_now_def Let_def split: prod.splits sum.splits)

lemma flush_batch_ids:
  assumes "flush_batch S Z bs fl = Some fl'"
  shows "acked_ids fl' = acked_ids fl + mset (map wu_ack_tx (concat (map ba_records bs)))"
proof -
  obtain D P fl1 where run: "flush_batches S Z bs ([], [], fl) = Some (D, P, fl1)"
    using assms by (auto simp: flush_batch_def split: option.splits)
  have "acked_ids fl' = ack_ids (D, P, fl1)"
    using assms run by (auto simp: flush_batch_def ack_ids_def acked_ids_def resolve_all_eq multiset.map_comp comp_def Let_def
        dest: fsync_observed_acks split: prod.splits if_splits)
  then show ?thesis using flush_batches_ids [OF run] by (simp add: ack_ids_def acked_ids_def)
qed

lemma seal_before_ids: "seal_before_size_threshold S fl = Some (b, fl') \<Longrightarrow> fl_acks fl' = fl_acks fl"
  by (auto simp: seal_before_size_threshold_def Let_def dest!: fl_hand_off_eq split: prod.splits sum.splits option.splits)

lemma shutdown_seal_ids: "shutdown_seal S fl = Some fl' \<Longrightarrow> fl_acks fl' = fl_acks fl"
  by (auto simp: shutdown_seal_def Let_def dest!: fl_hand_off_eq split: prod.splits sum.splits option.splits)

lemma timed_seal_reason_eq:
  "timed_seal_reason cfg lw fl = (r, fl') \<Longrightarrow> fl' = fl\<lparr>fl_tick := Suc (Suc (fl_tick fl))\<rparr>"
  by (simp add: timed_seal_reason_def instant_now_def Let_def)

lemma seal_and_stop_clock_eq:
  "seal_and_stop_clock S lw fl = Some (lw', fl') \<Longrightarrow> \<exists>b. seal_before_size_threshold S fl = Some (b, fl')"
  by (auto simp: seal_and_stop_clock_def)

text \<open>An iteration flushes what it took and then possibly seals.\<close>

lemma on_batches_steps:
  assumes "on_batches S Z cfg bs lw fl = Some (lw', fl')"
  shows "\<exists>fl1 fl2. flush_batch S Z bs fl = Some fl1 \<and> (\<exists>n. fl2 = fl1\<lparr>fl_tick := n\<rparr>) \<and>
    (fl' = fl2 \<or> (\<exists>b. seal_before_size_threshold S fl2 = Some (b, fl')))"
proof -
  obtain fl1 where f: "flush_batch S Z bs fl = Some fl1"
    using assms by (auto simp: on_batches_def split: option.splits)
  have id: "fl1\<lparr>fl_tick := fl_tick fl1\<rparr> = fl1" by (cases fl1) simp
  have "\<exists>lw1 n. (if fc_segment_max_age cfg \<noteq> None
                 then (case instant_now fl1 of (now, fl) \<Rightarrow> (Some now, fl)) else (lw, fl1)) = (lw1, fl1\<lparr>fl_tick := n\<rparr>)"
    by (cases "fc_segment_max_age cfg = None") (auto simp: instant_now_def intro: exI [of _ "fl_tick fl1"] id [symmetric])
  then obtain lw1 n where m: "(if fc_segment_max_age cfg \<noteq> None
                 then (case instant_now fl1 of (now, fl) \<Rightarrow> (Some now, fl)) else (lw, fl1)) = (lw1, fl1\<lparr>fl_tick := n\<rparr>)"
    by blast
  obtain reason fl2 where ts: "timed_seal_reason cfg lw1 (fl1\<lparr>fl_tick := n\<rparr>) = (reason, fl2)" by fastforce
  have fl2: "fl2 = fl1\<lparr>fl_tick := Suc (Suc n)\<rparr>" using timed_seal_reason_eq [OF ts] by simp
  have run: "(if fc_segment_max_lifetime cfg = None then Some (lw1, fl1\<lparr>fl_tick := n\<rparr>)
     else case reason of None \<Rightarrow> Some (lw1, fl2) | Some _ \<Rightarrow> seal_and_stop_clock S lw1 fl2) = Some (lw', fl')"
    using assms unfolding on_batches_def f option.case m Let_def prod.case ts by simp
  consider "fl' = fl1\<lparr>fl_tick := n\<rparr>" | "fl' = fl2" | "seal_and_stop_clock S lw1 fl2 = Some (lw', fl')"
    using run by (auto split: if_splits option.splits)
  then show ?thesis using f fl2 by cases (metis seal_and_stop_clock_eq)+
qed

lemma on_timeout_steps:
  assumes "on_timeout S Z cfg [] lw fl = Some (lw', fl')"
  shows "\<exists>n. fl' = fl\<lparr>fl_tick := n\<rparr> \<or> (\<exists>b. seal_before_size_threshold S (fl\<lparr>fl_tick := n\<rparr>) = Some (b, fl'))"
proof -
  obtain reason fl2 where ts: "timed_seal_reason cfg lw fl = (reason, fl2)" by fastforce
  have fl2: "fl2 = fl\<lparr>fl_tick := Suc (Suc (fl_tick fl))\<rparr>" using timed_seal_reason_eq [OF ts] by simp
  have "fl' = fl2 \<or> seal_and_stop_clock S lw fl2 = Some (lw', fl')"
    using assms by (auto simp: on_timeout_def ts split: if_splits option.splits)
  then show ?thesis using fl2 by (metis seal_and_stop_clock_eq)
qed

lemma on_batches_ids:
  "on_batches S Z cfg bs lw fl = Some (lw', fl') \<Longrightarrow>
   acked_ids fl' = acked_ids fl + mset (map wu_ack_tx (concat (map ba_records bs)))"
  by (drule on_batches_steps) (auto simp: acked_ids_def dest!: flush_batch_ids seal_before_ids)

lemma on_timeout_ids: "on_timeout S Z cfg [] lw fl = Some (lw', fl') \<Longrightarrow> fl_acks fl' = fl_acks fl"
  by (drule on_timeout_steps) (auto dest!: seal_before_ids)

abbreviation batch_units :: "batch list \<Rightarrow> work_unit list" where
  "batch_units bs \<equiv> concat (map ba_records bs)"

text \<open>One iteration of the loop, as a step on queue and flusher.\<close>

lemma flusher_loop_step:
  assumes "flusher_loop S Z cfg arrivals queue [] lw fl = Some fl'"
  obtains (closed) "arrivals = []" "queue = []" "fl' = fl"
  | (timeout) a lw1 fl1 where "arrivals = [] # a" "queue = []" "on_timeout S Z cfg [] lw fl = Some (lw1, fl1)"
      "flusher_loop S Z cfg a [] [] lw1 fl1 = Some fl'"
  | (batches) taken rest lw1 fl1 where "queue @ concat arrivals = taken @ rest @ concat (tl arrivals)"
      "on_batches S Z cfg taken lw fl = Some (lw1, fl1)"
      "flusher_loop S Z cfg (tl arrivals) rest [] lw1 fl1 = Some fl'"
      "length (tl arrivals) < length arrivals \<or> arrivals = [] \<and> length rest < length queue"
proof (cases "queue @ (case arrivals of [] \<Rightarrow> [] | a # _ \<Rightarrow> a)")
  case Nil
  then show ?thesis using assms closed timeout
    by (subst (asm) flusher_loop.simps) (cases arrivals; auto split: option.splits)
next
  case (Cons b q)
  obtain more rest where dr: "drain_available (fc_batch_size cfg) (length (ba_records b)) q = (more, rest)" by fastforce
  note sp = drain_available_split [OF dr]
  obtain lw1 fl1 where "on_batches S Z cfg (b # more) lw fl = Some (lw1, fl1)"
    "flusher_loop S Z cfg (tl arrivals) rest [] lw1 fl1 = Some fl'"
    using assms Cons dr by (subst (asm) flusher_loop.simps) (auto split: option.splits)
  then show ?thesis using batches [of "b # more" rest] Cons sp by (cases arrivals) auto
qed

lemma flusher_loop_ids:
  "flusher_loop S Z cfg arrivals queue [] lw fl = Some fl' \<Longrightarrow>
   acked_ids fl' = acked_ids fl + mset (map wu_ack_tx (batch_units (queue @ concat arrivals)))"
proof (induction "(length arrivals, length queue)" arbitrary: arrivals queue lw fl
    rule: wf_induct_rule [OF wf_lex_prod [OF wf_less_than wf_less_than]])
  case 1
  from 1(2) show ?case
  proof (cases rule: flusher_loop_step)
    case closed
    then show ?thesis by simp
  next
    case (timeout a lw1 fl1)
    then show ?thesis using 1(1) [of a "[]" lw1 fl1] by (auto simp: acked_ids_def dest: on_timeout_ids)
  next
    case (batches taken rest lw1 fl1)
    then have "acked_ids fl' = acked_ids fl1 + mset (map wu_ack_tx (batch_units (rest @ concat (tl arrivals))))"
      by (intro 1(1)) auto
    then show ?thesis using batches on_batches_ids [OF batches(2)] by (simp add: batches(1))
  qed
qed

section \<open>A durable ack is on stable storage\<close>

text \<open>
  \<open>placed\<close>: the stored form of a unit's payload is one of the records \<open>rs\<close> of the segment
  created at \<open>p\<close>, and the slot, if the producer asked for one, is its address there.
\<close>

definition placed ::
  "zstd_ops \<Rightarrow> 's shard_writer \<Rightarrow> work_unit \<Rightarrow> path \<Rightarrow> bytes list \<Rightarrow> record_slot option \<Rightarrow> bool"
where
  "placed Z sw u p rs slot \<longleftrightarrow>
     (\<exists>k < length rs. stored_form Z sw (wu_payload u) = Some (rs ! k) \<and>
        slot = (if wu_wants_coordinate u
                then Some \<lparr>slot_segment = segment_identity (sealed_path_for p), slot_index = Suc k\<rparr> else None))"

lemma placed_mono: "placed Z sw u p rs slot \<Longrightarrow> prefix rs rs' \<Longrightarrow> placed Z sw u p rs' slot"
  by (fastforce simp: placed_def prefix_def nth_append)

lemma placed_last:
  "stored_form Z sw (wu_payload u) = Some st \<Longrightarrow>
   slot = (if wu_wants_coordinate u
           then Some \<lparr>slot_segment = segment_identity (sealed_path_for p), slot_index = length (rs @ [st])\<rparr> else None) \<Longrightarrow>
   placed Z sw u p (rs @ [st]) slot"
  by (auto simp: placed_def intro!: exI [of _ "length rs"])

definition held ::
  "zstd_ops \<Rightarrow> 's shard_writer \<Rightarrow> work_unit set \<Rightarrow> ('w \<Rightarrow> path \<Rightarrow> bytes list) \<Rightarrow> 'w \<Rightarrow> pending_ack \<Rightarrow> bool"
where
  "held Z sw us stab w a \<longleftrightarrow>
     (\<exists>u \<in> us. wu_ack_tx u = pa_tx a \<and> (\<exists>p. active_name p \<and> placed Z sw u p (stab w p) (pa_slot a)))"

definition awaits ::
  "zstd_ops \<Rightarrow> 's shard_writer \<Rightarrow> work_unit set \<Rightarrow> bytes list \<Rightarrow> path option \<Rightarrow> pending_ack \<Rightarrow> bool"
where
  "awaits Z sw us rs ap a \<longleftrightarrow>
     (\<exists>u \<in> us. wu_ack_tx u = pa_tx a \<and> (\<exists>p. ap = Some p \<and> active_name p \<and> placed Z sw u p rs (pa_slot a)))"

definition truthful ::
  "zstd_ops \<Rightarrow> 's shard_writer \<Rightarrow> work_unit set \<Rightarrow> ('w \<Rightarrow> path \<Rightarrow> bytes list) \<Rightarrow> 'w \<Rightarrow> nat \<times> ack_outcome \<Rightarrow> bool"
where
  "truthful Z sw us stab w a \<longleftrightarrow>
     (if ao_durable (snd a)
      then \<exists>u \<in> us. wu_ack_tx u = fst a \<and>
        (wu_durability u = Durable \<longrightarrow> (\<exists>p. active_name p \<and> placed Z sw u p (stab w p) (ao_coordinate (snd a))))
      else ao_coordinate (snd a) = None)"

lemma held_mono: "held Z sw us stab w a \<Longrightarrow> stab_le stab w w' \<Longrightarrow> held Z sw us stab w' a"
  unfolding held_def stab_le_def by (meson placed_mono)

lemma truthful_mono: "truthful Z sw us stab w a \<Longrightarrow> stab_le stab w w' \<Longrightarrow> truthful Z sw us stab w' a"
  unfolding truthful_def stab_le_def by (cases "ao_durable (snd a)") (auto, meson placed_mono)

lemma truthful_failed [simp]: "truthful Z sw us stab w (tx, ack_failed)"
  by (simp add: truthful_def ack_failed_def)

lemma truthful_held: "held Z sw us stab w a \<Longrightarrow> truthful Z sw us stab w (pa_tx a, ack_durable (pa_slot a))"
  by (auto simp: truthful_def held_def ack_durable_def)

lemma truthful_buffered:
  "u \<in> us \<Longrightarrow> wu_durability u = Buffered \<Longrightarrow> truthful Z sw us stab w (wu_ack_tx u, ack_durable slot)"
  by (auto simp: truthful_def ack_durable_def)

text \<open>The invariant of the inner loop, for the codec of \<open>sw0\<close> and the units \<open>us\<close> received.\<close>

definition flush_inv where
  "flush_inv good stab free healthy Z sw0 us rs st \<longleftrightarrow> (case st of (D, P, fl) \<Rightarrow>
     writer_inv good free healthy rs (fl_writer fl) (fl_world fl) \<and> same_codec sw0 (fl_writer fl) \<and>
     (\<forall>a \<in> set D. held Z sw0 us stab (fl_world fl) a) \<and>
     (\<forall>a \<in> set P. awaits Z sw0 us rs (sw_active_path (fl_writer fl)) a) \<and>
     (\<forall>a \<in> set (fl_acks fl). truthful Z sw0 us stab (fl_world fl) a))"

context segment_backend
begin

abbreviation finv where "finv \<equiv> flush_inv good stab free healthy"

lemma flush_unit_correct:
  assumes fi: "finv Z sw0 us rs (D, P, fl)" and u: "u \<in> us" and run: "flush_unit S Z u (D, P, fl) = Some st'"
  shows "\<exists>rs'. finv Z sw0 us rs' st' \<and> stab_le stab (fl_world fl) (fl_world (snd (snd st')))"
proof -
  let ?sw = "fl_writer fl" and ?w = "fl_world fl"
  obtain x sw w where wr: "sw_write_record S Z (fl_instants fl (fl_tick fl)) (wu_payload u) ?sw ?w = (x, sw, w)"
    by (metis prod_cases3)
  have iv: "inv rs ?sw ?w" and cd: "same_codec sw0 ?sw" using fi by (auto simp: flush_inv_def)
  note wc = write_record_correct [OF iv wr]
  have le: "stab_le stab ?w w" using wc by blast
  have cd': "same_codec sw0 sw" using wc cd by (auto simp: same_codec_def)
  have D: "\<forall>a \<in> set D. held Z sw0 us stab w a" and A: "\<forall>a \<in> set (fl_acks fl). truthful Z sw0 us stab w a"
    using fi le by (auto simp: flush_inv_def intro: held_mono truthful_mono)
  have P: "\<forall>a \<in> set P. awaits Z sw0 us rs (sw_active_path ?sw) a" using fi by (auto simp: flush_inv_def)
  have act: "sw_active ?sw \<noteq> None" if "sw_active_path ?sw = Some p" for p
    using iv that by (auto simp: writer_inv_def split: option.splits)
  consider (fail) k where "x = Inl k" | (stays) "x = Inr None" | (rot) sealed where "x = Inr (Some sealed)"
    by (metis not_None_eq obj_sumE)
  then show ?thesis
  proof cases
    case fail
    note un = flush_unit_failed [OF wr [unfolded fail], of D P]
    from wc fail consider
        "last_write_failure sw = RecordRejected" "sw_active_path sw = sw_active_path ?sw" "inv rs sw w"
      | "last_write_failure sw = SegmentDropped" "inv [] sw w" by auto
    then show ?thesis
    proof cases
      case 1
      then show ?thesis using un run le D A P cd' by (intro exI [of _ rs]) (auto simp: flush_inv_def)
    next
      case 2
      then show ?thesis using un run le D A cd' by (intro exI [of _ "[]"]) (auto simp: flush_inv_def)
    qed
  next
    case stays
    then obtain st p where st: "stored_form Z ?sw (wu_payload u) = Some st" "inv (rs @ [st]) sw w"
      "sw_active_path sw = Some p" "active_name p" "sw_active ?sw \<noteq> None \<longrightarrow> sw_active_path ?sw = Some p"
      using wc by auto
    have len: "last_record_index sw = length (rs @ [st])"
      using st(2) by (auto simp: writer_inv_def last_record_index_def split: option.splits)
    have P': "\<forall>a \<in> set P. awaits Z sw0 us (rs @ [st]) (Some p) a"
      using P st(5) act unfolding awaits_def by (metis option.inject placed_mono prefixI)
    have "placed Z sw0 u p (rs @ [st]) (unit_slot u sw None)"
      using st len stored_form_codec [OF cd, of Z] by (intro placed_last) (auto simp: unit_slot_def drain_address_def)
    then have n: "awaits Z sw0 us (rs @ [st]) (Some p) \<lparr>pa_tx = wu_ack_tx u, pa_slot = unit_slot u sw None\<rparr>"
      using u st(4) by (auto simp: awaits_def)
    show ?thesis
      using flush_unit_stays [OF wr [unfolded stays], of D P] run st le D A P' n cd' u
      by (intro exI [of _ "rs @ [st]"]; cases "wu_durability u")
        (auto simp: flush_inv_def Let_def intro: truthful_buffered)
  next
    case rot
    then obtain st p where st: "stored_form Z ?sw (wu_payload u) = Some st" "inv [] sw w" "active_name p"
      "sealed = sealed_path_for p" "stab w p = rs @ [st]" "last_record_index sw = length (rs @ [st])"
      "sw_active ?sw \<noteq> None \<longrightarrow> sw_active_path ?sw = Some p"
      using wc by auto
    have P': "\<forall>a \<in> set P. held Z sw0 us stab w a"
    proof
      fix a assume "a \<in> set P"
      with P obtain v q where "v \<in> us" "wu_ack_tx v = pa_tx a" "sw_active_path ?sw = Some q" "active_name q"
        "placed Z sw0 v q rs (pa_slot a)" unfolding awaits_def by blast
      then show "held Z sw0 us stab w a"
        using st(5,7) act unfolding held_def by (metis option.inject placed_mono prefixI)
    qed
    have "placed Z sw0 u p (rs @ [st]) (unit_slot u sw (Some sealed))"
      using st stored_form_codec [OF cd, of Z] by (intro placed_last) (auto simp: unit_slot_def drain_address_def)
    then have n: "held Z sw0 us stab w \<lparr>pa_tx = wu_ack_tx u, pa_slot = unit_slot u sw (Some sealed)\<rparr>"
      unfolding held_def using u st(3,5) by (intro bexI [of _ u] conjI exI [of _ p]) simp_all
    show ?thesis
      using flush_unit_rotates [OF wr [unfolded rot] run] st le D A P' n cd' u
      by (intro exI [of _ "[]"]; cases "wu_durability u")
        (auto simp: flush_inv_def Let_def intro: truthful_buffered)
  qed
qed

lemma flush_units_correct:
  assumes "finv Z sw0 us rs st" "set vs \<subseteq> us" "flush_units S Z vs st = Some st'"
  shows "\<exists>rs'. finv Z sw0 us rs' st' \<and> stab_le stab (fl_world (snd (snd st))) (fl_world (snd (snd st')))"
  using assms
proof (induction vs arbitrary: st rs)
  case (Cons v vs)
  obtain D P fl where st: "st = (D, P, fl)" by (metis prod_cases3)
  obtain st1 where st1: "flush_unit S Z v st = Some st1" "flush_units S Z vs st1 = Some st'"
    using Cons.prems(3) by (auto split: option.splits)
  obtain rs1 where rs1: "finv Z sw0 us rs1 st1" "stab_le stab (fl_world fl) (fl_world (snd (snd st1)))"
    using flush_unit_correct [of Z sw0 us rs D P fl v st1] Cons.prems st1 st by auto
  from Cons.IH [OF rs1(1) _ st1(2)] Cons.prems(2) rs1(2) show ?case
    by (auto simp: st intro: stab_le_trans)
qed auto

lemma flush_batches_correct:
  assumes "finv Z sw0 us rs st" "set (concat (map ba_records bs)) \<subseteq> us" "flush_batches S Z bs st = Some st'"
  shows "\<exists>rs'. finv Z sw0 us rs' st' \<and> stab_le stab (fl_world (snd (snd st))) (fl_world (snd (snd st')))"
  using assms
proof (induction bs arbitrary: st rs)
  case (Cons b bs)
  obtain st1 where st1: "flush_units S Z (ba_records b) st = Some st1" "flush_batches S Z bs st1 = Some st'"
    using Cons.prems(3) by (auto split: option.splits)
  obtain rs1 where rs1: "finv Z sw0 us rs1 st1" "stab_le stab (fl_world (snd (snd st))) (fl_world (snd (snd st1)))"
    using flush_units_correct [OF Cons.prems(1) _ st1(1)] Cons.prems(2) by auto
  from Cons.IH [OF rs1(1) _ st1(2)] Cons.prems(2) rs1(2) show ?case by (auto intro: stab_le_trans)
qed auto

lemma fsync_observed_correct:
  assumes iv: "inv rs (fl_writer fl) (fl_world fl)" and run: "fsync_observed S fl = (ok, fl')"
  shows "stab_le stab (fl_world fl) (fl_world fl') \<and> same_codec (fl_writer fl) (fl_writer fl') \<and> fl_acks fl' = fl_acks fl \<and>
    (\<exists>rs'. inv rs' (fl_writer fl') (fl_world fl')) \<and>
    (ok \<longrightarrow> (\<forall>p. sw_active_path (fl_writer fl) = Some p \<longrightarrow> stab (fl_world fl') p = rs))"
proof -
  obtain x sw w where sy: "sw_fsync_current S (fl_writer fl) (fl_world fl) = (x, sw, w)" by (metis prod_cases3)
  have cd: "same_codec (fl_writer fl) sw"
    using sy by (auto simp: sw_fsync_current_def same_codec_def split: option.splits prod.splits sum.splits)
  show ?thesis
    using run sy fsync_current_correct [OF iv sy] cd
    by (cases x) (auto simp: fsync_observed_def instant_now_def Let_def)
qed

lemma flush_batch_correct:
  assumes fi: "finv Z sw0 us rs ([], [], fl)" and sub: "set (concat (map ba_records bs)) \<subseteq> us"
    and run: "flush_batch S Z bs fl = Some fl'"
  shows "\<exists>rs'. finv Z sw0 us rs' ([], [], fl') \<and> stab_le stab (fl_world fl) (fl_world fl')"
proof -
  obtain D P fl1 where st1: "flush_batches S Z bs ([], [], fl) = Some (D, P, fl1)"
    using run by (auto simp: flush_batch_def split: option.splits)
  obtain rs1 where f1: "finv Z sw0 us rs1 (D, P, fl1)" and le1: "stab_le stab (fl_world fl) (fl_world fl1)"
    using flush_batches_correct [OF fi sub st1] by auto
  show ?thesis
  proof (cases "P = []")
    case True
    then show ?thesis using run st1 f1 le1
      by (intro exI [of _ rs1]) (auto simp: flush_batch_def flush_inv_def resolve_all_eq truthful_held)
  next
    case False
    obtain ok fl2 where sy: "fsync_observed S fl1 = (ok, fl2)" by fastforce
    have iv: "inv rs1 (fl_writer fl1) (fl_world fl1)" using f1 by (simp add: flush_inv_def)
    note fo = fsync_observed_correct [OF iv sy]
    obtain rs2 where iv2: "inv rs2 (fl_writer fl2) (fl_world fl2)" using fo by blast
    have le2: "stab_le stab (fl_world fl1) (fl_world fl2)" using fo by blast
    have held: "held Z sw0 us stab (fl_world fl2) a" if "a \<in> set P" ok for a
    proof -
      have "awaits Z sw0 us rs1 (sw_active_path (fl_writer fl1)) a" using f1 that(1) by (simp add: flush_inv_def)
      then obtain u p where up: "u \<in> us" "wu_ack_tx u = pa_tx a" "sw_active_path (fl_writer fl1) = Some p" "active_name p"
        "placed Z sw0 u p rs1 (pa_slot a)" unfolding awaits_def by blast
      then have "stab (fl_world fl2) p = rs1" using fo that(2) by simp
      with up show ?thesis unfolding held_def by (intro bexI [of _ u] conjI exI [of _ p]) simp_all
    qed
    have D2: "\<forall>a \<in> set D. held Z sw0 us stab (fl_world fl2) a"
      and A2: "\<forall>a \<in> set (fl_acks fl2). truthful Z sw0 us stab (fl_world fl2) a"
      using f1 fo by (auto simp: flush_inv_def intro: held_mono [OF _ le2] truthful_mono [OF _ le2])
    have cd2: "same_codec sw0 (fl_writer fl2)" using f1 fo by (simp add: flush_inv_def same_codec_def)
    have le: "stab_le stab (fl_world fl) (fl_world fl2)" using le1 le2 by (rule stab_le_trans)
    have "fl' = resolve_all True D (resolve_all ok P fl2)"
      using run st1 False sy by (simp add: flush_batch_def)
    then show ?thesis
      using D2 A2 cd2 le iv2 held
      by (intro exI [of _ rs2]) (cases ok; auto simp: flush_inv_def resolve_all_eq truthful_held)
  qed
qed

lemma seal_step_correct:
  assumes fi: "finv Z sw0 us rs ([], [], fl)" and se: "sw_seal_current S (fl_writer fl) (fl_world fl) = (x, sw, w)"
    and fl': "fl_writer fl' = sw" "fl_world fl' = w" "fl_acks fl' = fl_acks fl"
  shows "finv Z sw0 us [] ([], [], fl') \<and> stab_le stab (fl_world fl) (fl_world fl')"
proof -
  have iv: "inv rs (fl_writer fl) (fl_world fl)" using fi by (simp add: flush_inv_def)
  have "same_codec (fl_writer fl) sw"
    using se by (auto simp: sw_seal_current_def same_codec_def Let_def split: option.splits prod.splits sum.splits)
  then show ?thesis
    using seal_current_correct [OF iv se] fi fl'
    by (auto simp: flush_inv_def same_codec_def intro: truthful_mono)
qed

lemma seal_before_correct:
  assumes "finv Z sw0 us rs ([], [], fl)" "seal_before_size_threshold S fl = Some (b, fl')"
  shows "finv Z sw0 us [] ([], [], fl') \<and> stab_le stab (fl_world fl) (fl_world fl')"
proof -
  obtain x sw w where se: "sw_seal_current S (fl_writer fl) (fl_world fl) = (x, sw, w)" by (metis prod_cases3)
  have "fl_writer fl' = sw \<and> fl_world fl' = w \<and> fl_acks fl' = fl_acks fl"
    using assms(2) se
    by (auto simp: seal_before_size_threshold_def Let_def dest!: fl_hand_off_eq split: sum.splits option.splits)
  then show ?thesis using seal_step_correct [OF assms(1) se] by blast
qed

lemma shutdown_seal_correct:
  assumes "finv Z sw0 us rs ([], [], fl)" "shutdown_seal S fl = Some fl'"
  shows "finv Z sw0 us [] ([], [], fl') \<and> stab_le stab (fl_world fl) (fl_world fl')"
proof -
  obtain x sw w where se: "sw_seal_current S (fl_writer fl) (fl_world fl) = (x, sw, w)" by (metis prod_cases3)
  have "fl_writer fl' = sw \<and> fl_world fl' = w \<and> fl_acks fl' = fl_acks fl"
    using assms(2) se
    by (auto simp: shutdown_seal_def Let_def dest!: fl_hand_off_eq split: sum.splits option.splits)
  then show ?thesis using seal_step_correct [OF assms(1) se] by blast
qed

lemma finv_tick [simp]: "finv Z sw0 us rs (D, P, fl\<lparr>fl_tick := n\<rparr>) = finv Z sw0 us rs (D, P, fl)"
  by (simp add: flush_inv_def)

lemma flusher_loop_correct:
  assumes "finv Z sw0 us rs ([], [], fl)" "set (batch_units (queue @ concat arrivals)) \<subseteq> us"
    "flusher_loop S Z cfg arrivals queue [] lw fl = Some fl'"
  shows "\<exists>rs'. finv Z sw0 us rs' ([], [], fl')"
  using assms
proof (induction "(length arrivals, length queue)" arbitrary: arrivals queue lw fl rs
    rule: wf_induct_rule [OF wf_lex_prod [OF wf_less_than wf_less_than]])
  case 1
  from 1(4) show ?case
  proof (cases rule: flusher_loop_step)
    case closed
    then show ?thesis using 1(2) by auto
  next
    case (timeout a lw1 fl1)
    obtain rs1 where "finv Z sw0 us rs1 ([], [], fl1)"
      using on_timeout_steps [OF timeout(3)] 1(2) seal_before_correct by (metis finv_tick)
    then show ?thesis using 1(1) [of a "[]" rs1 fl1 lw1] timeout 1(3) by simp
  next
    case (batches taken rest lw1 fl1)
    have sub: "set (batch_units taken) \<subseteq> us" "set (batch_units (rest @ concat (tl arrivals))) \<subseteq> us"
      using 1(3) unfolding batches(1) by simp_all
    obtain g1 g2 n where g: "flush_batch S Z taken fl = Some g1" "g2 = g1\<lparr>fl_tick := n\<rparr>"
      "fl1 = g2 \<or> (\<exists>b. seal_before_size_threshold S g2 = Some (b, fl1))"
      using on_batches_steps [OF batches(2)] by blast
    obtain rs1 where "finv Z sw0 us rs1 ([], [], g1)" using flush_batch_correct [OF 1(2) sub(1) g(1)] by blast
    then obtain rs2 where "finv Z sw0 us rs2 ([], [], fl1)"
      using g(2,3) seal_before_correct by (metis finv_tick)
    then show ?thesis using 1(1) [of "tl arrivals" rest rs2 fl1 lw1] sub(2) batches(3,4) by auto
  qed
qed

end

section \<open>The flusher on the production store\<close>

lemma scan_with_retries_ok:
  assumes "world_wf w" "\<forall>n \<ge> 2 ^ 64. unused (segment_path (sw_shard_dir sw) n) w"
    "sw_active sw = None" "sw_active_path sw = None"
    "scan_with_retries (fs_store C) retries hook sw w = (up, sw', w')"
  shows "(up \<longrightarrow> shard_ok C [] sw' w') \<and> same_codec sw sw'"
  using assms
proof (induction retries arbitrary: sw w)
  case 0
  obtain x sw1 w1 where sc: "sw_scan_and_advance_counter (fs_store C) sw w = (x, sw1, w1)" by (metis prod_cases3)
  show ?case
    using 0 sc scan_fields [OF sc] scan_fresh [of w sw C sw1 w1]
    by (subst (asm) scan_with_retries.simps) (auto split: sum.splits if_splits)
next
  case (Suc n)
  obtain x sw1 w1 where sc: "sw_scan_and_advance_counter (fs_store C) sw w = (x, sw1, w1)" by (metis prod_cases3)
  note f = scan_fields [OF sc]
  show ?case
  proof (cases "case x of Inr _ \<Rightarrow> \<not> hook (Suc n) | Inl _ \<Rightarrow> False")
    case True
    then have x: "x = Ok ()" by (auto split: sum.splits)
    have "sw' = sw1 \<and> w' = w1"
      using Suc.prems(5) True sc by (subst (asm) scan_with_retries.simps) simp
    then show ?thesis using f scan_fresh [OF Suc.prems(1,2,3,4) sc [unfolded x]] by simp
  next
    case False
    then have r: "scan_with_retries (fs_store C) n hook sw1 w1 = (up, sw', w')"
      using Suc.prems(5) sc by (subst (asm) scan_with_retries.simps) (simp split: if_splits sum.splits)
    show ?thesis
      using Suc.IH [OF _ _ _ _ r] Suc.prems f by (auto simp: same_codec_def)
  qed
qed

lemma flush_inv_start:
  "shard_ok C rs (fl_writer fl) (fl_world fl) \<Longrightarrow> fl_acks fl = [] \<Longrightarrow> same_codec sw0 (fl_writer fl) \<Longrightarrow>
   flush_inv world_wf (stable_records (crc_hash C)) unused (ws_ok C) Z sw0 us rs ([], [], fl)"
  by (simp add: flush_inv_def shard_ok_def)

text \<open>What the invariant says of one unit's ack, when no two units share a sender.\<close>

lemma flush_inv_ack:
  assumes "flush_inv good stab free healthy Z sw0 (set us) rs (D, P, fl)" "distinct (map wu_ack_tx us)"
    "u \<in> set us" "(wu_ack_tx u, out) \<in> set (fl_acks fl)"
  shows "(ao_durable out \<and> wu_durability u = Durable \<longrightarrow>
      (\<exists>p k. k < length (stab (fl_world fl) p) \<and> stored_form Z sw0 (wu_payload u) = Some (stab (fl_world fl) p ! k) \<and>
         ao_coordinate out = (if wu_wants_coordinate u
           then Some \<lparr>slot_segment = segment_identity (sealed_path_for p), slot_index = k + 1\<rparr> else None))) \<and>
    (\<not> ao_durable out \<longrightarrow> ao_coordinate out = None)"
proof -
  have t: "truthful Z sw0 (set us) stab (fl_world fl) (wu_ack_tx u, out)" using assms(1,4) by (simp add: flush_inv_def)
  have uniq: "v = u" if "v \<in> set us" "wu_ack_tx v = wu_ack_tx u" for v
    using assms(2,3) that by (metis distinct_map inj_on_eq_iff)
  show ?thesis
  proof (cases "ao_durable out")
    case True
    then obtain v where v: "v \<in> set us" "wu_ack_tx v = wu_ack_tx u"
      "wu_durability v = Durable \<longrightarrow> (\<exists>p. active_name p \<and> placed Z sw0 v p (stab (fl_world fl) p) (ao_coordinate out))"
      using t unfolding truthful_def by auto
    then have "wu_durability u = Durable \<Longrightarrow> \<exists>p. placed Z sw0 u p (stab (fl_world fl) p) (ao_coordinate out)"
      using uniq [OF v(1,2)] by blast
    then show ?thesis using True unfolding placed_def by (metis Suc_eq_plus1)
  next
    case False
    then show ?thesis using t by (simp add: truthful_def)
  qed
qed

text \<open>
  C2: no false ack.  Start a flusher on any disk (no file name carries a counter beyond 64
  bits), let the disk fail or write short at any point, let the channel to the drain be full or
  closed, and let the producers send any batches.  When the thread ends, for every durable-tier
  record whose producer was told ``durable'', the stored form of its payload is a record on
  stable storage of some segment \<open>p\<close>; if the producer asked for a coordinate, it is exactly
  that segment's address and the record's 1-based index there.  A failed ack carries no
  coordinate.
\<close>

theorem flusher_acks_durable:
  assumes "world_wf (fl_world fl)" "\<forall>n \<ge> 2 ^ 64. unused (segment_path d n) (fl_world fl)"
    and "fl_writer fl = sw_new_with_store shard d mx cmp lvl now" "fl_acks fl = []"
    and "flusher_thread (fs_store C) Z cfg hook arrivals fl = Some (exit, fl')"
    and "distinct (map wu_ack_tx (batch_units (concat arrivals)))"
    and "u \<in> set (batch_units (concat arrivals))" "(wu_ack_tx u, out) \<in> set (fl_acks fl')"
  shows "(ao_durable out \<and> wu_durability u = Durable \<longrightarrow>
      (\<exists>p k. k < length (stable_records (crc_hash C) (fl_world fl') p) \<and>
         stored_form Z (fl_writer fl) (wu_payload u) = Some (stable_records (crc_hash C) (fl_world fl') p ! k) \<and>
         ao_coordinate out = (if wu_wants_coordinate u
           then Some \<lparr>slot_segment = segment_identity (sealed_path_for p), slot_index = k + 1\<rparr> else None))) \<and>
    (\<not> ao_durable out \<longrightarrow> ao_coordinate out = None)"
proof -
  let ?us = "batch_units (concat arrivals)"
  obtain up sw w where sc: "scan_with_retries (fs_store C) 3 hook (fl_writer fl) (fl_world fl) = (up, sw, w)"
    by (metis prod_cases3)
  let ?fl = "fl\<lparr>fl_writer := sw, fl_world := w\<rparr>"
  have st: "(up \<longrightarrow> shard_ok C [] sw w) \<and> same_codec (fl_writer fl) sw"
    by (rule scan_with_retries_ok [OF assms(1) _ _ _ sc]) (simp_all add: assms(2,3) sw_new_with_store_def)
  have up: "up" using assms(4,5,8) sc by (auto simp: flusher_thread_def Let_def split: if_splits)
  obtain fl1 where fl1: "flusher_loop (fs_store C) Z cfg arrivals [] [] None ?fl = Some fl1"
    "shutdown_seal (fs_store C) fl1 = Some fl'"
    using assms(5) sc up by (auto simp: flusher_thread_def split: option.splits)
  have i0: "flush_inv world_wf (stable_records (crc_hash C)) unused (ws_ok C) Z (fl_writer fl) (set ?us) [] ([], [], ?fl)"
    using st up assms(4) by (intro flush_inv_start) simp_all
  have sub: "set (batch_units ([] @ concat arrivals)) \<subseteq> set ?us" by simp
  obtain rs1 where
    "flush_inv world_wf (stable_records (crc_hash C)) unused (ws_ok C) Z (fl_writer fl) (set ?us) rs1 ([], [], fl1)"
    using fs.flusher_loop_correct [OF i0 sub fl1(1)] by blast
  then have "flush_inv world_wf (stable_records (crc_hash C)) unused (ws_ok C) Z (fl_writer fl) (set ?us) [] ([], [], fl')"
    using fs.shutdown_seal_correct [OF _ fl1(2)] by blast
  from flush_inv_ack [OF this assms(6,7,8)] show ?thesis .
qed

text \<open>
  C3: every record is acked exactly once.  A flusher that ends because its input closed has sent
  one ack for each record of every batch it received and none besides; one that gave up on its
  counter scan has sent none (the channel's receiver is dropped with it).
\<close>

theorem flusher_acks_once:
  assumes "flusher_thread S Z cfg hook arrivals fl = Some (exit, fl')" "fl_acks fl = []"
  shows "mset (map fst (fl_acks fl')) =
    (case exit of InputClosed \<Rightarrow> mset (map wu_ack_tx (batch_units (concat arrivals))) | ScanFailed \<Rightarrow> {#})"
proof -
  obtain up sw w where sc: "scan_with_retries S 3 hook (fl_writer fl) (fl_world fl) = (up, sw, w)"
    by (metis prod_cases3)
  show ?thesis
  proof (cases up)
    case True
    then obtain fl1 where fl1: "flusher_loop S Z cfg arrivals [] [] None (fl\<lparr>fl_writer := sw, fl_world := w\<rparr>) = Some fl1"
      "shutdown_seal S fl1 = Some fl'" "exit = InputClosed"
      using assms(1) sc by (auto simp: flusher_thread_def split: option.splits)
    show ?thesis using flusher_loop_ids [OF fl1(1)] shutdown_seal_ids [OF fl1(2)] assms(2) fl1(3)
      by (simp add: acked_ids_def)
  next
    case False
    then show ?thesis using assms sc by (auto simp: flusher_thread_def Let_def)
  qed
qed

text \<open>
  The group commit.  From a healthy writer, one \<open>flush_batch\<close> keeps everything that was on
  stable storage, leaves a healthy writer, and each durable ack it sends is on stable storage
  the moment \<open>flush_batch\<close> returns, before the next batch is taken.
\<close>

theorem flush_batch_group_commit:
  assumes "shard_ok C rs (fl_writer fl) (fl_world fl)" "fl_acks fl = []"
    and "flush_batch (fs_store C) Z bs fl = Some fl'" "distinct (map wu_ack_tx (batch_units bs))"
  shows "(\<exists>rs'. shard_ok C rs' (fl_writer fl') (fl_world fl')) \<and>
    (\<forall>q. active_name q \<longrightarrow>
       prefix (stable_records (crc_hash C) (fl_world fl) q) (stable_records (crc_hash C) (fl_world fl') q)) \<and>
    mset (map fst (fl_acks fl')) = mset (map wu_ack_tx (batch_units bs)) \<and>
    (\<forall>u \<in> set (batch_units bs). \<forall>out. (wu_ack_tx u, out) \<in> set (fl_acks fl') \<longrightarrow>
       ao_durable out \<longrightarrow> wu_durability u = Durable \<longrightarrow>
       (\<exists>p st. stored_form Z (fl_writer fl) (wu_payload u) = Some st \<and>
          st \<in> set (stable_records (crc_hash C) (fl_world fl') p)))"
proof -
  have i0: "flush_inv world_wf (stable_records (crc_hash C)) unused (ws_ok C) Z (fl_writer fl)
      (set (batch_units bs)) rs ([], [], fl)"
    using assms(1,2) by (intro flush_inv_start) (simp_all add: same_codec_def)
  obtain rs' where f: "flush_inv world_wf (stable_records (crc_hash C)) unused (ws_ok C) Z (fl_writer fl)
      (set (batch_units bs)) rs' ([], [], fl')" and le: "stab_le (stable_records (crc_hash C)) (fl_world fl) (fl_world fl')"
    using fs.flush_batch_correct [OF i0 order.refl assms(3)] by blast
  have "shard_ok C rs' (fl_writer fl') (fl_world fl')" using f by (simp add: flush_inv_def shard_ok_def)
  moreover have "mset (map fst (fl_acks fl')) = mset (map wu_ack_tx (batch_units bs))"
    using flush_batch_ids [OF assms(3)] assms(2) by (simp add: acked_ids_def)
  moreover have "\<exists>p st. stored_form Z (fl_writer fl) (wu_payload u) = Some st \<and>
          st \<in> set (stable_records (crc_hash C) (fl_world fl') p)"
    if "u \<in> set (batch_units bs)" "(wu_ack_tx u, out) \<in> set (fl_acks fl')" "ao_durable out" "wu_durability u = Durable" for u out
    using flush_inv_ack [OF f assms(4) that(1,2)] that(3,4) by (metis nth_mem)
  ultimately show ?thesis using le unfolding stab_le_def by blast
qed

section \<open>The flusher makes progress\<close>

definition drain_live :: "drain_env \<Rightarrow> bool" where
  "drain_live env \<longleftrightarrow> (\<forall>k. \<exists>j \<ge> k. de_send env j \<noteq> SendTimeout)"

lemma fl_hand_off_live:
  assumes "drain_live (fl_env fl)"
  shows "\<exists>fl'. fl_hand_off p fl = Some fl' \<and> drain_live (fl_env fl')"
proof -
  obtain j where j: "j \<ge> de_slice (fl_env fl)" "de_send (fl_env fl) j \<noteq> SendTimeout"
    using assms unfolding drain_live_def by blast
  then obtain r sh env where "hand_off p (fl_handoff fl) (fl_env fl) = Some (r, sh, env)"
    using hand_off_loop_returns [of "fl_env fl" "j - de_slice (fl_env fl)" p False "fl_handoff fl"]
    by (auto simp: hand_off_def)
  then obtain fl' where h: "fl_hand_off p fl = Some fl'" by (simp add: fl_hand_off_def)
  then show ?thesis using fl_hand_off_eq [OF h] assms by (auto simp: drain_live_def same_streams_def)
qed

lemma flush_unit_live:
  assumes "drain_live (fl_env fl)"
  shows "\<exists>D' P' fl'. flush_unit S Z u (D, P, fl) = Some (D', P', fl') \<and> drain_live (fl_env fl')"
proof -
  obtain x sw w where wr:
    "sw_write_record S Z (fl_instants fl (fl_tick fl)) (wu_payload u) (fl_writer fl) (fl_world fl) = (x, sw, w)"
    by (metis prod_cases3)
  consider (fail) k where "x = Inl k" | (stays) "x = Inr None" | (rot) sealed where "x = Inr (Some sealed)"
    by (metis not_None_eq obj_sumE)
  then show ?thesis
  proof cases
    case fail
    then show ?thesis using flush_unit_failed [OF wr [unfolded fail], of D P] assms by auto
  next
    case stays
    then show ?thesis using flush_unit_stays [OF wr [unfolded stays], of D P] assms
      by (cases "wu_durability u") (auto simp: Let_def)
  next
    case rot
    let ?fl = "fl\<lparr>fl_tick := Suc (fl_tick fl), fl_writer := sw, fl_world := w, fl_sealed_total := fl_sealed_total fl + 1\<rparr>"
    obtain fl' where "fl_hand_off sealed ?fl = Some fl'" "drain_live (fl_env fl')"
      using fl_hand_off_live [of ?fl sealed] assms by auto
    then show ?thesis using wr rot
      by (cases "wu_durability u") (auto simp: flush_unit_def instant_now_def send_ack_def Let_def)
  qed
qed

lemma flush_units_live:
  "drain_live (fl_env fl) \<Longrightarrow>
   \<exists>D' P' fl'. flush_units S Z us (D, P, fl) = Some (D', P', fl') \<and> drain_live (fl_env fl')"
proof (induction us arbitrary: D P fl)
  case (Cons u us)
  obtain D' P' fl' where u: "flush_unit S Z u (D, P, fl) = Some (D', P', fl')" "drain_live (fl_env fl')"
    using flush_unit_live [OF Cons.prems] by blast
  then show ?case using Cons.IH [OF u(2), of D' P'] by simp
qed simp

lemma flush_batches_live:
  "drain_live (fl_env fl) \<Longrightarrow>
   \<exists>D' P' fl'. flush_batches S Z bs (D, P, fl) = Some (D', P', fl') \<and> drain_live (fl_env fl')"
proof (induction bs arbitrary: D P fl)
  case (Cons b bs)
  obtain D' P' fl' where u: "flush_units S Z (ba_records b) (D, P, fl) = Some (D', P', fl')" "drain_live (fl_env fl')"
    using flush_units_live [OF Cons.prems] by blast
  then show ?case using Cons.IH [OF u(2), of D' P'] by simp
qed simp

lemma flush_batch_live:
  assumes "drain_live (fl_env fl)"
  shows "\<exists>fl'. flush_batch S Z bs fl = Some fl' \<and> drain_live (fl_env fl')"
proof -
  obtain D P fl1 where u: "flush_batches S Z bs ([], [], fl) = Some (D, P, fl1)" "drain_live (fl_env fl1)"
    using flush_batches_live [OF assms] by blast
  moreover have "fl_env fl2 = fl_env fl1" if "fsync_observed S fl1 = (ok, fl2)" for ok fl2
    using that by (auto simp: fsync_observed_def instant_now_def Let_def split: prod.splits sum.splits)
  ultimately show ?thesis
    by (auto simp: flush_batch_def resolve_all_eq Let_def split: prod.split)
qed

lemma seal_before_live:
  assumes "drain_live (fl_env fl)"
  shows "\<exists>b fl'. seal_before_size_threshold S fl = Some (b, fl') \<and> drain_live (fl_env fl')"
proof -
  obtain x sw w where se: "sw_seal_current S (fl_writer fl) (fl_world fl) = (x, sw, w)" by (metis prod_cases3)
  have "\<exists>fl'. fl_hand_off p (fl\<lparr>fl_writer := sw, fl_world := w, fl_sealed_total := fl_sealed_total fl + 1\<rparr>) = Some fl' \<and>
      drain_live (fl_env fl')" for p
    using assms by (intro fl_hand_off_live) simp
  then show ?thesis using se assms
    by (fastforce simp: seal_before_size_threshold_def Let_def split: sum.split option.split)
qed

lemma shutdown_seal_live:
  assumes "drain_live (fl_env fl)"
  shows "\<exists>fl'. shutdown_seal S fl = Some fl'"
proof -
  obtain x sw w where se: "sw_seal_current S (fl_writer fl) (fl_world fl) = (x, sw, w)" by (metis prod_cases3)
  have "\<exists>fl'. fl_hand_off p (fl\<lparr>fl_writer := sw, fl_world := w, fl_sealed_total := fl_sealed_total fl + 1\<rparr>) = Some fl' \<and>
      drain_live (fl_env fl')" for p
    using assms by (intro fl_hand_off_live) simp
  then show ?thesis using se assms by (fastforce simp: shutdown_seal_def Let_def split: sum.split option.split)
qed

lemma seal_and_stop_clock_live:
  "drain_live (fl_env fl) \<Longrightarrow> \<exists>lw' fl'. seal_and_stop_clock S lw fl = Some (lw', fl') \<and> drain_live (fl_env fl')"
proof -
  assume "drain_live (fl_env fl)"
  then obtain b fl' where "seal_before_size_threshold S fl = Some (b, fl')" "drain_live (fl_env fl')"
    using seal_before_live by blast
  then show ?thesis by (simp add: seal_and_stop_clock_def)
qed

lemma timed_seal_reason_live: "fl_env (snd (timed_seal_reason cfg lw fl)) = fl_env fl"
  by (simp add: timed_seal_reason_def instant_now_def Let_def)

lemma on_timeout_live:
  assumes "drain_live (fl_env fl)"
  shows "\<exists>lw' fl'. on_timeout S Z cfg [] lw fl = Some (lw', fl') \<and> drain_live (fl_env fl')"
proof -
  obtain r fl1 where ts: "timed_seal_reason cfg lw fl = (r, fl1)" by fastforce
  then have "drain_live (fl_env fl1)" using assms timed_seal_reason_live [of cfg lw fl] by simp
  then show ?thesis using ts seal_and_stop_clock_live [of fl1 S lw]
    by (auto simp: on_timeout_def split: option.split)
qed

lemma on_batches_live:
  assumes "drain_live (fl_env fl)"
  shows "\<exists>lw' fl'. on_batches S Z cfg bs lw fl = Some (lw', fl') \<and> drain_live (fl_env fl')"
proof -
  obtain fl1 where f: "flush_batch S Z bs fl = Some fl1" "drain_live (fl_env fl1)"
    using flush_batch_live [OF assms] by blast
  obtain lw2 fl2 where m: "(if fc_segment_max_age cfg \<noteq> None
      then (case instant_now fl1 of (now, fl) \<Rightarrow> (Some now, fl)) else (lw, fl1)) = (lw2, fl2)" by fastforce
  then have l2: "drain_live (fl_env fl2)" using f(2) by (auto simp: instant_now_def split: if_splits)
  obtain r fl3 where ts: "timed_seal_reason cfg lw2 fl2 = (r, fl3)" by fastforce
  then have l3: "drain_live (fl_env fl3)" using l2 timed_seal_reason_live [of cfg lw2 fl2] by simp
  show ?thesis
    unfolding on_batches_def f option.case m Let_def prod.case ts
    using l2 l3 seal_and_stop_clock_live [OF l3, of S lw2] by (auto split: option.split)
qed

lemma flusher_loop_live:
  "drain_live (fl_env fl) \<Longrightarrow>
   \<exists>fl'. flusher_loop S Z cfg arrivals queue [] lw fl = Some fl' \<and> drain_live (fl_env fl')"
proof (induction "(length arrivals, length queue)" arbitrary: arrivals queue lw fl
    rule: wf_induct_rule [OF wf_lex_prod [OF wf_less_than wf_less_than]])
  case 1
  show ?case
  proof (cases "queue @ (case arrivals of [] \<Rightarrow> [] | a # _ \<Rightarrow> a)")
    case Nil
    obtain lw1 fl1 where t: "on_timeout S Z cfg [] lw fl = Some (lw1, fl1)" "drain_live (fl_env fl1)"
      using on_timeout_live [OF 1(2)] by blast
    show ?thesis
      using 1(1) [of "tl arrivals" "[]" fl1 lw1] 1(2) Nil t
      by (subst flusher_loop.simps) (cases arrivals; auto)
  next
    case (Cons b q)
    obtain more rest where dr: "drain_available (fc_batch_size cfg) (length (ba_records b)) q = (more, rest)" by fastforce
    obtain lw1 fl1 where t: "on_batches S Z cfg (b # more) lw fl = Some (lw1, fl1)" "drain_live (fl_env fl1)"
      using on_batches_live [OF 1(2)] by blast
    have "((length (tl arrivals), length rest), length arrivals, length queue) \<in> less_than <*lex*> less_than"
      using Cons drain_available_split [OF dr] by (cases arrivals) auto
    then show ?thesis
      using 1(1) [of "tl arrivals" rest fl1 lw1] Cons t dr by (subst flusher_loop.simps) simp
  qed
qed

text \<open>
  C27: the flusher ends.  If the drain keeps taking from its channel (or its receiver goes away), no
  hand-off holds the flusher up forever: for any store, any faults and any batches the thread
  returns once its producers are gone.
\<close>

theorem flusher_thread_returns:
  assumes "\<forall>k. \<exists>j \<ge> k. de_send (fl_env fl) j \<noteq> SendTimeout"
  shows "\<exists>exit fl'. flusher_thread S Z cfg hook arrivals fl = Some (exit, fl')"
proof -
  obtain up sw w where sc: "scan_with_retries S 3 hook (fl_writer fl) (fl_world fl) = (up, sw, w)"
    by (metis prod_cases3)
  have "drain_live (fl_env (fl\<lparr>fl_writer := sw, fl_world := w\<rparr>))" using assms by (simp add: drain_live_def)
  from flusher_loop_live [OF this] obtain fl1
    where "flusher_loop S Z cfg arrivals [] [] None (fl\<lparr>fl_writer := sw, fl_world := w\<rparr>) = Some fl1" "drain_live (fl_env fl1)"
    by blast
  then show ?thesis using sc shutdown_seal_live [of fl1 S] by (auto simp: flusher_thread_def Let_def)
qed

text \<open>
  A failed timed seal leaves no active segment.  \<open>seal_before_size_threshold\<close> returns
  \<open>false\<close> on a failed seal, for which its documentation and log line say that the segment stays active and the next
  cycle retries; but \<open>seal_current\<close> has already taken the segment, so there is nothing left to
  retry, and the timer's guard \<open>has_active_segment\<close> is false until a new record arrives.
\<close>

theorem timed_seal_failure_retires:
  assumes "seal_before_size_threshold S fl = Some (False, fl')"
  shows "\<not> has_active_segment (fl_writer fl') \<and> sw_active_path (fl_writer fl') = None \<and>
    seal_before_size_threshold S fl' = Some (True, fl')"
proof -
  obtain x sw w where se: "sw_seal_current S (fl_writer fl) (fl_world fl) = (x, sw, w)" by (metis prod_cases3)
  have none: "sw_active sw = None" "sw_active_path sw = None"
    using se by (auto simp: sw_seal_current_def Let_def split: option.splits prod.splits sum.splits)
  have fl': "fl' = fl\<lparr>fl_writer := sw, fl_world := w\<rparr>"
    using assms se by (auto simp: seal_before_size_threshold_def Let_def split: sum.splits option.splits)
  have "sw_seal_current S sw w = (Ok None, sw, w)"
    using none by (cases sw) (simp add: sw_seal_current_def Let_def)
  then show ?thesis using none
    by (cases fl) (simp add: fl' has_active_segment_def seal_before_size_threshold_def Let_def)
qed

section \<open>A sample run\<close>

definition sample_unit :: work_unit where
  "sample_unit = \<lparr>wu_shard_id = 0, wu_payload = ascii ''a'', wu_durability = Durable, wu_wants_coordinate = True, wu_ack_tx = 7\<rparr>"

definition sample_flusher :: "(u32 wab_segment, world) flusher" where
  "sample_flusher = \<lparr>fl_writer = sw_new_with_store 0 (ascii ''d'') 100 CompNone 3 0, fl_world = quiet_world,
     fl_env = busy_env, fl_handoff = for_shard 0 None, fl_instants = (\<lambda>n. n), fl_tick = 0, fl_acks = [],
     fl_coalesce_hint = 200, fl_sealed_total = 0, fl_fsync_failures = 0\<rparr>"

definition sample_config :: flusher_config where
  "sample_config = \<lparr>fc_batch_size = 10, fc_segment_max_age = None, fc_segment_max_lifetime = None\<rparr>"

lemmas shard_run_defs =
  sw_write_record_def sw_ensure_open_def stored_form_def sw_new_with_store_def ws_create_def
  ws_write_record_def ws_should_rotate_def fs_defs quiet_world_def w_append_def w_entry_def Let_def
  u32_try_from_def MAX_PAYLOAD_HARD_CAP_def SEGMENT_HEADER_LEN_def ascii_def sw_scan_and_advance_counter_def fs_segment_counters_def

lemma sample_scan: "scan_with_retries (fs_store crc32_ops) 3 (\<lambda>_. False) (sw_new_with_store 0 (ascii ''d'') 100 CompNone 3 0) quiet_world
  = (True, sw_new_with_store 0 (ascii ''d'') 100 CompNone 3 0, io_tick quiet_world)"
  by (subst scan_with_retries.simps) (simp add: shard_run_defs io_tick_def)

lemma sample_write: "\<exists>sw w seg. sw_write_record (fs_store crc32_ops) zstd_verbatim 0 (ascii ''a'') (sw_new_with_store 0 (ascii ''d'') 100 CompNone 3 0) (io_tick quiet_world)
   = (Ok None, sw, w) \<and> w_io w = (\<lambda>_. IoDone) \<and> sw_active sw = Some seg \<and> sw_active_records sw = 1 \<and>
     sw_active_path sw = Some (segment_path (ascii ''d'') 1) \<and> ws_path seg = segment_path (ascii ''d'') 1 \<and>
     w_dir w = [(segment_path (ascii ''d'') 1, ws_file seg)]"
  by (simp add: shard_run_defs io_tick_def)

lemma sample_seal:
  assumes "w_io w = (\<lambda>_. IoDone)" "w_dir w = [(ws_path seg, ws_file seg)]" "sealed_path_for (ws_path seg) \<noteq> ws_path seg"
  shows "\<exists>w'. ws_seal crc32_ops seg w = (Ok (sealed_path_for (ws_path seg)), w')"
  using assms by (simp add: ws_seal_def ws_finalize_to_disk_def fs_defs Let_def w_append_def w_entry_def)

lemma sample_hand_off: "\<exists>sh' env'. hand_off p (for_shard 0 None) busy_env = Some (Delivered, sh', env') \<and> de_queued env' = [p]"
  by (simp add: hand_off_def hand_off_loop_slice handoff_defs busy_env_def for_shard_def)

lemma busy_env_live: "drain_live busy_env"
  unfolding drain_live_def
proof
  fix k show "\<exists>j \<ge> k. de_send busy_env j \<noteq> SendTimeout"
    by (rule exI [of _ "max k 2"]) (simp add: busy_env_def)
qed

abbreviation sample_arrivals :: "batch list list" where
  "sample_arrivals \<equiv> [[\<lparr>ba_shard_id = 0, ba_records = [sample_unit]\<rparr>]]"

lemma sample_run: "\<exists>fl'. flusher_thread (fs_store crc32_ops) zstd_verbatim sample_config (\<lambda>_. False)
      [[\<lparr>ba_shard_id = 0, ba_records = [sample_unit]\<rparr>]] sample_flusher = Some (InputClosed, fl') \<and>
    fl_acks fl' = [(7, ack_durable (Some \<lparr>slot_segment = segment_identity (sealed_path_for (segment_path (ascii ''d'') 1)), slot_index = 1\<rparr>))] \<and>
    de_queued (fl_env fl') = [sealed_path_for (segment_path (ascii ''d'') 1)]"
proof -
  obtain sw w seg where wr: "sw_write_record (fs_store crc32_ops) zstd_verbatim 0 (ascii ''a'')
      (sw_new_with_store 0 (ascii ''d'') 100 CompNone 3 0) (io_tick quiet_world) = (Ok None, sw, w)"
    and q: "w_io w = (\<lambda>_. IoDone)" and sw: "sw_active sw = Some seg" "sw_active_records sw = 1"
      "sw_active_path sw = Some (segment_path (ascii ''d'') 1)"
    and sg: "ws_path seg = segment_path (ascii ''d'') 1" "w_dir w = [(segment_path (ascii ''d'') 1, ws_file seg)]"
    using sample_write by blast
  obtain w2 where sy: "ws_fsync seg w = (Ok (), w2)" "w_io w2 = (\<lambda>_. IoDone)" using quiet_fsync [OF q] by blast
  have d2: "w_dir w2 = w_dir w" using sy(1) by (auto simp: ws_fsync_def dest!: fs_sync_data_effect)
  have "sealed_path_for (ws_path seg) \<noteq> ws_path seg" by (rule active_sealed_apart(2)) (simp add: sg(1))
  then obtain w3 where se: "ws_seal crc32_ops seg w2 = (Ok (sealed_path_for (segment_path (ascii ''d'') 1)), w3)"
    using sample_seal [OF sy(2), of seg] d2 sg by auto
  let ?fl = "sample_flusher\<lparr>fl_world := io_tick quiet_world\<rparr>"
  let ?b = "\<lparr>ba_shard_id = 0, ba_records = [sample_unit]\<rparr>"
  have fb: "\<exists>fl1. flush_batch (fs_store crc32_ops) zstd_verbatim [?b] ?fl = Some fl1 \<and> fl_env fl1 = busy_env \<and>
     fl_handoff fl1 = for_shard 0 None \<and> fl_writer fl1 = sw \<and> fl_world fl1 = w2 \<and> fl_acks fl1 =
     [(7, ack_durable (Some \<lparr>slot_segment = segment_identity (sealed_path_for (segment_path (ascii ''d'') 1)), slot_index = 1\<rparr>))]"
    using sw sy(1)
    by (simp add: flush_batch_def flush_unit_def instant_now_def sample_unit_def sample_flusher_def wr Let_def
        drain_address_def last_record_index_def fsync_observed_def sw_fsync_current_def resolve_all_eq)
  then obtain fl1 where f1: "flush_batch (fs_store crc32_ops) zstd_verbatim [?b] ?fl = Some fl1" "fl_env fl1 = busy_env"
     and f2: "fl_handoff fl1 = for_shard 0 None" "fl_writer fl1 = sw" "fl_world fl1 = w2" and f3: "fl_acks fl1 =
     [(7, ack_durable (Some \<lparr>slot_segment = segment_identity (sealed_path_for (segment_path (ascii ''d'') 1)), slot_index = 1\<rparr>))]" by blast
  have lp: "flusher_loop (fs_store crc32_ops) zstd_verbatim sample_config [[?b]] [] [] None ?fl = Some fl1"
    by (subst flusher_loop.simps) (simp add: on_batches_def f1 sample_config_def flusher_loop.simps)
  obtain sh' env' where ho: "hand_off (sealed_path_for (segment_path (ascii ''d'') 1)) (for_shard 0 None) busy_env = Some (Delivered, sh', env')"
    "de_queued env' = [sealed_path_for (segment_path (ascii ''d'') 1)]" using sample_hand_off by blast
  obtain fl' where sd: "shutdown_seal (fs_store crc32_ops) fl1 = Some fl'" "fl_env fl' = env'"
    using se ho(1) sw(1) by (simp add: shutdown_seal_def sw_seal_current_def fl_hand_off_def f1 f2)
  have "flusher_thread (fs_store crc32_ops) zstd_verbatim sample_config (\<lambda>_. False) [[?b]] sample_flusher = Some (InputClosed, fl')"
    using sample_scan lp sd(1) by (simp add: flusher_thread_def sample_flusher_def)
  then show ?thesis using shutdown_seal_ids [OF sd(1)] f3 ho(2) sd(2) by auto
qed

theorem flusher_acks_durable_witness:
  "\<exists>fl' p k. flusher_thread (fs_store crc32_ops) zstd_verbatim sample_config (\<lambda>_. False) sample_arrivals sample_flusher
       = Some (InputClosed, fl') \<and>
     k < length (stable_records crc32_hash (fl_world fl') p) \<and>
     stable_records crc32_hash (fl_world fl') p ! k = ascii ''a''"
proof -
  obtain fl' where run: "flusher_thread (fs_store crc32_ops) zstd_verbatim sample_config (\<lambda>_. False) sample_arrivals
      sample_flusher = Some (InputClosed, fl')"
    and ack: "fl_acks fl' = [(7, ack_durable (Some \<lparr>slot_segment =
        segment_identity (sealed_path_for (segment_path (ascii ''d'') 1)), slot_index = 1\<rparr>))]"
    using sample_run by blast
  have init: "world_wf (fl_world sample_flusher)" "\<forall>n \<ge> 2 ^ 64. unused (segment_path (ascii ''d'') n) (fl_world sample_flusher)"
    "fl_writer sample_flusher = sw_new_with_store 0 (ascii ''d'') 100 CompNone 3 0" "fl_acks sample_flusher = []"
    by (simp_all add: sample_flusher_def)
  have u: "distinct (map wu_ack_tx (batch_units (concat sample_arrivals)))"
    "sample_unit \<in> set (batch_units (concat sample_arrivals))" by simp_all
  let ?out = "ack_durable (Some \<lparr>slot_segment =
        segment_identity (sealed_path_for (segment_path (ascii ''d'') 1)), slot_index = 1\<rparr>)"
  have in_acks: "(wu_ack_tx sample_unit, ?out) \<in> set (fl_acks fl')" by (simp add: ack sample_unit_def)
  have "ao_durable ?out \<and> wu_durability sample_unit = Durable" by (simp add: ack_durable_def sample_unit_def)
  then obtain p k where pk: "k < length (stable_records (crc_hash crc32_ops) (fl_world fl') p)"
    "stored_form zstd_verbatim (fl_writer sample_flusher) (wu_payload sample_unit)
       = Some (stable_records (crc_hash crc32_ops) (fl_world fl') p ! k)"
    using flusher_acks_durable [OF init run u in_acks] by blast
  moreover have "stored_form zstd_verbatim (fl_writer sample_flusher) (wu_payload sample_unit) = Some (ascii ''a'')"
    by (simp add: init(3) stored_form_def sw_new_with_store_def sample_unit_def)
  moreover have "crc_hash crc32_ops = crc32_hash" by (simp add: crc32_ops_def)
  ultimately show ?thesis using run by (intro exI [of _ fl'] exI [of _ p] exI [of _ k]) simp
qed

theorem flusher_acks_once_witness:
  "\<exists>fl'. flusher_thread (fs_store crc32_ops) zstd_verbatim sample_config (\<lambda>_. False) sample_arrivals sample_flusher
       = Some (InputClosed, fl') \<and> mset (map fst (fl_acks fl')) = {#7#}"
proof -
  obtain fl' where run: "flusher_thread (fs_store crc32_ops) zstd_verbatim sample_config (\<lambda>_. False) sample_arrivals
      sample_flusher = Some (InputClosed, fl')" using sample_run by blast
  show ?thesis using flusher_acks_once [OF run] run by (simp add: sample_flusher_def sample_unit_def)
qed

theorem flush_batch_group_commit_witness:
  "\<exists>fl' rs'. flush_batch (fs_store crc32_ops) zstd_verbatim [\<lparr>ba_shard_id = 0, ba_records = [sample_unit]\<rparr>] sample_flusher
       = Some fl' \<and> shard_ok crc32_ops rs' (fl_writer fl') (fl_world fl')"
proof -
  have "drain_live (fl_env sample_flusher)" using busy_env_live by (simp add: sample_flusher_def)
  then obtain fl' where run: "flush_batch (fs_store crc32_ops) zstd_verbatim
      [\<lparr>ba_shard_id = 0, ba_records = [sample_unit]\<rparr>] sample_flusher = Some fl'" using flush_batch_live by blast
  have "shard_ok crc32_ops [] (fl_writer sample_flusher) (fl_world sample_flusher)" "fl_acks sample_flusher = []"
    by (simp_all add: sample_flusher_def new_writer_shard_ok)
  from flush_batch_group_commit [OF this run] run show ?thesis by auto
qed

theorem flusher_thread_returns_witness:
  "\<exists>fl'. flusher_thread (fs_store crc32_ops) zstd_verbatim sample_config (\<lambda>_. False) sample_arrivals sample_flusher
     = Some (InputClosed, fl') \<and> de_queued (fl_env fl') = [sealed_path_for (segment_path (ascii ''d'') 1)]"
proof -
  have "\<forall>k. \<exists>j \<ge> k. de_send (fl_env sample_flusher) j \<noteq> SendTimeout"
    using busy_env_live by (simp add: sample_flusher_def drain_live_def)
  then obtain exit fl' where run: "flusher_thread (fs_store crc32_ops) zstd_verbatim sample_config (\<lambda>_. False) sample_arrivals
      sample_flusher = Some (exit, fl')" using flusher_thread_returns by blast
  then show ?thesis using sample_run by auto
qed

definition dying_flusher :: "(u32 wab_segment, world) flusher" where
  "dying_flusher = sample_flusher\<lparr>fl_world := quiet_world\<lparr>w_io := (\<lambda>_. IoFail StorageFull)\<rparr>,
     fl_writer := (sw_new_with_store 0 (ascii ''d'') 100 CompNone 3 0)
       \<lparr>sw_active := Some \<lparr>ws_file = 0, ws_path = segment_path (ascii ''d'') 1, ws_bytes_written = 40,
          ws_record_count = 1, ws_data_bytes = 1, ws_file_crc_hasher = 0, ws_compression = CompNone,
          ws_poisoned = False\<rparr>\<rparr>\<rparr>"

theorem timed_seal_failure_retires_witness:
  "\<exists>fl'. has_active_segment (fl_writer dying_flusher) \<and>
     seal_before_size_threshold (fs_store crc32_ops) dying_flusher = Some (False, fl') \<and>
     \<not> has_active_segment (fl_writer fl')"
proof -
  have "\<exists>fl'. seal_before_size_threshold (fs_store crc32_ops) dying_flusher = Some (False, fl')"
    by (simp add: dying_flusher_def seal_before_size_threshold_def sw_seal_current_def ws_seal_def
        ws_finalize_to_disk_def fs_defs Let_def)
  then show ?thesis using timed_seal_failure_retires
    by (auto simp: dying_flusher_def has_active_segment_def)
qed

end
