(* ===== verification/FileOps.thy ===== *)
theory FileOps
  imports Segment
begin

text \<open>
  The further system calls that start-up recovery, the replay scan and the confirmation of
  delivered segments make: opening a file to read or to write, its length, truncation, copy,
  removal, and the fsync of a path.  As in theory \<open>Disk\<close> every call consumes one outcome of
  \<open>w_io\<close>; a short outcome of an open for reading is a disk that fails after that many bytes, with an arbitrary error number.
\<close>

text \<open>\<open>OpenOptions::read(true).open\<close>: the inode and a reader of its contents.\<close>

definition fs_open :: "path \<Rightarrow> world \<Rightarrow> (io_kind + nat \<times> reader) \<times> world" where
  "fs_open p w =
     (case io_step w of
        (IoFail k, w) \<Rightarrow> (Err k, w)
      | (oc, w) \<Rightarrow>
         (case w_entry w p of
            None \<Rightarrow> (Err NotFound, w)
          | Some i \<Rightarrow>
              (Ok (i, case oc of
                        IoShort n errno \<Rightarrow> \<lparr>rd_rest = take n (w_data w i), rd_fail = Some (OtherIo errno)\<rparr>
                      | _ \<Rightarrow> file_reader (w_data w i)), w)))"

text \<open>\<open>fs::read\<close>: the whole file or an error.\<close>

definition fs_read :: "path \<Rightarrow> world \<Rightarrow> (io_kind + bytes) \<times> world" where
  "fs_read p w =
     (case fs_open p w of
        (Inl k, w) \<Rightarrow> (Err k, w)
      | (Inr (_, r), w) \<Rightarrow> (case rd_fail r of Some k \<Rightarrow> (Err k, w) | None \<Rightarrow> (Ok (rd_rest r), w)))"

definition fs_open_write :: "path \<Rightarrow> world \<Rightarrow> (io_kind + nat) \<times> world" where
  "fs_open_write p w =
     (case io_step w of
        (IoFail k, w) \<Rightarrow> (Err k, w)
      | (_, w) \<Rightarrow> (case w_entry w p of None \<Rightarrow> (Err NotFound, w) | Some i \<Rightarrow> (Ok i, w)))"

definition fs_metadata_len :: "nat \<Rightarrow> world \<Rightarrow> (io_kind + nat) \<times> world" where
  "fs_metadata_len i w =
     (case io_step w of (IoFail k, w) \<Rightarrow> (Err k, w) | (_, w) \<Rightarrow> (Ok (length (w_data w i)), w))"

text \<open>\<open>File::set_len\<close>: until the next fsync only the bytes that both lengths share are sure.\<close>

definition w_set_len :: "nat \<Rightarrow> nat \<Rightarrow> world \<Rightarrow> world" where
  "w_set_len i n w =
     w\<lparr>w_data := (w_data w)(i := take n (w_data w i) @ replicate (n - length (w_data w i)) 0),
        w_disk := (w_disk w)(i := take n (w_disk w i))\<rparr>"

definition fs_set_len :: "nat \<Rightarrow> nat \<Rightarrow> world \<Rightarrow> (io_kind + unit) \<times> world" where
  "fs_set_len i n w =
     (case io_step w of (IoFail k, w) \<Rightarrow> (Err k, w) | (_, w) \<Rightarrow> (Ok (), w_set_len i n w))"

text \<open>
  \<open>seek\<close>: only its failure matters here.  The one writer that seeks does so to the end of the file,
  right after \<open>set_len\<close>, and the one reader drops what it skips.
\<close>

definition fs_seek :: "world \<Rightarrow> (io_kind + unit) \<times> world" where
  "fs_seek w = (case io_step w of (IoFail k, w) \<Rightarrow> (Err k, w) | (_, w) \<Rightarrow> (Ok (), w))"

text \<open>\<open>fs::copy\<close>: into a new file, or over the contents of an existing one.\<close>

definition w_put :: "path \<Rightarrow> bytes \<Rightarrow> world \<Rightarrow> world" where
  "w_put p bs w =
     (case w_entry w p of
        Some j \<Rightarrow> w\<lparr>w_data := (w_data w)(j := bs), w_disk := (w_disk w)(j := [])\<rparr>
      | None \<Rightarrow>
          w\<lparr>w_dir := AList.update p (w_next w) (w_dir w), w_data := (w_data w)(w_next w := bs),
             w_disk := (w_disk w)(w_next w := []), w_lost := (w_lost w)(w_next w := False),
             w_next := Suc (w_next w)\<rparr>)"

definition fs_copy :: "path \<Rightarrow> path \<Rightarrow> world \<Rightarrow> (io_kind + unit) \<times> world" where
  "fs_copy a b w =
     (case io_step w of
        (IoFail k, w) \<Rightarrow> (Err k, w)
      | (oc, w) \<Rightarrow>
         (case w_entry w a of
            None \<Rightarrow> (Err NotFound, w)
          | Some i \<Rightarrow>
             (case oc of
                IoShort n _ \<Rightarrow> (Err WriteZero, w_put b (take n (w_data w i)) w)
              | _ \<Rightarrow> (Ok (), w_put b (w_data w i) w))))"

text \<open>\<open>File::open(path)?.sync_all()\<close>, for a file.\<close>

definition fs_sync_file :: "path \<Rightarrow> world \<Rightarrow> (io_kind + unit) \<times> world" where
  "fs_sync_file p w =
     (case fs_open p w of (Inl k, w) \<Rightarrow> (Err k, w) | (Inr (i, _), w) \<Rightarrow> fs_sync_data i w)"

definition fs_remove_file :: "path \<Rightarrow> world \<Rightarrow> (io_kind + unit) \<times> world" where
  "fs_remove_file p w =
     (case io_step w of
        (IoFail k, w) \<Rightarrow> (Err k, w)
      | (_, w) \<Rightarrow>
         (if w_entry w p = None then (Err NotFound, w) else (Ok (), w\<lparr>w_dir := AList.delete p (w_dir w)\<rparr>)))"

text \<open>
  \<open>create_dir_private\<close>: \<open>create_dir_all\<close> and \<open>set_permissions\<close>.  Directories themselves are
  not part of the world, so only the failures matter.
\<close>

definition create_dir_private :: "world \<Rightarrow> (io_kind + unit) \<times> world" where
  "create_dir_private w =
     (case io_step w of
        (IoFail k, w) \<Rightarrow> (Err k, w)
      | (_, w) \<Rightarrow> (case io_step w of (IoFail k, w) \<Rightarrow> (Err k, w) | (_, w) \<Rightarrow> (Ok (), w)))"

section \<open>Effects\<close>

lemma fs_open_effect:
  "fs_open p w = (x, w') \<Longrightarrow> w' = io_tick w \<and>
   (\<forall>i r. x = Ok (i, r) \<longrightarrow> w_entry w p = Some i \<and> prefix (rd_rest r) (w_data w i) \<and>
      (rd_fail r = None \<longrightarrow> rd_rest r = w_data w i) \<and> rd_fail r \<noteq> Some UnexpectedEof)"
  by (auto simp: fs_open_def io_step_tick take_is_prefix split: io_outcome.splits option.splits)

lemma fs_read_effect:
  "fs_read p w = (x, w') \<Longrightarrow> w' = io_tick w \<and> (\<forall>bs. x = Ok bs \<longrightarrow> (\<exists>i. w_entry w p = Some i \<and> bs = w_data w i))"
  by (auto simp: fs_read_def split: prod.splits sum.splits option.splits dest!: fs_open_effect)

lemma fs_open_write_effect:
  "fs_open_write p w = (x, w') \<Longrightarrow> w' = io_tick w \<and> (\<forall>i. x = Ok i \<longrightarrow> w_entry w p = Some i)"
  by (auto simp: fs_open_write_def io_step_tick split: io_outcome.splits option.splits)

lemma fs_metadata_len_effect:
  "fs_metadata_len i w = (x, w') \<Longrightarrow> w' = io_tick w \<and> (\<forall>n. x = Ok n \<longrightarrow> n = length (w_data w i))"
  by (auto simp: fs_metadata_len_def io_step_tick split: io_outcome.splits)

lemma fs_set_len_effect:
  "fs_set_len i n w = (x, w') \<Longrightarrow> w' = io_tick w \<and> x \<noteq> Ok () \<or> w' = w_set_len i n (io_tick w) \<and> x = Ok ()"
  by (auto simp: fs_set_len_def io_step_tick split: io_outcome.splits)

lemma fs_seek_effect: "fs_seek w = (x, w') \<Longrightarrow> w' = io_tick w"
  by (auto simp: fs_seek_def io_step_tick split: io_outcome.splits)

lemma fs_copy_effect:
  assumes "fs_copy a b w = (x, w')"
  shows "x \<noteq> Ok () \<and> w' = io_tick w \<or>
    (\<exists>i n. w_entry w a = Some i \<and> w' = w_put b (take n (w_data w i)) (io_tick w) \<and>
       (x = Ok () \<longrightarrow> take n (w_data w i) = w_data w i))"
proof (cases "w_entry w a")
  case (Some i)
  show ?thesis
  proof (cases "w_io w (w_tick w)")
    case IoDone
    then show ?thesis using assms Some
      by (intro disjI2 exI [of _ i] exI [of _ "length (w_data w i)"]) (auto simp: fs_copy_def io_step_tick)
  next
    case (IoShort n errno)
    then show ?thesis using assms Some
      by (intro disjI2 exI [of _ i] exI [of _ n]) (auto simp: fs_copy_def io_step_tick)
  next
    case (IoFail k)
    then show ?thesis using assms by (auto simp: fs_copy_def io_step_tick)
  qed
next
  case None
  then show ?thesis using assms by (auto simp: fs_copy_def io_step_tick split: io_outcome.splits)
qed

lemma fs_remove_file_effect:
  "fs_remove_file p w = (x, w') \<Longrightarrow>
   w' = io_tick w \<and> x \<noteq> Ok () \<or> w' = (io_tick w)\<lparr>w_dir := AList.delete p (w_dir w)\<rparr> \<and> x = Ok ()"
  by (auto simp: fs_remove_file_def io_step_tick split: io_outcome.splits if_splits)

lemma fs_rename_effect:
  "fs_rename a b w = (x, w') \<Longrightarrow>
   w' = io_tick w \<and> x \<noteq> Ok () \<or>
   (\<exists>i. w_entry w a = Some i \<and> x = Ok () \<and> w' = (io_tick w)\<lparr>w_dir := AList.update b i (AList.delete a (w_dir w))\<rparr>)"
  by (auto simp: fs_rename_def io_step_tick split: io_outcome.splits option.splits)

lemma fs_try_exists_effect:
  "fs_try_exists p w = (x, w') \<Longrightarrow> w' = io_tick w \<and> (\<forall>b. x = Ok b \<longrightarrow> b = (w_entry w p \<noteq> None))"
  by (auto simp: fs_try_exists_def io_step_tick split: io_outcome.splits)

lemma create_dir_private_effect:
  "create_dir_private w = (x, w') \<Longrightarrow> \<exists>n. w' = w\<lparr>w_tick := n\<rparr>"
  by (auto simp: create_dir_private_def io_step_def split: io_outcome.splits)

lemma w_entry_rename [simp]:
  "w_entry (w\<lparr>w_dir := AList.update b i (AList.delete a (w_dir v))\<rparr>) q =
     (if q = b then Some i else if q = a then None else w_entry v q)"
  by (simp add: w_entry_def update_conv' delete_conv')

lemma w_entry_delete [simp]:
  "w_entry (w\<lparr>w_dir := AList.delete a (w_dir v)\<rparr>) q = (if q = a then None else w_entry v q)"
  by (simp add: w_entry_def delete_conv')

end
