(* ===== verification/Recovery.thy ===== *)
theory Recovery
  imports FileOps
begin

text \<open>
  Start-up recovery of unsealed segments, \<open>weir-server/src/wab/recovery.rs\<close>: replay the records
  of the file, preserve a corrupt tail in quarantine, truncate at the last valid record and seal.
  The record loop is \<open>replay_records\<close>, whose end (\<open>replay_end\<close>) is the break it left by;
  \<open>quarantine_reason\<close> is the judgement made on it; \<open>recover_rebuild\<close> is the rewriting of the
  file.  Metrics are the record \<open>recovery_metrics\<close>; log lines are left out, and names are bytes, so
  \<open>to_string_lossy\<close> is the identity.  Mode auditing (\<open>audit_segment_modes\<close>) only logs and counts
  permissions and is not modelled.  The checked additions of the replay cannot overflow on a file
  of fewer than \<open>2 ^ 64\<close> bytes, so its counters are naturals.

  Main results: a recovered segment is a sealed segment that verifies and holds exactly the valid
  records at the front of the file; whatever fails, no record that was valid at the front of the
  file or on stable storage is lost; the bytes that truncation removes are on stable storage in
  quarantine first, unless the tail is one of four shapes; and a corrupted length field that
  points past the end of the file is one of them.
\<close>

record recovery_metrics =
  rm_quarantined :: nat
  rm_failed :: nat
  rm_copy_failed :: nat
  rm_sealed :: nat
  rm_replayed :: u64

definition no_metrics :: recovery_metrics where
  "no_metrics = \<lparr>rm_quarantined = 0, rm_failed = 0, rm_copy_failed = 0, rm_sealed = 0, rm_replayed = 0\<rparr>"

lemma no_metrics_simps [simp]: "rm_quarantined no_metrics = 0" "rm_sealed no_metrics = 0"
  by (simp_all add: no_metrics_def)

section \<open>Quarantine\<close>

fun probe_names :: "bytes \<Rightarrow> bytes list \<Rightarrow> world \<Rightarrow> (io_kind + path) \<times> world" where
  "probe_names dir [] w = (Err AlreadyExists, w)"
| "probe_names dir (nm # nms) w =
     (case fs_try_exists (dir, nm) w of
        (Inl k, w) \<Rightarrow> (Err k, w)
      | (Inr False, w) \<Rightarrow> (Ok (dir, nm), w)
      | (Inr True, w) \<Rightarrow> probe_names dir nms w)"

definition non_clobbering_dest :: "bytes \<Rightarrow> bytes \<Rightarrow> world \<Rightarrow> (io_kind + path) \<times> world" where
  "non_clobbering_dest dir base w =
     probe_names dir (base # map (\<lambda>n. base @ ascii ''.'' @ dec n) [1..<10001]) w"

definition quarantine_dir :: "bytes \<Rightarrow> bytes" where
  "quarantine_dir wab_dir = wab_dir @ ascii ''/quarantine''"

definition quarantine_base :: "path \<Rightarrow> bytes" where
  "quarantine_base p =
     (case dir_file_name (fst p) of Some n \<Rightarrow> n | None \<Rightarrow> ascii ''unknown_shard'') @ ascii ''__'' @ snd p"

definition quarantine :: "path \<Rightarrow> bytes \<Rightarrow> world \<Rightarrow> (io_kind + unit) \<times> world" where
  "quarantine p wab_dir w =
     (case create_dir_private w of
        (Inl k, w) \<Rightarrow> (Err k, w)
      | (Inr _, w) \<Rightarrow>
      case non_clobbering_dest (quarantine_dir wab_dir) (quarantine_base p) w of
        (Inl k, w) \<Rightarrow> (Err k, w)
      | (Inr dest, w) \<Rightarrow> fs_rename p dest w)"

definition copy_to_quarantine :: "path \<Rightarrow> bytes \<Rightarrow> world \<Rightarrow> (io_kind + path) \<times> world" where
  "copy_to_quarantine p wab_dir w =
     (case create_dir_private w of
        (Inl k, w) \<Rightarrow> (Err k, w)
      | (Inr _, w) \<Rightarrow>
      case non_clobbering_dest (quarantine_dir wab_dir) (quarantine_base p) w of
        (Inl k, w) \<Rightarrow> (Err k, w)
      | (Inr dest, w) \<Rightarrow>
      case fs_copy p dest w of
        (Inl k, w) \<Rightarrow> (Err k, w)
      | (Inr _, w) \<Rightarrow>
      case fs_sync_file dest w of
        (Inl k, w) \<Rightarrow> (Err k, w)
      | (Inr _, w) \<Rightarrow>
      case fs_sync_dir (fst dest) w of
        (Inl k, w) \<Rightarrow> (Err k, w)
      | (Inr _, w) \<Rightarrow> (Ok dest, w))"

text \<open>The error is control flow: the segment was moved and counted, unless moving it failed.\<close>

definition quarantine_and_count ::
  "path \<Rightarrow> bytes \<Rightarrow> world \<Rightarrow> recovery_metrics \<Rightarrow> io_kind \<times> world \<times> recovery_metrics"
where
  "quarantine_and_count p wab_dir w m =
     (case quarantine p wab_dir w of
        (Inl qe, w) \<Rightarrow> (qe, w, m)
      | (Inr _, w) \<Rightarrow> (InvalidData, w, m\<lparr>rm_quarantined := rm_quarantined m + 1\<rparr>))"

section \<open>Replaying the records\<close>

datatype replay_end =
    EndTorn                    \<comment> \<open>end of file inside a length, checksum or payload\<close>
  | EndZero reader             \<comment> \<open>a zero length, and what follows it\<close>
  | EndOversized nat           \<comment> \<open>a length above the cap\<close>
  | EndCrc u32 u32             \<comment> \<open>a checksum mismatch on a complete record\<close>
  | EndIo io_kind

record 'h replay =
  rp_crc :: 'h
  rp_count :: nat
  rp_data_bytes :: nat
  rp_valid_end :: nat

function replay_records ::
  "'h crc_ops \<Rightarrow> nat \<Rightarrow> reader \<Rightarrow> 'h replay \<Rightarrow> replay_end \<times> 'h replay"
where
  "replay_records C max_stored r s =
     (case read_exact 4 r of
        Inl k \<Rightarrow> (if k = UnexpectedEof then EndTorn else EndIo k, s)
      | Inr (len_buf, r) \<Rightarrow>
      let payload_len = unat (u32_from_le len_buf) in
      if payload_len = 0 then (EndZero r, s)
      else if payload_len > max_stored then (EndOversized payload_len, s)
      else case read_exact 4 r of
        Inl k \<Rightarrow> (if k = UnexpectedEof then EndTorn else EndIo k, s)
      | Inr (crc_buf, r) \<Rightarrow>
      let expected_crc = u32_from_le crc_buf in
      case read_exact payload_len r of
        Inl k \<Rightarrow> (if k = UnexpectedEof then EndTorn else EndIo k, s)
      | Inr (payload, r) \<Rightarrow>
      let computed_crc = crc_hash C payload in
      if expected_crc \<noteq> computed_crc then (EndCrc expected_crc computed_crc, s)
      else replay_records C max_stored r
             \<lparr>rp_crc = crc_update C (crc_update C (crc_update C (rp_crc s) len_buf) crc_buf) payload,
              rp_count = rp_count s + 1, rp_data_bytes = rp_data_bytes s + payload_len,
              rp_valid_end = rp_valid_end s + 8 + payload_len\<rparr>)"
  by pat_completeness auto
termination
  by (relation "measure (\<lambda>(_, _, r, _). length (rd_rest r))") (auto simp: read_exact_Ok)

declare replay_records.simps [simp del]

datatype quarantine_cause =
    CauseCrc u32 u32
  | CauseZeroTail nat           \<comment> \<open>trailing bytes that are no footer\<close>
  | CauseFooterContradicts segment_footer_meta
  | CauseFooterUnreadable
  | CauseOversized nat
  | CauseStat io_kind

text \<open>The judgement on how the replay ended; \<open>i\<close> is the open file.\<close>

definition quarantine_reason ::
  "'h crc_ops \<Rightarrow> nat \<Rightarrow> replay_end \<Rightarrow> 'h replay \<Rightarrow> world \<Rightarrow> quarantine_cause option \<times> world"
where
  "quarantine_reason C i e s w =
     (case e of
        EndZero r \<Rightarrow>
          (let sentinel_end = rp_valid_end s + 4 in
           case fs_metadata_len i w of
             (Inl k, w) \<Rightarrow> (Some (CauseStat k), w)
           | (Inr len, w) \<Rightarrow>
              (let trailing = len - sentinel_end in
               if trailing = 0 then (None, w)
               else if trailing = SEGMENT_FOOTER_LEN
               then (case read_exact SEGMENT_FOOTER_LEN r of
                       Inl _ \<Rightarrow> (Some CauseFooterUnreadable, w)
                     | Inr (footer_buf, _) \<Rightarrow>
                        (case parse_segment_footer footer_buf of
                           Inl _ \<Rightarrow> (Some CauseFooterUnreadable, w)
                         | Inr footer \<Rightarrow>
                            if fm_record_count footer = of_nat (rp_count s) \<and>
                               fm_data_bytes footer = of_nat (rp_data_bytes s) \<and>
                               fm_file_crc32 footer = crc_finalize C (rp_crc s)
                            then (None, w) else (Some (CauseFooterContradicts footer), w)))
               else (Some (CauseZeroTail trailing), w)))
      | EndOversized payload_len \<Rightarrow>
          (case fs_metadata_len i w of
             (Inl k, w) \<Rightarrow> (Some (CauseStat k), w)
           | (Inr file_len, w) \<Rightarrow>
               if file_len > rp_valid_end s + 4 then (Some (CauseOversized payload_len), w) else (None, w))
      | EndCrc expected computed \<Rightarrow> (Some (CauseCrc expected computed), w)
      | _ \<Rightarrow> (None, w))"

section \<open>Rebuilding and sealing\<close>

definition recover_rebuild ::
  "'h crc_ops \<Rightarrow> path \<Rightarrow> 'h replay \<Rightarrow> world \<Rightarrow> (io_kind + path) \<times> world"
where
  "recover_rebuild C p s w =
     (let file_crc32 = crc_finalize C (rp_crc s); sealed_at = unix_nanos_now w in
      case fs_open_write p w of
        (Inl k, w) \<Rightarrow> (Err k, w)
      | (Inr file, w) \<Rightarrow>
      case fs_set_len file (rp_valid_end s) w of
        (Inl k, w) \<Rightarrow> (Err k, w)
      | (Inr _, w) \<Rightarrow>
      case fs_seek w of
        (Inl k, w) \<Rightarrow> (Err k, w)
      | (Inr _, w) \<Rightarrow>
      case fs_write_all file build_sentinel w of
        (Inl k, w) \<Rightarrow> (Err k, w)
      | (Inr _, w) \<Rightarrow>
      case fs_write_all file
             (build_segment_footer (of_nat (rp_count s)) (of_nat (rp_data_bytes s)) file_crc32 sealed_at) w of
        (Inl k, w) \<Rightarrow> (Err k, w)
      | (Inr _, w) \<Rightarrow>
      case fs_sync_data file w of
        (Inl k, w) \<Rightarrow> (Err k, w)
      | (Inr _, w) \<Rightarrow>
      let sealed = sealed_path_for p in
      case fs_rename p sealed w of
        (Inl k, w) \<Rightarrow> (Err k, w)
      | (Inr _, w) \<Rightarrow>
      case fs_sync_dir (fst sealed) w of
        (Inl k, w) \<Rightarrow> (Err k, w)
      | (Inr _, w) \<Rightarrow> (Ok sealed, w))"

text \<open>What follows the replay: preserve, then rebuild.\<close>

definition recover_tail ::
  "'h crc_ops \<Rightarrow> path \<Rightarrow> bytes \<Rightarrow> 'h replay \<Rightarrow> quarantine_cause option \<Rightarrow> world \<Rightarrow> recovery_metrics \<Rightarrow>
   (io_kind + path) \<times> world \<times> recovery_metrics"
where
  "recover_tail C p wab_dir s reason w m =
     (case (case reason of
              None \<Rightarrow> (Ok (), w, m)
            | Some _ \<Rightarrow>
               (case copy_to_quarantine p wab_dir w of
                  (Inl _, w) \<Rightarrow> (Err (OtherIo 3), w, m\<lparr>rm_copy_failed := rm_copy_failed m + 1\<rparr>)
                | (Inr _, w) \<Rightarrow> (Ok (), w, m\<lparr>rm_quarantined := rm_quarantined m + 1\<rparr>))) of
        (Inl k, w, m) \<Rightarrow> (Err k, w, m)
      | (Inr _, w, m) \<Rightarrow>
         (case recover_rebuild C p s w of
            (Inl k, w) \<Rightarrow> (Err k, w, m)
          | (Inr sealed, w) \<Rightarrow> (Ok sealed, w, m\<lparr>rm_sealed := rm_sealed m + 1\<rparr>)))"

definition recover_segment ::
  "'h crc_ops \<Rightarrow> path \<Rightarrow> bytes \<Rightarrow> world \<Rightarrow> recovery_metrics \<Rightarrow>
   (io_kind + path) \<times> world \<times> recovery_metrics"
where
  "recover_segment C p wab_dir w m =
     (case fs_open p w of
        (Inl k, w) \<Rightarrow> (Err k, w, m)
      | (Inr (i, r), w) \<Rightarrow>
      case read_exact SEGMENT_HEADER_LEN r of
        Inl k \<Rightarrow>
          if k = UnexpectedEof
          then (case quarantine_and_count p wab_dir w m of (e, w, m) \<Rightarrow> (Err e, w, m))
          else (Err k, w, m)
      | Inr (header_buf, r) \<Rightarrow>
      if subslice 0 4 header_buf \<noteq> SEGMENT_MAGIC
      then (case quarantine_and_count p wab_dir w m of (e, w, m) \<Rightarrow> (Err e, w, m))
      else if header_buf ! 4 = 0 \<or> header_buf ! 4 > FORMAT_VERSION_MAX_SUPPORTED
      then (case quarantine_and_count p wab_dir w m of (e, w, m) \<Rightarrow> (Err e, w, m))
      else case parse_segment_header header_buf of
        Inl _ \<Rightarrow> (case quarantine_and_count p wab_dir w m of (e, w, m) \<Rightarrow> (Err e, w, m))
      | Inr header_meta \<Rightarrow>
      let max_stored = stored_cap (hm_compression header_meta);
          (e, s) = replay_records C max_stored r
                     \<lparr>rp_crc = crc_update C (crc_new C) header_buf, rp_count = 0, rp_data_bytes = 0,
                      rp_valid_end = SEGMENT_HEADER_LEN\<rparr> in
      case e of
        EndIo k \<Rightarrow> (Err k, w, m)
      | _ \<Rightarrow>
      case quarantine_reason C i e s w of
        (reason, w) \<Rightarrow> recover_tail C p wab_dir s reason w m)"

section \<open>Directories\<close>

text \<open>Keys of \<open>sort_by_key\<close>: \<open>None\<close> sorts before every \<open>Some\<close>.\<close>

definition option_key :: "nat option \<Rightarrow> nat" where
  "option_key x = (case x of None \<Rightarrow> 0 | Some n \<Rightarrow> Suc n)"

text \<open>The file name ends in the active extension and \<open>Path::extension\<close> is \<open>wab\<close>.\<close>

definition is_active_file :: "path \<Rightarrow> bool" where
  "is_active_file p \<longleftrightarrow> ends_with (snd p) EXT_ACTIVE \<and> snd p \<noteq> EXT_ACTIVE"

fun recover_paths ::
  "'h crc_ops \<Rightarrow> bytes \<Rightarrow> path list \<Rightarrow> world \<Rightarrow> recovery_metrics \<Rightarrow> world \<times> recovery_metrics"
where
  "recover_paths C wab_dir [] w m = (w, m)"
| "recover_paths C wab_dir (p # ps) w m =
     (case recover_segment C p wab_dir w m of
        (Inr _, w, m) \<Rightarrow> recover_paths C wab_dir ps w m
      | (Inl _, w, m) \<Rightarrow>
          (case io_step w of (oc, w') \<Rightarrow>
           let present = (case oc of IoFail _ \<Rightarrow> False | _ \<Rightarrow> w_entry w p \<noteq> None) in
           recover_paths C wab_dir ps w' (if present then m\<lparr>rm_failed := rm_failed m + 1\<rparr> else m)))"

definition recover_shard_dir ::
  "'h crc_ops \<Rightarrow> bytes \<Rightarrow> bytes \<Rightarrow> world \<Rightarrow> recovery_metrics \<Rightarrow> (io_kind + unit) \<times> world \<times> recovery_metrics"
where
  "recover_shard_dir C shard_dir wab_dir w m =
     (case fs_read_dir shard_dir w of
        (Inl k, w) \<Rightarrow> (Err k, w, m)
      | (Inr entries, w) \<Rightarrow>
         (let active = sort_key (\<lambda>p. option_key (segment_counter_from_path p)) (filter is_active_file entries);
              (w, m) = recover_paths C wab_dir active w m in
          (Ok (), w, m)))"

text \<open>
  The walk over \<open>wab_dir\<close>: \<open>listing\<close> is what \<open>read_dir\<close> found there, with \<open>is_dir\<close> of each
  name.
\<close>

fun recover_shard_dirs ::
  "'h crc_ops \<Rightarrow> bytes \<Rightarrow> (bytes \<times> bool) list \<Rightarrow> world \<Rightarrow> recovery_metrics \<Rightarrow>
   (io_kind + unit) \<times> world \<times> recovery_metrics"
where
  "recover_shard_dirs C wab_dir [] w m = (Ok (), w, m)"
| "recover_shard_dirs C wab_dir ((name, is_dir) # rest) w m =
     (if \<not> is_dir \<or> name = ascii ''quarantine'' \<or> name = ascii ''dead_letter''
      then recover_shard_dirs C wab_dir rest w m
      else case recover_shard_dir C (wab_dir @ ascii ''/'' @ name) wab_dir w m of
             (Inl k, w, m) \<Rightarrow> (Err k, w, m)
           | (Inr _, w, m) \<Rightarrow> recover_shard_dirs C wab_dir rest w m)"

definition recover_open_segments ::
  "'h crc_ops \<Rightarrow> bytes \<Rightarrow> io_kind + (bytes \<times> bool) list \<Rightarrow> world \<Rightarrow> recovery_metrics \<Rightarrow>
   (io_kind + unit) \<times> world \<times> recovery_metrics"
where
  "recover_open_segments C wab_dir listing w m =
     (case listing of
        Inl k \<Rightarrow> (Err k, w, m)
      | Inr entries \<Rightarrow>
          recover_shard_dirs C wab_dir (sort_key (\<lambda>(name, _). option_key (shard_id_from_path (wab_dir, name))) entries) w m)"

section \<open>What the replay finds\<close>

text \<open>The length field at the front of a record stream.\<close>

definition len_field :: "bytes \<Rightarrow> nat" where
  "len_field bs = unat (u32_from_le (take 4 bs))"

text \<open>\<open>e\<close> is the way a replay of \<open>ts\<close> ends at its first byte, given the fault \<open>f\<close> of the reader.\<close>

fun ends_as :: "(bytes \<Rightarrow> u32) \<Rightarrow> nat \<Rightarrow> io_kind option \<Rightarrow> bytes \<Rightarrow> replay_end \<Rightarrow> bool" where
  "ends_as crc cap f ts EndTorn \<longleftrightarrow>
     rd_end \<lparr>rd_rest = ts, rd_fail = f\<rparr> = UnexpectedEof \<and>
     (length ts < 4 \<or> 0 < len_field ts \<and> len_field ts \<le> cap \<and> length ts < 8 + len_field ts)"
| "ends_as crc cap f ts (EndZero r) \<longleftrightarrow> ts = SENTINEL @ rd_rest r \<and> rd_fail r = f"
| "ends_as crc cap f ts (EndOversized n) \<longleftrightarrow> 4 \<le> length ts \<and> len_field ts = n \<and> cap < n"
| "ends_as crc cap f ts (EndCrc a b) \<longleftrightarrow>
     0 < len_field ts \<and> len_field ts \<le> cap \<and> 8 + len_field ts \<le> length ts \<and>
     a = u32_from_le (take 4 (drop 4 ts)) \<and> b = crc (take (len_field ts) (drop 8 ts)) \<and> a \<noteq> b"
| "ends_as crc cap f ts (EndIo k) \<longleftrightarrow> f = Some k \<and> k \<noteq> UnexpectedEof"

lemma ends_as_no_frame:
  assumes "ends_as crc (stored_cap cmp) f ts e" "\<forall>k. e \<noteq> EndIo k" "f \<noteq> Some UnexpectedEof" "f = None \<Longrightarrow> unread = []"
  shows "scan_frames crc cmp (ts @ unread) = []"
proof (cases e)
  case EndTorn
  then have "unread = []" using assms by (auto simp: rd_end_def split: option.splits)
  then show ?thesis using assms EndTorn by (subst scan_frames.simps) (auto simp: Let_def len_field_def)
next
  case (EndZero r)
  then show ?thesis using assms scan_frames_sentinel [of crc cmp "rd_rest r @ unread"] by simp
next
  case (EndOversized n)
  then show ?thesis using assms by (subst scan_frames.simps) (auto simp: Let_def len_field_def stored_ok_def)
next
  case (EndCrc a b)
  then have "take 4 (ts @ unread) = take 4 ts" "take 4 (drop 4 (ts @ unread)) = take 4 (drop 4 ts)"
    "take (len_field ts) (drop 8 (ts @ unread)) = take (len_field ts) (drop 8 ts)"
    "u32_from_le (take 4 (drop 4 ts)) \<noteq> crc (take (len_field ts) (drop 8 ts))" using assms by auto
  then show ?thesis by (subst scan_frames.simps) (simp add: Let_def len_field_def del: take_append drop_append)
qed (use assms in auto)

lemma replay_step:
  obtains
    (stop) e where "replay_records C cap r s = (e, s)" "ends_as (crc_hash C) cap (rd_fail r) (rd_rest r) e"
  | (framed) st r' lb cb where "rd_rest r = frame (crc_hash C) st @ rd_rest r'" "rd_fail r' = rd_fail r"
      "st \<noteq> []" "length st \<le> cap" "frame (crc_hash C) st = lb @ cb @ st"
      "replay_records C cap r s = replay_records C cap r'
         \<lparr>rp_crc = crc_update C (crc_update C (crc_update C (rp_crc s) lb) cb) st, rp_count = rp_count s + 1,
          rp_data_bytes = rp_data_bytes s + length st, rp_valid_end = rp_valid_end s + 8 + length st\<rparr>"
proof (cases "read_exact 4 r")
  case (Inl k)
  note e = read_exact_ErrD [OF Inl]
  show thesis
    using Inl e by (intro stop [of "if k = UnexpectedEof then EndTorn else EndIo k"])
      (auto simp: replay_records.simps [of C cap r s] rd_end_def split: option.splits)
next
  case (Inr x1)
  then obtain lb r1 where r1: "read_exact 4 r = Ok (lb, r1)" by (cases x1) auto
  then have l1: "length lb = 4" "rd_rest r = lb @ rd_rest r1" "rd_fail r1 = rd_fail r" by (auto simp: read_exact_Ok)
  have lf: "len_field (rd_rest r) = unat (u32_from_le lb)" using l1 by (simp add: len_field_def)
  let ?n = "unat (u32_from_le lb)"
  consider "?n = 0" | "cap < ?n" | "0 < ?n" "?n \<le> cap" by linarith
  then show thesis
  proof cases
    case 1
    then show thesis using r1 l1 u32_from_le_zero [OF l1(1)]
      by (intro stop [of "EndZero r1"]) (auto simp: replay_records.simps [of C cap r s] Let_def)
  next
    case 2
    then show thesis using r1 l1 lf
      by (intro stop [of "EndOversized ?n"]) (auto simp: replay_records.simps [of C cap r s] Let_def)
  next
    case 3
    show thesis
    proof (cases "read_exact 4 r1")
      case (Inl k)
      note e = read_exact_ErrD [OF Inl]
      show thesis
        using Inl e r1 l1 lf 3 by (intro stop [of "if k = UnexpectedEof then EndTorn else EndIo k"])
          (auto simp: replay_records.simps [of C cap r s] Let_def rd_end_def split: option.splits)
    next
      case (Inr x2)
      then obtain cb r2 where r2: "read_exact 4 r1 = Ok (cb, r2)" by (cases x2) auto
      then have l2: "length cb = 4" "rd_rest r1 = cb @ rd_rest r2" "rd_fail r2 = rd_fail r1" by (auto simp: read_exact_Ok)
      show thesis
      proof (cases "read_exact ?n r2")
        case (Inl k)
        note e = read_exact_ErrD [OF Inl]
        show thesis
          using Inl e r1 l1 r2 l2 lf 3 by (intro stop [of "if k = UnexpectedEof then EndTorn else EndIo k"])
            (auto simp: replay_records.simps [of C cap r s] Let_def rd_end_def split: option.splits)
      next
        case (Inr x3)
        then obtain st r3 where r3: "read_exact ?n r2 = Ok (st, r3)" by (cases x3) auto
        then have l3: "length st = ?n" "rd_rest r2 = st @ rd_rest r3" "rd_fail r3 = rd_fail r2" by (auto simp: read_exact_Ok)
        show thesis
        proof (cases "u32_from_le cb = crc_hash C st")
          case False
          then show thesis using r1 l1 r2 l2 r3 l3 lf 3
            by (intro stop [of "EndCrc (u32_from_le cb) (crc_hash C st)"])
              (auto simp: replay_records.simps [of C cap r s] Let_def)
        next
          case True
          have "u32_le (as_u32 (length st)) = lb" using l1(1) l3(1) by simp
          moreover have "u32_le (crc_hash C st) = cb" using True l2(1) u32_le_from_le [of cb] by simp
          ultimately have f: "frame (crc_hash C) st = lb @ cb @ st" by (simp add: frame_def)
          show thesis using r1 l1 r2 l2 r3 l3 3 True f
            by (intro framed [of st r3 lb cb]) (auto simp: replay_records.simps [of C cap r s] Let_def)
        qed
      qed
    qed
  qed
qed

text \<open>
  The replay takes exactly the frames at the front of the stream, and its accounting describes
  them.
\<close>

lemma replay_finds:
  assumes "replay_records C (stored_cap cmp) r s = (e, s')" "hashes C (rp_crc s) pre"
  obtains sts ts where "rd_rest r = concat (map (frame (crc_hash C)) sts) @ ts"
    "\<forall>st \<in> set sts. stored_ok cmp st" "ends_as (crc_hash C) (stored_cap cmp) (rd_fail r) ts e"
    "rp_count s' = rp_count s + length sts" "rp_data_bytes s' = rp_data_bytes s + sum_list (map length sts)"
    "rp_valid_end s' = rp_valid_end s + length (concat (map (frame (crc_hash C)) sts))"
    "hashes C (rp_crc s') (pre @ concat (map (frame (crc_hash C)) sts))"
  using assms
proof (induction "length (rd_rest r)" arbitrary: r s pre thesis rule: less_induct)
  case less
  show ?case
  proof (rule replay_step [of C "stored_cap cmp" r s])
    fix e' assume "replay_records C (stored_cap cmp) r s = (e', s)"
      "ends_as (crc_hash C) (stored_cap cmp) (rd_fail r) (rd_rest r) e'"
    then show ?thesis using less.prems by (intro less.prems(1) [of "[]" "rd_rest r"]) auto
  next
    fix st r' lb cb
    assume st: "rd_rest r = frame (crc_hash C) st @ rd_rest r'" "rd_fail r' = rd_fail r" "st \<noteq> []"
      "length st \<le> stored_cap cmp" and f: "frame (crc_hash C) st = lb @ cb @ st"
      and step: "replay_records C (stored_cap cmp) r s = replay_records C (stored_cap cmp) r'
         \<lparr>rp_crc = crc_update C (crc_update C (crc_update C (rp_crc s) lb) cb) st, rp_count = rp_count s + 1,
          rp_data_bytes = rp_data_bytes s + length st, rp_valid_end = rp_valid_end s + 8 + length st\<rparr>"
    let ?s = "\<lparr>rp_crc = crc_update C (crc_update C (crc_update C (rp_crc s) lb) cb) st, rp_count = rp_count s + 1,
          rp_data_bytes = rp_data_bytes s + length st, rp_valid_end = rp_valid_end s + 8 + length st\<rparr>"
    have h: "hashes C (rp_crc ?s) (pre @ frame (crc_hash C) st)"
      using hashes_update3 [OF less.prems(3), of lb cb st] f by simp
    have "length (rd_rest r') < length (rd_rest r)" using st(1) by simp
    from less.hyps [OF this _ _ h] less.prems(2) step obtain sts ts where
      "rd_rest r' = concat (map (frame (crc_hash C)) sts) @ ts" "\<forall>st \<in> set sts. stored_ok cmp st"
      "ends_as (crc_hash C) (stored_cap cmp) (rd_fail r') ts e" "rp_count s' = rp_count ?s + length sts"
      "rp_data_bytes s' = rp_data_bytes ?s + sum_list (map length sts)"
      "rp_valid_end s' = rp_valid_end ?s + length (concat (map (frame (crc_hash C)) sts))"
      "hashes C (rp_crc s') ((pre @ frame (crc_hash C) st) @ concat (map (frame (crc_hash C)) sts))"
      by metis
    then show ?thesis using st by (intro less.prems(1) [of "st # sts" ts]) (auto simp: stored_ok_def)
  qed
qed

section \<open>What recovery may do to the store\<close>

definition header_ok :: "bytes \<Rightarrow> bool" where
  "header_ok bs \<longleftrightarrow> (\<exists>h. parse_segment_header (take SEGMENT_HEADER_LEN bs) = Ok h)"

text \<open>
  The invariant recovery starts from and keeps.  It is weaker than that of the running shards:
  a file with an unreadable header may have left its directory for \<open>qd\<close>, the quarantine.
\<close>

definition store_wf :: "bytes \<Rightarrow> world \<Rightarrow> bool" where
  "store_wf qd w \<longleftrightarrow>
     (\<forall>p i. w_entry w p = Some i \<longrightarrow> i < w_next w) \<and>
     (\<forall>p i. w_ddir w p = Some i \<longrightarrow> i < w_next w) \<and>
     (\<forall>i. prefix (w_disk w i) (w_data w i)) \<and>
     (\<forall>p. active_name p \<longrightarrow> fst p \<noteq> qd \<longrightarrow> w_entry w p = None \<or> w_entry w (sealed_path_for p) = None) \<and>
     (\<forall>p i. w_ddir w p = Some i \<longrightarrow> header_ok (w_data w i) \<longrightarrow> (\<exists>q. fst q = fst p \<and> w_entry w q = Some i))"

lemma store_wf_home:
  "store_wf qd w \<Longrightarrow> w_ddir w p = Some i \<Longrightarrow> header_ok (w_data w i) \<Longrightarrow> \<exists>q. fst q = fst p \<and> w_entry w q = Some i"
  by (simp only: store_wf_def)

lemma store_wf_one:
  "store_wf qd w \<Longrightarrow> active_name p \<Longrightarrow> fst p \<noteq> qd \<Longrightarrow> w_entry w p = None \<or> w_entry w (sealed_path_for p) = None"
  unfolding store_wf_def by metis

lemma store_wf_next: "store_wf qd w \<Longrightarrow> w_entry w p = Some i \<or> w_ddir w p = Some i \<Longrightarrow> i < w_next w"
  by (auto simp: store_wf_def)

text \<open>
  No record at the front of a file or on stable storage is lost, no file disappears, no name but
  those of the segment at \<open>p\<close> changes its file, and a segment that a crash would have left in a
  directory is left there.
\<close>

definition recovers :: "(bytes \<Rightarrow> u32) \<Rightarrow> bytes \<Rightarrow> path set \<Rightarrow> world \<Rightarrow> world \<Rightarrow> bool" where
  "recovers crc qd ps w w' \<longleftrightarrow> store_wf qd w' \<and> w_next w \<le> w_next w' \<and>
     (\<forall>j < w_next w. (header_ok (w_data w j) \<longrightarrow> header_ok (w_data w' j)) \<and>
        prefix (file_records crc (w_data w j)) (file_records crc (w_data w' j)) \<and>
        prefix (file_records crc (w_disk w j)) (file_records crc (w_disk w' j))) \<and>
     (\<forall>q j. w_entry w q = Some j \<longrightarrow> q \<notin> ps \<union> sealed_path_for ` ps \<longrightarrow> w_entry w' q = Some j) \<and>
     (\<forall>q j. w_entry w q = Some j \<longrightarrow> (\<exists>q'. w_entry w' q' = Some j)) \<and>
     (\<forall>q j. w_ddir w q = Some j \<longrightarrow> header_ok (w_data w j) \<longrightarrow> (\<exists>q'. fst q' = fst q \<and> w_ddir w' q' = Some j))"

lemma recovers_wf: "recovers crc qd ps w w' \<Longrightarrow> store_wf qd w'"
  by (simp add: recovers_def)

lemma recovers_refl: "store_wf qd w \<Longrightarrow> recovers crc qd ps w w"
  by (auto simp: recovers_def)

lemma recovers_mono: "recovers crc qd ps w w' \<Longrightarrow> ps \<subseteq> ps' \<Longrightarrow> recovers crc qd ps' w w'"
  unfolding recovers_def by blast

lemma recovers_trans:
  assumes ab: "recovers crc qd ps a b" and bc: "recovers crc qd ps b c" and wf: "store_wf qd a"
  shows "recovers crc qd ps a c"
  unfolding recovers_def
proof (intro conjI allI impI)
  show "store_wf qd c" using bc by (rule recovers_wf)
  show "w_next a \<le> w_next c" using ab bc by (auto simp: recovers_def)
next
  fix j assume "j < w_next a"
  moreover from this have "j < w_next b" using ab by (auto simp: recovers_def)
  ultimately show "header_ok (w_data a j) \<Longrightarrow> header_ok (w_data c j)"
    "prefix (file_records crc (w_data a j)) (file_records crc (w_data c j))"
    "prefix (file_records crc (w_disk a j)) (file_records crc (w_disk c j))"
    using ab bc unfolding recovers_def by (blast intro: prefix_order.trans)+
next
  fix q j assume e: "w_entry a q = Some j"
  show "q \<notin> ps \<union> sealed_path_for ` ps \<Longrightarrow> w_entry c q = Some j" using ab bc e unfolding recovers_def by blast
  show "\<exists>q'. w_entry c q' = Some j" using ab bc e unfolding recovers_def by blast
next
  fix q j assume d: "w_ddir a q = Some j" "header_ok (w_data a j)"
  then have "j < w_next a" using wf by (auto simp: store_wf_def)
  then have h: "header_ok (w_data b j)" using ab d unfolding recovers_def by blast
  obtain q1 where q1: "fst q1 = fst q" "w_ddir b q1 = Some j" using ab d unfolding recovers_def by blast
  then obtain q2 where "fst q2 = fst q1" "w_ddir c q2 = Some j" using bc h unfolding recovers_def by blast
  with q1 show "\<exists>q'. fst q' = fst q \<and> w_ddir c q' = Some j" by (intro exI [of _ q2]) simp
qed

text \<open>Changes of contents only.\<close>

lemma recovers_contents:
  assumes "store_wf qd w" and same: "w_entry w' = w_entry w" "w_ddir w' = w_ddir w" "w_next w' = w_next w"
    and "\<And>j. prefix (w_disk w' j) (w_data w' j)"
    and h: "\<And>j. header_ok (w_data w' j) \<longleftrightarrow> header_ok (w_data w j)"
    and "\<And>j. prefix (file_records crc (w_data w j)) (file_records crc (w_data w' j))"
    and "\<And>j. prefix (file_records crc (w_disk w j)) (file_records crc (w_disk w' j))"
  shows "recovers crc qd ps w w'"
proof -
  have "store_wf qd w'" using assms(1) unfolding store_wf_def same h
    by (elim conjE, intro conjI) (assumption | simp add: assms(5))+
  then show ?thesis unfolding recovers_def same h
    by (intro conjI allI impI) (assumption | rule assms(7) assms(8) | blast)+
qed

lemma recovers_tick: "store_wf qd w \<Longrightarrow> recovers crc qd ps w (io_tick w)"
  by (rule recovers_contents) (auto simp: store_wf_def)

lemma header_ok_append: "header_ok bs \<Longrightarrow> header_ok (bs @ cs)"
proof -
  assume "header_ok bs"
  then obtain h where h: "parse_segment_header (take 24 bs) = Ok h" by (auto simp: header_ok_def SEGMENT_HEADER_LEN_def)
  then have "length (take 24 bs) = 24" using header_magic_version by blast
  then show ?thesis using h by (simp add: header_ok_def SEGMENT_HEADER_LEN_def)
qed

lemma recovers_append:
  assumes "store_wf qd w" "header_ok (w_data w i)"
  shows "recovers crc qd ps w (w_append i bs w)"
proof (rule recovers_contents [OF assms(1)])
  show "w_entry (w_append i bs w) = w_entry w" by (rule w_entry_cong) (simp add: w_append_def)
  fix j
  show "prefix (w_disk (w_append i bs w) j) (w_data (w_append i bs w) j)"
    using assms(1) by (auto simp: w_append_def store_wf_def prefix_append)
  show "header_ok (w_data (w_append i bs w) j) \<longleftrightarrow> header_ok (w_data w j)"
    using assms(2) by (auto simp: w_append_def header_ok_append)
  show "prefix (file_records crc (w_data w j)) (file_records crc (w_data (w_append i bs w) j))"
    by (auto simp: w_append_def intro: file_records_mono)
qed (simp_all add: w_append_def)

lemma recovers_sync:
  assumes "store_wf qd w" shows "recovers crc qd ps w (w\<lparr>w_disk := (w_disk w)(i := w_data w i)\<rparr>)"
proof (rule recovers_contents [OF assms])
  show "w_entry (w\<lparr>w_disk := (w_disk w)(i := w_data w i)\<rparr>) = w_entry w" by (rule w_entry_cong) simp
qed (use assms in \<open>auto simp: store_wf_def intro: file_records_mono\<close>)

lemma recovers_lost:
  assumes "store_wf qd w" shows "recovers crc qd ps w (w\<lparr>w_lost := l\<rparr>)"
proof (rule recovers_contents [OF assms])
  show "w_entry (w\<lparr>w_lost := l\<rparr>) = w_entry w" by (rule w_entry_cong) simp
qed (use assms in \<open>auto simp: store_wf_def\<close>)

text \<open>Truncation behind the valid records.\<close>

lemma recovers_set_len:
  assumes wf: "store_wf qd w" and d: "w_data w i = hb @ concat (map (frame crc) sts) @ ts"
    and hb: "parse_segment_header hb = Ok h" and ok: "\<forall>st \<in> set sts. stored_ok (hm_compression h) st"
    and none: "scan_frames crc (hm_compression h) ts = []"
  defines "n \<equiv> length (hb @ concat (map (frame crc) sts))"
  shows "recovers crc qd ps w (w_set_len i n w)" "w_data (w_set_len i n w) i = hb @ concat (map (frame crc) sts)"
proof -
  let ?v = "hb @ concat (map (frame crc) sts)"
  have lhb: "length hb = 24" using header_magic_version [OF hb] by simp
  show dat: "w_data (w_set_len i n w) i = ?v" by (simp add: w_set_len_def d n_def)
  have all: "file_records crc (w_data w i) = sts"
    using scan_frames_frames [OF ok, of crc ts] none lhb by (simp add: d file_records_def SEGMENT_HEADER_LEN_def hb)
  have front: "file_records crc ?v = sts" by (rule file_records_image(1) [OF hb ok])
  have pre: "prefix (w_disk w i) (?v @ ts)" using wf d by (metis append_assoc store_wf_def)
  have disk: "prefix (file_records crc (w_disk w i)) (file_records crc (take n (w_disk w i)))"
  proof (cases "length (w_disk w i) \<le> n")
    case False
    have "prefix ?v (?v @ ts)" by simp
    then have "prefix ?v (w_disk w i)" by (rule prefix_length_prefix [OF _ pre]) (use False n_def in simp)
    then have "take n (w_disk w i) = ?v" by (auto simp: n_def prefix_def)
    moreover have "prefix (file_records crc (w_disk w i)) (file_records crc (w_data w i))"
      using wf by (auto simp: store_wf_def intro: file_records_mono)
    ultimately show ?thesis using front all by metis
  qed simp
  show "recovers crc qd ps w (w_set_len i n w)"
  proof (rule recovers_contents [OF wf])
    show "w_entry (w_set_len i n w) = w_entry w" by (rule w_entry_cong) (simp add: w_set_len_def)
    fix j
    obtain c where "?v @ ts = w_disk w i @ c" using pre by (auto simp: prefix_def)
    then have "take n (w_disk w i) @ take (n - length (w_disk w i)) c = take n (?v @ ts)" by simp
    also have "\<dots> = ?v" by (simp add: n_def)
    finally have "prefix (take n (w_disk w i)) ?v" by (metis prefixI)
    then show "prefix (w_disk (w_set_len i n w) j) (w_data (w_set_len i n w) j)"
      using wf dat by (cases "j = i") (auto simp: w_set_len_def store_wf_def)
    show "header_ok (w_data (w_set_len i n w) j) \<longleftrightarrow> header_ok (w_data w j)"
      using dat lhb d by (cases "j = i") (auto simp: header_ok_def SEGMENT_HEADER_LEN_def w_set_len_def)
    show "prefix (file_records crc (w_data w j)) (file_records crc (w_data (w_set_len i n w) j))"
      using dat all front by (cases "j = i") (auto simp: w_set_len_def)
    show "prefix (file_records crc (w_disk w j)) (file_records crc (w_disk (w_set_len i n w) j))"
      using disk by (cases "j = i") (auto simp: w_set_len_def)
  qed (simp_all add: w_set_len_def)
qed

text \<open>Changes of directories.\<close>

lemma recovers_sync_dir:
  assumes wf: "store_wf qd w"
  shows "recovers crc qd ps w (w\<lparr>w_ddir := (\<lambda>q. if fst q = d then w_entry w q else w_ddir w q)\<rparr>)"
    (is "recovers _ _ _ _ ?w")
proof -
  have e: "w_entry ?w = w_entry w" by (rule w_entry_cong) simp
  have home: "\<exists>q'. fst q' = fst q \<and> w_entry w q' = Some j"
    if "w_ddir w q = Some j" "header_ok (w_data w j)" for q j
    by (rule store_wf_home [OF wf that])
  have "store_wf qd ?w" unfolding store_wf_def e
  proof (intro conjI allI impI)
    fix q j assume "w_ddir ?w q = Some j" "header_ok (w_data ?w j)"
    then show "\<exists>q'. fst q' = fst q \<and> w_entry w q' = Some j"
      using home [of q j] by (cases "fst q = d") auto
  next
    fix q j show "w_ddir ?w q = Some j \<Longrightarrow> j < w_next ?w" "w_entry w q = Some j \<Longrightarrow> j < w_next ?w"
      using wf by (auto simp: store_wf_def split: if_splits)
  qed (use wf in \<open>auto simp: store_wf_def\<close>)
  moreover have "\<exists>q'. fst q' = fst q \<and> w_ddir ?w q' = Some j"
    if j: "w_ddir w q = Some j" "header_ok (w_data w j)" for q j
  proof (cases "fst q = d")
    case True
    obtain q' where q': "fst q' = fst q" "w_entry w q' = Some j" using home [OF j] by blast
    then show ?thesis using True by (intro exI [of _ q']) simp
  next
    case False
    then show ?thesis using j by (intro exI [of _ q]) simp
  qed
  ultimately show ?thesis unfolding recovers_def e
    by (intro conjI allI impI) (assumption | simp | blast)+
qed

text \<open>A file under a fresh name that is not one of a segment in a shard directory, or a sealed one.\<close>

lemma recovers_move:
  assumes wf: "store_wf qd w" and p: "w_entry w p = Some i" "active_name p" "fst p \<noteq> qd"
    and q: "w_entry w q = None" "fst q = qd \<and> \<not> header_ok (w_data w i) \<or> q = sealed_path_for p"
  shows "recovers crc qd {p} w (w\<lparr>w_dir := AList.update q i (AList.delete p (w_dir w))\<rparr>)"
    (is "recovers _ _ _ _ ?w")
proof -
  have e: "w_entry ?w r = (if r = q then Some i else if r = p then None else w_entry w r)" for r by simp
  have home: "\<exists>r'. fst r' = fst r \<and> w_entry ?w r' = Some j"
    if r: "w_ddir w r = Some j" "header_ok (w_data w j)" for r j
  proof -
    obtain r' where r': "fst r' = fst r" "w_entry w r' = Some j" using store_wf_home [OF wf r] by blast
    show ?thesis
    proof (cases "r' = p")
      case True
      then have "j = i" "q = sealed_path_for p" using r' p q r(2) by auto
      then show ?thesis using True r' by (intro exI [of _ q]) (simp add: sealed_path_for_eq)
    next
      case False
      then show ?thesis using r' q(1) by (intro exI [of _ r']) auto
    qed
  qed
  have one: "w_entry ?w r = None \<or> w_entry ?w (sealed_path_for r) = None" if r: "active_name r" "fst r \<noteq> qd" for r
  proof -
    have "fst (sealed_path_for r) = fst r" by (simp add: sealed_path_for_eq)
    then have nq: "q = sealed_path_for p" if "q = r \<or> q = sealed_path_for r" using q(2) r(2) that by auto
    have "w_entry w r = None \<or> w_entry w (sealed_path_for r) = None" by (rule store_wf_one [OF wf r])
    moreover have "r \<noteq> sealed_path_for p" "sealed_path_for r \<noteq> p" "p \<noteq> q"
      using active_sealed_apart(3) [OF r(1), of p] active_sealed_apart(2) [OF p(2), of r] p(1) q(1) by auto
    ultimately show ?thesis using nq by (cases "r = p") (auto simp: e simp del: split_paired_All)
  qed
  have wf': "store_wf qd ?w"
    unfolding store_wf_def
  proof (intro conjI allI impI)
    fix r j show "w_entry ?w r = Some j \<Longrightarrow> j < w_next ?w" "w_ddir ?w r = Some j \<Longrightarrow> j < w_next ?w"
      using wf p(1) by (auto simp: store_wf_def split: if_splits)
  next
    fix r j assume "w_ddir ?w r = Some j" "header_ok (w_data ?w j)"
    then show "\<exists>r'. fst r' = fst r \<and> w_entry ?w r' = Some j" using home [of r j] by simp
  next
    fix r assume "active_name r" "fst r \<noteq> qd"
    then show "w_entry ?w r = None \<or> w_entry ?w (sealed_path_for r) = None" by (rule one)
  qed (use wf in \<open>simp add: store_wf_def\<close>)
  show ?thesis unfolding recovers_def
  proof (intro conjI allI impI)
    fix r j assume r: "w_entry w r = Some j"
    show "r \<notin> {p} \<union> sealed_path_for ` {p} \<Longrightarrow> w_entry ?w r = Some j" using r q(1) by auto
    show "\<exists>r'. w_entry ?w r' = Some j"
    proof (cases "r = p")
      case True
      then show ?thesis using r p(1) by (intro exI [of _ q]) simp
    next
      case False
      then show ?thesis using r q(1) by (intro exI [of _ r]) auto
    qed
  next
    fix r j assume "w_ddir w r = Some j" "header_ok (w_data w j)"
    then show "\<exists>r'. fst r' = fst r \<and> w_ddir ?w r' = Some j" by (intro exI [of _ r]) simp
  qed (use wf' in simp_all)
qed

lemma recovers_put:
  assumes wf: "store_wf qd w" and q: "w_entry w q = None" "fst q = qd"
  shows "recovers crc qd ps w (w_put q bs w)"
proof -
  have w: "w_put q bs w = w\<lparr>w_dir := AList.update q (w_next w) (w_dir w), w_data := (w_data w)(w_next w := bs),
             w_disk := (w_disk w)(w_next w := []), w_lost := (w_lost w)(w_next w := False),
             w_next := Suc (w_next w)\<rparr>" (is "_ = ?w")
    by (simp add: w_put_def q)
  have e: "w_entry ?w r = (if r = q then Some (w_next w) else w_entry w r)" for r
    by (simp add: w_entry_def update_conv')
  have old: "j < w_next w" if "w_entry w r = Some j \<or> w_ddir w r = Some j" for r j
    by (rule store_wf_next [OF wf that])
  have wf': "store_wf qd ?w"
    unfolding store_wf_def
  proof (intro conjI allI impI)
    fix r j show "w_entry ?w r = Some j \<Longrightarrow> j < w_next ?w" "w_ddir ?w r = Some j \<Longrightarrow> j < w_next ?w"
      using old [of r j] by (auto simp: e split: if_splits)
  next
    fix r j assume r: "w_ddir ?w r = Some j" "header_ok (w_data ?w j)"
    then have "w_ddir w r = Some j" "header_ok (w_data w j)" using old [of r j] by auto
    then obtain r' where r': "fst r' = fst r" "w_entry w r' = Some j" using store_wf_home [OF wf] by blast
    then show "\<exists>r'. fst r' = fst r \<and> w_entry ?w r' = Some j" using q(1) by (intro exI [of _ r']) (auto simp: e)
  next
    fix r assume r: "active_name r" "fst r \<noteq> qd"
    then have "w_entry w r = None \<or> w_entry w (sealed_path_for r) = None" by (rule store_wf_one [OF wf])
    moreover have "r \<noteq> q" "sealed_path_for r \<noteq> q" using r q(2) by (auto simp: sealed_path_for_eq)
    ultimately show "w_entry ?w r = None \<or> w_entry ?w (sealed_path_for r) = None" by (simp add: e)
  qed (use wf in \<open>simp add: store_wf_def\<close>)
  show ?thesis unfolding recovers_def w
  proof (intro conjI allI impI)
    fix r j assume r: "w_entry w r = Some j"
    then show "w_entry ?w r = Some j" using q(1) by (auto simp: e)
    then show "\<exists>r'. w_entry ?w r' = Some j" by (rule exI [of _ r])
  next
    fix r j assume "w_ddir w r = Some j" "header_ok (w_data w j)"
    then show "\<exists>r'. fst r' = fst r \<and> w_ddir ?w r' = Some j" by (intro exI [of _ r]) simp
  qed (use wf' in simp_all)
qed

section \<open>The operations\<close>

text \<open>Nothing outside \<open>qd\<close> and no file that existed is touched, and the names of \<open>qd\<close> keep their files.\<close>

definition aside :: "bytes \<Rightarrow> world \<Rightarrow> world \<Rightarrow> bool" where
  "aside qd w w' \<longleftrightarrow>
     (\<forall>j < w_next w. w_data w' j = w_data w j \<and> w_disk w' j = w_disk w j \<and> w_lost w' j = w_lost w j) \<and>
     (\<forall>q. fst q \<noteq> qd \<longrightarrow> w_entry w' q = w_entry w q \<and> w_ddir w' q = w_ddir w q) \<and>
     (\<forall>q j. fst q = qd \<longrightarrow> w_entry w q = Some j \<longrightarrow> w_entry w' q = Some j \<and> (w_ddir w q = Some j \<longrightarrow> w_ddir w' q = Some j))"

lemma idle_keeps:
  assumes "store_wf qd w" "w' = w\<lparr>w_tick := n\<rparr>"
  shows "recovers crc qd ps w w'" "aside qd w w'" "w_entry w' = w_entry w" "w_dir w' = w_dir w"
proof -
  show e: "w_entry w' = w_entry w" by (rule w_entry_cong) (simp add: assms(2))
  show "w_dir w' = w_dir w" by (simp add: assms(2))
  show "recovers crc qd ps w w'" by (rule recovers_contents [OF assms(1) e]) (use assms in \<open>auto simp: store_wf_def\<close>)
  show "aside qd w w'" using e by (simp add: aside_def assms(2))
qed

lemma io_tick_io [simp]: "w_io (io_tick w) = w_io w"
  by (simp add: io_tick_def)

lemma io_tick_idle: "\<exists>n. io_tick w = w\<lparr>w_tick := n\<rparr>"
  by (auto simp: io_tick_def)

lemma probe_names_effect:
  "probe_names dir nms w = (x, w') \<Longrightarrow>
   (\<exists>n. w' = w\<lparr>w_tick := n\<rparr>) \<and> (\<forall>q. x = Ok q \<longrightarrow> fst q = dir \<and> w_entry w q = None)"
proof (induction nms arbitrary: w)
  case Nil
  then show ?case by (auto intro: exI [of _ "w_tick w"])
next
  case (Cons nm nms)
  obtain y w1 where y: "fs_try_exists (dir, nm) w = (y, w1)" by fastforce
  have w1: "w1 = io_tick w" "y = Ok b \<Longrightarrow> b = (w_entry w (dir, nm) \<noteq> None)" for b
    using fs_try_exists_effect [OF y] by auto
  show ?case
  proof (cases "y = Ok True")
    case True
    then have "probe_names dir nms (io_tick w) = (x, w')" using Cons.prems y w1 by simp
    from Cons.IH [OF this] obtain n where "w' = (io_tick w)\<lparr>w_tick := n\<rparr>"
      "\<forall>q. x = Ok q \<longrightarrow> fst q = dir \<and> w_entry w q = None" by auto
    then show ?thesis by (auto simp: io_tick_def)
  next
    case False
    then have "w' = io_tick w" "x = Ok q \<Longrightarrow> q = (dir, nm) \<and> y = Ok False" for q
      using Cons.prems y w1 by (auto split: sum.splits bool.splits)
    then show ?thesis using w1(2) [of False] io_tick_idle [of w] by auto
  qed
qed

lemma quarantine_target:
  assumes "create_dir_private w = (y, w1)" "non_clobbering_dest qd base w1 = (x, w2)"
  shows "\<exists>n. w2 = w\<lparr>w_tick := n\<rparr>" "x = Ok q \<Longrightarrow> fst q = qd \<and> w_entry w q = None"
proof -
  obtain n where n: "w1 = w\<lparr>w_tick := n\<rparr>" using create_dir_private_effect [OF assms(1)] by auto
  have e: "w_entry w1 = w_entry w" by (rule w_entry_cong) (simp add: n)
  from probe_names_effect [OF assms(2) [unfolded non_clobbering_dest_def]]
  show "\<exists>n. w2 = w\<lparr>w_tick := n\<rparr>" "x = Ok q \<Longrightarrow> fst q = qd \<and> w_entry w q = None"
    using n e by auto
qed

text \<open>A file with an unreadable header is moved whole, or left alone.\<close>

lemma quarantine_effect:
  assumes wf: "store_wf (quarantine_dir wab) w" and p: "w_entry w p = Some i" "active_name p" "fst p \<noteq> quarantine_dir wab"
    and bad: "\<not> header_ok (w_data w i)" and run: "quarantine p wab w = (x, w')"
  shows "recovers crc (quarantine_dir wab) {p} w w' \<and> w_data w' = w_data w \<and> w_disk w' = w_disk w \<and>
    (if x = Ok () then w_entry w' p = None \<and> (\<exists>q. fst q = quarantine_dir wab \<and> w_entry w q = None \<and> w_entry w' q = Some i)
     else w_dir w' = w_dir w)"
proof -
  let ?qd = "quarantine_dir wab"
  obtain y1 w1 where s1: "create_dir_private w = (y1, w1)" by fastforce
  obtain y2 w2 where s2: "non_clobbering_dest ?qd (quarantine_base p) w1 = (y2, w2)" by fastforce
  obtain n1 where n1: "w1 = w\<lparr>w_tick := n1\<rparr>" using create_dir_private_effect [OF s1] by auto
  obtain n2 where n2: "w2 = w\<lparr>w_tick := n2\<rparr>" using quarantine_target(1) [OF s1 s2] by auto
  note k1 = idle_keeps [OF wf n1] and k2 = idle_keeps [OF wf n2]
  show ?thesis
  proof (cases "\<exists>u q. y1 = Ok u \<and> y2 = Ok q")
    case False
    then have "x \<noteq> Ok ()" "w' = w1 \<or> w' = w2"
      using run s1 s2 by (auto simp: quarantine_def split: sum.splits)
    then show ?thesis using k1 k2 n1 n2 by auto
  next
    case True
    then obtain u q where y: "y1 = Ok u" "y2 = Ok q" by auto
    have q: "fst q = ?qd" "w_entry w2 q = None" using quarantine_target(2) [OF s1 s2 y(2)] k2(3) by auto
    have r: "fs_rename p q w2 = (x, w')" using run s1 s2 y by (simp add: quarantine_def)
    have wf2: "store_wf ?qd (io_tick w2)" using recovers_wf [OF recovers_tick [OF recovers_wf [OF k2(1)]]] .
    from fs_rename_effect [OF r] show ?thesis
    proof (elim disjE exE conjE)
      assume "w' = io_tick w2" "x \<noteq> Ok ()"
      then show ?thesis
        using recovers_trans [OF k2(1) recovers_tick [OF recovers_wf [OF k2(1)]] wf] by (simp add: n2)
    next
      fix i' assume w': "w_entry w2 p = Some i'" "x = Ok ()" "w' = (io_tick w2)\<lparr>w_dir := AList.update q i' (AList.delete p (w_dir w2))\<rparr>"
      then have i': "i' = i" using p k2(3) by simp
      have "recovers crc ?qd {p} (io_tick w2) w'"
        using recovers_move [OF wf2, of p i q crc] p q bad k2(3) w'(3) i' by (simp add: n2)
      then have "recovers crc ?qd {p} w w'"
        using recovers_trans [OF recovers_trans [OF k2(1) recovers_tick [OF recovers_wf [OF k2(1)]] wf] _ wf] by blast
      moreover have "w_entry w' p = None" "w_entry w' q = Some i" using p q w'(3) i' by auto
      ultimately show ?thesis using q k2(3) w' by (auto simp: n2)
    qed
  qed
qed

text \<open>Steps that only concern files of the quarantine compose.\<close>

definition stays_aside :: "(bytes \<Rightarrow> u32) \<Rightarrow> bytes \<Rightarrow> world \<Rightarrow> world \<Rightarrow> bool" where
  "stays_aside crc qd w w' \<longleftrightarrow> recovers crc qd {} w w' \<and> aside qd w w'"

lemma stays_aside_trans:
  assumes "stays_aside crc qd a b" "stays_aside crc qd b c" "store_wf qd a"
  shows "stays_aside crc qd a c"
proof -
  have "w_next a \<le> w_next b" using assms(1) by (simp add: stays_aside_def recovers_def)
  then have "aside qd a c" using assms(1,2) by (simp add: stays_aside_def aside_def)
  then show ?thesis using assms recovers_trans [of crc qd "{}" a b c] by (simp add: stays_aside_def)
qed

lemma stays_aside_wf: "stays_aside crc qd w w' \<Longrightarrow> store_wf qd w'"
  by (simp add: stays_aside_def recovers_def)

lemma stays_aside_idle: "store_wf qd w \<Longrightarrow> stays_aside crc qd w (w\<lparr>w_tick := n\<rparr>)"
  using idle_keeps [of qd w "w\<lparr>w_tick := n\<rparr>"] by (simp add: stays_aside_def)

lemma stays_aside_tick: "store_wf qd w \<Longrightarrow> stays_aside crc qd w (io_tick w)"
  using stays_aside_idle [of qd w] by (simp add: io_tick_def)

lemma w_put_fresh:
  assumes "w_entry w q = None"
  shows "w_entry (w_put q bs w) r = (if r = q then Some (w_next w) else w_entry w r)"
    "w_ddir (w_put q bs w) = w_ddir w" "w_next (w_put q bs w) = Suc (w_next w)"
    "w_data (w_put q bs w) = (w_data w)(w_next w := bs)" "w_disk (w_put q bs w) = (w_disk w)(w_next w := [])"
    "w_lost (w_put q bs w) = (w_lost w)(w_next w := False)"
proof -
  have "w_put q bs w = w\<lparr>w_dir := AList.update q (w_next w) (w_dir w), w_data := (w_data w)(w_next w := bs),
             w_disk := (w_disk w)(w_next w := []), w_lost := (w_lost w)(w_next w := False),
             w_next := Suc (w_next w)\<rparr>"
    by (simp add: w_put_def assms)
  then show "w_entry (w_put q bs w) r = (if r = q then Some (w_next w) else w_entry w r)"
    "w_ddir (w_put q bs w) = w_ddir w" "w_next (w_put q bs w) = Suc (w_next w)"
    "w_data (w_put q bs w) = (w_data w)(w_next w := bs)" "w_disk (w_put q bs w) = (w_disk w)(w_next w := [])"
    "w_lost (w_put q bs w) = (w_lost w)(w_next w := False)"
    by (simp_all add: w_entry_def update_conv')
qed

lemma stays_aside_put:
  assumes "store_wf qd w" "w_entry w q = None" "fst q = qd"
  shows "stays_aside crc qd w (w_put q bs w)"
proof -
  have "aside qd w (w_put q bs w)" using assms(2,3) by (auto simp: aside_def w_put_fresh [OF assms(2)])
  then show ?thesis using recovers_put [OF assms] by (simp add: stays_aside_def)
qed

text \<open>The two fsyncs that make the copy durable.\<close>

lemma copied_sync:
  assumes wf: "store_wf qd w" and a: "stays_aside crc qd w w3" and e: "w_entry w3 q = Some (w_next w)"
    and n: "w_next w3 = Suc (w_next w)"
    and s4: "fs_sync_file q w3 = (y4, w4)" and s5: "fs_sync_dir (fst q) w4 = (y5, w5)" and q: "fst q = qd"
  shows "stays_aside crc qd w w4" "stays_aside crc qd w w5" "w_next w5 = Suc (w_next w)" "w_entry w5 q = Some (w_next w)"
    "y4 = Ok () \<Longrightarrow> y5 = Ok () \<Longrightarrow> \<not> w_lost w3 (w_next w) \<Longrightarrow>
       w_ddir w5 q = Some (w_next w) \<and> w_disk w5 (w_next w) = w_data w3 (w_next w)"
proof -
  have wf3: "store_wf qd w3" by (rule stays_aside_wf [OF a])
  let ?i = "w_next w"
  have w4: "(w4 = io_tick w3 \<and> y4 \<noteq> Ok ()) \<or>
      (\<exists>w3'. w3' = io_tick w3 \<and> fs_sync_data ?i w3' = (y4, w4))"
    using s4 e by (auto simp: fs_sync_file_def split: prod.splits sum.splits dest!: fs_open_effect)
  have t: "stays_aside crc qd w (io_tick w3)" by (rule stays_aside_trans [OF a stays_aside_tick [OF wf3] wf])
  have fresh: "stays_aside crc qd w v" if "recovers crc qd {} (io_tick w3) v" "w_entry v = w_entry w3" "w_ddir v = w_ddir w3"
    "\<forall>j. j \<noteq> ?i \<longrightarrow> w_data v j = w_data w3 j \<and> w_disk v j = w_disk w3 j \<and> w_lost v j = w_lost w3 j" for v
  proof -
    have "aside qd w v" using t that unfolding stays_aside_def aside_def by (metis io_tick_simps less_irrefl)
    then show ?thesis using recovers_trans [OF _ that(1) wf] t by (simp add: stays_aside_def)
  qed
  have t4: "recovers crc qd {} (io_tick w3) (io_tick (io_tick w3))"
    using recovers_tick stays_aside_wf [OF t] by blast
  have wft: "store_wf qd (io_tick (io_tick w3))" by (rule recovers_wf [OF t4])
  have eq4: "w_entry w4 = w_entry w3" "w_ddir w4 = w_ddir w3" "w_next w4 = w_next w3" "w_data w4 = w_data w3"
    "w_entry w4 q = Some ?i"
    using w4 e by (auto dest!: fs_sync_data_effect intro!: w_entry_cong simp: fun_eq_iff w_entry_def)
  show a4: "stays_aside crc qd w w4"
    using w4
  proof (elim disjE exE conjE)
    assume "w4 = io_tick w3"
    then show ?thesis using t by simp
  next
    fix w3' assume "w3' = io_tick w3" "fs_sync_data ?i w3' = (y4, w4)"
    then have "fs_sync_data ?i (io_tick w3) = (y4, w4)" by simp
    from fs_sync_data_effect [OF this] show ?thesis
    proof (elim disjE conjE)
      assume "w4 = (io_tick (io_tick w3))\<lparr>w_lost := (w_lost (io_tick w3))(?i := True)\<rparr>"
      then show ?thesis using eq4 recovers_trans [OF t4 recovers_lost [OF wft] stays_aside_wf [OF t]]
        by (intro fresh) auto
    next
      assume "w4 = io_tick (io_tick w3)"
      then show ?thesis using eq4 t4 by (intro fresh) auto
    next
      assume "w4 = (io_tick (io_tick w3))\<lparr>w_disk := (w_disk (io_tick w3))(?i := w_data (io_tick w3) ?i)\<rparr>"
      then show ?thesis using eq4 recovers_trans [OF t4 recovers_sync [OF wft, of crc "{}" ?i] stays_aside_wf [OF t]]
        by (intro fresh) auto
    qed
  qed
  have wf4: "store_wf qd w4" by (rule stays_aside_wf [OF a4])
  have t4': "stays_aside crc qd w4 (io_tick w4)" by (rule stays_aside_tick [OF wf4])
  have w5: "w5 = io_tick w4 \<and> y5 \<noteq> Ok () \<or>
      y5 = Ok () \<and> w5 = (io_tick w4)\<lparr>w_ddir := (\<lambda>r. if fst r = fst q then w_entry w4 r else w_ddir w4 r)\<rparr>"
    using fs_sync_dir_effect [OF s5] by auto
  have e5: "w_entry w5 = w_entry w4" "w_next w5 = w_next w4" "w_disk w5 = w_disk w4"
    using w5 by (auto intro!: w_entry_cong simp: fun_eq_iff w_entry_def)
  show "w_next w5 = Suc (w_next w)" "w_entry w5 q = Some (w_next w)" using e5 eq4 n by simp_all
  have "stays_aside crc qd w4 w5"
  proof (cases "y5 = Ok ()")
    case True
    then have v: "w5 = (io_tick w4)\<lparr>w_ddir := (\<lambda>r. if fst r = qd then w_entry (io_tick w4) r else w_ddir (io_tick w4) r)\<rparr>"
      using w5 q by (simp cong: if_cong)
    have "recovers crc qd {} (io_tick w4) w5" unfolding v by (rule recovers_sync_dir [OF stays_aside_wf [OF t4']])
    moreover have "aside qd w4 w5" using e5(1) by (simp add: aside_def v)
    ultimately show ?thesis using t4' recovers_trans [OF _ _ wf4] unfolding stays_aside_def by blast
  qed (use w5 t4' in simp)
  then show "stays_aside crc qd w w5" by (rule stays_aside_trans [OF a4 _ wf])
  assume ok: "y4 = Ok ()" "y5 = Ok ()" "\<not> w_lost w3 (w_next w)"
  then have "w_disk w4 ?i = w_data w3 ?i" using w4 by (auto dest!: fs_sync_data_effect)
  moreover have "w_ddir w5 q = w_entry w4 q" using w5 ok by auto
  ultimately show "w_ddir w5 q = Some (w_next w) \<and> w_disk w5 (w_next w) = w_data w3 (w_next w)"
    using eq4 e5 by simp
qed

lemma copy_to_quarantine_effect:
  assumes wf: "store_wf (quarantine_dir wab) w" and p: "w_entry w p = Some i"
    and run: "copy_to_quarantine p wab w = (x, w')"
  shows "stays_aside crc (quarantine_dir wab) w w'"
    and "x = Ok q \<Longrightarrow> fst q = quarantine_dir wab \<and> w_entry w q = None \<and>
      (\<exists>j \<ge> w_next w. j < w_next w' \<and> w_entry w' q = Some j \<and> w_ddir w' q = Some j \<and> w_disk w' j = w_data w i)"
proof -
  let ?qd = "quarantine_dir wab"
  obtain y1 w1 where s1: "create_dir_private w = (y1, w1)" by fastforce
  obtain y2 w2 where s2: "non_clobbering_dest ?qd (quarantine_base p) w1 = (y2, w2)" by fastforce
  obtain n1 where n1: "w1 = w\<lparr>w_tick := n1\<rparr>" using create_dir_private_effect [OF s1] by auto
  obtain n2 where n2: "w2 = w\<lparr>w_tick := n2\<rparr>" using quarantine_target(1) [OF s1 s2] by auto
  have a1: "stays_aside crc ?qd w w1" and a2: "stays_aside crc ?qd w w2"
    using stays_aside_idle [OF wf] by (simp_all add: n1 n2)
  note e2 = idle_keeps(3) [OF wf n2]
  have "stays_aside crc ?qd w w' \<and> (\<forall>q. x = Ok q \<longrightarrow> fst q = ?qd \<and> w_entry w q = None \<and>
      (\<exists>j \<ge> w_next w. j < w_next w' \<and> w_entry w' q = Some j \<and> w_ddir w' q = Some j \<and> w_disk w' j = w_data w i))"
  proof (cases "\<exists>u q. y1 = Ok u \<and> y2 = Ok q")
    case False
    then have "\<forall>q. x \<noteq> Ok q" "w' = w1 \<or> w' = w2"
      using run s1 s2 by (auto simp: copy_to_quarantine_def split: sum.splits)
    then show ?thesis using a1 a2 by auto
  next
    case True
    then obtain u q where y: "y1 = Ok u" "y2 = Ok q" by auto
    have q: "fst q = ?qd" "w_entry w q = None" using quarantine_target(2) [OF s1 s2 y(2)] by auto
    obtain y3 w3 where s3: "fs_copy p q w2 = (y3, w3)" by fastforce
    obtain y4 w4 where s4: "fs_sync_file q w3 = (y4, w4)" by fastforce
    obtain y5 w5 where s5: "fs_sync_dir (fst q) w4 = (y5, w5)" by fastforce
    have out: "(x, w') = (case y3 of Inl k \<Rightarrow> (Err k, w3) | Inr _ \<Rightarrow> case y4 of Inl k \<Rightarrow> (Err k, w4) | Inr _ \<Rightarrow>
        case y5 of Inl k \<Rightarrow> (Err k, w5) | Inr _ \<Rightarrow> (Ok q, w5))"
      using run s1 s2 y s3 s4 s5 by (auto simp: copy_to_quarantine_def split: sum.splits)
    have t2: "stays_aside crc ?qd w (io_tick w2)"
      by (rule stays_aside_trans [OF a2 stays_aside_tick [OF stays_aside_wf [OF a2]] wf])
    have t2': "w_next (io_tick w2) = w_next w" "w_data w2 = w_data w" "w_entry (io_tick w2) = w_entry w" "w_entry w2 = w_entry w"
      using e2 by (simp_all add: n2)
    have put: "stays_aside crc ?qd w (w_put q bs (io_tick w2))" for bs
      by (rule stays_aside_trans [OF t2 stays_aside_put [OF stays_aside_wf [OF t2]] wf]) (use q t2' in auto)
    have pf: "w_entry (w_put q bs (io_tick w2)) q = Some (w_next w)" "w_data (w_put q bs (io_tick w2)) (w_next w) = bs"
      "\<not> w_lost (w_put q bs (io_tick w2)) (w_next w)" "w_next (w_put q bs (io_tick w2)) = Suc (w_next w)" for bs
      using w_put_fresh [of "io_tick w2" q bs] t2' q(2) by (simp_all add: n2)
    have a3: "stays_aside crc ?qd w w3"
      using fs_copy_effect [OF s3] t2 put by auto
    show ?thesis
    proof (cases y3)
      case (Inl k)
      then show ?thesis using out a3 by auto
    next
      case (Inr u3)
      then have "w3 = w_put q (w_data w i) (io_tick w2)"
        using fs_copy_effect [OF s3] p t2' by auto
      then have w3: "w_entry w3 q = Some (w_next w)" "w_data w3 (w_next w) = w_data w i" "\<not> w_lost w3 (w_next w)"
        "w_next w3 = Suc (w_next w)"
        using pf by simp_all
      show ?thesis
        using copied_sync [OF wf a3 w3(1,4) s4 s5 q(1)] w3 out Inr a3 q by (auto split: sum.splits)
    qed
  qed
  then show "stays_aside crc ?qd w w'"
    and "x = Ok q \<Longrightarrow> fst q = ?qd \<and> w_entry w q = None \<and>
      (\<exists>j \<ge> w_next w. j < w_next w' \<and> w_entry w' q = Some j \<and> w_ddir w' q = Some j \<and> w_disk w' j = w_data w i)"
    by auto
qed

text \<open>The rebuild changes the file \<open>i\<close> and the names of the segment only.\<close>

definition only_file :: "path \<Rightarrow> nat \<Rightarrow> world \<Rightarrow> world \<Rightarrow> bool" where
  "only_file p i w w' \<longleftrightarrow> (\<forall>j. j \<noteq> i \<longrightarrow> w_data w' j = w_data w j \<and> w_disk w' j = w_disk w j) \<and>
     (\<forall>q. fst q \<noteq> fst p \<longrightarrow> w_entry w' q = w_entry w q \<and> w_ddir w' q = w_ddir w q) \<and> w_next w' = w_next w \<and>
     (\<forall>q. w_entry w' q \<in> {w_entry w q, None, Some i})"

definition rebuilds :: "(bytes \<Rightarrow> u32) \<Rightarrow> bytes \<Rightarrow> path \<Rightarrow> nat \<Rightarrow> world \<Rightarrow> world \<Rightarrow> bool" where
  "rebuilds crc qd p i w w' \<longleftrightarrow> recovers crc qd {p} w w' \<and> only_file p i w w'"

lemma rebuilds_trans:
  "store_wf qd a \<Longrightarrow> rebuilds crc qd p i a b \<Longrightarrow> rebuilds crc qd p i b c \<Longrightarrow> rebuilds crc qd p i a c"
  using recovers_trans [of crc qd "{p}" a b c] by (simp add: rebuilds_def only_file_def) metis

lemma rebuilds_wf: "rebuilds crc qd p i a b \<Longrightarrow> store_wf qd b"
  by (simp add: rebuilds_def recovers_def)

lemma rebuilds_tick: "store_wf qd w \<Longrightarrow> rebuilds crc qd p i w (io_tick w)"
  by (simp add: rebuilds_def recovers_tick only_file_def)

lemma rebuilds_contents:
  assumes "recovers crc qd {p} w w'" "w_dir w' = w_dir w" "w_ddir w' = w_ddir w" "w_next w' = w_next w"
    "\<forall>j. j \<noteq> i \<longrightarrow> w_data w' j = w_data w j \<and> w_disk w' j = w_disk w j"
  shows "rebuilds crc qd p i w w'"
  using assms w_entry_cong [OF assms(2)] by (simp add: rebuilds_def only_file_def)

lemma rebuilds_tick_left:
  "store_wf qd w \<Longrightarrow> rebuilds crc qd p i (io_tick w) w' \<Longrightarrow> rebuilds crc qd p i w w'"
  using rebuilds_trans rebuilds_tick by blast

lemma rebuilds_write:
  assumes "store_wf qd w" "header_ok (w_data w i)" "fs_write_all i bs w = (x, w')"
  shows "rebuilds crc qd p i w w'"
proof -
  obtain n where w': "w' = w_append i (take n bs) (io_tick w)" using fs_write_all_effect [OF assms(3)] by auto
  have "recovers crc qd {p} (io_tick w) w'"
    unfolding w' by (rule recovers_append) (use assms recovers_wf [OF recovers_tick] in auto)
  then show ?thesis by (intro rebuilds_tick_left [OF assms(1)] rebuilds_contents) (simp_all add: w' w_append_def)
qed

lemma rebuilds_sync_data:
  assumes "store_wf qd w" "fs_sync_data i w = (x, w')"
  shows "rebuilds crc qd p i w w'"
proof -
  have wf: "store_wf qd (io_tick w)" by (rule recovers_wf [OF recovers_tick [OF assms(1)]])
  from fs_sync_data_effect [OF assms(2)] show ?thesis
  proof (elim disjE conjE)
    assume "w' = io_tick w" then show ?thesis using rebuilds_tick [OF assms(1)] by simp
  next
    assume w': "w' = (io_tick w)\<lparr>w_lost := (w_lost w)(i := True)\<rparr>"
    have "recovers crc qd {p} (io_tick w) w'" unfolding w' by (rule recovers_lost [OF wf])
    then show ?thesis by (intro rebuilds_tick_left [OF assms(1)] rebuilds_contents) (simp_all add: w')
  next
    assume w': "w' = (io_tick w)\<lparr>w_disk := (w_disk w)(i := w_data w i)\<rparr>"
    have "recovers crc qd {p} (io_tick w) w'" using recovers_sync [OF wf, of crc "{p}" i] by (simp add: w')
    then show ?thesis by (intro rebuilds_tick_left [OF assms(1)] rebuilds_contents) (simp_all add: w')
  qed
qed

lemma rebuilds_sync_dir:
  assumes "store_wf qd w" "fs_sync_dir (fst p) w = (x, w')"
  shows "rebuilds crc qd p i w w'"
proof -
  have wf: "store_wf qd (io_tick w)" by (rule recovers_wf [OF recovers_tick [OF assms(1)]])
  from fs_sync_dir_effect [OF assms(2)] show ?thesis
  proof (elim disjE conjE)
    assume "w' = io_tick w" then show ?thesis using rebuilds_tick [OF assms(1)] by simp
  next
    assume w': "w' = (io_tick w)\<lparr>w_ddir := (\<lambda>q. if fst q = fst p then w_entry w q else w_ddir w q)\<rparr>"
    have r: "recovers crc qd {p} (io_tick w) w'"
      using recovers_sync_dir [OF wf, of crc "{p}" "fst p"] by (simp add: w' cong: if_cong)
    have "w_entry w' = w_entry w" by (rule w_entry_cong) (simp add: w')
    then have "only_file p i (io_tick w) w'" by (simp add: only_file_def w')
    then show ?thesis using r by (intro rebuilds_tick_left [OF assms(1)]) (simp add: rebuilds_def)
  qed
qed

lemma rebuilds_rename:
  assumes "store_wf qd w" "w_entry w p = Some i" "active_name p" "fst p \<noteq> qd" "fs_rename p (sealed_path_for p) w = (x, w')"
  shows "rebuilds crc qd p i w w'"
proof -
  have wf: "store_wf qd (io_tick w)" by (rule recovers_wf [OF recovers_tick [OF assms(1)]])
  have free: "w_entry w (sealed_path_for p) = None" using store_wf_one [OF assms(1,3,4)] assms(2) by simp
  from fs_rename_effect [OF assms(5)] show ?thesis
  proof (elim disjE exE conjE)
    assume "w' = io_tick w" then show ?thesis using rebuilds_tick [OF assms(1)] by simp
  next
    fix i' assume "w_entry w p = Some i'"
      and w0: "w' = (io_tick w)\<lparr>w_dir := AList.update (sealed_path_for p) i' (AList.delete p (w_dir w))\<rparr>"
    then have w': "w' = (io_tick w)\<lparr>w_dir := AList.update (sealed_path_for p) i (AList.delete p (w_dir (io_tick w)))\<rparr>"
      using assms(2) by simp
    have r: "recovers crc qd {p} (io_tick w) w'"
      unfolding w' by (rule recovers_move [OF wf]) (use assms free in auto)
    have "w_entry w' q = (if q = sealed_path_for p then Some i else if q = p then None else w_entry w q)" for q
      unfolding w' by simp
    moreover have "w_ddir w' = w_ddir w" "w_data w' = w_data w" "w_disk w' = w_disk w" "w_next w' = w_next w" by (simp_all add: w0)
    ultimately have "only_file p i (io_tick w) w'" by (auto simp: only_file_def sealed_path_for_eq)
    then show ?thesis using r by (intro rebuilds_tick_left [OF assms(1)]) (simp add: rebuilds_def)
  qed
qed

lemma rebuilds_set_len:
  assumes wf: "store_wf qd w" and d: "w_data w i = hb @ concat (map (frame crc) sts) @ ts"
    and hb: "parse_segment_header hb = Ok h" and ok: "\<forall>st \<in> set sts. stored_ok (hm_compression h) st"
    and none: "scan_frames crc (hm_compression h) ts = []"
    and run: "fs_set_len i (length (hb @ concat (map (frame crc) sts))) w = (x, w')"
  shows "rebuilds crc qd p i w w' \<and> w_dir w' = w_dir w \<and> w_lost w' = w_lost w \<and>
    (x = Ok () \<longrightarrow> w_data w' i = hb @ concat (map (frame crc) sts))"
proof -
  let ?n = "length (hb @ concat (map (frame crc) sts))"
  have wft: "store_wf qd (io_tick w)" by (rule recovers_wf [OF recovers_tick [OF wf]])
  from fs_set_len_effect [OF run] show ?thesis
  proof (elim disjE conjE)
    assume "w' = io_tick w" "x \<noteq> Ok ()" then show ?thesis using rebuilds_tick [OF wf] by simp
  next
    assume w': "w' = w_set_len i ?n (io_tick w)"
    have dt: "w_data (io_tick w) i = hb @ concat (map (frame crc) sts) @ ts" using d by simp
    have "recovers crc qd {p} (io_tick w) w'" unfolding w' by (rule recovers_set_len(1) [OF wft dt hb ok none])
    then have "rebuilds crc qd p i w w'"
      by (intro rebuilds_tick_left [OF wf] rebuilds_contents) (simp_all add: w' w_set_len_def)
    moreover have "w_data w' i = hb @ concat (map (frame crc) sts)"
      unfolding w' by (rule recovers_set_len(2) [OF wft dt hb ok none])
    ultimately show ?thesis by (simp add: w' w_set_len_def)
  qed
qed

text \<open>The steps of a rebuild up to the rename.\<close>

lemma header_ok_image: "parse_segment_header hb = Ok h \<Longrightarrow> header_ok (hb @ bs)"
  using header_magic_version [of hb h] by (auto simp: header_ok_def SEGMENT_HEADER_LEN_def)

lemma recover_rebuild_effect:
  assumes wf: "store_wf qd w" and p: "w_entry w p = Some i" "active_name p" "fst p \<noteq> qd"
    and d: "w_data w i = hb @ concat (map (frame (crc_hash C)) sts) @ ts"
    and hb: "parse_segment_header hb = Ok h" and ok: "\<forall>st \<in> set sts. stored_ok (hm_compression h) st"
    and none: "scan_frames (crc_hash C) (hm_compression h) ts = []"
    and s: "rp_valid_end s = length (hb @ concat (map (frame (crc_hash C)) sts))" "rp_count s = length sts"
      "rp_data_bytes s = sum_list (map length sts)"
      "crc_finalize C (rp_crc s) = crc_hash C (hb @ concat (map (frame (crc_hash C)) sts))"
    and run: "recover_rebuild C p s w = (x, w')"
  shows "rebuilds (crc_hash C) qd p i w w'"
    and "x = Ok q \<Longrightarrow> q = sealed_path_for p \<and> w_entry w' p = None \<and> w_entry w' q = Some i \<and> w_ddir w' q = Some i \<and>
      w_data w' i = sealed_bytes (crc_hash C) hb sts (unix_nanos_now w) \<and> (\<not> w_lost w i \<longrightarrow> w_disk w' i = w_data w' i)"
proof -
  let ?v = "hb @ concat (map (frame (crc_hash C)) sts)" and ?s = "sealed_path_for p" and ?R = "rebuilds (crc_hash C) qd p i"
  let ?ft = "build_segment_footer (of_nat (length sts)) (of_nat (sum_list (map length sts))) (crc_hash C ?v) (unix_nanos_now w)"
  obtain y1 w1 where s1: "fs_open_write p w = (y1, w1)" by fastforce
  obtain y2 w2 where s2: "fs_set_len i (length ?v) w1 = (y2, w2)" by fastforce
  obtain y3 w3 where s3: "fs_seek w2 = (y3, w3)" by fastforce
  obtain y4 w4 where s4: "fs_write_all i SENTINEL w3 = (y4, w4)" by fastforce
  obtain y5 w5 where s5: "fs_write_all i ?ft w4 = (y5, w5)" by fastforce
  obtain y6 w6 where s6: "fs_sync_data i w5 = (y6, w6)" by fastforce
  obtain y7 w7 where s7: "fs_rename p ?s w6 = (y7, w7)" by fastforce
  obtain y8 w8 where s8: "fs_sync_dir (fst p) w7 = (y8, w8)" by fastforce
  have w1: "w1 = io_tick w" and y1: "y1 = Ok j \<Longrightarrow> j = i" for j using fs_open_write_effect [OF s1] p(1) by auto
  have out: "(x, w') = (case y1 of Inl k \<Rightarrow> (Err k, w1) | Inr _ \<Rightarrow> case y2 of Inl k \<Rightarrow> (Err k, w2) | Inr _ \<Rightarrow>
      case y3 of Inl k \<Rightarrow> (Err k, w3) | Inr _ \<Rightarrow> case y4 of Inl k \<Rightarrow> (Err k, w4) | Inr _ \<Rightarrow>
      case y5 of Inl k \<Rightarrow> (Err k, w5) | Inr _ \<Rightarrow> case y6 of Inl k \<Rightarrow> (Err k, w6) | Inr _ \<Rightarrow>
      case y7 of Inl k \<Rightarrow> (Err k, w7) | Inr _ \<Rightarrow> case y8 of Inl k \<Rightarrow> (Err k, w8) | Inr _ \<Rightarrow> (Ok ?s, w8))"
    using run s1 s2 s3 s4 s5 s6 s7 s8 y1
    by (auto simp: recover_rebuild_def s build_sentinel_def Let_def sealed_path_for_eq split: sum.splits)
  have r1: "?R w w1" unfolding w1 by (rule rebuilds_tick [OF wf])
  have d1: "w_data w1 i = ?v @ ts" using d by (simp add: w1)
  note l2 = rebuilds_set_len [OF rebuilds_wf [OF r1] d1 [unfolded append_assoc] hb ok none s2, of p]
  have r2: "?R w w2" using rebuilds_trans [OF wf r1] l2 by blast
  have w3: "w3 = io_tick w2" by (rule fs_seek_effect [OF s3])
  have r3: "?R w w3" unfolding w3 by (rule rebuilds_trans [OF wf r2 rebuilds_tick [OF rebuilds_wf [OF r2]]])
  have "?R w w' \<and> (x = Ok q \<longrightarrow> q = ?s \<and> w_entry w' p = None \<and> w_entry w' q = Some i \<and> w_ddir w' q = Some i \<and>
      w_data w' i = sealed_bytes (crc_hash C) hb sts (unix_nanos_now w) \<and> (\<not> w_lost w i \<longrightarrow> w_disk w' i = w_data w' i))"
  proof (cases "y1 = Ok i \<and> y2 = Ok () \<and> y3 = Ok ()")
    case False
    then show ?thesis using out y1 r1 r2 r3 by (auto split: sum.splits)
  next
    case True
    then have d3: "w_data w3 i = ?v" "w_dir w3 = w_dir w" "w_lost w3 = w_lost w" using l2 by (auto simp: w3 w1)
    obtain n4 where w4: "w4 = w_append i (take n4 SENTINEL) (io_tick w3)" "y4 = Ok () \<Longrightarrow> take n4 SENTINEL = SENTINEL"
      using fs_write_all_effect [OF s4] by blast
    obtain n5 where w5: "w5 = w_append i (take n5 ?ft) (io_tick w4)" "y5 = Ok () \<Longrightarrow> take n5 ?ft = ?ft"
      using fs_write_all_effect [OF s5] by blast
    have h3: "header_ok (w_data w3 i)" using d3 header_ok_image [OF hb] by simp
    have h4: "header_ok (w_data w4 i)" using h3 by (simp add: w4 w_append_def header_ok_append)
    have r4: "?R w w4" by (rule rebuilds_trans [OF wf r3 rebuilds_write [OF rebuilds_wf [OF r3] h3 s4]])
    have r5: "?R w w5" by (rule rebuilds_trans [OF wf r4 rebuilds_write [OF rebuilds_wf [OF r4] h4 s5]])
    have r6: "?R w w6" by (rule rebuilds_trans [OF wf r5 rebuilds_sync_data [OF rebuilds_wf [OF r5] s6]])
    have d6: "w_dir w6 = w_dir w" "w_data w6 = w_data w5" "w_lost w5 = w_lost w"
      using fs_sync_data_effect [OF s6] d3 by (auto simp: w5 w4 w_append_def)
    have e6: "w_entry w6 p = Some i" using w_entry_cong [OF d6(1)] p(1) by simp
    have r7: "?R w w7" by (rule rebuilds_trans [OF wf r6 rebuilds_rename [OF rebuilds_wf [OF r6] e6 p(2,3) s7]])
    have r8: "?R w w8" by (rule rebuilds_trans [OF wf r7 rebuilds_sync_dir [OF rebuilds_wf [OF r7] s8]])
    show ?thesis
    proof (cases "y4 = Ok () \<and> y5 = Ok () \<and> y6 = Ok () \<and> y7 = Ok () \<and> y8 = Ok ()")
      case False
      then show ?thesis using out True r4 r5 r6 r7 r8 by (auto split: sum.splits)
    next
      case y: True
      have d5: "w_data w5 i = sealed_bytes (crc_hash C) hb sts (unix_nanos_now w)"
        using y w4 w5 d3 by (simp add: w_append_def sealed_bytes_def)
      have k6: "\<not> w_lost w i \<Longrightarrow> w_disk w6 i = w_data w6 i" using fs_sync_data_effect [OF s6] d6 y by auto
      have w7: "w7 = (io_tick w6)\<lparr>w_dir := AList.update ?s i (AList.delete p (w_dir w6))\<rparr>"
        using fs_rename_effect [OF s7] y e6 by auto
      have e7: "w_entry w7 r = (if r = ?s then Some i else if r = p then None else w_entry w6 r)" for r
        unfolding w7 by simp
      have w8: "w8 = (io_tick w7)\<lparr>w_ddir := (\<lambda>r. if fst r = fst p then w_entry w7 r else w_ddir w7 r)\<rparr>"
        using fs_sync_dir_effect [OF s8] y by auto
      have e8: "w_entry w8 = w_entry w7" by (rule w_entry_cong) (simp add: w8)
      have "w_ddir w8 ?s = Some i" using e7 by (simp add: w8 sealed_path_for_eq)
      moreover have "w_data w8 = w_data w5" "w_disk w8 = w_disk w6" by (simp_all add: w8 w7 d6)
      moreover have "x = Ok ?s" "w' = w8" using out True y by auto
      ultimately show ?thesis using r8 e8 e7 d5 k6 d6 active_sealed_apart(3) [OF p(2), of p] by auto
    qed
  qed
  then show "?R w w'" and "x = Ok q \<Longrightarrow> q = ?s \<and> w_entry w' p = None \<and> w_entry w' q = Some i \<and> w_ddir w' q = Some i \<and>
      w_data w' i = sealed_bytes (crc_hash C) hb sts (unix_nanos_now w) \<and> (\<not> w_lost w i \<longrightarrow> w_disk w' i = w_data w' i)"
    by auto
qed

section \<open>The verdict on the tail\<close>

text \<open>
  The shapes of a tail behind the valid records that are truncated without a copy: too short for
  a length field; a length field of a legal size whose record the file does not hold; a bare
  sentinel; a sentinel and a footer that agrees with the records; an oversized length field that
  is the last thing in the file.
\<close>

definition harmless_tail :: "(bytes \<Rightarrow> u32) \<Rightarrow> nat \<Rightarrow> bytes \<Rightarrow> bytes list \<Rightarrow> bytes \<Rightarrow> bool" where
  "harmless_tail crc cap hb sts ts \<longleftrightarrow>
     length ts < 4 \<or>
     0 < len_field ts \<and> len_field ts \<le> cap \<and> length ts < 8 + len_field ts \<or>
     ts = SENTINEL \<or>
     take 4 ts = SENTINEL \<and>
       (case parse_segment_footer (drop 4 ts) of
          Inl _ \<Rightarrow> False
        | Inr f \<Rightarrow> fm_record_count f = of_nat (length sts) \<and> fm_data_bytes f = of_nat (sum_list (map length sts)) \<and>
                  fm_file_crc32 f = crc (hb @ concat (map (frame crc) sts))) \<or>
     cap < len_field ts \<and> length ts = 4"

lemma footer_Err: "length fb \<noteq> 32 \<Longrightarrow> \<exists>e. parse_segment_footer fb = Err e"
  by (auto simp: parse_segment_footer_def SEGMENT_FOOTER_LEN_def)

lemma len_field_sentinel: "len_field (SENTINEL @ x) = 0"
  using u32_from_le_zero [of SENTINEL] by (simp add: len_field_def)

lemma take_sentinel: "4 \<le> length ts \<Longrightarrow> len_field ts \<noteq> 0 \<Longrightarrow> take 4 ts \<noteq> SENTINEL"
  using u32_from_le_zero [of "take 4 ts"] by (auto simp: len_field_def)

text \<open>
  For a replay that read the whole file, the verdict is \<open>None\<close> exactly on the harmless tails,
  except that a failing \<open>metadata\<close> call always asks for a copy.
\<close>

lemma quarantine_reason_exact:
  assumes run: "quarantine_reason C i e s w = (reason, w')"
    and e: "ends_as (crc_hash C) cap f ts0 e" "\<forall>k. e \<noteq> EndIo k"
    and f: "f \<noteq> Some UnexpectedEof" "ts = ts0 @ unread" "f = None \<Longrightarrow> unread = []"
    and d: "w_data w i = hb @ concat (map (frame (crc_hash C)) sts) @ ts"
    and s: "rp_valid_end s = length (hb @ concat (map (frame (crc_hash C)) sts))" "rp_count s = length sts"
      "rp_data_bytes s = sum_list (map length sts)"
      "crc_finalize C (rp_crc s) = crc_hash C (hb @ concat (map (frame (crc_hash C)) sts))"
  shows "(\<exists>n. w' = w\<lparr>w_tick := n\<rparr>)"
    and "reason = None \<Longrightarrow> harmless_tail (crc_hash C) cap hb sts ts"
    and "f = None \<Longrightarrow> (\<forall>k. w_io w (w_tick w) \<noteq> IoFail k) \<Longrightarrow> harmless_tail (crc_hash C) cap hb sts ts \<Longrightarrow> reason = None"
proof -
  have len: "length (w_data w i) = rp_valid_end s + length ts" using d s(1) by simp
  let ?H = "harmless_tail (crc_hash C) cap hb sts ts"
  have "(\<exists>n. w' = w\<lparr>w_tick := n\<rparr>) \<and> (reason = None \<longrightarrow> ?H) \<and>
    (f = None \<longrightarrow> (\<forall>k. w_io w (w_tick w) \<noteq> IoFail k) \<longrightarrow> ?H \<longrightarrow> reason = None)"
  proof (cases e)
    case EndTorn
    then have "ts = ts0" using e f by (auto simp: rd_end_def split: option.splits)
    then show ?thesis using EndTorn run e by (auto simp: quarantine_reason_def harmless_tail_def intro: exI [of _ "w_tick w"])
  next
    case (EndIo k)
    then show ?thesis using e by simp
  next
    case (EndCrc a b)
    then have "len_field ts > 0" "8 + len_field ts \<le> length ts" "len_field ts \<le> cap" using e f by (auto simp: len_field_def)
    then have "\<not> ?H" using take_sentinel [of ts] len_field_sentinel [of "[]"] by (auto simp: harmless_tail_def)
    then show ?thesis using run EndCrc by (auto simp: quarantine_reason_def intro: exI [of _ "w_tick w"])
  next
    case (EndOversized n)
    then have n: "4 \<le> length ts" "cap < len_field ts" using e f by (auto simp: len_field_def)
    then have "?H \<longleftrightarrow> length ts = 4" using take_sentinel [of ts] len_field_sentinel [of "[]"] by (auto simp: harmless_tail_def)
    then show ?thesis using run EndOversized len n
      by (auto simp: quarantine_reason_def fs_metadata_len_def io_step_tick io_tick_idle split: io_outcome.splits if_splits)
  next
    case (EndZero r)
    define z where "z = rd_rest r @ unread"
    have r: "ts = SENTINEL @ z" using e f EndZero by (simp add: z_def)
    have H: "?H \<longleftrightarrow> z = [] \<or> (case parse_segment_footer z of Inl _ \<Rightarrow> False
        | Inr f \<Rightarrow> fm_record_count f = of_nat (length sts) \<and> fm_data_bytes f = of_nat (sum_list (map length sts)) \<and>
                  fm_file_crc32 f = crc_hash C (hb @ concat (map (frame (crc_hash C)) sts)))"
      using len_field_sentinel [of z] by (auto simp: harmless_tail_def r)
    have l: "length (w_data w i) - (rp_valid_end s + 4) = length z" using len r by simp
    consider (none) "z = []" | (footer) "length z = 32" | (other) "z \<noteq> []" "length z \<noteq> 32" by blast
    then show ?thesis
    proof cases
      case none
      then show ?thesis using run EndZero H l
        by (auto simp: quarantine_reason_def fs_metadata_len_def io_step_tick io_tick_idle Let_def split: io_outcome.splits)
    next
      case footer
      have rd: "read_exact SEGMENT_FOOTER_LEN r = (if unread = [] then Ok (z, r\<lparr>rd_rest := []\<rparr>) else Err (rd_end r))"
        using footer by (simp add: read_exact_def SEGMENT_FOOTER_LEN_def z_def) (metis length_greater_0_conv less_add_same_cancel1 not_le)
      obtain fm where "parse_segment_footer z = Ok fm" "z \<noteq> []" using footer_parses [OF footer] footer by fastforce
      then show ?thesis using run EndZero H l footer s(2-4) rd f
        by (auto simp: quarantine_reason_def fs_metadata_len_def io_step_tick io_tick_idle Let_def SEGMENT_FOOTER_LEN_def
            split: io_outcome.splits if_splits)
    next
      case other
      then have "\<not> ?H" using H footer_Err [of z] by auto
      then show ?thesis using run EndZero l other
        by (auto simp: quarantine_reason_def fs_metadata_len_def io_step_tick io_tick_idle Let_def SEGMENT_FOOTER_LEN_def
            split: io_outcome.splits if_splits)
    qed
  qed
  then show "(\<exists>n. w' = w\<lparr>w_tick := n\<rparr>)" "reason = None \<Longrightarrow> ?H"
    "f = None \<Longrightarrow> (\<forall>k. w_io w (w_tick w) \<noteq> IoFail k) \<Longrightarrow> ?H \<Longrightarrow> reason = None" by auto
qed

section \<open>One segment\<close>

lemma recover_segment_cases:
  assumes streams: "crc_streams C" and p: "w_entry w p = Some i" and run: "recover_segment C p wab w m = (x, w', m')"
  obtains
    (failed) k where "x = Err k" "w' = io_tick w" "m' = m" "\<exists>n. w_io w n \<noteq> IoDone"
  | (unreadable) k where "\<not> header_ok (w_data w i)" "x = Err k" "quarantine_and_count p wab (io_tick w) m = (k, w', m')"
  | (replayed) hb h sts ts s reason w1 where "parse_segment_header hb = Ok h"
      "w_data w i = hb @ concat (map (frame (crc_hash C)) sts) @ ts" "\<forall>st \<in> set sts. stored_ok (hm_compression h) st"
      "scan_frames (crc_hash C) (hm_compression h) ts = []" "\<exists>n. w1 = w\<lparr>w_tick := n\<rparr>"
      "reason = None \<Longrightarrow> harmless_tail (crc_hash C) (stored_cap (hm_compression h)) hb sts ts"
      "(\<forall>n. w_io w n = IoDone) \<Longrightarrow> harmless_tail (crc_hash C) (stored_cap (hm_compression h)) hb sts ts \<Longrightarrow> reason = None"
      "rp_valid_end s = length (hb @ concat (map (frame (crc_hash C)) sts))" "rp_count s = length sts"
      "rp_data_bytes s = sum_list (map length sts)"
      "crc_finalize C (rp_crc s) = crc_hash C (hb @ concat (map (frame (crc_hash C)) sts))"
      "recover_tail C p wab s reason w1 m = (x, w', m')"
proof -
  obtain y0 w0 where s0: "fs_open p w = (y0, w0)" by fastforce
  have w0: "w0 = io_tick w" using fs_open_effect [OF s0] by simp
  have good: "y0 = Ok (i, file_reader (w_data w i))" if "\<forall>n. w_io w n = IoDone"
    using s0 p that by (simp add: fs_open_def io_step_tick)
  show thesis
  proof (cases y0)
    case (Inl k)
    then show thesis using run s0 w0 good by (intro failed [of k]) (auto simp: recover_segment_def)
  next
    case (Inr ir)
    then obtain r where y0: "y0 = Ok (i, r)" and pre: "prefix (rd_rest r) (w_data w i)"
      and full: "rd_fail r = None \<Longrightarrow> rd_rest r = w_data w i" and nf: "rd_fail r \<noteq> Some UnexpectedEof"
      using fs_open_effect [OF s0] p by (cases ir) auto
    show thesis
    proof (cases "read_exact SEGMENT_HEADER_LEN r")
      case (Inl k)
      note short = read_exact_ErrD [OF Inl]
      show thesis
      proof (cases "k = UnexpectedEof")
        case True
        then have "rd_rest r = w_data w i" using short nf full by (auto simp: rd_end_def split: option.splits)
        then have "\<not> header_ok (w_data w i)"
          using short header_magic_version by (fastforce simp: header_ok_def SEGMENT_HEADER_LEN_def)
        then show thesis using run s0 y0 Inl True w0
          by (auto simp: recover_segment_def split: prod.splits intro!: unreadable)
      next
        case False
        then have "rd_fail r \<noteq> None" using short by (cases "rd_fail r") (auto simp: rd_end_def)
        then have "\<exists>n. w_io w n \<noteq> IoDone" using good y0 by fastforce
        then show thesis using False run s0 y0 Inl w0 by (intro failed [of k]) (auto simp: recover_segment_def)
      qed
    next
      case (Inr hr)
      then obtain hb r1 where hb: "read_exact SEGMENT_HEADER_LEN r = Ok (hb, r1)" by (cases hr) auto
      then have lhb: "length hb = 24" "rd_rest r = hb @ rd_rest r1" "rd_fail r1 = rd_fail r"
        by (auto simp: read_exact_Ok SEGMENT_HEADER_LEN_def)
      have take: "take SEGMENT_HEADER_LEN (w_data w i) = hb"
        using pre lhb by (auto simp: prefix_def SEGMENT_HEADER_LEN_def)
      show thesis
      proof (cases "parse_segment_header hb")
        case (Inl e)
        then have "\<not> header_ok (w_data w i)" by (simp add: header_ok_def take)
        then show thesis using run s0 y0 hb Inl w0
          by (auto simp: recover_segment_def split: prod.splits if_splits intro!: unreadable)
      next
        case (Inr h)
        note ph = header_magic_version [OF Inr]
        let ?s0 = "\<lparr>rp_crc = crc_update C (crc_new C) hb, rp_count = 0, rp_data_bytes = 0, rp_valid_end = SEGMENT_HEADER_LEN\<rparr>"
        obtain e s where rep: "replay_records C (stored_cap (hm_compression h)) r1 ?s0 = (e, s)" by fastforce
        have "hashes C (rp_crc ?s0) hb" using hashes_update [OF hashes_new, of C hb] by simp
        from replay_finds [OF rep this] obtain sts ts where
          f: "rd_rest r1 = concat (map (frame (crc_hash C)) sts) @ ts" "\<forall>st \<in> set sts. stored_ok (hm_compression h) st"
            "ends_as (crc_hash C) (stored_cap (hm_compression h)) (rd_fail r1) ts e"
            "rp_count s = length sts" "rp_data_bytes s = sum_list (map length sts)"
            "rp_valid_end s = 24 + length (concat (map (frame (crc_hash C)) sts))"
          and hs: "hashes C (rp_crc s) (hb @ concat (map (frame (crc_hash C)) sts))"
          by (auto simp: SEGMENT_HEADER_LEN_def)
        have fin: "crc_finalize C (rp_crc s) = crc_hash C (hb @ concat (map (frame (crc_hash C)) sts))"
          using crc_engine.finalize_hashes [OF _ hs] streams by (simp add: crc_engine_def)
        have nv: "\<not> FORMAT_VERSION_MAX_SUPPORTED < hb ! 4" using ph by (simp add: not_less)
        have rest: "recover_segment C p wab w m = (case e of EndIo k \<Rightarrow> (Err k, w0, m) | _ \<Rightarrow>
            (case quarantine_reason C i e s w0 of (reason, w1) \<Rightarrow> recover_tail C p wab s reason w1 m))"
          using s0 y0 hb Inr ph nv rep
          by (simp add: recover_segment_def Let_def subslice_def split: replay_end.split)
        show thesis
        proof (cases "\<exists>k. e = EndIo k")
          case True
          then have "rd_fail r \<noteq> None" using f(3) lhb by auto
          then have "\<exists>n. w_io w n \<noteq> IoDone" using good y0 by fastforce
          then show thesis using True run rest w0 by (auto intro: failed)
        next
          case False
          obtain unread where un: "w_data w i = rd_rest r @ unread" using pre by (auto simp: prefix_def)
          then have un0: "rd_fail r1 = None \<Longrightarrow> unread = []" using full lhb by auto
          define ts' where "ts' = ts @ unread"
          have d: "w_data w i = hb @ concat (map (frame (crc_hash C)) sts) @ ts'" using un lhb f by (simp add: ts'_def)
          obtain reason w1 where q: "quarantine_reason C i e s w0 = (reason, w1)" by fastforce
          have ne: "\<forall>k. e \<noteq> EndIo k" and nf1: "rd_fail r1 \<noteq> Some UnexpectedEof" using False nf lhb by auto
          have ve: "rp_valid_end s = length (hb @ concat (map (frame (crc_hash C)) sts))" using f lhb by simp
          have d0: "w_data w0 i = hb @ concat (map (frame (crc_hash C)) sts) @ ts'" using d w0 by simp
          note qe = quarantine_reason_exact [OF q f(3) ne nf1 ts'_def un0 d0 ve f(4,5) fin]
          have io: "rd_fail r1 = None" "w_io w0 n = IoDone" if "\<forall>n. w_io w n = IoDone" for n
            using that good y0 lhb by (auto simp: w0)
          show thesis
          proof (rule replayed [OF Inr d f(2) _ _ qe(2) _ ve f(4,5) fin])
            show "scan_frames (crc_hash C) (hm_compression h) ts' = []"
              unfolding ts'_def by (rule ends_as_no_frame [OF f(3) ne nf1 un0])
            show "\<exists>n. w1 = w\<lparr>w_tick := n\<rparr>" using qe(1) by (auto simp: w0 io_tick_def)
            show "recover_tail C p wab s reason w1 m = (x, w', m')"
              using run rest q ne by (auto split: replay_end.splits)
            show "reason = None" if "\<forall>n. w_io w n = IoDone" "harmless_tail (crc_hash C) (stored_cap (hm_compression h)) hb sts ts'"
              using qe(3) io that by simp
          qed
        qed
      qed
    qed
  qed
qed

text \<open>A copy of \<open>bs\<close> under a name of \<open>qd\<close>, now and after a crash, in a file with no name elsewhere.\<close>

definition preserved :: "bytes \<Rightarrow> bytes \<Rightarrow> world \<Rightarrow> bool" where
  "preserved qd bs w \<longleftrightarrow> (\<exists>q j. fst q = qd \<and> w_entry w q = Some j \<and> w_ddir w q = Some j \<and> w_disk w j = bs \<and>
     (\<forall>r. w_entry w r = Some j \<longrightarrow> fst r = qd))"

text \<open>
  Of what existed, only the file \<open>i\<close> changes, the names of \<open>qd\<close> keep their files, and no name
  outside \<open>qd\<close> gets another file than \<open>i\<close>.
\<close>

definition rest_kept :: "bytes \<Rightarrow> nat \<Rightarrow> world \<Rightarrow> world \<Rightarrow> bool" where
  "rest_kept qd i w w' \<longleftrightarrow> w_next w \<le> w_next w' \<and>
     (\<forall>j < w_next w. j \<noteq> i \<longrightarrow> w_data w' j = w_data w j \<and> w_disk w' j = w_disk w j) \<and>
     (\<forall>q j. fst q = qd \<longrightarrow> w_entry w q = Some j \<longrightarrow> w_entry w' q = Some j \<and> (w_ddir w q = Some j \<longrightarrow> w_ddir w' q = Some j)) \<and>
     (\<forall>q j. fst q \<noteq> qd \<longrightarrow> w_entry w' q = Some j \<longrightarrow> w_entry w q = Some j \<or> j = i)"

lemma rest_kept_refl: "rest_kept qd i w w"
  by (simp add: rest_kept_def)

lemma rest_kept_idle: "rest_kept qd i w (w\<lparr>w_tick := n\<rparr>)"
  by (simp add: rest_kept_def w_entry_def)

lemma rest_kept_trans:
  assumes ab: "rest_kept qd i a b" and bc: "rest_kept qd i b c" shows "rest_kept qd i a c"
proof -
  have "w_entry a q = Some j \<or> j = i" if "fst q \<noteq> qd" "w_entry c q = Some j" for q j
    using ab bc that unfolding rest_kept_def by blast
  then show ?thesis using ab bc by (simp add: rest_kept_def)
qed

lemma aside_rest_kept: "recovers crc qd ps w w' \<Longrightarrow> aside qd w w' \<Longrightarrow> rest_kept qd i w w'"
  by (simp add: rest_kept_def aside_def recovers_def)

lemma rebuilds_rest_kept:
  assumes "rebuilds crc qd p i w w'" "fst p \<noteq> qd" shows "rest_kept qd i w w'"
proof -
  have "w_entry w q = Some j \<or> j = i" if "w_entry w' q = Some j" for q j
    using assms(1) that unfolding rebuilds_def only_file_def by (metis empty_iff insert_iff option.distinct(1) option.inject)
  then show ?thesis using assms by (simp add: rest_kept_def rebuilds_def only_file_def)
qed

lemma preserved_kept:
  assumes k: "rest_kept qd i w w'" and wf: "store_wf qd w" and p: "w_entry w p = Some i" "fst p \<noteq> qd" and c: "preserved qd bs w"
  shows "preserved qd bs w'"
proof -
  obtain q j where q: "fst q = qd" "w_entry w q = Some j" "w_ddir w q = Some j" "w_disk w j = bs" "\<forall>r. w_entry w r = Some j \<longrightarrow> fst r = qd"
    using c unfolding preserved_def by blast
  have j: "j \<noteq> i" "j < w_next w" using q(5) p store_wf_next [OF wf, of q j] q(2) by auto
  have "w_entry w' q = Some j" "w_ddir w' q = Some j" "w_disk w' j = bs" using k q j by (simp_all add: rest_kept_def)
  moreover have "fst r = qd" if "w_entry w' r = Some j" for r
  proof (rule ccontr)
    assume "fst r \<noteq> qd"
    then have "w_entry w r = Some j" using k that j(1) unfolding rest_kept_def by blast
    then show False using q(5) \<open>fst r \<noteq> qd\<close> by blast
  qed
  ultimately show ?thesis using q(1) unfolding preserved_def by blast
qed

text \<open>The segment at \<open>p\<close>, file \<open>i\<close>, has been sealed with the records \<open>sts\<close>.\<close>

definition resealed :: "(bytes \<Rightarrow> u32) \<Rightarrow> path \<Rightarrow> nat \<Rightarrow> bytes \<Rightarrow> bytes list \<Rightarrow> world \<Rightarrow> bool" where
  "resealed crc p i hb sts w \<longleftrightarrow> w_entry w p = None \<and> w_entry w (sealed_path_for p) = Some i \<and>
     w_ddir w (sealed_path_for p) = Some i \<and> (\<exists>t. w_data w i = sealed_bytes crc hb sts t)"

lemma recover_tail_effect:
  fixes C :: "'h crc_ops" and wab :: bytes
  defines "crc \<equiv> crc_hash C" and "qd \<equiv> quarantine_dir wab"
  assumes wf: "store_wf qd w" and p: "w_entry w p = Some i" "active_name p" "fst p \<noteq> qd"
    and d: "w_data w i = hb @ concat (map (frame crc) sts) @ ts"
    and hb: "parse_segment_header hb = Ok h" and ok: "\<forall>st \<in> set sts. stored_ok (hm_compression h) st"
    and none: "scan_frames crc (hm_compression h) ts = []"
    and s: "rp_valid_end s = length (hb @ concat (map (frame crc) sts))" "rp_count s = length sts"
      "rp_data_bytes s = sum_list (map length sts)" "crc_finalize C (rp_crc s) = crc (hb @ concat (map (frame crc) sts))"
    and run: "recover_tail C p wab s reason w m = (x, w', m')"
  shows "recovers crc qd {p} w w'"
    and "rest_kept qd i w w'"
    and "w_data w' i = w_data w i \<and> w_disk w' i = w_disk w i \<or> reason = None \<or> preserved qd (w_data w i) w'"
    and "x = Ok q \<Longrightarrow> q = sealed_path_for p \<and> resealed crc p i hb sts w' \<and> (\<not> w_lost w i \<longrightarrow> w_disk w' i = w_data w' i) \<and>
      (reason = None \<or> preserved qd (w_data w i) w') \<and> rm_sealed m' = rm_sealed m + 1"
proof -
  have fin: "recovers crc qd {p} v w' \<and> rebuilds crc qd p i v w' \<and>
      (x = Ok q \<longrightarrow> q = sealed_path_for p \<and> resealed crc p i hb sts w' \<and> (\<not> w_lost v i \<longrightarrow> w_disk w' i = w_data w' i) \<and>
        rm_sealed m' = rm_sealed n + 1)"
    if v: "store_wf qd v" "w_entry v p = Some i" "w_data v i = w_data w i"
      and r: "(case recover_rebuild C p s v of (Inl k, w) \<Rightarrow> (Err k, w, n)
            | (Inr sealed, w) \<Rightarrow> (Ok sealed, w, n\<lparr>rm_sealed := rm_sealed n + 1\<rparr>)) = (x, w', m')" for v n
  proof -
    obtain y v' where rb: "recover_rebuild C p s v = (y, v')" by fastforce
    have v': "v' = w'" "x = y" "y = Ok q \<Longrightarrow> rm_sealed m' = rm_sealed n + 1" using r rb by (auto split: sum.splits)
    note e = recover_rebuild_effect [OF v(1,2) p(2,3) _ hb ok [unfolded crc_def] none [unfolded crc_def]
        s [unfolded crc_def] rb, folded crc_def, unfolded v(3), OF d]
    show ?thesis using e(1) e(2) [of q] v' unfolding rebuilds_def resealed_def by blast
  qed
  have rk: "rest_kept qd i v w'" if "rebuilds crc qd p i v w'" for v by (rule rebuilds_rest_kept [OF that p(3)])
  have "recovers crc qd {p} w w' \<and> rest_kept qd i w w' \<and>
    (w_data w' i = w_data w i \<and> w_disk w' i = w_disk w i \<or> reason = None \<or> preserved qd (w_data w i) w') \<and>
    (x = Ok q \<longrightarrow> q = sealed_path_for p \<and> resealed crc p i hb sts w' \<and> (\<not> w_lost w i \<longrightarrow> w_disk w' i = w_data w' i) \<and>
      (reason = None \<or> preserved qd (w_data w i) w') \<and> rm_sealed m' = rm_sealed m + 1)"
  proof (cases reason)
    case None
    then show ?thesis using fin [OF wf p(1) refl] run rk by (auto simp: recover_tail_def)
  next
    case (Some c)
    obtain y v where cq: "copy_to_quarantine p wab w = (y, v)" by fastforce
    note ce = copy_to_quarantine_effect [OF wf [unfolded qd_def] p(1) cq, folded qd_def]
    have i: "i < w_next w" using store_wf_next [OF wf] p(1) by blast
    have a: "recovers crc qd {p} w v" "aside qd w v" "store_wf qd v"
      using ce(1) [of crc] recovers_mono [of crc qd "{}" w v "{p}"] by (auto simp: stays_aside_def recovers_def)
    have vi: "w_data v i = w_data w i" "w_disk v i = w_disk w i" "w_lost v i = w_lost w i" "w_entry v p = Some i"
      using a(2) i p by (auto simp: aside_def)
    show ?thesis
    proof (cases y)
      case (Inl k)
      then have "w' = v" "x = Err (OtherIo 3)" using run Some cq by (auto simp: recover_tail_def)
      then show ?thesis using a vi aside_rest_kept [OF a(1,2)] by simp
    next
      case (Inr q')
      have "(case recover_rebuild C p s v of (Inl k, w) \<Rightarrow> (Err k, w, m\<lparr>rm_quarantined := rm_quarantined m + 1\<rparr>)
            | (Inr sealed, w) \<Rightarrow> (Ok sealed, w, m\<lparr>rm_quarantined := rm_quarantined m + 1,
                 rm_sealed := rm_sealed (m\<lparr>rm_quarantined := rm_quarantined m + 1\<rparr>) + 1\<rparr>)) = (x, w', m')"
        using run Some cq Inr by (auto simp: recover_tail_def split: prod.splits sum.splits)
      note dn = fin [OF a(3) vi(4,1) this]
      obtain j where j: "fst q' = qd" "w_next w \<le> j" "w_entry v q' = Some j" "w_ddir v q' = Some j" "w_disk v j = w_data w i"
        using ce(2) [of q'] Inr by auto
      have "fst r = qd" if "w_entry v r = Some j" for r
        using that a(2) j(2) store_wf_next [OF wf, of r j] by (cases "fst r = qd") (auto simp: aside_def)
      then have "preserved qd (w_data w i) v" using j unfolding preserved_def by blast
      moreover have k: "rest_kept qd i v w'" using dn rk by blast
      ultimately have "preserved qd (w_data w i) w'" using preserved_kept [OF _ a(3) vi(4) p(3)] by blast
      then show ?thesis using dn recovers_trans [OF a(1) _ wf] vi rest_kept_trans [OF aside_rest_kept [OF a(1,2)] k] by auto
    qed
  qed
  then show "recovers crc qd {p} w w'" and "rest_kept qd i w w'"
    and "w_data w' i = w_data w i \<and> w_disk w' i = w_disk w i \<or> reason = None \<or> preserved qd (w_data w i) w'"
    and "x = Ok q \<Longrightarrow> q = sealed_path_for p \<and> resealed crc p i hb sts w' \<and> (\<not> w_lost w i \<longrightarrow> w_disk w' i = w_data w' i) \<and>
      (reason = None \<or> preserved qd (w_data w i) w') \<and> rm_sealed m' = rm_sealed m + 1" by auto
qed

text \<open>Everything about one segment, whatever fails.\<close>

lemma recover_segment_effect:
  fixes C :: "'h crc_ops" and wab :: bytes
  defines "crc \<equiv> crc_hash C" and "qd \<equiv> quarantine_dir wab"
  assumes streams: "crc_streams C" and wf: "store_wf qd w"
    and p: "w_entry w p = Some i" "active_name p" "fst p \<noteq> qd"
    and run: "recover_segment C p wab w m = (x, w', m')"
  shows "recovers crc qd {p} w w'"
    and "w_data w' i = w_data w i \<and> w_disk w' i = w_disk w i \<or> preserved qd (w_data w i) w' \<or>
      (\<exists>hb h sts ts. parse_segment_header hb = Ok h \<and> w_data w i = hb @ concat (map (frame crc) sts) @ ts \<and>
         file_records crc (w_data w i) = sts \<and> harmless_tail crc (stored_cap (hm_compression h)) hb sts ts)"
    and "x = Ok q \<Longrightarrow> q = sealed_path_for p \<and> (\<exists>hb h sts ts. parse_segment_header hb = Ok h \<and>
       w_data w i = hb @ concat (map (frame crc) sts) @ ts \<and> (\<forall>st \<in> set sts. stored_ok (hm_compression h) st) \<and>
       file_records crc (w_data w i) = sts \<and> resealed crc p i hb sts w') \<and>
       (\<not> w_lost w i \<longrightarrow> w_disk w' i = w_data w' i) \<and> rm_sealed m' = rm_sealed m + 1"
proof -
  have "recovers crc qd {p} w w' \<and>
    (w_data w' i = w_data w i \<and> w_disk w' i = w_disk w i \<or> preserved qd (w_data w i) w' \<or>
      (\<exists>hb h sts ts. parse_segment_header hb = Ok h \<and> w_data w i = hb @ concat (map (frame crc) sts) @ ts \<and>
         file_records crc (w_data w i) = sts \<and> harmless_tail crc (stored_cap (hm_compression h)) hb sts ts)) \<and>
    (x = Ok q \<longrightarrow> q = sealed_path_for p \<and> (\<exists>hb h sts ts. parse_segment_header hb = Ok h \<and>
       w_data w i = hb @ concat (map (frame crc) sts) @ ts \<and> (\<forall>st \<in> set sts. stored_ok (hm_compression h) st) \<and>
       file_records crc (w_data w i) = sts \<and> resealed crc p i hb sts w') \<and>
       (\<not> w_lost w i \<longrightarrow> w_disk w' i = w_data w' i) \<and> rm_sealed m' = rm_sealed m + 1)"
  proof (rule recover_segment_cases [OF streams p(1) run])
    fix k assume "x = Err k" "w' = io_tick w"
    then show ?thesis using recovers_tick [OF wf, of crc "{p}"] by simp
  next
    fix k assume bad: "\<not> header_ok (w_data w i)" and x: "x = Err k"
      and q: "quarantine_and_count p wab (io_tick w) m = (k, w', m')"
    have wft: "store_wf qd (io_tick w)" by (rule recovers_wf [OF recovers_tick [OF wf]])
    obtain y v where y: "quarantine p wab (io_tick w) = (y, v)" by fastforce
    then have "v = w'" using q by (auto simp: quarantine_and_count_def split: sum.splits)
    then have "recovers crc qd {p} (io_tick w) w' \<and> w_data w' = w_data w \<and> w_disk w' = w_disk w"
      using quarantine_effect [OF wft [unfolded qd_def], of p i y v crc] p bad y by (simp add: qd_def)
    then show ?thesis using recovers_trans [OF recovers_tick [OF wf, of crc "{p}"] _ wf] x by auto
  next
    fix hb h sts ts s reason w1
    assume a: "parse_segment_header hb = Ok h" "w_data w i = hb @ concat (map (frame (crc_hash C)) sts) @ ts"
      "\<forall>st \<in> set sts. stored_ok (hm_compression h) st" "scan_frames (crc_hash C) (hm_compression h) ts = []"
      "\<exists>n. w1 = w\<lparr>w_tick := n\<rparr>"
      "reason = None \<Longrightarrow> harmless_tail (crc_hash C) (stored_cap (hm_compression h)) hb sts ts"
      and s: "rp_valid_end s = length (hb @ concat (map (frame (crc_hash C)) sts))" "rp_count s = length sts"
      "rp_data_bytes s = sum_list (map length sts)"
      "crc_finalize C (rp_crc s) = crc_hash C (hb @ concat (map (frame (crc_hash C)) sts))"
      and t: "recover_tail C p wab s reason w1 m = (x, w', m')"
    obtain n where n: "w1 = w\<lparr>w_tick := n\<rparr>" using a(5) by blast
    note k = idle_keeps [OF wf n]
    have w1: "store_wf (quarantine_dir wab) w1" "w_entry w1 p = Some i" "fst p \<noteq> quarantine_dir wab"
      "w_data w1 i = hb @ concat (map (frame (crc_hash C)) sts) @ ts"
      using recovers_wf [OF k(1)] k(3) p a(2) by (simp_all add: qd_def n)
    have fr: "file_records crc (w_data w i) = sts"
      using a(4) scan_frames_frames [OF a(3), of crc ts] header_magic_version [OF a(1)]
      by (simp add: a(2) file_records_def SEGMENT_HEADER_LEN_def a(1) crc_def)
    note e = recover_tail_effect [OF w1(1,2) p(2) w1(3,4) a(1,3,4) s t, folded crc_def qd_def]
    have r: "recovers crc qd {p} w w'" by (rule recovers_trans [OF k(1) e(1) wf])
    have pre: "w_data w' i = w_data w i \<and> w_disk w' i = w_disk w i \<or> preserved qd (w_data w i) w' \<or>
        harmless_tail crc (stored_cap (hm_compression h)) hb sts ts"
      using e(3) a(6) by (auto simp: n crc_def)
    have "\<exists>hb h sts ts. parse_segment_header hb = Ok h \<and> w_data w i = hb @ concat (map (frame crc) sts) @ ts \<and>
         (\<forall>st \<in> set sts. stored_ok (hm_compression h) st) \<and>
         file_records crc (w_data w i) = sts \<and> resealed crc p i hb sts w'" if "x = Ok q"
      using a(1-3) fr e(4) [OF that] unfolding crc_def by blast
    moreover have "\<exists>hb h sts ts. parse_segment_header hb = Ok h \<and> w_data w i = hb @ concat (map (frame crc) sts) @ ts \<and>
         file_records crc (w_data w i) = sts \<and> harmless_tail crc (stored_cap (hm_compression h)) hb sts ts"
      if "harmless_tail crc (stored_cap (hm_compression h)) hb sts ts"
      using a(1,2) fr that unfolding crc_def by blast
    moreover have "x = Ok q \<Longrightarrow> q = sealed_path_for p \<and> (\<not> w_lost w i \<longrightarrow> w_disk w' i = w_data w' i) \<and> rm_sealed m' = rm_sealed m + 1"
      using e(4) by (auto simp: n)
    ultimately show ?thesis using r pre by blast
  qed
  then show "recovers crc qd {p} w w'"
    and "w_data w' i = w_data w i \<and> w_disk w' i = w_disk w i \<or> preserved qd (w_data w i) w' \<or>
      (\<exists>hb h sts ts. parse_segment_header hb = Ok h \<and> w_data w i = hb @ concat (map (frame crc) sts) @ ts \<and>
         file_records crc (w_data w i) = sts \<and> harmless_tail crc (stored_cap (hm_compression h)) hb sts ts)"
    and "x = Ok q \<Longrightarrow> q = sealed_path_for p \<and> (\<exists>hb h sts ts. parse_segment_header hb = Ok h \<and>
       w_data w i = hb @ concat (map (frame crc) sts) @ ts \<and> (\<forall>st \<in> set sts. stored_ok (hm_compression h) st) \<and>
       file_records crc (w_data w i) = sts \<and> resealed crc p i hb sts w') \<and>
       (\<not> w_lost w i \<longrightarrow> w_disk w' i = w_data w' i) \<and> rm_sealed m' = rm_sealed m + 1" by blast+
qed

lemma quarantine_moves:
  assumes "quarantine p wab w = (x, w')"
  shows "(\<exists>n. w' = w\<lparr>w_tick := n\<rparr>) \<and> x \<noteq> Ok () \<or>
    (\<exists>q i n. x = Ok () \<and> fst q = quarantine_dir wab \<and> w_entry w q = None \<and> w_entry w p = Some i \<and>
       w' = w\<lparr>w_tick := n, w_dir := AList.update q i (AList.delete p (w_dir w))\<rparr>)"
proof -
  let ?qd = "quarantine_dir wab"
  obtain y1 w1 where s1: "create_dir_private w = (y1, w1)" by fastforce
  obtain y2 w2 where s2: "non_clobbering_dest ?qd (quarantine_base p) w1 = (y2, w2)" by fastforce
  obtain n1 where n1: "w1 = w\<lparr>w_tick := n1\<rparr>" using create_dir_private_effect [OF s1] by auto
  obtain n2 where n2: "w2 = w\<lparr>w_tick := n2\<rparr>" using quarantine_target(1) [OF s1 s2] by auto
  show ?thesis
  proof (cases "\<exists>u q. y1 = Ok u \<and> y2 = Ok q")
    case False
    then have "x \<noteq> Ok ()" "w' = w1 \<or> w' = w2" using assms s1 s2 by (auto simp: quarantine_def split: sum.splits)
    then show ?thesis using n1 n2 by auto
  next
    case True
    then obtain u q where y: "y1 = Ok u" "y2 = Ok q" by auto
    note q = quarantine_target(2) [OF s1 s2 y(2)]
    have e: "w_entry w2 = w_entry w" by (rule w_entry_cong) (simp add: n2)
    have "fs_rename p q w2 = (x, w')" using assms s1 s2 y by (simp add: quarantine_def)
    from fs_rename_effect [OF this] show ?thesis
    proof (elim disjE exE conjE)
      assume "w' = io_tick w2" "x \<noteq> Ok ()"
      then show ?thesis by (simp add: n2 io_tick_def) (metis)
    next
      fix i assume "w_entry w2 p = Some i" "x = Ok ()" "w' = (io_tick w2)\<lparr>w_dir := AList.update q i (AList.delete p (w_dir w2))\<rparr>"
      then show ?thesis using q e
        by (intro disjI2 exI [of _ q] exI [of _ i] exI [of _ "Suc n2"]) (simp add: n2 io_tick_def)
    qed
  qed
qed

lemma quarantine_rest_kept:
  assumes "w_entry w p = Some i" "fst p \<noteq> quarantine_dir wab" "quarantine p wab w = (x, w')"
  shows "rest_kept (quarantine_dir wab) i w w'"
  using quarantine_moves [OF assms(3)]
proof (elim disjE conjE exE)
  fix n assume "w' = w\<lparr>w_tick := n\<rparr>"
  then show ?thesis by (simp add: rest_kept_idle)
next
  fix q j n assume q: "fst q = quarantine_dir wab" "w_entry w q = None" "w_entry w p = Some j"
    and w': "w' = w\<lparr>w_tick := n, w_dir := AList.update q j (AList.delete p (w_dir w))\<rparr>"
  have e: "w_entry w' r = (if r = q then Some i else if r = p then None else w_entry w r)" for r
    using q(3) assms(1) by (simp add: w' w_entry_def update_conv' delete_conv')
  show ?thesis using q assms(1,2) unfolding rest_kept_def e by (auto simp: w')
qed

lemma recover_segment_rest_kept:
  assumes streams: "crc_streams C" and wf: "store_wf (quarantine_dir wab) w"
    and p: "w_entry w p = Some i" "active_name p" "fst p \<noteq> quarantine_dir wab"
    and run: "recover_segment C p wab w m = (x, w', m')"
  shows "rest_kept (quarantine_dir wab) i w w'"
proof (rule recover_segment_cases [OF streams p(1) run])
  fix k assume "w' = io_tick w"
  then show ?thesis by (simp add: rest_kept_def)
next
  fix k assume q: "quarantine_and_count p wab (io_tick w) m = (k, w', m')"
  obtain y v where y: "quarantine p wab (io_tick w) = (y, v)" by fastforce
  then have v: "v = w'" using q by (auto simp: quarantine_and_count_def split: sum.splits)
  show ?thesis using rest_kept_trans [OF _ quarantine_rest_kept [of "io_tick w" p i wab y w'], of w] y v p(1,3) by (simp add: rest_kept_def)
next
  fix hb h sts ts s reason w1
  assume a: "parse_segment_header hb = Ok h" "w_data w i = hb @ concat (map (frame (crc_hash C)) sts) @ ts"
    "\<forall>st \<in> set sts. stored_ok (hm_compression h) st" "scan_frames (crc_hash C) (hm_compression h) ts = []"
    and n': "\<exists>n. w1 = w\<lparr>w_tick := n\<rparr>"
    and s: "rp_valid_end s = length (hb @ concat (map (frame (crc_hash C)) sts))" "rp_count s = length sts"
    "rp_data_bytes s = sum_list (map length sts)"
    "crc_finalize C (rp_crc s) = crc_hash C (hb @ concat (map (frame (crc_hash C)) sts))"
    and t: "recover_tail C p wab s reason w1 m = (x, w', m')"
  obtain n where n: "w1 = w\<lparr>w_tick := n\<rparr>" using n' by blast
  note k = idle_keeps [OF wf n]
  have w1: "store_wf (quarantine_dir wab) w1" "w_entry w1 p = Some i" "w_data w1 i = hb @ concat (map (frame (crc_hash C)) sts) @ ts"
    using recovers_wf [OF k(1)] k(3) p a(2) by (simp_all add: n)
  have "rest_kept (quarantine_dir wab) i w1 w'" by (rule recover_tail_effect(2) [OF w1(1,2) p(2,3) w1(3) a(1,3,4) s t])
  then show ?thesis by (rule rest_kept_trans [rotated]) (simp add: rest_kept_idle n)
qed

section \<open>A disk without faults\<close>

lemma quiet_probe:
  assumes "\<forall>n. w_io w n = IoDone" "nm \<in> set nms" "w_entry w (dir, nm) = None"
  shows "\<exists>q w'. probe_names dir nms w = (Ok q, w')"
  using assms
proof (induction nms arbitrary: w)
  case (Cons a nms)
  then show ?case
    by (cases "w_entry w (dir, a) = None")
      (use Cons.IH [of "io_tick w"] Cons.prems in \<open>auto simp: fs_try_exists_def io_step_tick\<close>)
qed simp

definition free_name :: "bytes \<Rightarrow> path \<Rightarrow> world \<Rightarrow> bool" where
  "free_name qd p w \<longleftrightarrow> (\<exists>nm \<in> set (quarantine_base p # map (\<lambda>n. quarantine_base p @ ascii ''.'' @ dec n) [1..<10001]).
     w_entry w (qd, nm) = None)"

lemma quiet_target:
  assumes "\<forall>n. w_io w n = IoDone" "free_name qd p w"
  shows "\<exists>w1 q n. create_dir_private w = (Ok (), w1) \<and> non_clobbering_dest qd (quarantine_base p) w1 = (Ok q, w\<lparr>w_tick := n\<rparr>) \<and>
    fst q = qd \<and> w_entry w q = None"
proof -
  have c: "create_dir_private w = (Ok (), io_tick (io_tick w))"
    using assms(1) by (simp add: create_dir_private_def io_step_tick)
  obtain nm where nm: "nm \<in> set (quarantine_base p # map (\<lambda>n. quarantine_base p @ ascii ''.'' @ dec n) [1..<10001])"
    "w_entry w (qd, nm) = None" using assms(2) unfolding free_name_def by blast
  obtain q w2 where q: "non_clobbering_dest qd (quarantine_base p) (io_tick (io_tick w)) = (Ok q, w2)"
    using quiet_probe [OF _ nm(1), of "io_tick (io_tick w)" qd] assms(1) nm(2) unfolding non_clobbering_dest_def by auto
  show ?thesis using c q quarantine_target [OF c q] by blast
qed

lemma quiet_copy:
  assumes "\<forall>n. w_io w n = IoDone" "free_name (quarantine_dir wab) p w" "w_entry w p = Some i"
  shows "\<exists>q w'. copy_to_quarantine p wab w = (Ok q, w') \<and> (\<forall>n. w_io w' n = IoDone)"
proof -
  obtain w1 q n where s: "create_dir_private w = (Ok (), w1)"
    "non_clobbering_dest (quarantine_dir wab) (quarantine_base p) w1 = (Ok q, w\<lparr>w_tick := n\<rparr>)" "w_entry w q = None"
    using quiet_target [OF assms(1,2)] by blast
  let ?w2 = "w\<lparr>w_tick := n\<rparr>"
  have e: "w_entry ?w2 = w_entry w" by (rule w_entry_cong) simp
  let ?w3 = "w_put q (w_data w i) (io_tick ?w2)"
  have c: "fs_copy p q ?w2 = (Ok (), ?w3)" using assms e by (simp add: fs_copy_def io_step_tick)
  have free: "w_entry (io_tick ?w2) q = None" using s(3) e by simp
  have "w_io ?w3 = w_io w" by (simp add: w_put_def free [simplified] split: option.split)
  then have io: "\<forall>n. w_io ?w3 n = IoDone" using assms(1) by simp
  have "w_entry ?w3 q = Some (w_next (io_tick ?w2))" using w_put_fresh(1) [OF free] by simp
  then have "\<exists>w4. fs_sync_file q ?w3 = (Ok (), w4) \<and> (\<forall>n. w_io w4 n = IoDone)"
    using io by (simp add: fs_sync_file_def fs_open_def fs_sync_data_def io_step_tick)
  then obtain w4 where "fs_sync_file q ?w3 = (Ok (), w4)" "\<forall>n. w_io w4 n = IoDone" by blast
  then show ?thesis using s c by (auto simp: copy_to_quarantine_def fs_sync_dir_def io_step_tick)
qed

lemma quiet_rebuild:
  assumes "\<forall>n. w_io w n = IoDone" "w_entry w p = Some i"
  shows "\<exists>w'. recover_rebuild C p s w = (Ok (sealed_path_for p), w')"
  using assms
  by (simp add: recover_rebuild_def fs_open_write_def fs_set_len_def fs_seek_def fs_write_all_def fs_sync_data_def
      fs_rename_def fs_sync_dir_def io_step_tick w_set_len_def w_append_def Let_def w_entry_def)

lemma quiet_tail:
  assumes "\<forall>n. w_io w n = IoDone" "free_name (quarantine_dir wab) p w" "w_entry w p = Some i"
    "store_wf (quarantine_dir wab) w" "fst p \<noteq> quarantine_dir wab"
  shows "\<exists>w' m'. recover_tail C p wab s reason w m = (Ok (sealed_path_for p), w', m')"
proof (cases reason)
  case None
  then show ?thesis using quiet_rebuild [OF assms(1,3), of C s] by (auto simp: recover_tail_def)
next
  case (Some c)
  obtain q v where c: "copy_to_quarantine p wab w = (Ok q, v)" "\<forall>n. w_io v n = IoDone"
    using quiet_copy [OF assms(1-3)] by blast
  have "w_entry v p = Some i"
    using copy_to_quarantine_effect(1) [OF assms(4,3) c(1)] assms(3,5) by (auto simp: stays_aside_def aside_def)
  then show ?thesis using Some c quiet_rebuild [OF c(2), of p i C s] by (auto simp: recover_tail_def)
qed

lemma quiet_recover:
  assumes "crc_streams C" "\<forall>n. w_io w n = IoDone" "free_name (quarantine_dir wab) p w" "w_entry w p = Some i"
    "store_wf (quarantine_dir wab) w" "fst p \<noteq> quarantine_dir wab" "header_ok (w_data w i)"
  shows "\<exists>w' m'. recover_segment C p wab w m = (Ok (sealed_path_for p), w', m')"
proof -
  obtain x w' m' where run: "recover_segment C p wab w m = (x, w', m')" by (metis prod_cases3)
  show ?thesis
  proof (rule recover_segment_cases [OF assms(1,4) run])
    assume "\<exists>n. w_io w n \<noteq> IoDone" then show ?thesis using assms(2) by simp
  next
    fix k assume "\<not> header_ok (w_data w i)" then show ?thesis using assms(7) by simp
  next
    fix hb h sts ts s reason w1
    assume "\<exists>n. w1 = w\<lparr>w_tick := n\<rparr>" and t: "recover_tail C p wab s reason w1 m = (x, w', m')"
    then obtain n where n: "w1 = w\<lparr>w_tick := n\<rparr>" by blast
    note k = idle_keeps [OF assms(5) n]
    have "\<exists>w' m'. recover_tail C p wab s reason w1 m = (Ok (sealed_path_for p), w', m')"
      by (rule quiet_tail) (use assms k recovers_wf [OF k(1)] in \<open>auto simp: n free_name_def\<close>)
    then show ?thesis using t run by auto
  qed
qed

text \<open>A store with one file \<open>bs\<close> at \<open>p\<close>, as a crash left it, on a disk without faults.\<close>

definition crashed_world :: "path \<Rightarrow> bytes \<Rightarrow> world" where
  "crashed_world p bs = quiet_world\<lparr>w_dir := [(p, 0)], w_ddir := [p \<mapsto> 0], w_data := (\<lambda>_. [])(0 := bs),
     w_disk := (\<lambda>_. [])(0 := bs), w_next := 1\<rparr>"

lemma crashed_world_simps [simp]:
  "w_entry (crashed_world p bs) q = (if q = p then Some 0 else None)" "w_data (crashed_world p bs) 0 = bs"
  "w_disk (crashed_world p bs) 0 = bs" "w_io (crashed_world p bs) n = IoDone" "\<not> w_lost (crashed_world p bs) j"
  "w_next (crashed_world p bs) = 1"
  by (simp_all add: crashed_world_def quiet_world_def w_entry_def)

lemma crashed_world_wf:
  assumes "active_name p" shows "store_wf qd (crashed_world p bs)"
  unfolding store_wf_def
proof (intro conjI allI impI)
  fix q i assume "w_ddir (crashed_world p bs) q = Some i"
  then have "q = p" "i = 0" by (auto simp: crashed_world_def split: if_splits)
  then show "i < w_next (crashed_world p bs)" "\<exists>q'. fst q' = fst q \<and> w_entry (crashed_world p bs) q' = Some i"
    by (auto intro: exI [of _ p])
next
  fix q assume "active_name q"
  then show "w_entry (crashed_world p bs) q = None \<or> w_entry (crashed_world p bs) (sealed_path_for q) = None"
    using active_sealed_apart(2) [OF assms, of q] by simp
qed (auto simp: crashed_world_def quiet_world_def w_entry_def split: if_splits)

definition sample_path :: path where
  "sample_path = segment_path (ascii ''w/shard_00'') 1"

lemma sample_path_ok: "active_name sample_path" "fst sample_path \<noteq> quarantine_dir (ascii ''w'')"
  by (simp add: sample_path_def, simp add: sample_path_def segment_path_def quarantine_dir_def ascii_def)

lemma sample_free: "free_name (quarantine_dir (ascii ''w'')) sample_path (crashed_world sample_path bs)"
proof -
  have "(quarantine_dir (ascii ''w''), quarantine_base sample_path) \<noteq> sample_path" using sample_path_ok(2) by (metis fst_conv)
  then show ?thesis by (simp add: free_name_def)
qed

lemma sample_recovers:
  assumes "header_ok bs"
  shows "\<exists>w' m'. recover_segment crc32_ops sample_path (ascii ''w'') (crashed_world sample_path bs) m =
    (Ok (sealed_path_for sample_path), w', m')"
  by (rule quiet_recover [OF crc32_streams _ sample_free _ crashed_world_wf, where i = 0])
    (use assms sample_path_ok in simp_all)

section \<open>Properties\<close>

text \<open>
  C10: what recovery seals is intact.  Whenever \<open>recover_segment\<close> returns a path, the file stands
  under the sealed name, now and after a crash, and no longer under the active one; its bytes are
  on stable storage; \<open>verify_sealed_segment\<close> accepts them; and the records in them are exactly
  the valid records at the front of the file it found.
\<close>

theorem recovered_segment_verifies:
  assumes "crc_streams C" "store_wf (quarantine_dir wab) w" "w_entry w p = Some i" "active_name p"
    "fst p \<noteq> quarantine_dir wab" "\<not> w_lost w i" "recover_segment C p wab w m = (Ok sealed, w', m')"
  shows "sealed = sealed_path_for p \<and> w_entry w' p = None \<and> w_entry w' sealed = Some i \<and> w_ddir w' sealed = Some i \<and>
    w_disk w' i = w_data w' i \<and> rm_sealed m' = rm_sealed m + 1 \<and>
    file_records (crc_hash C) (w_disk w' i) = file_records (crc_hash C) (w_data w i) \<and>
    (\<exists>h f. verify_sealed_segment C (Ok (file_reader (w_disk w' i))) = Ok \<lparr>sv_header = h, sv_footer = f\<rparr> \<and>
       fm_record_count f = of_nat (length (file_records (crc_hash C) (w_data w i))))"
proof -
  note e = recover_segment_effect(3) [OF assms(1-5,7) refl]
  from e obtain hb h sts ts t where hb: "parse_segment_header hb = Ok h" and ok: "\<forall>st \<in> set sts. stored_ok (hm_compression h) st"
    and fr: "file_records (crc_hash C) (w_data w i) = sts" and d: "w_data w' i = sealed_bytes (crc_hash C) hb sts t"
    by (auto simp: resealed_def)
  have "verify_sealed_segment C (Ok (file_reader (w_data w' i))) = Ok \<lparr>sv_header = h, sv_footer =
      \<lparr>fm_record_count = of_nat (length sts), fm_data_bytes = of_nat (sum_list (map length sts)),
       fm_file_crc32 = crc_hash C (hb @ concat (map (frame (crc_hash C)) sts)), fm_sealed_at = t\<rparr>\<rparr>"
    unfolding d by (rule crc_engine.verify_accepts [OF _ sealed_bytes_image [OF hb ok]]) (simp add: crc_engine_def assms(1))
  moreover have "file_records (crc_hash C) (w_data w' i) = sts"
    unfolding d sealed_bytes_def by (rule file_records_image(2) [OF hb ok])
  ultimately show ?thesis using e assms(6) fr by (auto simp: resealed_def)
qed

theorem recovered_segment_verifies_witness:
  "\<exists>w' m'. recover_segment crc32_ops sample_path (ascii ''w'') (crashed_world sample_path (sample_prefix @ [1, 0]))
       no_metrics = (Ok (sealed_path_for sample_path), w', m') \<and>
     rm_sealed m' = 1 \<and> file_records crc32_hash (w_disk w' 0) = file_records crc32_hash (sample_prefix @ [1, 0])"
proof -
  let ?bs = "sample_prefix @ [1, 0]"
  have h: "header_ok ?bs" using header_ok_image [OF parse_build_segment_header] by (simp add: sample_prefix_def)
  obtain w' m' where run: "recover_segment crc32_ops sample_path (ascii ''w'') (crashed_world sample_path ?bs)
       no_metrics = (Ok (sealed_path_for sample_path), w', m')"
    using sample_recovers [OF h] by blast
  from recovered_segment_verifies [OF crc32_streams crashed_world_wf _ sample_path_ok _ run, of 0] sample_path_ok
  have "rm_sealed m' = 1 \<and> file_records crc32_hash (w_disk w' 0) = file_records crc32_hash ?bs" by auto
  then show ?thesis using run by blast
qed

text \<open>
  C9: recovery destroys nothing silently.  Whatever the file holds and whichever call fails, after
  \<open>recover_segment\<close> its bytes are untouched, or a complete copy of the original is on stable
  storage in quarantine, or the tail that was cut off has one of the shapes of
  \<open>harmless_tail\<close>.  In every case no record at the front of a file or on stable storage is lost,
  no file disappears, no other name is overwritten, and a segment that a crash would have found
  in its directory is still found there.
\<close>

theorem recovery_preserves_tail:
  assumes "crc_streams C" "store_wf (quarantine_dir wab) w" "w_entry w p = Some i" "active_name p"
    "fst p \<noteq> quarantine_dir wab" "recover_segment C p wab w m = (x, w', m')"
  shows "recovers (crc_hash C) (quarantine_dir wab) {p} w w' \<and>
    (w_data w' i = w_data w i \<and> w_disk w' i = w_disk w i \<or>
     preserved (quarantine_dir wab) (w_data w i) w' \<or>
     (\<exists>hb h sts ts. parse_segment_header hb = Ok h \<and> w_data w i = hb @ concat (map (frame (crc_hash C)) sts) @ ts \<and>
        file_records (crc_hash C) (w_data w i) = sts \<and>
        harmless_tail (crc_hash C) (stored_cap (hm_compression h)) hb sts ts))"
  using recover_segment_effect(1,2) [OF assms] by blast

theorem recovery_preserves_tail_witness:
  "\<exists>w' m'. recover_segment crc32_ops sample_path (ascii ''w'') (crashed_world sample_path (sample_prefix @ [1, 0]))
       no_metrics = (Ok (sealed_path_for sample_path), w', m') \<and>
     recovers crc32_hash (quarantine_dir (ascii ''w'')) {sample_path} (crashed_world sample_path (sample_prefix @ [1, 0])) w'"
proof -
  let ?bs = "sample_prefix @ [1, 0]"
  have h: "header_ok ?bs" using header_ok_image [OF parse_build_segment_header] by (simp add: sample_prefix_def)
  obtain w' m' where run: "recover_segment crc32_ops sample_path (ascii ''w'') (crashed_world sample_path ?bs)
       no_metrics = (Ok (sealed_path_for sample_path), w', m')"
    using sample_recovers [OF h] by blast
  from recovery_preserves_tail [OF crc32_streams crashed_world_wf _ sample_path_ok run, of 0] sample_path_ok
  have "recovers crc32_hash (quarantine_dir (ascii ''w'')) {sample_path} (crashed_world sample_path ?bs) w'" by simp
  then show ?thesis using run by blast
qed

text \<open>
  On a disk without faults, with one of the 10001 quarantine names free, recovery of a segment
  whose header can be read always succeeds.
\<close>

theorem recovery_succeeds:
  assumes "crc_streams C" "\<forall>n. w_io w n = IoDone" "free_name (quarantine_dir wab) p w" "w_entry w p = Some i"
    "store_wf (quarantine_dir wab) w" "fst p \<noteq> quarantine_dir wab" "header_ok (w_data w i)"
  shows "\<exists>w' m'. recover_segment C p wab w m = (Ok (sealed_path_for p), w', m')"
  by (rule quiet_recover [OF assms])

theorem recovery_succeeds_witness:
  "\<exists>w' m'. recover_segment crc32_ops sample_path (ascii ''w'') (crashed_world sample_path sample_prefix)
       no_metrics = (Ok (sealed_path_for sample_path), w', m')"
  by (rule recovery_succeeds [OF crc32_streams _ sample_free _ crashed_world_wf, where i = 0])
    (use sample_path_ok header_ok_image [OF parse_build_segment_header] in \<open>simp_all add: sample_prefix_def\<close>)

text \<open>
  C32: a corrupted length field that stays within the record cap but points past the end of the
  file is taken for a torn tail.  On a disk without faults, recovery of a file with the valid
  records \<open>sts\<close>, then a length field \<open>n\<close> and fewer than \<open>4 + n\<close> bytes \<open>x\<close>, seals exactly \<open>sts\<close>
  and keeps no copy of \<open>x\<close>, whatever intact records \<open>x\<close> contains: no file is created, no other
  file changes, and the quarantine counter does not move.
\<close>

theorem corrupt_length_discards_tail:
  assumes "crc_streams C" "store_wf (quarantine_dir wab) w" "w_entry w p = Some i" "active_name p"
    "fst p \<noteq> quarantine_dir wab" "\<forall>n. w_io w n = IoDone" "parse_segment_header hb = Ok h"
    "\<forall>st \<in> set sts. stored_ok (hm_compression h) st"
    "w_data w i = hb @ concat (map (frame (crc_hash C)) sts) @ u32_le n @ x"
    "0 < unat n" "unat n \<le> stored_cap (hm_compression h)" "length x < 4 + unat n"
    "recover_segment C p wab w m = (Ok sealed, w', m')"
  shows "(\<exists>t. w_data w' i = sealed_bytes (crc_hash C) hb sts t) \<and> file_records (crc_hash C) (w_data w' i) = sts \<and>
    w_next w' = w_next w \<and> (\<forall>j. j \<noteq> i \<longrightarrow> w_data w' j = w_data w j) \<and> rm_quarantined m' = rm_quarantined m"
proof (rule recover_segment_cases [OF assms(1,3,13)])
  fix hb' h' sts' ts' s reason w1
  assume a: "parse_segment_header hb' = Ok h'" "w_data w i = hb' @ concat (map (frame (crc_hash C)) sts') @ ts'"
    "\<forall>st \<in> set sts'. stored_ok (hm_compression h') st" "scan_frames (crc_hash C) (hm_compression h') ts' = []"
    "\<exists>n. w1 = w\<lparr>w_tick := n\<rparr>"
    "(\<forall>n. w_io w n = IoDone) \<Longrightarrow> harmless_tail (crc_hash C) (stored_cap (hm_compression h')) hb' sts' ts' \<Longrightarrow> reason = None"
    and s: "rp_valid_end s = length (hb' @ concat (map (frame (crc_hash C)) sts'))" "rp_count s = length sts'"
      "rp_data_bytes s = sum_list (map length sts')"
      "crc_finalize C (rp_crc s) = crc_hash C (hb' @ concat (map (frame (crc_hash C)) sts'))"
    and t: "recover_tail C p wab s reason w1 m = (Ok sealed, w', m')"
  have l: "length hb = 24" "length hb' = 24" using header_magic_version assms(7) a(1) by blast+
  then have hb: "hb' = hb" "h' = h" and rest: "concat (map (frame (crc_hash C)) sts') @ ts' = concat (map (frame (crc_hash C)) sts) @ u32_le n @ x"
    using assms(7,9) a(1,2) by auto
  have lf: "len_field (u32_le n @ x) = unat n" by (simp add: len_field_def)
  have "scan_frames (crc_hash C) (hm_compression h) (u32_le n @ x) = []"
    using assms(12) lf by (subst scan_frames.simps) (simp add: Let_def len_field_def)
  then have "sts' = sts"
    using scan_frames_frames [OF a(3), of "crc_hash C" ts'] scan_frames_frames [OF assms(8), of "crc_hash C" "u32_le n @ x"]
      a(4) rest by (simp add: hb)
  then have ts: "sts' = sts" "ts' = u32_le n @ x" using rest by auto
  have "harmless_tail (crc_hash C) (stored_cap (hm_compression h')) hb' sts' ts'"
    using assms(10-12) lf by (simp add: harmless_tail_def ts hb)
  then have "reason = None" using a(6) assms(6) by blast
  then obtain v where rb: "recover_rebuild C p s w1 = (Ok sealed, v)" and v: "v = w'" "m' = m\<lparr>rm_sealed := rm_sealed m + 1\<rparr>"
    using t by (auto simp: recover_tail_def split: prod.splits sum.splits)
  obtain k where k: "w1 = w\<lparr>w_tick := k\<rparr>" using a(5) by blast
  note ik = idle_keeps [OF assms(2) k]
  have w1: "store_wf (quarantine_dir wab) w1" "w_entry w1 p = Some i"
    "w_data w1 i = hb' @ concat (map (frame (crc_hash C)) sts') @ ts'"
    using recovers_wf [OF ik(1)] ik(3) assms(3) a(2) by (simp_all add: k)
  note e = recover_rebuild_effect [OF w1(1,2) assms(4,5) w1(3) a(1,3,4) s rb]
  have d: "w_data w' i = sealed_bytes (crc_hash C) hb sts (unix_nanos_now w1)" using e(2) [OF refl] by (simp add: v hb ts)
  moreover have "file_records (crc_hash C) (w_data w' i) = sts"
    unfolding d sealed_bytes_def by (rule file_records_image(2) [OF assms(7,8)])
  moreover have "w_next w' = w_next w" "\<forall>j. j \<noteq> i \<longrightarrow> w_data w' j = w_data w j"
    using e(1) by (simp_all add: rebuilds_def only_file_def v k)
  ultimately show ?thesis using v by auto
next
  assume "\<not> header_ok (w_data w i)"
  then show ?thesis using header_ok_image [OF assms(7)] assms(9) by simp
qed simp

text \<open>The sample segment with bit 6 of the second length field flipped, in front of an intact record.\<close>

definition flipped_length :: bytes where
  "flipped_length = build_segment_header 5 3 CompNone @ frame crc32_hash (ascii ''a'') @
     u32_le 66 @ u32_le (crc32_hash (ascii ''bc'')) @ ascii ''bc'' @ frame crc32_hash (ascii ''d'')"

theorem corrupt_length_discards_tail_witness:
  "\<exists>w' m'. recover_segment crc32_ops sample_path (ascii ''w'') (crashed_world sample_path flipped_length)
       no_metrics = (Ok (sealed_path_for sample_path), w', m') \<and>
     file_records crc32_hash (w_data w' 0) = [ascii ''a''] \<and> w_next w' = 1 \<and> rm_quarantined m' = 0"
proof -
  let ?x = "u32_le (crc32_hash (ascii ''bc'')) @ ascii ''bc'' @ frame crc32_hash (ascii ''d'')"
  have h: "header_ok flipped_length"
    using header_ok_image [OF parse_build_segment_header] by (simp add: flipped_length_def)
  obtain w' m' where run: "recover_segment crc32_ops sample_path (ascii ''w'') (crashed_world sample_path flipped_length) no_metrics =
      (Ok (sealed_path_for sample_path), w', m')" using sample_recovers [OF h] by blast
  have "file_records crc32_hash (w_data w' 0) = [ascii ''a''] \<and> w_next w' = 1 \<and> rm_quarantined m' = 0"
    using corrupt_length_discards_tail [OF crc32_streams crashed_world_wf _ sample_path_ok _
        parse_build_segment_header [where now = 5 and shard = 3 and cmp = CompNone] _ _ _ _ _ run,
        where i = 0 and sts = "[ascii ''a'']" and n = 66 and x = ?x] sample_path_ok
    by (simp add: flipped_length_def stored_ok_def MAX_PAYLOAD_HARD_CAP_def ascii_def)
  then show ?thesis using run by blast
qed

section \<open>The whole pass\<close>

text \<open>
  The whole of a file that recovery may have cut: its header, its valid records and a tail of one of
  the shapes of \<open>harmless_tail\<close>.
\<close>

definition cut_harmless :: "(bytes \<Rightarrow> u32) \<Rightarrow> bytes \<Rightarrow> bool" where
  "cut_harmless crc bs \<longleftrightarrow> (\<exists>hb h sts ts. parse_segment_header hb = Ok h \<and> bs = hb @ concat (map (frame crc) sts) @ ts \<and>
     file_records crc bs = sts \<and> harmless_tail crc (stored_cap (hm_compression h)) hb sts ts)"

text \<open>Every file is as it was, or was copied, or lost at most a harmless tail; and copies stay.\<close>

definition spares :: "(bytes \<Rightarrow> u32) \<Rightarrow> bytes \<Rightarrow> world \<Rightarrow> world \<Rightarrow> bool" where
  "spares crc qd w w' \<longleftrightarrow> recovers crc qd {q. active_name q} w w' \<and>
     (\<forall>j < w_next w. w_data w' j = w_data w j \<and> w_disk w' j = w_disk w j \<or> preserved qd (w_data w j) w' \<or>
        cut_harmless crc (w_data w j)) \<and>
     (\<forall>bs. preserved qd bs w \<longrightarrow> preserved qd bs w')"

lemma spares_wf: "spares crc qd w w' \<Longrightarrow> store_wf qd w'"
  by (simp add: spares_def recovers_def)

lemma spares_tick: "store_wf qd w \<Longrightarrow> spares crc qd w (io_tick w)"
  by (simp add: spares_def recovers_tick preserved_def)

lemma spares_refl: "store_wf qd w \<Longrightarrow> spares crc qd w w"
  by (simp add: spares_def recovers_refl)

lemma spares_trans:
  assumes ab: "spares crc qd a b" and bc: "spares crc qd b c" and wf: "store_wf qd a"
  shows "spares crc qd a c"
proof -
  have n: "w_next a \<le> w_next b" using ab by (simp add: spares_def recovers_def)
  have "w_data c j = w_data a j \<and> w_disk c j = w_disk a j \<or> preserved qd (w_data a j) c \<or> cut_harmless crc (w_data a j)"
    if j: "j < w_next a" for j
  proof -
    consider "w_data b j = w_data a j \<and> w_disk b j = w_disk a j" | "preserved qd (w_data a j) b" | "cut_harmless crc (w_data a j)"
      using ab j unfolding spares_def by blast
    then show ?thesis
    proof cases
      case 1
      have "j < w_next b" using j n by simp
      then show ?thesis using bc 1 unfolding spares_def by metis
    next
      case 2
      then show ?thesis using bc unfolding spares_def by blast
    qed blast
  qed
  then show ?thesis using ab bc recovers_trans [OF _ _ wf] unfolding spares_def by blast
qed

lemma recover_segment_spares:
  assumes "crc_streams C" "store_wf (quarantine_dir wab) w" "active_name p" "fst p \<noteq> quarantine_dir wab"
    "recover_segment C p wab w m = (x, w', m')"
  shows "spares (crc_hash C) (quarantine_dir wab) w w'"
proof (cases "w_entry w p")
  case None
  then have "w' = io_tick w"
    using assms(5) by (auto simp: recover_segment_def fs_open_def io_step_tick split: io_outcome.splits)
  then show ?thesis using spares_tick [OF assms(2)] by simp
next
  case (Some i)
  note e = recover_segment_effect(1,2) [OF assms(1,2) Some assms(3-5)]
  have k: "rest_kept (quarantine_dir wab) i w w'" by (rule recover_segment_rest_kept [OF assms(1,2) Some assms(3-5)])
  have "recovers (crc_hash C) (quarantine_dir wab) {q. active_name q} w w'"
    by (rule recovers_mono [OF e(1)]) (use assms(3) in simp)
  moreover have "w_data w' j = w_data w j \<and> w_disk w' j = w_disk w j \<or> preserved (quarantine_dir wab) (w_data w j) w' \<or>
      cut_harmless (crc_hash C) (w_data w j)" if "j < w_next w" for j
    using e(2) k that unfolding rest_kept_def cut_harmless_def by (cases "j = i") blast+
  moreover have "preserved (quarantine_dir wab) bs w \<Longrightarrow> preserved (quarantine_dir wab) bs w'" for bs
    by (rule preserved_kept [OF k assms(2) Some assms(4)])
  ultimately show ?thesis by (simp add: spares_def)
qed

lemma recover_paths_spares:
  assumes "crc_streams C" "\<forall>p \<in> set ps. active_name p \<and> fst p \<noteq> quarantine_dir wab"
    "store_wf (quarantine_dir wab) w" "recover_paths C wab ps w m = (w', m')"
  shows "spares (crc_hash C) (quarantine_dir wab) w w'"
  using assms(2-4)
proof (induction ps arbitrary: w m)
  case Nil
  then show ?case using spares_refl by auto
next
  case (Cons p ps)
  obtain x w1 m1 where s: "recover_segment C p wab w m = (x, w1, m1)" by (metis prod_cases3)
  have r1: "spares (crc_hash C) (quarantine_dir wab) w w1"
    by (rule recover_segment_spares [OF assms(1) Cons.prems(2) _ _ s]) (use Cons.prems(1) in auto)
  have r2: "spares (crc_hash C) (quarantine_dir wab) w (io_tick w1)"
    by (rule spares_trans [OF r1 spares_tick [OF spares_wf [OF r1]] Cons.prems(2)])
  obtain v n where v: "v = w1 \<or> v = io_tick w1" and run: "recover_paths C wab ps v n = (w', m')"
    using Cons.prems(3) s by (auto simp: io_step_tick Let_def split: sum.splits)
  have rv: "spares (crc_hash C) (quarantine_dir wab) w v" using v r1 r2 by auto
  show ?case
    using Cons.IH [OF _ spares_wf [OF rv] run] spares_trans [OF rv _ Cons.prems(2)] Cons.prems(1) by simp
qed

lemma recover_shard_dir_spares:
  assumes "crc_streams C" "store_wf (quarantine_dir wab) w" "d \<noteq> quarantine_dir wab"
    "recover_shard_dir C d wab w m = (x, w', m')"
  shows "spares (crc_hash C) (quarantine_dir wab) w w'"
proof -
  have t: "spares (crc_hash C) (quarantine_dir wab) w (io_tick w)" by (rule spares_tick [OF assms(2)])
  show ?thesis
  proof (cases "fs_read_dir d w")
    case (Pair y w1)
    then have w1: "w1 = io_tick w" and y: "y = Ok es \<Longrightarrow> \<forall>p \<in> set es. fst p = d" for es
      by (auto simp: fs_read_dir_def io_step_tick split: io_outcome.splits)
    show ?thesis
    proof (cases y)
      case (Inl k)
      then show ?thesis using assms(4) Pair t w1 by (simp add: recover_shard_dir_def)
    next
      case (Inr es)
      let ?ps = "sort_key (\<lambda>p. option_key (segment_counter_from_path p)) (filter is_active_file es)"
      have run: "recover_paths C wab ?ps (io_tick w) m = (w', m')"
        using assms(4) Pair Inr w1 by (simp add: recover_shard_dir_def Let_def split: prod.splits)
      have "\<forall>p \<in> set ?ps. active_name p \<and> fst p \<noteq> quarantine_dir wab"
        using y [OF Inr] assms(3)
        by (auto simp: is_active_file_def active_name_def ends_with_def suffix_def)
      from recover_paths_spares [OF assms(1) this spares_wf [OF t] run] show ?thesis
        by (rule spares_trans [OF t _ assms(2)])
    qed
  qed
qed

lemma recover_shard_dirs_spares:
  assumes "crc_streams C" "store_wf (quarantine_dir wab) w" "recover_shard_dirs C wab ds w m = (x, w', m')"
  shows "spares (crc_hash C) (quarantine_dir wab) w w'"
  using assms(2,3)
proof (induction ds arbitrary: w m)
  case Nil
  then show ?case using spares_refl by auto
next
  case (Cons d ds)
  obtain name dir where d: "d = (name, dir)" by (cases d)
  show ?case
  proof (cases "\<not> dir \<or> name = ascii ''quarantine'' \<or> name = ascii ''dead_letter''")
    case True
    then show ?thesis using Cons d by (auto split: if_splits)
  next
    case False
    obtain y w1 m1 where s: "recover_shard_dir C (wab @ ascii ''/'' @ name) wab w m = (y, w1, m1)" by (metis prod_cases3)
    have "wab @ ascii ''/'' @ name \<noteq> quarantine_dir wab"
      using False by (simp add: quarantine_dir_def ascii_def)
    note r = recover_shard_dir_spares [OF assms(1) Cons.prems(1) this s]
    show ?thesis
    proof (cases y)
      case (Inl k)
      then show ?thesis using Cons.prems(2) d False s r by auto
    next
      case (Inr u)
      then have "recover_shard_dirs C wab ds w1 m1 = (x, w', m')" using Cons.prems(2) d False s by auto
      from Cons.IH [OF spares_wf [OF r] this] show ?thesis by (rule spares_trans [OF r _ Cons.prems(1)])
    qed
  qed
qed



end
