(* ===== verification/Replay.thy ===== *)
theory Replay
  imports Recovery
begin

text \<open>
  The start-up replay scan, \<open>weir-server/src/wab/mod.rs\<close> and \<open>check_confirmed\<close> of
  \<open>wab/recovery.rs\<close>: which sealed segments still have to be delivered.  A segment beside a valid
  \<open>.confirmed\<close> sidecar has been delivered; it is an orphan and may be deleted once its sidecar is
  durable.  A segment beside an invalid sidecar is quarantined with it.

  Files are regular files: the world has no symbolic links, and directories are only names.

  Main results: a segment without a sidecar is always queued, whatever fails; a segment disappears
  from its directory only into quarantine or behind a valid sidecar on stable storage; and a
  segment whose quarantine fails is left in place and yet not queued.
\<close>

section \<open>Sidecars\<close>

definition confirmed_path :: "path \<Rightarrow> path" where
  "confirmed_path p = (fst p, confirmed_path_for (snd p))"

definition EXT_CONFIRMED_TMP :: bytes where "EXT_CONFIRMED_TMP = ascii ''.wab.confirmed.tmp''"

definition confirmed_tmp_path :: "path \<Rightarrow> path" where
  "confirmed_tmp_path confirmed = (fst confirmed, snd confirmed @ ascii ''.tmp'')"

text \<open>\<open>Path::exists\<close>: an error counts as absence.\<close>

definition fs_exists :: "path \<Rightarrow> world \<Rightarrow> bool \<times> world" where
  "fs_exists p w = (case io_step w of (IoFail _, w) \<Rightarrow> (False, w) | (_, w) \<Rightarrow> (w_entry w p \<noteq> None, w))"

definition check_confirmed ::
  "(bytes \<Rightarrow> u32) \<Rightarrow> path \<Rightarrow> bytes \<Rightarrow> world \<Rightarrow> recovery_metrics \<Rightarrow> (io_kind + bool) \<times> world \<times> recovery_metrics"
where
  "check_confirmed crc sealed wab_dir w m =
     (case fs_exists (confirmed_path sealed) w of
        (False, w) \<Rightarrow> (Ok False, w, m)
      | (True, w) \<Rightarrow>
      case fs_read (confirmed_path sealed) w of
        (Inl _, w) \<Rightarrow> (Ok False, w, m)
      | (Inr buf, w) \<Rightarrow>
      case parse_confirmed crc buf of
        Inr _ \<Rightarrow> (Ok True, w, m)
      | Inl _ \<Rightarrow>
      case quarantine_and_count sealed wab_dir w m of
        (e, w, m) \<Rightarrow>
      case quarantine (confirmed_path sealed) wab_dir w of
        (Inl k, w) \<Rightarrow> (Err k, w, m)
      | (Inr _, w) \<Rightarrow> (Err e, w, m))"

definition delete_orphan :: "path \<Rightarrow> world \<Rightarrow> (io_kind + unit) \<times> world" where
  "delete_orphan sealed w =
     (case fs_sync_file (confirmed_path sealed) w of
        (Inl k, w) \<Rightarrow> (Err k, w)
      | (Inr _, w) \<Rightarrow>
      case fs_sync_dir (fst (confirmed_path sealed)) w of
        (Inl k, w) \<Rightarrow> (Err k, w)
      | (Inr _, w) \<Rightarrow>
      case fs_remove_file sealed w of
        (Inl k, w) \<Rightarrow> (if k = NotFound then Ok () else Err k, w)
      | (Inr _, w) \<Rightarrow> (Ok (), w))"

text \<open>\<open>symlink_metadata\<close>, then the removal; failures are only logged.\<close>

definition remove_stale_confirmed_tmp :: "path \<Rightarrow> world \<Rightarrow> world" where
  "remove_stale_confirmed_tmp tmp w =
     (case fs_exists tmp w of (False, w) \<Rightarrow> w | (True, w) \<Rightarrow> snd (fs_remove_file tmp w))"

section \<open>The scan\<close>

fun scan_sealed ::
  "(bytes \<Rightarrow> u32) \<Rightarrow> bytes \<Rightarrow> (path \<Rightarrow> bool) \<Rightarrow> bool \<Rightarrow> path list \<Rightarrow> world \<Rightarrow> recovery_metrics \<Rightarrow>
   path list \<times> world \<times> recovery_metrics"
where
  "scan_sealed crc wab_dir exclude orphan_cleanup [] w m = ([], w, m)"
| "scan_sealed crc wab_dir exclude orphan_cleanup (sealed # rest) w m =
     (if exclude sealed then scan_sealed crc wab_dir exclude orphan_cleanup rest w m
      else case check_confirmed crc sealed wab_dir w m of
             (Inr True, w, m) \<Rightarrow>
               scan_sealed crc wab_dir exclude orphan_cleanup rest
                 (if orphan_cleanup then snd (delete_orphan sealed w) else w) m
           | (Inr False, w, m) \<Rightarrow>
               (case scan_sealed crc wab_dir exclude orphan_cleanup rest w m of
                  (segs, w, m) \<Rightarrow> (sealed # segs, w, m))
           | (Inl _, w, m) \<Rightarrow> scan_sealed crc wab_dir exclude orphan_cleanup rest w m)"

record sealed_scan =
  ss_segments :: "path list"
  ss_incomplete :: bool

definition scan_shard ::
  "(bytes \<Rightarrow> u32) \<Rightarrow> bytes \<Rightarrow> (path \<Rightarrow> bool) \<Rightarrow> bool \<Rightarrow> path list \<Rightarrow> world \<Rightarrow> recovery_metrics \<Rightarrow>
   path list \<times> world \<times> recovery_metrics"
where
  "scan_shard crc wab_dir exclude orphan_cleanup entries w m =
     (let w = fold remove_stale_confirmed_tmp (filter (\<lambda>p. ends_with (snd p) EXT_CONFIRMED_TMP) entries) w in
      scan_sealed crc wab_dir exclude orphan_cleanup
        (sort_key (\<lambda>p. option_key (segment_counter_from_path p)) (filter (\<lambda>p. ends_with (snd p) EXT_SEALED) entries)) w m)"

text \<open>\<open>listing\<close> is what \<open>read_dir\<close> found in \<open>wab_dir\<close>, with \<open>is_dir\<close> of each name.\<close>

fun scan_shards ::
  "(bytes \<Rightarrow> u32) \<Rightarrow> bytes \<Rightarrow> nat option \<Rightarrow> (path \<Rightarrow> bool) \<Rightarrow> bool \<Rightarrow> (bytes \<times> bool) list \<Rightarrow> sealed_scan \<Rightarrow>
   world \<Rightarrow> recovery_metrics \<Rightarrow> (io_kind + sealed_scan) \<times> world \<times> recovery_metrics"
where
  "scan_shards crc wab_dir shard_count exclude orphan_cleanup [] acc w m = (Ok acc, w, m)"
| "scan_shards crc wab_dir shard_count exclude orphan_cleanup ((name, is_dir) # rest) acc w m =
     (if \<not> is_dir \<or> name = ascii ''quarantine'' \<or> name = ascii ''dead_letter''
      then scan_shards crc wab_dir shard_count exclude orphan_cleanup rest acc w m
      else case fs_read_dir (wab_dir @ ascii ''/'' @ name) w of
             (Inl k, w) \<Rightarrow>
               if shard_count = None
               then scan_shards crc wab_dir shard_count exclude orphan_cleanup rest (acc\<lparr>ss_incomplete := True\<rparr>) w m
               else (Err k, w, m)
           | (Inr entries, w) \<Rightarrow>
              (case scan_shard crc wab_dir exclude orphan_cleanup entries w m of
                 (segs, w, m) \<Rightarrow>
                   scan_shards crc wab_dir shard_count exclude orphan_cleanup rest
                     (acc\<lparr>ss_segments := ss_segments acc @ segs\<rparr>) w m))"

definition scan_unconfirmed_sealed ::
  "(bytes \<Rightarrow> u32) \<Rightarrow> bytes \<Rightarrow> io_kind + (bytes \<times> bool) list \<Rightarrow> nat option \<Rightarrow> (path \<Rightarrow> bool) \<Rightarrow> bool \<Rightarrow>
   world \<Rightarrow> recovery_metrics \<Rightarrow> (io_kind + sealed_scan) \<times> world \<times> recovery_metrics"
where
  "scan_unconfirmed_sealed crc wab_dir listing shard_count exclude orphan_cleanup w m =
     (case listing of
        Inl k \<Rightarrow> (Err k, w, m)
      | Inr entries \<Rightarrow>
          scan_shards crc wab_dir shard_count exclude orphan_cleanup
            (sort_key (\<lambda>(name, _). option_key (shard_id_from_path (wab_dir, name))) entries)
            \<lparr>ss_segments = [], ss_incomplete = False\<rparr> w m)"

section \<open>Replay and recovery entry points\<close>

definition read_segment_record_count :: "path \<Rightarrow> world \<Rightarrow> (io_kind + u64) \<times> world" where
  "read_segment_record_count p w =
     (case fs_open p w of
        (Inl k, w) \<Rightarrow> (Err k, w)
      | (Inr (i, r), w) \<Rightarrow>
      case fs_metadata_len i w of
        (Inl k, w) \<Rightarrow> (Err k, w)
      | (Inr len, w) \<Rightarrow>
      if len < SEGMENT_FOOTER_LEN then (Err UnexpectedEof, w)
      else case fs_seek w of
        (Inl k, w) \<Rightarrow> (Err k, w)
      | (Inr _, w) \<Rightarrow>
      case read_exact 8 (r\<lparr>rd_rest := drop (len - SEGMENT_FOOTER_LEN) (rd_rest r)\<rparr>) of
        Inl k \<Rightarrow> (Err k, w)
      | Inr (footer, _) \<Rightarrow> (Ok (u64_from_le footer), w))"

fun count_replayed :: "path list \<Rightarrow> world \<Rightarrow> recovery_metrics \<Rightarrow> world \<times> recovery_metrics" where
  "count_replayed [] w m = (w, m)"
| "count_replayed (p # ps) w m =
     (case read_segment_record_count p w of
        (x, w) \<Rightarrow>
          count_replayed ps w
            (m\<lparr>rm_replayed := rm_replayed m + (case x of Inr n \<Rightarrow> n | Inl _ \<Rightarrow> 0)\<rparr>))"

definition scan_replay ::
  "(bytes \<Rightarrow> u32) \<Rightarrow> bytes \<Rightarrow> io_kind + (bytes \<times> bool) list \<Rightarrow> nat \<Rightarrow> bool \<Rightarrow>
   world \<Rightarrow> recovery_metrics \<Rightarrow> (io_kind + path list) \<times> world \<times> recovery_metrics"
where
  "scan_replay crc wab_dir listing shard_count orphan_cleanup w m =
     (case scan_unconfirmed_sealed crc wab_dir listing (Some shard_count) (\<lambda>_. False) orphan_cleanup w m of
        (Inl k, w, m) \<Rightarrow> (Err k, w, m)
      | (Inr scan, w, m) \<Rightarrow>
          (case count_replayed (ss_segments scan) w m of (w, m) \<Rightarrow> (Ok (ss_segments scan), w, m)))"

record recovery_summary =
  rs_shard_dirs :: nat
  rs_segments_quarantined :: nat
  rs_segments_failed :: nat

fun create_shard_dirs :: "nat \<Rightarrow> world \<Rightarrow> (io_kind + unit) \<times> world" where
  "create_shard_dirs 0 w = (Ok (), w)"
| "create_shard_dirs (Suc n) w =
     (case create_dir_private w of (Inl k, w) \<Rightarrow> (Err k, w) | (Inr _, w) \<Rightarrow> create_shard_dirs n w)"

definition recover ::
  "'h crc_ops \<Rightarrow> bytes \<Rightarrow> io_kind + (bytes \<times> bool) list \<Rightarrow> nat \<Rightarrow> world \<Rightarrow> recovery_metrics \<Rightarrow>
   (io_kind + recovery_summary) \<times> world \<times> recovery_metrics"
where
  "recover C wab_dir listing shard_count w m =
     (case create_shard_dirs shard_count w of
        (Inl k, w) \<Rightarrow> (Err k, w, m)
      | (Inr _, w) \<Rightarrow>
      case recover_open_segments C wab_dir listing w m of
        (Inl k, w, m') \<Rightarrow> (Err k, w, m')
      | (Inr _, w, m') \<Rightarrow>
         (Ok \<lparr>rs_shard_dirs = shard_count, rs_segments_quarantined = rm_quarantined m' - rm_quarantined m,
              rs_segments_failed = rm_failed m' - rm_failed m\<rparr>, w, m'))"

section \<open>What the scan may do to the store\<close>

abbreviation sealed_name :: "path \<Rightarrow> bool" where "sealed_name p \<equiv> ends_with (snd p) EXT_SEALED"

definition valid_sidecar :: "(bytes \<Rightarrow> u32) \<Rightarrow> bytes \<Rightarrow> bool" where
  "valid_sidecar crc bs \<longleftrightarrow> (\<exists>c. parse_confirmed crc bs = Ok c)"

text \<open>
  A valid sidecar beside \<open>p\<close>, on stable storage unless an fsync of it has failed.
\<close>

definition confirmed_at :: "(bytes \<Rightarrow> u32) \<Rightarrow> path \<Rightarrow> world \<Rightarrow> bool" where
  "confirmed_at crc p w \<longleftrightarrow> (\<exists>j. w_entry w (confirmed_path p) = Some j \<and> valid_sidecar crc (w_data w j) \<and>
     (w_lost w j \<or> w_ddir w (confirmed_path p) = Some j \<and> w_disk w j = w_data w j))"

definition tidies :: "(bytes \<Rightarrow> u32) \<Rightarrow> bytes \<Rightarrow> world \<Rightarrow> world \<Rightarrow> bool" where
  "tidies crc qd w w' \<longleftrightarrow> w_data w' = w_data w \<and> w_io w' = w_io w \<and> (\<forall>j. w_lost w j \<longrightarrow> w_lost w' j) \<and>
     (\<forall>q i. fst q = qd \<longrightarrow> w_entry w q = Some i \<longrightarrow> w_entry w' q = Some i) \<and>
     (\<forall>q i. fst q \<noteq> qd \<longrightarrow> w_entry w' q = Some i \<longrightarrow> w_entry w q = Some i) \<and>
     (\<forall>c j. fst c \<noteq> qd \<longrightarrow> ends_with (snd c) EXT_CONFIRMED \<longrightarrow> w_entry w c = Some j \<longrightarrow> valid_sidecar crc (w_data w j) \<longrightarrow>
        w_entry w' c = Some j \<and>
        (w_ddir w c = Some j \<and> w_disk w j = w_data w j \<longrightarrow> w_ddir w' c = Some j \<and> w_disk w' j = w_data w j)) \<and>
     (\<forall>p i. fst p \<noteq> qd \<longrightarrow> sealed_name p \<longrightarrow> w_entry w p = Some i \<longrightarrow>
        w_entry w' p = Some i \<or> (\<exists>q. fst q = qd \<and> w_entry w' q = Some i) \<or> confirmed_at crc p w') \<and>
     (\<forall>p i. fst p \<noteq> qd \<longrightarrow> sealed_name p \<longrightarrow> w_entry w p = Some i \<longrightarrow> w_entry w (confirmed_path p) = None \<longrightarrow>
        w_entry w' p = Some i)"

lemma confirmed_path_ext:
  assumes "sealed_name p" shows "ends_with (snd (confirmed_path p)) EXT_CONFIRMED" "fst (confirmed_path p) = fst p"
  by (simp_all add: confirmed_path_def confirmed_path_for_def ends_with_def suffix_def Let_def)

lemma ends_with_last: "ends_with x e \<Longrightarrow> e \<noteq> [] \<Longrightarrow> last x = last e"
  by (auto simp: ends_with_def suffix_def)

lemma name_kinds_apart:
  "ends_with x EXT_CONFIRMED \<Longrightarrow> \<not> ends_with x EXT_SEALED"
  "ends_with x EXT_CONFIRMED \<Longrightarrow> \<not> ends_with x EXT_CONFIRMED_TMP"
  "ends_with x EXT_SEALED \<Longrightarrow> \<not> ends_with x EXT_CONFIRMED_TMP"
proof -
  show "ends_with x EXT_CONFIRMED \<Longrightarrow> \<not> ends_with x EXT_SEALED"
    unfolding ends_with_def using ext_last_apart(1) by (metis suffixE)
  have l: "last EXT_CONFIRMED \<noteq> last EXT_CONFIRMED_TMP" "last EXT_SEALED \<noteq> last EXT_CONFIRMED_TMP"
    "EXT_CONFIRMED \<noteq> []" "EXT_SEALED \<noteq> []" "EXT_CONFIRMED_TMP \<noteq> []"
    by (simp_all add: EXT_CONFIRMED_def EXT_SEALED_def EXT_CONFIRMED_TMP_def ascii_def)
  show "ends_with x EXT_CONFIRMED \<Longrightarrow> \<not> ends_with x EXT_CONFIRMED_TMP"
    "ends_with x EXT_SEALED \<Longrightarrow> \<not> ends_with x EXT_CONFIRMED_TMP"
    using ends_with_last l by metis+
qed

lemma tidiesD:
  assumes "tidies crc qd w w'"
  shows "w_data w' = w_data w" "w_io w' = w_io w" "w_lost w j \<Longrightarrow> w_lost w' j"
    and "fst q = qd \<Longrightarrow> w_entry w q = Some i \<Longrightarrow> w_entry w' q = Some i"
    and "fst q \<noteq> qd \<Longrightarrow> w_entry w' q = Some i \<Longrightarrow> w_entry w q = Some i"
    and "fst q \<noteq> qd \<Longrightarrow> ends_with (snd q) EXT_CONFIRMED \<Longrightarrow> w_entry w q = Some i \<Longrightarrow> valid_sidecar crc (w_data w i) \<Longrightarrow>
        w_entry w' q = Some i \<and>
        (w_ddir w q = Some i \<and> w_disk w i = w_data w i \<longrightarrow> w_ddir w' q = Some i \<and> w_disk w' i = w_data w i)"
    and "fst q \<noteq> qd \<Longrightarrow> sealed_name q \<Longrightarrow> w_entry w q = Some i \<Longrightarrow>
        w_entry w' q = Some i \<or> (\<exists>r. fst r = qd \<and> w_entry w' r = Some i) \<or> confirmed_at crc q w'"
    and "fst q \<noteq> qd \<Longrightarrow> sealed_name q \<Longrightarrow> w_entry w q = Some i \<Longrightarrow> w_entry w (confirmed_path q) = None \<Longrightarrow>
        w_entry w' q = Some i"
proof -
  note c = assms [unfolded tidies_def]
  show "w_data w' = w_data w"
    by (rule c [THEN conjunct1, rule_format])
  show "w_io w' = w_io w"
    by (rule c [THEN conjunct2, THEN conjunct1, rule_format])
  show "w_lost w j \<Longrightarrow> w_lost w' j"
    by (rule c [THEN conjunct2, THEN conjunct2, THEN conjunct1, rule_format])
  show "fst q = qd \<Longrightarrow> w_entry w q = Some i \<Longrightarrow> w_entry w' q = Some i"
    by (rule c [THEN conjunct2, THEN conjunct2, THEN conjunct2, THEN conjunct1, rule_format])
  show "fst q \<noteq> qd \<Longrightarrow> w_entry w' q = Some i \<Longrightarrow> w_entry w q = Some i"
    by (rule c [THEN conjunct2, THEN conjunct2, THEN conjunct2, THEN conjunct2, THEN conjunct1, rule_format])
  show "fst q \<noteq> qd \<Longrightarrow> ends_with (snd q) EXT_CONFIRMED \<Longrightarrow> w_entry w q = Some i \<Longrightarrow> valid_sidecar crc (w_data w i) \<Longrightarrow>
        w_entry w' q = Some i \<and>
        (w_ddir w q = Some i \<and> w_disk w i = w_data w i \<longrightarrow> w_ddir w' q = Some i \<and> w_disk w' i = w_data w i)"
    by (rule c [THEN conjunct2, THEN conjunct2, THEN conjunct2, THEN conjunct2, THEN conjunct2, THEN conjunct1, rule_format])
  show "fst q \<noteq> qd \<Longrightarrow> sealed_name q \<Longrightarrow> w_entry w q = Some i \<Longrightarrow>
        w_entry w' q = Some i \<or> (\<exists>r. fst r = qd \<and> w_entry w' r = Some i) \<or> confirmed_at crc q w'"
    by (rule c [THEN conjunct2, THEN conjunct2, THEN conjunct2, THEN conjunct2, THEN conjunct2, THEN conjunct2, THEN conjunct1, rule_format])
  show "fst q \<noteq> qd \<Longrightarrow> sealed_name q \<Longrightarrow> w_entry w q = Some i \<Longrightarrow> w_entry w (confirmed_path q) = None \<Longrightarrow>
        w_entry w' q = Some i"
    by (rule c [THEN conjunct2, THEN conjunct2, THEN conjunct2, THEN conjunct2, THEN conjunct2, THEN conjunct2, THEN conjunct2, rule_format])
qed

lemma tidies_no_sidecar:
  assumes "tidies crc qd w w'" "sealed_name p" "fst p \<noteq> qd" "w_entry w (confirmed_path p) = None"
  shows "w_entry w' (confirmed_path p) = None"
proof (cases "w_entry w' (confirmed_path p)")
  case (Some j)
  then show ?thesis using tidiesD(5) [OF assms(1), of "confirmed_path p" j] confirmed_path_ext [OF assms(2)] assms(3,4) by simp
qed

lemma tidies_confirmed:
  assumes t: "tidies crc qd w w'" and p: "sealed_name p" "fst p \<noteq> qd" and c: "confirmed_at crc p w"
  shows "confirmed_at crc p w'"
proof -
  obtain j where j: "w_entry w (confirmed_path p) = Some j" "valid_sidecar crc (w_data w j)"
    "w_lost w j \<or> w_ddir w (confirmed_path p) = Some j \<and> w_disk w j = w_data w j"
    using c by (auto simp: confirmed_at_def)
  have "fst (confirmed_path p) \<noteq> qd" using confirmed_path_ext [OF p(1)] p(2) by simp
  note k = tidiesD(6) [OF t this confirmed_path_ext(1) [OF p(1)] j(1,2)]
  show ?thesis unfolding confirmed_at_def
    using j k tidiesD(3) [OF t, of j] by (intro exI [of _ j]) (auto simp: tidiesD(1) [OF t])
qed

lemma tidies_trans:
  assumes ab: "tidies crc qd a b" and bc: "tidies crc qd b c"
  shows "tidies crc qd a c"
  unfolding tidies_def
proof (intro conjI allI impI)
  show "w_data c = w_data a" "w_io c = w_io a" by (simp_all add: tidiesD [OF ab] tidiesD [OF bc])
  show "w_lost a j \<Longrightarrow> w_lost c j" for j using tidiesD(3) [OF ab] tidiesD(3) [OF bc] by blast
  have d: "w_data b = w_data a" by (rule tidiesD(1) [OF ab])
  fix q i
  show "fst q = qd \<Longrightarrow> w_entry a q = Some i \<Longrightarrow> w_entry c q = Some i"
    by (rule tidiesD(4) [OF bc _ tidiesD(4) [OF ab]])
  show "fst q \<noteq> qd \<Longrightarrow> w_entry c q = Some i \<Longrightarrow> w_entry a q = Some i"
    by (rule tidiesD(5) [OF ab _ tidiesD(5) [OF bc]])
  assume q: "fst q \<noteq> qd"
  { assume n: "ends_with (snd q) EXT_CONFIRMED" "w_entry a q = Some i" "valid_sidecar crc (w_data a i)"
    note b = tidiesD(6) [OF ab q n]
    have v: "valid_sidecar crc (w_data b i)" using n(3) d by simp
    note c = tidiesD(6) [OF bc q n(1) conjunct1 [OF b] v]
    show "w_entry c q = Some i" using c by simp
    show "w_ddir c q = Some i" "w_disk c i = w_data a i" if "w_ddir a q = Some i \<and> w_disk a i = w_data a i"
      using b c that d by auto }
  { assume n: "sealed_name q" "w_entry a q = Some i"
    from tidiesD(7) [OF ab q n] show "w_entry c q = Some i \<or> (\<exists>r. fst r = qd \<and> w_entry c r = Some i) \<or> confirmed_at crc q c"
    proof (elim disjE exE conjE)
      assume "w_entry b q = Some i" then show ?thesis by (rule tidiesD(7) [OF bc q n(1)])
    next
      fix r assume "fst r = qd" "w_entry b r = Some i"
      then show ?thesis using tidiesD(4) [OF bc, of r i] by (intro disjI2 disjI1 exI [of _ r]) simp
    next
      assume "confirmed_at crc q b"
      then show ?thesis using tidies_confirmed [OF bc n(1) q] by simp
    qed
    assume nc: "w_entry a (confirmed_path q) = None"
    show "w_entry c q = Some i"
      by (rule tidiesD(8) [OF bc q n(1) tidiesD(8) [OF ab q n nc] tidies_no_sidecar [OF ab n(1) q nc]]) }
qed

text \<open>Steps that change no name.\<close>

lemma tidies_same_names:
  assumes "w_entry w' = w_entry w" "w_data w' = w_data w" "w_io w' = w_io w" "\<forall>j. w_lost w j \<longrightarrow> w_lost w' j"
    "\<forall>j. w_disk w j = w_data w j \<longrightarrow> w_disk w' j = w_data w j" "\<forall>c j. w_entry w c = Some j \<longrightarrow> w_ddir w c = Some j \<longrightarrow> w_ddir w' c = Some j"
  shows "tidies crc qd w w'"
  unfolding tidies_def assms(1,2,3) using assms(4-6) by auto

lemma tidies_idle: "tidies crc qd w (w\<lparr>w_tick := n\<rparr>)"
  by (rule tidies_same_names) (auto simp: w_entry_def fun_eq_iff)

lemma tidies_tick: "tidies crc qd w (io_tick w)"
  using tidies_idle by (simp add: io_tick_def)

lemma tidies_sync_data: "fs_sync_data i w = (x, w') \<Longrightarrow> tidies crc qd w w'"
  by (drule fs_sync_data_effect) (auto intro!: tidies_same_names w_entry_cong simp: io_tick_def)

lemma tidies_sync_dir: "fs_sync_dir d w = (x, w') \<Longrightarrow> tidies crc qd w w'"
  by (drule fs_sync_dir_effect) (auto intro!: tidies_same_names w_entry_cong simp: io_tick_def)

text \<open>A name outside \<open>qd\<close> goes away: a moved file, a stale temporary file, or a confirmed segment.\<close>

lemma tidies_unlink:
  assumes w': "w_data w' = w_data w" "w_io w' = w_io w" "w_disk w' = w_disk w" "w_ddir w' = w_ddir w" "w_lost w' = w_lost w"
    and p: "fst p \<noteq> qd" "w_entry w p = Some i"
    and e: "\<And>r. w_entry w' r = (if r = q then Some i else if r = p then None else w_entry w r) \<and> fst q = qd \<and> w_entry w q = None
            \<or> w_entry w' r = (if r = p then None else w_entry w r) \<and> (sealed_name p \<longrightarrow> confirmed_at crc p w)"
    and side: "ends_with (snd p) EXT_CONFIRMED \<Longrightarrow> \<not> valid_sidecar crc (w_data w i)"
    and own: "sealed_name p \<Longrightarrow> w_entry w (confirmed_path p) \<noteq> None"
  shows "tidies crc qd w w'"
  unfolding tidies_def w'
proof (intro conjI allI impI)
  fix r j
  show "fst r = qd \<Longrightarrow> w_entry w r = Some j \<Longrightarrow> w_entry w' r = Some j" using e [of r] p(1) by auto
  show "fst r \<noteq> qd \<Longrightarrow> w_entry w' r = Some j \<Longrightarrow> w_entry w r = Some j" using e [of r] by (auto split: if_splits)
  assume r: "fst r \<noteq> qd"
  { assume n: "ends_with (snd r) EXT_CONFIRMED" "w_entry w r = Some j" "valid_sidecar crc (w_data w j)"
    then have "r \<noteq> p" using side p(2) by auto
    then show "w_entry w' r = Some j" using e [of r] n(2) r by auto }
  { assume n: "sealed_name r" "w_entry w r = Some j"
    have "confirmed_at crc r w'" if c: "confirmed_at crc r w"
    proof -
      obtain k where k: "w_entry w (confirmed_path r) = Some k" "valid_sidecar crc (w_data w k)"
        "w_lost w k \<or> w_ddir w (confirmed_path r) = Some k \<and> w_disk w k = w_data w k" using c by (auto simp: confirmed_at_def)
      have "confirmed_path r \<noteq> p" using k side p(2) confirmed_path_ext(1) [OF n(1)] by auto
      moreover have "fst (confirmed_path r) \<noteq> qd" using confirmed_path_ext(2) [OF n(1)] r by simp
      ultimately have "w_entry w' (confirmed_path r) = Some k" using e [of "confirmed_path r"] k(1) by auto
      then show ?thesis unfolding confirmed_at_def w' using k by (intro exI [of _ k]) simp
    qed
    moreover have "w_entry w' r = Some j" if "r \<noteq> p" using e [of r] n(2) that r by auto
    moreover have "(\<exists>x. fst x = qd \<and> w_entry w' x = Some j) \<or> confirmed_at crc r w" if "r = p"
    proof -
      have "w_entry w' q = Some i \<and> fst q = qd \<or> confirmed_at crc p w"
        using e [of q] n(1) that by auto
      then show ?thesis using that n(2) p(2) by (elim disjE) (auto intro: exI [of _ q])
    qed
    ultimately show "w_entry w' r = Some j \<or> (\<exists>x. fst x = qd \<and> w_entry w' x = Some j) \<or> confirmed_at crc r w'" by blast
    show "w_entry w (confirmed_path r) = None \<Longrightarrow> w_entry w' r = Some j"
      using e [of r] n own r by (cases "r = p") auto }
qed auto

lemma tidies_quarantine:
  assumes run: "quarantine p wab w = (x, w')" and p: "fst p \<noteq> quarantine_dir wab"
    and side: "\<And>i. ends_with (snd p) EXT_CONFIRMED \<Longrightarrow> w_entry w p = Some i \<Longrightarrow> \<not> valid_sidecar crc (w_data w i)"
    and own: "sealed_name p \<Longrightarrow> w_entry w (confirmed_path p) \<noteq> None"
  shows "tidies crc (quarantine_dir wab) w w'"
  using quarantine_moves [OF run]
proof (elim disjE exE conjE)
  fix n assume "w' = w\<lparr>w_tick := n\<rparr>" then show ?thesis using tidies_idle by simp
next
  fix q i n assume q: "fst q = quarantine_dir wab" "w_entry w q = None" "w_entry w p = Some i"
    and w': "w' = w\<lparr>w_tick := n, w_dir := AList.update q i (AList.delete p (w_dir w))\<rparr>"
  have "w_entry w' r = (if r = q then Some i else if r = p then None else w_entry w r)" for r
    by (simp add: w' w_entry_def update_conv' delete_conv')
  then show ?thesis using q p side own by (intro tidies_unlink [where q = q and p = p and i = i]) (auto simp: w')
qed

lemma fs_exists_effect: "fs_exists p w = (b, w') \<Longrightarrow> w' = io_tick w \<and> (b \<longrightarrow> w_entry w p \<noteq> None)"
  by (auto simp: fs_exists_def io_step_tick split: io_outcome.splits)

lemma tidies_remove:
  assumes run: "fs_remove_file p w = (x, w')" and p: "fst p \<noteq> qd" "\<not> ends_with (snd p) EXT_CONFIRMED"
    "sealed_name p \<Longrightarrow> w_entry w p \<noteq> None \<Longrightarrow> confirmed_at crc p w"
  shows "tidies crc qd w w'"
  using fs_remove_file_effect [OF run]
proof (elim disjE conjE)
  assume "w' = io_tick w" then show ?thesis using tidies_tick by simp
next
  assume w': "w' = (io_tick w)\<lparr>w_dir := AList.delete p (w_dir w)\<rparr>" "x = Ok ()"
  show ?thesis
  proof (cases "w_entry w p")
    case None
    then show ?thesis using run w' by (auto simp: fs_remove_file_def io_step_tick split: io_outcome.splits)
  next
    case (Some i)
    have "w_entry w' r = (if r = p then None else w_entry w r)" for r
      by (simp add: w' w_entry_def delete_conv')
    then show ?thesis using Some p
      by (intro tidies_unlink [where p = p and i = i]) (auto simp: w' io_tick_def confirmed_at_def)
  qed
qed

lemma sync_file_tidies:
  assumes "fs_sync_file c w = (x, w')"
  shows "tidies crc qd w w' \<and> w_entry w' = w_entry w \<and>
    (x = Ok () \<longrightarrow> (\<exists>j. w_entry w c = Some j \<and> (w_lost w' j \<or> w_disk w' j = w_data w j)))"
proof -
  obtain y w1 where o: "fs_open c w = (y, w1)" by fastforce
  have w1: "w1 = io_tick w" using fs_open_effect [OF o] by simp
  show ?thesis
  proof (cases y)
    case (Inl k)
    then show ?thesis using assms o w1 tidies_tick by (auto simp: fs_sync_file_def)
  next
    case (Inr ir)
    then obtain j r where j: "y = Ok (j, r)" "w_entry w c = Some j" using fs_open_effect [OF o] by (cases ir) auto
    then have s: "fs_sync_data j w1 = (x, w')" using assms o by (simp add: fs_sync_file_def)
    have "tidies crc qd w w'" by (rule tidies_trans [OF tidies_tick tidies_sync_data [OF s [unfolded w1]]])
    moreover have "w_entry w' = w_entry w"
      using fs_sync_data_effect [OF s] by (auto simp: w1 w_entry_def fun_eq_iff)
    moreover have "x = Ok () \<longrightarrow> w_lost w' j \<or> w_disk w' j = w_data w j"
      using fs_sync_data_effect [OF s] by (auto simp: w1)
    ultimately show ?thesis using j by auto
  qed
qed

lemma sync_dir_names:
  "fs_sync_dir d w = (x, w') \<Longrightarrow> w_entry w' = w_entry w \<and> w_data w' = w_data w \<and> w_disk w' = w_disk w \<and> w_lost w' = w_lost w \<and>
   (x = Ok () \<longrightarrow> (\<forall>q. fst q = d \<longrightarrow> w_ddir w' q = w_entry w q))"
  by (drule fs_sync_dir_effect) (auto simp: w_entry_def fun_eq_iff)

lemma delete_orphan_tidies:
  assumes run: "delete_orphan p w = (x, w')" and p: "sealed_name p" "fst p \<noteq> qd"
    and j: "w_entry w (confirmed_path p) = Some j" "valid_sidecar crc (w_data w j)"
  shows "tidies crc qd w w'"
proof -
  obtain y1 w1 where s1: "fs_sync_file (confirmed_path p) w = (y1, w1)" by fastforce
  obtain y2 w2 where s2: "fs_sync_dir (fst (confirmed_path p)) w1 = (y2, w2)" by fastforce
  obtain y3 w3 where s3: "fs_remove_file p w2 = (y3, w3)" by fastforce
  note e1 = sync_file_tidies [OF s1, of crc qd] and e2 = sync_dir_names [OF s2]
  have t2: "tidies crc qd w w2" using tidies_trans [OF _ tidies_sync_dir [OF s2]] e1 by blast
  show ?thesis
  proof (cases "y1 = Ok () \<and> y2 = Ok ()")
    case False
    then show ?thesis using run s1 s2 e1 t2 by (auto simp: delete_orphan_def split: sum.splits)
  next
    case True
    then have "confirmed_at crc p w2"
      using e1 e2 j tidiesD(1) [OF conjunct1 [OF e1]] unfolding confirmed_at_def by (intro exI [of _ j]) auto
    then have "tidies crc qd w w3"
      using tidies_trans [OF t2 tidies_remove [OF s3 p(2)]] name_kinds_apart(1) p(1) by blast
    moreover have "w' = w3" using run s1 s2 s3 True by (auto simp: delete_orphan_def split: sum.splits)
    ultimately show ?thesis by simp
  qed
qed

lemma check_confirmed_effect:
  assumes run: "check_confirmed crc p wab w m = (x, w', m')" and p: "sealed_name p" "fst p \<noteq> quarantine_dir wab"
  shows "tidies crc (quarantine_dir wab) w w'"
    and "x = Ok True \<Longrightarrow> \<exists>j. w_entry w' (confirmed_path p) = Some j \<and> valid_sidecar crc (w_data w' j)"
    and "w_entry w (confirmed_path p) = None \<Longrightarrow> x = Ok False"
    and "(\<forall>n. w_io w n = IoDone) \<Longrightarrow> w_entry w (confirmed_path p) = Some j \<Longrightarrow> valid_sidecar crc (w_data w j) \<Longrightarrow> x = Ok True"
proof -
  let ?c = "confirmed_path p" and ?qd = "quarantine_dir wab"
  obtain b w1 where s1: "fs_exists ?c w = (b, w1)" by fastforce
  obtain y w2 where s2: "fs_read ?c w1 = (y, w2)" by fastforce
  have w1: "w1 = io_tick w" "b \<Longrightarrow> w_entry w ?c \<noteq> None" using fs_exists_effect [OF s1] by auto
  have w2: "w2 = io_tick w1" and rd: "\<And>bs. y = Ok bs \<Longrightarrow> \<exists>j. w_entry w ?c = Some j \<and> bs = w_data w j"
    using fs_read_effect [OF s2] by (auto simp: w1)
  have t1: "tidies crc ?qd w w1" and t2: "tidies crc ?qd w w2"
    unfolding w2 w1 using tidies_tick tidies_trans [OF tidies_tick tidies_tick] by blast+
  have ent: "w_entry w2 = w_entry w" "w_data w2 = w_data w" by (simp_all add: w2 w1)
  have ext: "fst ?c \<noteq> ?qd" "ends_with (snd ?c) EXT_CONFIRMED" "\<not> sealed_name ?c"
    using confirmed_path_ext [OF p(1)] p(2) name_kinds_apart(1) by auto
  have all: "tidies crc ?qd w w' \<and> (x = Ok True \<longrightarrow> (\<exists>j. w_entry w' ?c = Some j \<and> valid_sidecar crc (w_data w' j)))"
  proof (cases "b \<and> (\<exists>bs. y = Ok bs)")
    case False
    then show ?thesis using run s1 s2 t1 t2 by (auto simp: check_confirmed_def split: sum.splits bool.splits)
  next
    case True
    then obtain bs j where y: "y = Ok bs" and j: "w_entry w ?c = Some j" "bs = w_data w j" using rd by blast
    show ?thesis
    proof (cases "parse_confirmed crc bs")
      case (Inr c)
      then have "x = Ok True" "w' = w2" using run s1 s2 True y by (auto simp: check_confirmed_def)
      then show ?thesis using t2 ent j Inr by (auto simp: valid_sidecar_def)
    next
      case (Inl e)
      then have bad: "\<not> valid_sidecar crc (w_data w j)" using j by (simp add: valid_sidecar_def)
      obtain e3 w3 m3 where s3: "quarantine_and_count p wab w2 m = (e3, w3, m3)" by (metis prod_cases3)
      obtain y3 where q3: "quarantine p wab w2 = (y3, w3)"
        using s3 by (auto simp: quarantine_and_count_def split: prod.splits sum.splits)
      obtain y4 w4 where q4: "quarantine ?c wab w3 = (y4, w4)" by fastforce
      have t3: "tidies crc ?qd w2 w3"
        by (rule tidies_quarantine [OF q3 p(2)]) (use name_kinds_apart(1) p(1) j ent in auto)
      have t4: "tidies crc ?qd w3 w4"
      proof (rule tidies_quarantine [OF q4 ext(1)])
        fix i assume "w_entry w3 ?c = Some i"
        then have "w_entry w2 ?c = Some i" by (rule tidiesD(5) [OF t3 ext(1)])
        then show "\<not> valid_sidecar crc (w_data w3 i)" using bad j ent tidiesD(1) [OF t3] by simp
      qed (use ext in auto)
      have "w' = w4" "\<forall>v. x \<noteq> Ok v" using run s1 s2 s3 q4 True y Inl
        by (auto simp: check_confirmed_def split: sum.splits)
      then show ?thesis using tidies_trans [OF tidies_trans [OF t2 t3] t4] by auto
    qed
  qed
  show "tidies crc ?qd w w'" and "x = Ok True \<Longrightarrow> \<exists>j. w_entry w' ?c = Some j \<and> valid_sidecar crc (w_data w' j)"
    using all by auto
  show "w_entry w ?c = None \<Longrightarrow> x = Ok False"
    using w1(2) run s1 by (cases b) (auto simp: check_confirmed_def)
  assume io: "\<forall>n. w_io w n = IoDone" and j: "w_entry w ?c = Some j" "valid_sidecar crc (w_data w j)"
  then have "b" "y = Ok (w_data w j)"
    using s1 s2 by (auto simp: fs_exists_def fs_read_def fs_open_def io_step_tick w1)
  then show "x = Ok True" using run s1 s2 j by (auto simp: check_confirmed_def valid_sidecar_def)
qed

lemma set_subseq: "subseq xs ys \<Longrightarrow> set xs \<subseteq> set ys"
  by (induction rule: list_emb.induct) auto

lemma scan_sealed_effect:
  assumes "scan_sealed crc wab exclude cleanup ps w m = (segs, w', m')" "\<forall>p \<in> set ps. sealed_name p \<and> fst p \<noteq> quarantine_dir wab"
  shows "tidies crc (quarantine_dir wab) w w' \<and> subseq segs ps \<and> (\<forall>p \<in> set segs. \<not> exclude p) \<and>
    (\<forall>p \<in> set ps. \<not> exclude p \<longrightarrow> w_entry w (confirmed_path p) = None \<longrightarrow> p \<in> set segs) \<and>
    ((\<forall>n. w_io w n = IoDone) \<longrightarrow>
      (\<forall>p \<in> set segs. \<forall>j. w_entry w (confirmed_path p) = Some j \<longrightarrow> \<not> valid_sidecar crc (w_data w j)))"
  using assms
proof (induction ps arbitrary: w m segs)
  case Nil
  then show ?case using tidies_idle [of crc "quarantine_dir wab" w "w_tick w"] by simp
next
  case (Cons p ps)
  let ?qd = "quarantine_dir wab"
  have ps: "\<forall>p \<in> set ps. sealed_name p \<and> fst p \<noteq> ?qd" and p: "sealed_name p" "fst p \<noteq> ?qd"
    using Cons.prems(2) by simp_all
  show ?case
  proof (cases "exclude p")
    case True
    then have "scan_sealed crc wab exclude cleanup ps w m = (segs, w', m')" using Cons.prems(1) by simp
    from Cons.IH [OF this ps] show ?thesis using True by (simp add: list_emb_Cons)
  next
    case False
    obtain x w1 m1 where c: "check_confirmed crc p wab w m = (x, w1, m1)" by (metis prod_cases3)
    note ce = check_confirmed_effect [OF c p]
    define v where "v = (if x = Ok True \<and> cleanup then snd (delete_orphan p w1) else w1)"
    obtain s1 where run: "scan_sealed crc wab exclude cleanup ps v m1 = (s1, w', m')" and segs: "segs = (if x = Ok False then p # s1 else s1)"
      using Cons.prems(1) False c by (auto simp: v_def split: sum.splits bool.splits prod.splits)
    have tv: "tidies crc ?qd w v"
    proof (cases "x = Ok True \<and> cleanup")
      case True
      then obtain j where j: "w_entry w1 (confirmed_path p) = Some j" "valid_sidecar crc (w_data w1 j)" using ce(2) by blast
      obtain y w2 where "delete_orphan p w1 = (y, w2)" by fastforce
      then show ?thesis using tidies_trans [OF ce(1) delete_orphan_tidies [OF _ p j]] True by (simp add: v_def)
    next
      case False
      then have "v = w1" unfolding v_def by (rule if_not_P)
      then show ?thesis using ce(1) by simp
    qed
    note ih = Cons.IH [OF run ps]
    have "tidies crc ?qd w w'" by (rule tidies_trans [OF tv conjunct1 [OF ih]])
    moreover have sub: "subseq segs (p # ps)" using ih by (simp add: segs list_emb_Cons)
    moreover have "\<forall>q \<in> set segs. \<not> exclude q" using ih False by (simp add: segs)
    moreover have "\<forall>q \<in> set (p # ps). \<not> exclude q \<longrightarrow> w_entry w (confirmed_path q) = None \<longrightarrow> q \<in> set segs"
    proof (intro ballI impI)
      fix q assume q: "q \<in> set (p # ps)" "\<not> exclude q" "w_entry w (confirmed_path q) = None"
      show "q \<in> set segs"
      proof (cases "q = p")
        case True
        then show ?thesis using ce(3) q(3) by (simp add: segs)
      next
        case False
        then have qp: "q \<in> set ps" using q(1) by simp
        then have "w_entry v (confirmed_path q) = None" using tidies_no_sidecar [OF tv _ _ q(3)] ps by simp
        then show ?thesis using ih qp q(2) by (simp add: segs)
      qed
    qed
    moreover have "\<not> valid_sidecar crc (w_data w j)"
      if io: "\<forall>n. w_io w n = IoDone" and q: "q \<in> set segs" "w_entry w (confirmed_path q) = Some j" for q j
    proof
      assume v: "valid_sidecar crc (w_data w j)"
      have iov: "\<forall>n. w_io v n = IoDone" using io tidiesD(2) [OF tv] by simp
      have "set segs \<subseteq> set (p # ps)" by (rule set_subseq [OF sub])
      then have qs: "sealed_name q" "fst q \<noteq> ?qd" using q(1) Cons.prems(2) by blast+
      have "w_entry v (confirmed_path q) = Some j \<and> valid_sidecar crc (w_data v j)"
        using tidiesD(6) [OF tv _ _ q(2) v] confirmed_path_ext [OF qs(1)] qs(2) v tidiesD(1) [OF tv] by simp
      then have "q \<notin> set s1" using ih iov by blast
      then have "q = p" "x = Ok False" using q(1) by (auto simp: segs split: if_splits)
      then show False using ce(4) [OF io _ v] q(2) by simp
    qed
    ultimately show ?thesis by blast
  qed
qed

lemma remove_stale_tidies:
  assumes "ends_with (snd t) EXT_CONFIRMED_TMP" "fst t \<noteq> qd"
  shows "tidies crc qd w (remove_stale_confirmed_tmp t w)"
proof -
  obtain b w1 where s: "fs_exists t w = (b, w1)" by fastforce
  then have w1: "w1 = io_tick w" using fs_exists_effect by blast
  obtain x w2 where r: "fs_remove_file t w1 = (x, w2)" by fastforce
  have "tidies crc qd w1 w2" by (rule tidies_remove [OF r assms(2)]) (use assms(1) name_kinds_apart in blast)+
  then show ?thesis using s r tidies_trans [OF tidies_tick, of crc qd w w2] tidies_tick
    by (cases b) (simp_all add: remove_stale_confirmed_tmp_def w1)
qed

lemma remove_stales_tidies:
  "\<forall>t \<in> set ts. ends_with (snd t) EXT_CONFIRMED_TMP \<and> fst t \<noteq> qd \<Longrightarrow> tidies crc qd w (fold remove_stale_confirmed_tmp ts w)"
proof (induction ts arbitrary: w)
  case Nil
  then show ?case using tidies_idle [of crc qd w "w_tick w"] by simp
next
  case (Cons t ts)
  then show ?case using tidies_trans [OF remove_stale_tidies [of t qd crc w] Cons.IH] by simp
qed

lemma sorted_subseq: "subseq xs ys \<Longrightarrow> sorted (map f ys) \<Longrightarrow> sorted (map f xs)"
  by (induction rule: list_emb.induct) (auto dest: set_subseq)

text \<open>One shard directory \<open>d\<close> with the entries \<open>es\<close>.\<close>

lemma scan_shard_effect:
  assumes run: "scan_shard crc wab exclude cleanup es w m = (segs, w', m')"
    and d: "\<forall>p \<in> set es. fst p = d" "d \<noteq> quarantine_dir wab"
  shows "tidies crc (quarantine_dir wab) w w'" "sorted (map (\<lambda>p. option_key (segment_counter_from_path p)) segs)"
    "p \<in> set segs \<Longrightarrow> p \<in> set es \<and> sealed_name p \<and> \<not> exclude p"
    "p \<in> set es \<Longrightarrow> sealed_name p \<Longrightarrow> \<not> exclude p \<Longrightarrow> w_entry w (confirmed_path p) = None \<Longrightarrow> p \<in> set segs"
    "\<forall>n. w_io w n = IoDone \<Longrightarrow> p \<in> set segs \<Longrightarrow> w_entry w (confirmed_path p) = Some j \<Longrightarrow> \<not> valid_sidecar crc (w_data w j)"
proof -
  let ?qd = "quarantine_dir wab" and ?ts = "filter (\<lambda>p. ends_with (snd p) EXT_CONFIRMED_TMP) es"
  define v where "v = fold remove_stale_confirmed_tmp ?ts w"
  let ?ps = "sort_key (\<lambda>p. option_key (segment_counter_from_path p)) (filter sealed_name es)"
  have tv: "tidies crc ?qd w v" unfolding v_def by (rule remove_stales_tidies) (use d in simp)
  have s: "scan_sealed crc wab exclude cleanup ?ps v m = (segs, w', m')" using run by (simp add: scan_shard_def v_def)
  have "\<forall>p \<in> set ?ps. sealed_name p \<and> fst p \<noteq> ?qd" using d by simp
  note e = scan_sealed_effect [OF s this]
  show "tidies crc ?qd w w'" by (rule tidies_trans [OF tv conjunct1 [OF e]])
  show "sorted (map (\<lambda>p. option_key (segment_counter_from_path p)) segs)"
    by (rule sorted_subseq [OF conjunct1 [OF conjunct2 [OF e]] sorted_sort_key])
  have sub: "p \<in> set es \<and> sealed_name p" if "p \<in> set segs" for p
  proof -
    have "p \<in> set ?ps" using that set_subseq [OF conjunct1 [OF conjunct2 [OF e]]] by blast
    then show ?thesis by simp
  qed
  show "p \<in> set segs \<Longrightarrow> p \<in> set es \<and> sealed_name p \<and> \<not> exclude p" using sub e by blast
  show "p \<in> set segs" if p: "p \<in> set es" "sealed_name p" "\<not> exclude p" "w_entry w (confirmed_path p) = None"
  proof -
    have "fst p \<noteq> ?qd" using d p(1) by simp
    then have "w_entry v (confirmed_path p) = None" by (rule tidies_no_sidecar [OF tv p(2) _ p(4)])
    moreover have "p \<in> set ?ps" using p by simp
    ultimately show ?thesis using e p(3) by blast
  qed
  show "\<not> valid_sidecar crc (w_data w j)"
    if io: "\<forall>n. w_io w n = IoDone" and p: "p \<in> set segs" "w_entry w (confirmed_path p) = Some j"
  proof
    assume v: "valid_sidecar crc (w_data w j)"
    have "p \<in> set es" using sub [OF p(1)] by simp
    then have n: "sealed_name p" "fst p \<noteq> ?qd" using sub [OF p(1)] d by simp_all
    have "w_entry v (confirmed_path p) = Some j \<and> valid_sidecar crc (w_data v j)"
      using tidiesD(6) [OF tv _ _ p(2) v] confirmed_path_ext [OF n(1)] n(2) v tidiesD(1) [OF tv] by simp
    moreover have "\<forall>n. w_io v n = IoDone" using io tidiesD(2) [OF tv] by simp
    ultimately show False using e p(1) by blast
  qed
qed

definition reserved_name :: "bytes \<Rightarrow> bool" where
  "reserved_name name \<longleftrightarrow> name = ascii ''quarantine'' \<or> name = ascii ''dead_letter''"

lemma shard_dir_apart: "\<not> reserved_name name \<Longrightarrow> wab @ ascii ''/'' @ name \<noteq> quarantine_dir wab"
  by (simp add: reserved_name_def quarantine_dir_def ascii_def)

lemma read_dir_entries:
  assumes "fs_read_dir d w = (x, w')"
  shows "w' = io_tick w" "x = Ok es \<Longrightarrow> p \<in> set es \<longleftrightarrow> fst p = d \<and> w_entry w p \<noteq> None"
proof -
  show "w' = io_tick w" using assms by (auto simp: fs_read_dir_def io_step_tick split: io_outcome.splits)
  assume "x = Ok es"
  then have "es = filter (\<lambda>p. fst p = d) (map fst (w_dir w))"
    using assms by (auto simp: fs_read_dir_def io_step_tick split: io_outcome.splits)
  moreover have "w_entry w p \<noteq> None \<longleftrightarrow> p \<in> set (map fst (w_dir w))"
    by (simp only: w_entry_def map_of_eq_None_iff set_map not_not)
  ultimately show "p \<in> set es \<longleftrightarrow> fst p = d \<and> w_entry w p \<noteq> None" by (simp only: set_filter mem_Collect_eq conj_commute)
qed

text \<open>What the scan has queued so far is never dropped, and a skipped shard is reported.\<close>

lemma scan_shards_effect:
  assumes "scan_shards crc wab sc exclude cleanup ds acc w m = (x, w', m')"
  shows "tidies crc (quarantine_dir wab) w w' \<and>
    (\<forall>scan. x = Ok scan \<longrightarrow> set (ss_segments acc) \<subseteq> set (ss_segments scan) \<and>
      (sc \<noteq> None \<longrightarrow> ss_incomplete scan = ss_incomplete acc) \<and> (ss_incomplete acc \<longrightarrow> ss_incomplete scan) \<and>
      (\<not> ss_incomplete scan \<longrightarrow> (\<forall>name p i. (name, True) \<in> set ds \<longrightarrow> \<not> reserved_name name \<longrightarrow>
         fst p = wab @ ascii ''/'' @ name \<longrightarrow> sealed_name p \<longrightarrow> \<not> exclude p \<longrightarrow> w_entry w p = Some i \<longrightarrow>
         w_entry w (confirmed_path p) = None \<longrightarrow> p \<in> set (ss_segments scan))))"
  using assms
proof (induction ds arbitrary: acc w m)
  case Nil
  then show ?case using tidies_idle [of crc "quarantine_dir wab" w "w_tick w"] by auto
next
  case (Cons d ds)
  let ?qd = "quarantine_dir wab"
  obtain name dir where d: "d = (name, dir)" by (cases d)
  show ?case
  proof (cases "\<not> dir \<or> reserved_name name")
    case True
    then have run: "scan_shards crc wab sc exclude cleanup ds acc w m = (x, w', m')"
      using Cons.prems by (auto simp: d reserved_name_def split: if_splits)
    have "(nm, True) \<in> set (d # ds) \<and> \<not> reserved_name nm \<longleftrightarrow> (nm, True) \<in> set ds \<and> \<not> reserved_name nm" for nm
      using True by (auto simp: d)
    then show ?thesis using Cons.IH [OF run] by (simp only:) blast
  next
    case False
    let ?d = "wab @ ascii ''/'' @ name"
    obtain y w1 where rd: "fs_read_dir ?d w = (y, w1)" by fastforce
    have w1: "w1 = io_tick w" by (rule read_dir_entries(1) [OF rd])
    have t1: "tidies crc ?qd w w1" unfolding w1 by (rule tidies_tick)
    have dq: "?d \<noteq> ?qd" using False shard_dir_apart by blast
    show ?thesis
    proof (cases y)
      case (Inl k)
      show ?thesis
      proof (cases "sc = None")
        case True
        then have run: "scan_shards crc wab sc exclude cleanup ds (acc\<lparr>ss_incomplete := True\<rparr>) w1 m = (x, w', m')"
          using Cons.prems Inl rd False by (auto simp: d reserved_name_def)
        note ih = Cons.IH [OF run]
        show ?thesis using tidies_trans [OF t1 conjunct1 [OF ih]] ih True by simp
      next
        case False2: False
        then have "x = Err k" "w' = w1" using Cons.prems Inl rd False by (auto simp: d reserved_name_def)
        then show ?thesis using t1 by simp
      qed
    next
      case (Inr es)
      obtain segs w2 m2 where sh: "scan_shard crc wab exclude cleanup es w1 m = (segs, w2, m2)" by (metis prod_cases3)
      let ?acc = "acc\<lparr>ss_segments := ss_segments acc @ segs\<rparr>"
      have run: "scan_shards crc wab sc exclude cleanup ds ?acc w2 m2 = (x, w', m')"
        using Cons.prems Inr rd sh False by (simp add: d reserved_name_def)
      have es: "p \<in> set es \<longleftrightarrow> fst p = ?d \<and> w_entry w p \<noteq> None" for p by (rule read_dir_entries(2) [OF rd Inr])
      have esd: "\<forall>p \<in> set es. fst p = ?d" using es by blast
      note se = scan_shard_effect [OF sh esd dq] and ih = Cons.IH [OF run]
      have t2: "tidies crc ?qd w w2" by (rule tidies_trans [OF t1 se(1)])
      have "p \<in> set (ss_segments scan)"
        if x: "x = Ok scan" "\<not> ss_incomplete scan" and p: "(nm, True) \<in> set (d # ds)" "\<not> reserved_name nm"
          "fst p = wab @ ascii ''/'' @ nm" "sealed_name p" "\<not> exclude p" "w_entry w p = Some i" "w_entry w (confirmed_path p) = None"
        for scan nm p i
      proof (cases "p \<in> set segs")
        case True
        then show ?thesis using ih x by auto
      next
        case nseg: False
        have pq: "fst p \<noteq> ?qd" using p(2,3) shard_dir_apart by metis
        have "p \<notin> set es" using nseg se(4) [of p] p by (auto simp: w1)
        then have "nm \<noteq> name" using es p by auto
        then have nm: "(nm, True) \<in> set ds" using p(1) by (simp add: d)
        have "w_entry w2 p = Some i" by (rule tidiesD(8) [OF t2 pq p(4,6,7)])
        moreover have "w_entry w2 (confirmed_path p) = None" by (rule tidies_no_sidecar [OF t2 p(4) pq p(7)])
        ultimately show ?thesis using ih x nm p(2-5) by blast
      qed
      moreover have "set (ss_segments acc) \<subseteq> set (ss_segments scan) \<and> (sc \<noteq> None \<longrightarrow> ss_incomplete scan = ss_incomplete acc) \<and>
          (ss_incomplete acc \<longrightarrow> ss_incomplete scan)" if "x = Ok scan" for scan
        using ih that by simp
      ultimately show ?thesis using tidies_trans [OF t2 conjunct1 [OF ih]] by blast
    qed
  qed
qed

lemma scan_unconfirmed_effect:
  assumes "scan_unconfirmed_sealed crc wab (Ok listing) sc exclude cleanup w m = (x, w', m')"
  shows "tidies crc (quarantine_dir wab) w w'"
    "x = Ok scan \<Longrightarrow> sc \<noteq> None \<Longrightarrow> \<not> ss_incomplete scan"
    "x = Ok scan \<Longrightarrow> \<not> ss_incomplete scan \<Longrightarrow> (name, True) \<in> set listing \<Longrightarrow> \<not> reserved_name name \<Longrightarrow>
      fst p = wab @ ascii ''/'' @ name \<Longrightarrow> sealed_name p \<Longrightarrow> \<not> exclude p \<Longrightarrow> w_entry w p = Some i \<Longrightarrow>
      w_entry w (confirmed_path p) = None \<Longrightarrow> p \<in> set (ss_segments scan)"
proof -
  let ?ds = "sort_key (\<lambda>(name, _). option_key (shard_id_from_path (wab, name))) listing"
  have "scan_shards crc wab sc exclude cleanup ?ds \<lparr>ss_segments = [], ss_incomplete = False\<rparr> w m = (x, w', m')"
    using assms by (simp add: scan_unconfirmed_sealed_def)
  note e = scan_shards_effect [OF this]
  show "tidies crc (quarantine_dir wab) w w'" by (rule conjunct1 [OF e])
  show "x = Ok scan \<Longrightarrow> sc \<noteq> None \<Longrightarrow> \<not> ss_incomplete scan" using e by simp
  show "p \<in> set (ss_segments scan)"
    if h: "x = Ok scan" "\<not> ss_incomplete scan" "(name, True) \<in> set listing" "\<not> reserved_name name"
      "fst p = wab @ ascii ''/'' @ name" "sealed_name p" "\<not> exclude p" "w_entry w p = Some i" "w_entry w (confirmed_path p) = None"
  proof -
    have "(name, True) \<in> set ?ds" using h(3) by simp
    then show ?thesis using conjunct2 [OF e] h(1,2,4-9) by blast
  qed
qed

section \<open>Sidecars that lose an fsync\<close>

text \<open>
  What handling the segments \<open>S\<close> may do: other segments keep their names, only the files of their
  sidecars may lose an fsync, and a segment whose sidecar has lost one keeps its name.  Names are
  unique throughout.
\<close>

definition handles :: "bytes \<Rightarrow> path set \<Rightarrow> world \<Rightarrow> world \<Rightarrow> bool" where
  "handles qd S w w' \<longleftrightarrow> (\<forall>p \<in> S. sealed_name p \<and> fst p \<noteq> qd) \<and>
     (distinct (map fst (w_dir w)) \<longrightarrow> distinct (map fst (w_dir w'))) \<and>
     (\<forall>r i. fst r \<noteq> qd \<longrightarrow> w_entry w' r = Some i \<longrightarrow> w_entry w r = Some i) \<and>
     (\<forall>p. sealed_name p \<longrightarrow> fst p \<noteq> qd \<longrightarrow> p \<notin> S \<longrightarrow> w_entry w' p = w_entry w p) \<and>
     (\<forall>j. (\<forall>q \<in> S. w_entry w (confirmed_path q) \<noteq> Some j) \<longrightarrow> w_lost w' j = w_lost w j) \<and>
     (\<forall>p \<in> S. \<forall>j. (\<forall>q \<in> S. q \<noteq> p \<longrightarrow> w_entry w (confirmed_path q) \<noteq> Some j) \<longrightarrow>
        w_lost w' j = w_lost w j \<or> w_entry w' p = w_entry w p)"

lemma handlesD:
  assumes "handles qd S w w'"
  shows "p \<in> S \<Longrightarrow> sealed_name p \<and> fst p \<noteq> qd"
    and "distinct (map fst (w_dir w)) \<Longrightarrow> distinct (map fst (w_dir w'))"
    and "fst r \<noteq> qd \<Longrightarrow> w_entry w' r = Some i \<Longrightarrow> w_entry w r = Some i"
    and "sealed_name p \<Longrightarrow> fst p \<noteq> qd \<Longrightarrow> p \<notin> S \<Longrightarrow> w_entry w' p = w_entry w p"
    and "\<forall>q \<in> S. w_entry w (confirmed_path q) \<noteq> Some j \<Longrightarrow> w_lost w' j = w_lost w j"
    and "p \<in> S \<Longrightarrow> \<forall>q \<in> S. q \<noteq> p \<longrightarrow> w_entry w (confirmed_path q) \<noteq> Some j \<Longrightarrow>
      w_lost w' j = w_lost w j \<or> w_entry w' p = w_entry w p"
proof -
  note c = assms [unfolded handles_def]
  show "p \<in> S \<Longrightarrow> sealed_name p \<and> fst p \<noteq> qd" using conjunct1 [OF c] by simp
  note c = conjunct2 [OF c]
  show "distinct (map fst (w_dir w)) \<Longrightarrow> distinct (map fst (w_dir w'))" using conjunct1 [OF c] by simp
  note c = conjunct2 [OF c]
  show "fst r \<noteq> qd \<Longrightarrow> w_entry w' r = Some i \<Longrightarrow> w_entry w r = Some i" by (rule conjunct1 [OF c, rule_format])
  note c = conjunct2 [OF c]
  show "sealed_name p \<Longrightarrow> fst p \<noteq> qd \<Longrightarrow> p \<notin> S \<Longrightarrow> w_entry w' p = w_entry w p" by (rule conjunct1 [OF c, rule_format])
  note c = conjunct2 [OF c]
  show "\<forall>q \<in> S. w_entry w (confirmed_path q) \<noteq> Some j \<Longrightarrow> w_lost w' j = w_lost w j" by (rule conjunct1 [OF c, THEN spec, THEN mp])
  show "p \<in> S \<Longrightarrow> \<forall>q \<in> S. q \<noteq> p \<longrightarrow> w_entry w (confirmed_path q) \<noteq> Some j \<Longrightarrow>
      w_lost w' j = w_lost w j \<or> w_entry w' p = w_entry w p"
    by (rule conjunct2 [OF c, THEN bspec, THEN spec, THEN mp])
qed

lemma handles_sidecars:
  assumes h: "handles qd S w w'" and q: "sealed_name q" "fst q \<noteq> qd" "w_entry w (confirmed_path q) \<noteq> Some j"
  shows "w_entry w' (confirmed_path q) \<noteq> Some j"
  using handlesD(3) [OF h, of "confirmed_path q" j] confirmed_path_ext(2) [OF q(1)] q(2,3) by auto

lemma handles_trans:
  assumes a: "handles qd S u v" and b: "handles qd T v w" and ST: "S \<inter> T = {}"
  shows "handles qd (S \<union> T) u w"
  unfolding handles_def
proof (intro conjI ballI allI impI)
  show "p \<in> S \<union> T \<Longrightarrow> sealed_name p" "p \<in> S \<union> T \<Longrightarrow> fst p \<noteq> qd" for p using handlesD(1) [OF a] handlesD(1) [OF b] by blast+
  show "distinct (map fst (w_dir u)) \<Longrightarrow> distinct (map fst (w_dir w))" using handlesD(2) [OF a] handlesD(2) [OF b] by blast
  show "fst r \<noteq> qd \<Longrightarrow> w_entry w r = Some i \<Longrightarrow> w_entry u r = Some i" for r i using handlesD(3) [OF a] handlesD(3) [OF b] by blast
  show "sealed_name p \<Longrightarrow> fst p \<noteq> qd \<Longrightarrow> p \<notin> S \<union> T \<Longrightarrow> w_entry w p = w_entry u p" for p
    using handlesD(4) [OF a, of p] handlesD(4) [OF b, of p] by simp
  have T: "\<forall>q \<in> T. P q \<longrightarrow> w_entry v (confirmed_path q) \<noteq> Some j"
    if "\<forall>q \<in> S \<union> T. P q \<longrightarrow> w_entry u (confirmed_path q) \<noteq> Some j" for j P
    using that handles_sidecars [OF a] handlesD(1) [OF b] by blast
  show "w_lost w j = w_lost u j" if j: "\<forall>q \<in> S \<union> T. w_entry u (confirmed_path q) \<noteq> Some j" for j
    using handlesD(5) [OF a, of j] handlesD(5) [OF b, of j] T [of "\<lambda>_. True" j] j by blast
  show "w_lost w j = w_lost u j \<or> w_entry w p = w_entry u p"
    if p: "p \<in> S \<union> T" and j: "\<forall>q \<in> S \<union> T. q \<noteq> p \<longrightarrow> w_entry u (confirmed_path q) \<noteq> Some j" for p j
  proof (cases "p \<in> S")
    case True
    then have pT: "p \<notin> T" using ST by blast
    have "\<forall>q \<in> T. w_entry v (confirmed_path q) \<noteq> Some j" using T [OF j] pT by metis
    then have "w_lost w j = w_lost v j" by (rule handlesD(5) [OF b])
    moreover have "w_lost v j = w_lost u j \<or> w_entry v p = w_entry u p" by (rule handlesD(6) [OF a True]) (use j in blast)
    moreover have "w_entry w p = w_entry v p" using handlesD(4) [OF b _ _ pT] handlesD(1) [OF a True] by blast
    ultimately show ?thesis by simp
  next
    case False
    then have pT: "p \<in> T" using p by blast
    have "w_entry v p = w_entry u p" using handlesD(4) [OF a _ _ False] handlesD(1) [OF b pT] by blast
    moreover have "w_lost v j = w_lost u j" by (rule handlesD(5) [OF a]) (use j False in \<open>metis UnCI\<close>)
    moreover have "w_lost w j = w_lost v j \<or> w_entry w p = w_entry v p" by (rule handlesD(6) [OF b pT T [OF j]])
    ultimately show ?thesis by simp
  qed
qed

lemma handles_mono:
  assumes h: "handles qd S w w'" and T: "S \<subseteq> T" "\<forall>p \<in> T. sealed_name p \<and> fst p \<noteq> qd"
  shows "handles qd T w w'"
  unfolding handles_def
proof (intro conjI ballI allI impI)
  show "w_lost w' j = w_lost w j \<or> w_entry w' p = w_entry w p"
    if p: "p \<in> T" and j: "\<forall>q \<in> T. q \<noteq> p \<longrightarrow> w_entry w (confirmed_path q) \<noteq> Some j" for p j
  proof (cases "p \<in> S")
    case True
    then show ?thesis using handlesD(6) [OF h True, of j] j T(1) by blast
  next
    case False
    then show ?thesis using handlesD(4) [OF h _ _ False] T(2) p by blast
  qed
  show "w_lost w' j = w_lost w j" if "\<forall>q \<in> T. w_entry w (confirmed_path q) \<noteq> Some j" for j
    by (rule handlesD(5) [OF h]) (use that T in blast)
  show "w_entry w' p = w_entry w p" if "sealed_name p" "fst p \<noteq> qd" "p \<notin> T" for p
    by (rule handlesD(4) [OF h]) (use that T in blast)+
qed (use handlesD(2,3) [OF h] T in blast)+

lemma handles_same:
  "w_dir w' = w_dir w \<Longrightarrow> w_lost w' = w_lost w \<Longrightarrow> handles qd {} w w'"
  by (simp add: handles_def w_entry_def)

lemma handles_quarantine:
  assumes run: "quarantine r wab w = (x, w')" and p: "sealed_name p" "fst p \<noteq> quarantine_dir wab" "r = p \<or> \<not> sealed_name r"
  shows "handles (quarantine_dir wab) {p} w w'"
  using quarantine_moves [OF run]
proof (elim disjE exE conjE)
  fix n assume "w' = w\<lparr>w_tick := n\<rparr>"
  then show ?thesis using p handles_mono [OF handles_same, of w' w "{p}"] by simp
next
  fix q i n assume q: "fst q = quarantine_dir wab" "w_entry w q = None" "w_entry w r = Some i"
    and w': "w' = w\<lparr>w_tick := n, w_dir := AList.update q i (AList.delete r (w_dir w))\<rparr>"
  have "w_entry w' s = (if s = q then Some i else if s = r then None else w_entry w s)" for s
    by (simp add: w' w_entry_def update_conv' delete_conv')
  moreover have "distinct (map fst (w_dir w)) \<Longrightarrow> distinct (map fst (w_dir w'))"
    by (simp add: w' distinct_update distinct_delete)
  ultimately show ?thesis using q p unfolding handles_def by (auto simp: w')
qed

lemma handles_remove:
  assumes run: "fs_remove_file r w = (x, w')" and S: "\<forall>p \<in> S. sealed_name p \<and> fst p \<noteq> qd" "r \<in> S \<or> \<not> sealed_name r"
  shows "handles qd S w w'"
  using fs_remove_file_effect [OF run]
proof (elim disjE conjE)
  assume "w' = io_tick w"
  then show ?thesis using handles_mono [OF handles_same, of w' w S] S by simp
next
  assume w': "w' = (io_tick w)\<lparr>w_dir := AList.delete r (w_dir w)\<rparr>"
  have "w_entry w' s = (if s = r then None else w_entry w s)" for s by (simp add: w' w_entry_def delete_conv')
  moreover have "distinct (map fst (w_dir w)) \<Longrightarrow> distinct (map fst (w_dir w'))" by (simp add: w' distinct_delete)
  ultimately show ?thesis using S unfolding handles_def by (auto simp: w')
qed

lemma sync_file_lost:
  assumes "fs_sync_file c w = (x, w')"
  shows "w_dir w' = w_dir w" "x = Ok u \<Longrightarrow> w_lost w' = w_lost w" "w_entry w c \<noteq> Some j \<Longrightarrow> w_lost w' j = w_lost w j"
proof -
  obtain y w1 where o: "fs_open c w = (y, w1)" by fastforce
  have w1: "w1 = io_tick w" using fs_open_effect [OF o] by simp
  have all: "w_dir w' = w_dir w \<and> (x = Ok u \<longrightarrow> w_lost w' = w_lost w) \<and> (w_entry w c \<noteq> Some j \<longrightarrow> w_lost w' j = w_lost w j)"
  proof (cases y)
    case (Inl k)
    then show ?thesis using assms o w1 by (auto simp: fs_sync_file_def)
  next
    case (Inr ir)
    then obtain i r where i: "y = Ok (i, r)" "w_entry w c = Some i" using fs_open_effect [OF o] by (cases ir) auto
    then have "fs_sync_data i w1 = (x, w')" using assms o by (simp add: fs_sync_file_def)
    from fs_sync_data_effect [OF this] show ?thesis using i by (auto simp: w1)
  qed
  show "w_dir w' = w_dir w" "x = Ok u \<Longrightarrow> w_lost w' = w_lost w" "w_entry w c \<noteq> Some j \<Longrightarrow> w_lost w' j = w_lost w j"
    using all by auto
qed

lemma delete_orphan_handles:
  assumes run: "delete_orphan p w = (x, w')" and p: "sealed_name p" "fst p \<noteq> qd"
  shows "handles qd {p} w w'"
proof -
  obtain y1 w1 where s1: "fs_sync_file (confirmed_path p) w = (y1, w1)" by fastforce
  obtain y2 w2 where s2: "fs_sync_dir (fst (confirmed_path p)) w1 = (y2, w2)" by fastforce
  obtain y3 w3 where s3: "fs_remove_file p w2 = (y3, w3)" by fastforce
  have w2: "w_dir w2 = w_dir w1" "w_lost w2 = w_lost w1" using fs_sync_dir_effect [OF s2] by auto
  show ?thesis
  proof (cases y1)
    case (Inl k)
    then have "w' = w1" using run s1 by (simp add: delete_orphan_def)
    then show ?thesis using sync_file_lost(1,3) [OF s1] p by (auto simp: handles_def w_entry_def)
  next
    case (Inr u)
    then have same: "handles qd {} w w2" using sync_file_lost(1,2) [OF s1] w2 by (intro handles_same) auto
    have "handles qd {p} w w2" by (rule handles_mono [OF same]) (use p in auto)
    moreover have "handles qd {p} w w3" using handles_trans [OF same handles_remove [OF s3, of "{p}"]] p by simp
    moreover have "w' = w2 \<or> w' = w3" using run s1 s2 s3 Inr by (auto simp: delete_orphan_def split: sum.splits)
    ultimately show ?thesis by blast
  qed
qed

lemma handles_moves:
  assumes a: "handles qd S u v" "w_lost v = w_lost u" and b: "handles qd S v w" "w_lost w = w_lost v"
  shows "handles qd S u w"
  unfolding handles_def
proof (intro conjI ballI allI impI)
  show "p \<in> S \<Longrightarrow> sealed_name p" "p \<in> S \<Longrightarrow> fst p \<noteq> qd" for p using handlesD(1) [OF a(1)] by blast+
  show "distinct (map fst (w_dir u)) \<Longrightarrow> distinct (map fst (w_dir w))" using handlesD(2) [OF a(1)] handlesD(2) [OF b(1)] by blast
  show "fst r \<noteq> qd \<Longrightarrow> w_entry w r = Some i \<Longrightarrow> w_entry u r = Some i" for r i
    using handlesD(3) [OF a(1)] handlesD(3) [OF b(1)] by blast
  show "sealed_name p \<Longrightarrow> fst p \<noteq> qd \<Longrightarrow> p \<notin> S \<Longrightarrow> w_entry w p = w_entry u p" for p
    using handlesD(4) [OF a(1), of p] handlesD(4) [OF b(1), of p] by simp
qed (simp_all add: a(2) b(2))

lemma check_confirmed_handles:
  assumes run: "check_confirmed crc p wab w m = (x, w', m')" and p: "sealed_name p" "fst p \<noteq> quarantine_dir wab"
  shows "handles (quarantine_dir wab) {p} w w'" and "x = Ok True \<Longrightarrow> handles (quarantine_dir wab) {} w w'"
proof -
  let ?c = "confirmed_path p" and ?qd = "quarantine_dir wab"
  obtain b w1 where s1: "fs_exists ?c w = (b, w1)" by fastforce
  obtain y w2 where s2: "fs_read ?c w1 = (y, w2)" by fastforce
  obtain e3 w3 m3 where s3: "quarantine_and_count p wab w2 m = (e3, w3, m3)" by (metis prod_cases3)
  obtain y3 where q3: "quarantine p wab w2 = (y3, w3)"
    using s3 by (auto simp: quarantine_and_count_def split: prod.splits sum.splits)
  obtain y4 w4 where q4: "quarantine ?c wab w3 = (y4, w4)" by fastforce
  have w: "w_dir w2 = w_dir w1" "w_dir w1 = w_dir w" "w_lost w2 = w_lost w1" "w_lost w1 = w_lost w"
    using fs_exists_effect [OF s1] fs_read_effect [OF s2] by simp_all
  have h: "handles ?qd {} w w1" "handles ?qd {} w w2" by (rule handles_same, simp_all add: w)+
  have k: "handles ?qd {p} w w1" "handles ?qd {p} w w2" by (rule handles_mono [OF h(1)] handles_mono [OF h(2)], use p in auto)+
  have l: "w_lost w3 = w_lost w2" "w_lost w4 = w_lost w3" using quarantine_moves [OF q3] quarantine_moves [OF q4] by auto
  have "\<not> sealed_name ?c" using confirmed_path_ext(1) [OF p(1)] name_kinds_apart(1) by blast
  then have "handles ?qd {p} w w4"
    using handles_moves [OF handles_moves [OF k(2) _ handles_quarantine [OF q3 p] l(1)] _ handles_quarantine [OF q4 p] l(2)] l w by simp
  moreover have "w' = w1 \<or> w' = w2 \<or> w' = w4 \<and> x \<noteq> Ok True"
    using run s1 s2 s3 q4 by (auto simp: check_confirmed_def split: sum.splits bool.splits)
  ultimately show "handles ?qd {p} w w'" "x = Ok True \<Longrightarrow> handles ?qd {} w w'" using h k by auto
qed

lemma scan_sealed_handles:
  assumes "scan_sealed crc wab exclude cleanup ps w m = (segs, w', m')"
    "\<forall>p \<in> set ps. sealed_name p \<and> fst p \<noteq> quarantine_dir wab" "distinct ps"
  shows "handles (quarantine_dir wab) (set ps) w w'"
  using assms
proof (induction ps arbitrary: w m segs)
  case Nil
  then show ?case by (auto intro: handles_same)
next
  case (Cons p ps)
  let ?qd = "quarantine_dir wab"
  have p: "sealed_name p" "fst p \<noteq> ?qd" "p \<notin> set ps" using Cons.prems(2,3) by auto
  show ?case
  proof (cases "exclude p")
    case True
    then have "handles ?qd (set ps) w w'" using Cons.IH [of w m segs] Cons.prems by simp
    then show ?thesis by (rule handles_mono) (use Cons.prems(2) in auto)
  next
    case False
    obtain x w1 m1 where c: "check_confirmed crc p wab w m = (x, w1, m1)" by (metis prod_cases3)
    obtain y w2 where d: "delete_orphan p w1 = (y, w2)" by fastforce
    define v where "v = (if x = Ok True \<and> cleanup then w2 else w1)"
    obtain s1 where run: "scan_sealed crc wab exclude cleanup ps v m1 = (s1, w', m')"
      using Cons.prems(1) False c d by (auto simp: v_def split: sum.splits bool.splits prod.splits if_splits)
    have "x = Ok True \<Longrightarrow> handles ?qd {p} w w2"
      using handles_trans [OF check_confirmed_handles(2) [OF c p(1,2)] delete_orphan_handles [OF d p(1,2)]] by simp
    then have "handles ?qd {p} w v" using check_confirmed_handles(1) [OF c p(1,2)] by (simp add: v_def)
    moreover have "handles ?qd (set ps) v w'" using Cons.IH [OF run] Cons.prems(2,3) by simp
    ultimately show ?thesis using handles_trans [of ?qd "{p}" w v "set ps" w'] p(3) by simp
  qed
qed

lemma remove_stales_handles:
  "\<forall>t \<in> set ts. ends_with (snd t) EXT_CONFIRMED_TMP \<Longrightarrow> handles qd {} w (fold remove_stale_confirmed_tmp ts w)"
proof (induction ts arbitrary: w)
  case Nil
  then show ?case by (simp add: handles_same)
next
  case (Cons t ts)
  obtain b w1 where s: "fs_exists t w = (b, w1)" by fastforce
  obtain x w2 where r: "fs_remove_file t w1 = (x, w2)" by fastforce
  have h1: "handles qd {} w w1" using fs_exists_effect [OF s] by (intro handles_same) simp_all
  have "handles qd {} w1 w2" by (rule handles_remove [OF r]) (use Cons.prems name_kinds_apart(3) in auto)
  from handles_trans [OF h1 this] h1 have "handles qd {} w (remove_stale_confirmed_tmp t w)"
    using s r by (cases b) (simp_all add: remove_stale_confirmed_tmp_def)
  then show ?case using handles_trans [of qd "{}" w _ "{}"] Cons.IH [of "remove_stale_confirmed_tmp t w"] Cons.prems by simp
qed

lemma scan_shard_handles:
  assumes run: "scan_shard crc wab exclude cleanup es w m = (segs, w', m')"
    and d: "\<forall>p \<in> set es. fst p = d" "d \<noteq> quarantine_dir wab" "distinct es"
  shows "handles (quarantine_dir wab) {p. sealed_name p \<and> fst p = d} w w'"
proof -
  let ?qd = "quarantine_dir wab" and ?ts = "filter (\<lambda>p. ends_with (snd p) EXT_CONFIRMED_TMP) es"
  let ?ps = "sort_key (\<lambda>p. option_key (segment_counter_from_path p)) (filter sealed_name es)"
  have "handles ?qd {} w (fold remove_stale_confirmed_tmp ?ts w)" by (rule remove_stales_handles) simp
  moreover have "handles ?qd (set ?ps) (fold remove_stale_confirmed_tmp ?ts w) w'"
    by (rule scan_sealed_handles [of crc wab exclude cleanup ?ps _ m segs w' m']) (use run d in \<open>simp_all add: scan_shard_def\<close>)
  ultimately have "handles ?qd (set ?ps) w w'" using handles_trans [of ?qd "{}"] by fastforce
  then show ?thesis by (rule handles_mono) (use d in auto)
qed

definition scanned :: "bytes \<Rightarrow> (bytes \<times> bool) list \<Rightarrow> path set" where
  "scanned wab ds = {p. sealed_name p \<and> (\<exists>name. (name, True) \<in> set ds \<and> \<not> reserved_name name \<and> fst p = wab @ ascii ''/'' @ name)}"

lemma scanned_ok: "\<forall>p \<in> scanned wab ds. sealed_name p \<and> fst p \<noteq> quarantine_dir wab"
  using shard_dir_apart by (auto simp: scanned_def)

lemma scan_shards_handles:
  assumes "scan_shards crc wab sc exclude cleanup ds acc w m = (x, w', m')" "distinct (map fst ds)" "distinct (map fst (w_dir w))"
  shows "handles (quarantine_dir wab) (scanned wab ds) w w'"
  using assms
proof (induction ds arbitrary: acc w m)
  case Nil
  then show ?case by (auto simp: scanned_def intro: handles_same)
next
  case (Cons d ds)
  let ?qd = "quarantine_dir wab"
  obtain name dir where d: "d = (name, dir)" by (cases d)
  have mono: "handles ?qd (scanned wab ds) u v \<Longrightarrow> handles ?qd (scanned wab (d # ds)) u v" for u v
    by (rule handles_mono [OF _ _ scanned_ok]) (auto simp: scanned_def)
  show ?case
  proof (cases "\<not> dir \<or> reserved_name name")
    case True
    then have "scan_shards crc wab sc exclude cleanup ds acc w m = (x, w', m')"
      using Cons.prems by (auto simp: d reserved_name_def split: if_splits)
    from Cons.IH [OF this] Cons.prems show ?thesis using mono by simp
  next
    case False
    let ?d = "wab @ ascii ''/'' @ name"
    obtain y w1 where rd: "fs_read_dir ?d w = (y, w1)" by fastforce
    have w1: "w1 = io_tick w" by (rule read_dir_entries(1) [OF rd])
    have h1: "handles ?qd {} w w1" by (rule handles_same) (simp_all add: w1)
    have dq: "?d \<noteq> ?qd" using False shard_dir_apart by blast
    show ?thesis
    proof (cases y)
      case (Inl k)
      have "handles ?qd (scanned wab ds) w w'"
      proof (cases "sc = None")
        case True
        then have run: "scan_shards crc wab sc exclude cleanup ds (acc\<lparr>ss_incomplete := True\<rparr>) w1 m = (x, w', m')"
          using Cons.prems Inl rd False by (auto simp: d reserved_name_def)
        show ?thesis using handles_trans [OF h1 Cons.IH [OF run]] Cons.prems handlesD(2) [OF h1] by simp
      next
        case some: False
        then have "w' = w1" using Cons.prems Inl rd False by (auto simp: d reserved_name_def)
        then show ?thesis using handles_mono [OF h1 _ scanned_ok] by simp
      qed
      then show ?thesis by (rule mono)
    next
      case (Inr es)
      obtain segs w2 m2 where sh: "scan_shard crc wab exclude cleanup es w1 m = (segs, w2, m2)" by (metis prod_cases3)
      let ?acc = "acc\<lparr>ss_segments := ss_segments acc @ segs\<rparr>" and ?S = "{p. sealed_name p \<and> fst p = ?d}"
      have run: "scan_shards crc wab sc exclude cleanup ds ?acc w2 m2 = (x, w', m')"
        using Cons.prems Inr rd sh False by (simp add: d reserved_name_def)
      have es: "es = filter (\<lambda>p. fst p = ?d) (map fst (w_dir w))"
        using rd Inr by (auto simp: fs_read_dir_def io_step_tick split: io_outcome.splits)
      have "handles ?qd ?S w1 w2" by (rule scan_shard_handles [OF sh _ dq]) (use es Cons.prems(3) in auto)
      from handles_trans [OF h1 this] have h2: "handles ?qd ?S w w2" by simp
      have "handles ?qd (scanned wab ds) w2 w'" using Cons.IH [OF run] Cons.prems(2,3) handlesD(2) [OF h2] by simp
      moreover have "?S \<inter> scanned wab ds = {}" using Cons.prems(2) by (force simp: scanned_def d)
      ultimately have "handles ?qd (?S \<union> scanned wab ds) w w'" by (rule handles_trans [OF h2])
      moreover have "?S \<union> scanned wab ds = scanned wab (d # ds)" using False by (auto simp: scanned_def d)
      ultimately show ?thesis by simp
    qed
  qed
qed

lemma confirmed_path_inj: "sealed_name p \<Longrightarrow> sealed_name q \<Longrightarrow> confirmed_path p = confirmed_path q \<Longrightarrow> p = q"
  by (auto simp: confirmed_path_def confirmed_path_for_def ends_with_def suffix_def Let_def prod_eq_iff EXT_SEALED_def EXT_CONFIRMED_def ascii_def)

text \<open>A segment whose sidecar lost an fsync during the scan is still there.\<close>

lemma scan_unconfirmed_lost:
  assumes run: "scan_unconfirmed_sealed crc wab (Ok listing) sc exclude cleanup w m = (x, w', m')"
    and p: "sealed_name p" "fst p \<noteq> quarantine_dir wab"
    and names: "distinct (map fst listing)" "distinct (map fst (w_dir w))"
    and sole: "\<forall>q. w_entry w q = Some j \<longrightarrow> q = confirmed_path p"
  shows "w_lost w' j = w_lost w j \<or> w_entry w' p = w_entry w p"
proof -
  let ?ds = "sort_key (\<lambda>(name, _). option_key (shard_id_from_path (wab, name))) listing"
  have "scan_shards crc wab sc exclude cleanup ?ds \<lparr>ss_segments = [], ss_incomplete = False\<rparr> w m = (x, w', m')"
    using run by (simp add: scan_unconfirmed_sealed_def)
  moreover have "distinct (map fst ?ds)" using names(1) by (simp add: distinct_map)
  ultimately have h: "handles (quarantine_dir wab) (scanned wab ?ds) w w'" using names(2) by (rule scan_shards_handles)
  have other: "w_entry w (confirmed_path q) \<noteq> Some j" if "q \<in> scanned wab ?ds" "q \<noteq> p" for q
    using sole confirmed_path_inj [OF _ p(1), of q] that handlesD(1) [OF h that(1)] by blast
  show ?thesis
  proof (cases "p \<in> scanned wab ?ds")
    case True
    then show ?thesis using handlesD(6) [OF h True] other by blast
  next
    case False
    then show ?thesis using handlesD(4) [OF h p False] by simp
  qed
qed

section \<open>Delivered segments are not queued again\<close>

lemma probe_names_ticks: "probe_names d nms w = (x, w') \<Longrightarrow> w_tick w \<le> w_tick w'"
proof (induction nms arbitrary: w)
  case (Cons a nms)
  have "w_tick w \<le> w_tick (io_tick w)" by (simp add: io_tick_def)
  then show ?case using Cons.prems Cons.IH [of "io_tick w"]
    by (auto simp: fs_try_exists_def io_step_tick split: io_outcome.splits if_splits bool.splits option.splits)
qed simp

lemma quarantine_ticks:
  assumes "quarantine p wab w = (x, w')"
  shows "w_tick w \<le> w_tick w'"
proof -
  obtain y1 w1 where s1: "create_dir_private w = (y1, w1)" by fastforce
  obtain y2 w2 where s2: "non_clobbering_dest (quarantine_dir wab) (quarantine_base p) w1 = (y2, w2)" by fastforce
  have "w_tick w \<le> w_tick w1"
    using s1 by (auto simp: create_dir_private_def io_step_tick io_tick_def split: io_outcome.splits)
  moreover have "w_tick w1 \<le> w_tick w2" by (rule probe_names_ticks [OF s2 [unfolded non_clobbering_dest_def]])
  moreover have "w' = w1 \<or> w' = w2 \<or> w_tick w' = Suc (w_tick w2)"
    using assms s1 s2 by (auto simp: quarantine_def dest!: fs_rename_effect split: sum.splits) (auto simp: io_tick_def)
  ultimately show ?thesis by auto
qed

lemma remove_file_ticks: "fs_remove_file p w = (x, w') \<Longrightarrow> w_tick w \<le> w_tick w'"
  by (drule fs_remove_file_effect) (auto simp: io_tick_def)

lemma delete_orphan_ticks:
  assumes "delete_orphan p w = (x, w')"
  shows "w_tick w \<le> w_tick w'"
proof -
  obtain y1 w1 where s1: "fs_sync_file (confirmed_path p) w = (y1, w1)" by fastforce
  obtain y2 w2 where s2: "fs_sync_dir (fst (confirmed_path p)) w1 = (y2, w2)" by fastforce
  obtain y3 w3 where s3: "fs_remove_file p w2 = (y3, w3)" by fastforce
  obtain y0 w0 where o: "fs_open (confirmed_path p) w = (y0, w0)" by fastforce
  have w0: "w_tick w0 = Suc (w_tick w)" using fs_open_effect [OF o] by (simp add: io_tick_def)
  have "w1 = w0 \<or> (\<exists>i. fs_sync_data i w0 = (y1, w1))" using s1 o by (auto simp: fs_sync_file_def split: sum.splits)
  then have "w_tick w \<le> w_tick w1" using w0 by (auto dest!: fs_sync_data_effect simp: io_tick_def)
  moreover have "w_tick w1 \<le> w_tick w2" using fs_sync_dir_effect [OF s2] by (auto simp: io_tick_def)
  moreover have "w_tick w2 \<le> w_tick w3" by (rule remove_file_ticks [OF s3])
  moreover have "w' = w1 \<or> w' = w2 \<or> w' = w3" using assms s1 s2 s3 by (auto simp: delete_orphan_def split: sum.splits)
  ultimately show ?thesis by auto
qed

definition fault_between :: "world \<Rightarrow> world \<Rightarrow> bool" where
  "fault_between w w' \<longleftrightarrow> (\<exists>t. w_tick w \<le> t \<and> t < w_tick w' \<and> w_io w t \<noteq> IoDone)"

lemma fault_between_mono:
  assumes "fault_between v v'" "w_tick w \<le> w_tick v" "w_tick v' \<le> w_tick w'" "w_io v = w_io w"
  shows "fault_between w w'"
  using assms unfolding fault_between_def by (metis le_trans order_less_le_trans)

text \<open>A sidecar that exists is either read or the read failed.\<close>

lemma check_confirmed_ticks:
  assumes run: "check_confirmed crc p wab w m = (x, w', m')"
  shows "w_tick w \<le> w_tick w'" "x = Ok False \<Longrightarrow> w_entry w (confirmed_path p) = Some j \<Longrightarrow> fault_between w w'"
proof -
  let ?c = "confirmed_path p"
  obtain b w1 where s1: "fs_exists ?c w = (b, w1)" by fastforce
  obtain y w2 where s2: "fs_read ?c w1 = (y, w2)" by fastforce
  obtain e3 w3 m3 where s3: "quarantine_and_count p wab w2 m = (e3, w3, m3)" by (metis prod_cases3)
  obtain y3 where q3: "quarantine p wab w2 = (y3, w3)"
    using s3 by (auto simp: quarantine_and_count_def split: prod.splits sum.splits)
  obtain y4 w4 where q4: "quarantine ?c wab w3 = (y4, w4)" by fastforce
  have w1: "w1 = io_tick w" using fs_exists_effect [OF s1] by simp
  have w2: "w2 = io_tick w1" using fs_read_effect [OF s2] by simp
  have t: "w_tick w1 = Suc (w_tick w)" "w_tick w2 = Suc (Suc (w_tick w))" "w_tick w2 \<le> w_tick w4"
    using quarantine_ticks [OF q3] quarantine_ticks [OF q4] by (simp_all add: w1 w2 io_tick_def)
  have c: "w' = w1 \<and> \<not> b \<or> b \<and> w' = w2 \<and> ((\<exists>k. y = Err k) \<or> x = Ok True) \<or> w' = w4 \<and> (\<exists>k. x = Err k)"
    using run s1 s2 s3 q4 by (auto simp: check_confirmed_def split: sum.splits bool.splits)
  then show "w_tick w \<le> w_tick w'" using t by auto
  assume x: "x = Ok False" and j: "w_entry w ?c = Some j"
  have "\<not> b \<Longrightarrow> w_io w (w_tick w) \<noteq> IoDone" using s1 j by (auto simp: fs_exists_def io_step_tick split: io_outcome.splits)
  moreover have "y = Err k \<Longrightarrow> w_io w (Suc (w_tick w)) \<noteq> IoDone" for k
    using s2 j by (auto simp: fs_read_def fs_open_def io_step_tick w1 file_reader_def split: io_outcome.splits) (auto simp: io_tick_def)
  ultimately show "fault_between w w'" using c x t unfolding fault_between_def
    by (metis Inl_Inr_False le_refl lessI less_SucI Inr_inject le_SucI)
qed

lemma scan_sealed_requeue:
  assumes "scan_sealed crc wab exclude cleanup ps w m = (segs, w', m')" "\<forall>p \<in> set ps. sealed_name p \<and> fst p \<noteq> quarantine_dir wab"
  shows "w_tick w \<le> w_tick w' \<and> (\<forall>p \<in> set segs. \<forall>j. w_entry w (confirmed_path p) = Some j \<longrightarrow> valid_sidecar crc (w_data w j) \<longrightarrow>
    fault_between w w')"
  using assms
proof (induction ps arbitrary: w m segs)
  case Nil
  then show ?case by simp
next
  case (Cons p ps)
  let ?qd = "quarantine_dir wab"
  have p: "sealed_name p" "fst p \<noteq> ?qd" using Cons.prems(2) by auto
  have all: "\<forall>q \<in> set ps. sealed_name q \<and> fst q \<noteq> ?qd" using Cons.prems(2) by simp
  show ?case
  proof (cases "exclude p")
    case True
    then show ?thesis using Cons.IH [of w m segs] Cons.prems(1) all by simp
  next
    case False
    obtain x w1 m1 where c: "check_confirmed crc p wab w m = (x, w1, m1)" by (metis prod_cases3)
    obtain y w2 where d: "delete_orphan p w1 = (y, w2)" by fastforce
    define v where "v = (if x = Ok True \<and> cleanup then w2 else w1)"
    obtain s1 where run: "scan_sealed crc wab exclude cleanup ps v m1 = (s1, w', m')" and segs: "segs = (if x = Ok False then p # s1 else s1)"
      using Cons.prems(1) False c d by (auto simp: v_def split: sum.splits bool.splits prod.splits if_splits)
    note ce = check_confirmed_effect [OF c p] and ct = check_confirmed_ticks [OF c]
    have tv: "tidies crc ?qd w v"
    proof (cases "x = Ok True \<and> cleanup")
      case True
      then obtain j where "w_entry w1 (confirmed_path p) = Some j" "valid_sidecar crc (w_data w1 j)" using ce(2) by blast
      then show ?thesis using tidies_trans [OF ce(1) delete_orphan_tidies [OF d p]] True by (simp add: v_def)
    next
      case no: False
      then have "v = w1" unfolding v_def by (rule if_not_P)
      then show ?thesis using ce(1) by simp
    qed
    have wv: "w_tick w1 \<le> w_tick v" using delete_orphan_ticks [OF d] by (simp add: v_def)
    note ih = Cons.IH [OF run all]
    have "fault_between w w'"
      if q: "q \<in> set segs" "w_entry w (confirmed_path q) = Some j" "valid_sidecar crc (w_data w j)" for q j
    proof (cases "q \<in> set s1")
      case True
      have "set s1 \<subseteq> set ps" using scan_sealed_effect [OF run all] set_subseq by blast
      then have n: "sealed_name q" "fst q \<noteq> ?qd" using True all by blast+
      have "w_entry v (confirmed_path q) = Some j" "valid_sidecar crc (w_data v j)"
        using tidiesD(6) [OF tv _ confirmed_path_ext(1) [OF n(1)] q(2,3)] confirmed_path_ext(2) [OF n(1)] n(2) q(3) tidiesD(1) [OF tv] by simp_all
      then have "fault_between v w'" using ih True by blast
      then show ?thesis by (rule fault_between_mono) (use ct(1) wv tidiesD(2) [OF tv] in simp_all)
    next
      case no: False
      then have "q = p" "x = Ok False" using q(1) by (auto simp: segs split: if_splits)
      then have "fault_between w w1" using ct(2) q(2) by simp
      then show ?thesis by (rule fault_between_mono) (use wv ih in simp_all)
    qed
    moreover have "w_tick w \<le> w_tick w'" using ct(1) wv ih by simp
    ultimately show ?thesis by blast
  qed
qed

lemma remove_stales_ticks: "w_tick w \<le> w_tick (fold remove_stale_confirmed_tmp ts w)"
proof (induction ts arbitrary: w)
  case (Cons t ts)
  obtain b w1 where s: "fs_exists t w = (b, w1)" by fastforce
  obtain x w2 where r: "fs_remove_file t w1 = (x, w2)" by fastforce
  have "w_tick w \<le> w_tick (remove_stale_confirmed_tmp t w)"
    using fs_exists_effect [OF s] remove_file_ticks [OF r] s r by (cases b) (simp_all add: remove_stale_confirmed_tmp_def io_tick_def)
  then show ?case using Cons.IH [of "remove_stale_confirmed_tmp t w"] by simp
qed simp

lemma scan_shard_requeue:
  assumes run: "scan_shard crc wab exclude cleanup es w m = (segs, w', m')"
    and d: "\<forall>p \<in> set es. fst p = d" "d \<noteq> quarantine_dir wab"
  shows "w_tick w \<le> w_tick w'"
    "p \<in> set segs \<Longrightarrow> w_entry w (confirmed_path p) = Some j \<Longrightarrow> valid_sidecar crc (w_data w j) \<Longrightarrow> fault_between w w'"
proof -
  let ?qd = "quarantine_dir wab" and ?ts = "filter (\<lambda>p. ends_with (snd p) EXT_CONFIRMED_TMP) es"
  define v where "v = fold remove_stale_confirmed_tmp ?ts w"
  let ?ps = "sort_key (\<lambda>p. option_key (segment_counter_from_path p)) (filter sealed_name es)"
  have tv: "tidies crc ?qd w v" unfolding v_def by (rule remove_stales_tidies) (use d in simp)
  have t: "w_tick w \<le> w_tick v" unfolding v_def by (rule remove_stales_ticks)
  have s: "scan_sealed crc wab exclude cleanup ?ps v m = (segs, w', m')" using run by (simp add: scan_shard_def v_def)
  have all: "\<forall>p \<in> set ?ps. sealed_name p \<and> fst p \<noteq> ?qd" using d by simp
  note e = scan_sealed_requeue [OF s all]
  show "w_tick w \<le> w_tick w'" using t e by simp
  assume p: "p \<in> set segs" "w_entry w (confirmed_path p) = Some j" "valid_sidecar crc (w_data w j)"
  have "p \<in> set ?ps" using p(1) scan_sealed_effect [OF s all] set_subseq by blast
  then have n: "sealed_name p" "fst p \<noteq> ?qd" using all by blast+
  have "w_entry v (confirmed_path p) = Some j" "valid_sidecar crc (w_data v j)"
    using tidiesD(6) [OF tv _ confirmed_path_ext(1) [OF n(1)] p(2,3)] confirmed_path_ext(2) [OF n(1)] n(2) p(3) tidiesD(1) [OF tv] by simp_all
  then have "fault_between v w'" using e p(1) by blast
  then show "fault_between w w'" by (rule fault_between_mono) (use t tidiesD(2) [OF tv] in simp_all)
qed

lemma scan_shards_requeue:
  assumes "scan_shards crc wab sc exclude cleanup ds acc w m = (x, w', m')"
  shows "w_tick w \<le> w_tick w' \<and> (\<forall>scan p j. x = Ok scan \<longrightarrow> p \<in> set (ss_segments scan) \<longrightarrow> p \<notin> set (ss_segments acc) \<longrightarrow>
    sealed_name p \<longrightarrow> fst p \<noteq> quarantine_dir wab \<longrightarrow>
    w_entry w (confirmed_path p) = Some j \<longrightarrow> valid_sidecar crc (w_data w j) \<longrightarrow> fault_between w w')"
  using assms
proof (induction ds arbitrary: acc w m)
  case Nil
  then show ?case by auto
next
  case (Cons d ds)
  let ?qd = "quarantine_dir wab"
  obtain name dir where d: "d = (name, dir)" by (cases d)
  show ?case
  proof (cases "\<not> dir \<or> reserved_name name")
    case True
    then have "scan_shards crc wab sc exclude cleanup ds acc w m = (x, w', m')"
      using Cons.prems by (auto simp: d reserved_name_def split: if_splits)
    then show ?thesis by (rule Cons.IH)
  next
    case False
    let ?d = "wab @ ascii ''/'' @ name"
    obtain y w1 where rd: "fs_read_dir ?d w = (y, w1)" by fastforce
    have w1: "w1 = io_tick w" by (rule read_dir_entries(1) [OF rd])
    have t1: "w_tick w \<le> w_tick w1" by (simp add: w1 io_tick_def)
    have dq: "?d \<noteq> ?qd" using False shard_dir_apart by blast
    show ?thesis
    proof (cases y)
      case (Inl k)
      show ?thesis
      proof (cases "sc = None")
        case True
        then have run: "scan_shards crc wab sc exclude cleanup ds (acc\<lparr>ss_incomplete := True\<rparr>) w1 m = (x, w', m')"
          using Cons.prems Inl rd False by (auto simp: d reserved_name_def)
        note ih = Cons.IH [OF run]
        have "fault_between w1 w' \<Longrightarrow> fault_between w w'" by (erule fault_between_mono) (use t1 w1 in simp_all)
        then show ?thesis using ih t1 by (simp add: w1)
      next
        case some: False
        then have "x = Err k" "w' = w1" using Cons.prems Inl rd False by (auto simp: d reserved_name_def)
        then show ?thesis using t1 by simp
      qed
    next
      case (Inr es)
      obtain segs w2 m2 where sh: "scan_shard crc wab exclude cleanup es w1 m = (segs, w2, m2)" by (metis prod_cases3)
      let ?acc = "acc\<lparr>ss_segments := ss_segments acc @ segs\<rparr>"
      have run: "scan_shards crc wab sc exclude cleanup ds ?acc w2 m2 = (x, w', m')"
        using Cons.prems Inr rd sh False by (simp add: d reserved_name_def)
      have esd: "\<forall>p \<in> set es. fst p = ?d" using read_dir_entries(2) [OF rd Inr] by blast
      note se = scan_shard_effect(1) [OF sh esd dq] and sr = scan_shard_requeue [OF sh esd dq] and ih = Cons.IH [OF run]
      have t2: "w_tick w \<le> w_tick w2" using t1 sr(1) by simp
      have "fault_between w w'"
        if q: "x = Ok scan" "p \<in> set (ss_segments scan)" "p \<notin> set (ss_segments acc)" "sealed_name p" "fst p \<noteq> ?qd"
          "w_entry w (confirmed_path p) = Some j" "valid_sidecar crc (w_data w j)" for scan p j
      proof (cases "p \<in> set segs")
        case True
        then have "fault_between w1 w2" using sr(2) q(6,7) by (simp add: w1)
        then show ?thesis by (rule fault_between_mono) (use t1 ih w1 in simp_all)
      next
        case no: False
        have e1: "w_entry w1 (confirmed_path p) = Some j" "valid_sidecar crc (w_data w1 j)" using q(6,7) by (simp_all add: w1)
        have "w_entry w2 (confirmed_path p) = Some j" "valid_sidecar crc (w_data w2 j)"
          using tidiesD(6) [OF se _ confirmed_path_ext(1) [OF q(4)] e1] confirmed_path_ext(2) [OF q(4)] q(5) e1 tidiesD(1) [OF se] by simp_all
        then have "fault_between w2 w'" using ih q no by auto
        then show ?thesis by (rule fault_between_mono) (use t2 tidiesD(2) [OF se] w1 in simp_all)
      qed
      then show ?thesis using le_trans [OF t2 conjunct1 [OF ih]] by blast
    qed
  qed
qed

lemma scan_unconfirmed_requeue:
  assumes "scan_unconfirmed_sealed crc wab listing sc exclude cleanup w m = (Ok scan, w', m')" "p \<in> set (ss_segments scan)"
    "sealed_name p" "fst p \<noteq> quarantine_dir wab" "w_entry w (confirmed_path p) = Some j" "valid_sidecar crc (w_data w j)"
  shows "fault_between w w'"
proof -
  obtain ds where "scan_shards crc wab sc exclude cleanup ds \<lparr>ss_segments = [], ss_incomplete = False\<rparr> w m = (Ok scan, w', m')"
    using assms(1) by (auto simp: scan_unconfirmed_sealed_def split: sum.splits)
  from scan_shards_requeue [OF this] show ?thesis using assms(2-6) by simp
qed

section \<open>Properties\<close>

lemma scan_replay_scan:
  assumes "scan_replay crc wab (Ok listing) n cleanup w m = (x, w', m')"
  obtains y w1 m1 where "scan_unconfirmed_sealed crc wab (Ok listing) (Some n) (\<lambda>_. False) cleanup w m = (y, w1, m1)"
    "\<And>segs. x = Ok segs \<Longrightarrow> \<exists>scan. y = Ok scan \<and> segs = ss_segments scan"
proof -
  obtain y w1 m1 where s: "scan_unconfirmed_sealed crc wab (Ok listing) (Some n) (\<lambda>_. False) cleanup w m = (y, w1, m1)"
    by (metis prod_cases3)
  show thesis
    by (rule that [OF s]) (use assms s in \<open>auto simp: scan_replay_def split: sum.splits prod.splits\<close>)
qed

text \<open>
  C11: nothing undelivered is forgotten at start-up.  When \<open>scan_replay\<close> succeeds, whatever reads
  or deletions failed on the way, every sealed segment in a listed shard directory that has no
  sidecar is in the list that it hands to the drain.
\<close>

theorem replay_scan_complete:
  assumes "scan_replay crc wab (Ok listing) n cleanup w m = (Ok segs, w', m')"
    "(name, True) \<in> set listing" "\<not> reserved_name name" "fst p = wab @ ascii ''/'' @ name"
    "ends_with (snd p) EXT_SEALED" "w_entry w p = Some i" "w_entry w (confirmed_path p) = None"
  shows "p \<in> set segs"
proof (rule scan_replay_scan [OF assms(1)])
  fix y w1 m1
  assume s: "scan_unconfirmed_sealed crc wab (Ok listing) (Some n) (\<lambda>_. False) cleanup w m = (y, w1, m1)"
    and y: "\<And>segs'. Ok segs = Ok segs' \<Longrightarrow> \<exists>scan. y = Ok scan \<and> segs' = ss_segments scan"
  obtain scan where scan: "y = Ok scan" "segs = ss_segments scan" using y by blast
  have "\<not> ss_incomplete scan" by (rule scan_unconfirmed_effect(2) [OF s scan(1)]) simp
  then show ?thesis
    using scan_unconfirmed_effect(3) [OF s scan(1) _ assms(2-5) _ assms(6,7)] scan(2) by simp
qed

text \<open>A fault-free store with one sealed segment and possibly its sidecar.\<close>

definition sealed_sample :: path where
  "sealed_sample = sealed_path_for sample_path"

definition replay_world :: "bytes option \<Rightarrow> world" where
  "replay_world side =
     (crashed_world sealed_sample sample_prefix)
       \<lparr>w_dir := (sealed_sample, 0) # (case side of None \<Rightarrow> [] | Some bs \<Rightarrow> [(confirmed_path sealed_sample, 1)]),
        w_data := (\<lambda>_. [])(0 := sample_prefix, 1 := (case side of None \<Rightarrow> [] | Some bs \<Rightarrow> bs)), w_next := 2\<rparr>"

lemma sealed_sample_simps:
  "sealed_name sealed_sample" "fst sealed_sample = ascii ''w'' @ ascii ''/'' @ ascii ''shard_00''"
  "confirmed_path sealed_sample \<noteq> sealed_sample" "fst (confirmed_path sealed_sample) = fst sealed_sample"
  "fst sealed_sample \<noteq> quarantine_dir (ascii ''w'')"
proof -
  show n: "sealed_name sealed_sample"
    unfolding sealed_sample_def sample_path_def sealed_segment_path ends_with_def
    by (metis append_assoc snd_conv suffixI)
  show d: "fst sealed_sample = ascii ''w'' @ ascii ''/'' @ ascii ''shard_00''"
    by (simp add: sealed_sample_def sample_path_def sealed_path_for_eq segment_path_def ascii_def)
  show "fst (confirmed_path sealed_sample) = fst sealed_sample" by (rule confirmed_path_ext(2) [OF n])
  show "confirmed_path sealed_sample \<noteq> sealed_sample"
    using confirmed_path_ext(1) [OF n] name_kinds_apart(1) n by metis
  show "fst sealed_sample \<noteq> quarantine_dir (ascii ''w'')" unfolding d by (simp add: quarantine_dir_def ascii_def)
qed

lemma replay_world_simps [simp]:
  "w_entry (replay_world side) q = (if q = sealed_sample then Some 0
     else if side \<noteq> None \<and> q = confirmed_path sealed_sample then Some 1 else None)"
  "w_data (replay_world None) 0 = sample_prefix" "w_data (replay_world (Some bs)) (Suc 0) = bs"
  "w_io (replay_world side) n = IoDone" "w_tick (replay_world side) = 0"
  "map fst (w_dir (replay_world side)) = sealed_sample # (if side = None then [] else [confirmed_path sealed_sample])"
  by (auto simp: replay_world_def w_entry_def crashed_world_def quiet_world_def split: option.split)

lemma scan_one_shard:
  assumes "\<forall>k. w_io w (w_tick w) \<noteq> IoFail k"
  shows "\<exists>segs w' m'. scan_replay crc wab (Ok [(ascii ''shard_00'', True)]) 1 cleanup w m = (Ok segs, w', m')"
    "\<exists>found w' m'. scan_unconfirmed_sealed crc wab (Ok [(ascii ''shard_00'', True)]) (Some 1) (\<lambda>_. False) cleanup w m = (Ok found, w', m')"
proof -
  obtain es where rd: "fs_read_dir (wab @ ascii ''/'' @ ascii ''shard_00'') w = (Ok es, io_tick w)"
    using assms by (cases "w_io w (w_tick w)") (auto simp: fs_read_dir_def io_step_tick)
  obtain segs w2 m2 where sh: "scan_shard crc wab (\<lambda>_. False) cleanup es (io_tick w) m = (segs, w2, m2)" by (metis prod_cases3)
  have "scan_unconfirmed_sealed crc wab (Ok [(ascii ''shard_00'', True)]) (Some 1) (\<lambda>_. False) cleanup w m =
      (Ok \<lparr>ss_segments = segs, ss_incomplete = False\<rparr>, w2, m2)"
    using rd sh by (simp add: scan_unconfirmed_sealed_def ascii_def)
  then show "\<exists>segs w' m'. scan_replay crc wab (Ok [(ascii ''shard_00'', True)]) 1 cleanup w m = (Ok segs, w', m')"
    "\<exists>found w' m'. scan_unconfirmed_sealed crc wab (Ok [(ascii ''shard_00'', True)]) (Some 1) (\<lambda>_. False) cleanup w m = (Ok found, w', m')"
    by (auto simp: scan_replay_def split: prod.split)
qed

theorem replay_scan_complete_witness:
  "\<exists>segs w' m'. scan_replay crc32_hash (ascii ''w'') (Ok [(ascii ''shard_00'', True)]) 1 True (replay_world None) no_metrics =
     (Ok segs, w', m') \<and> sealed_sample \<in> set segs"
proof -
  obtain segs w' m' where run: "scan_replay crc32_hash (ascii ''w'') (Ok [(ascii ''shard_00'', True)]) 1 True
      (replay_world None) no_metrics = (Ok segs, w', m')" using scan_one_shard(1) [of "replay_world None"] by fastforce
  have "sealed_sample \<in> set segs"
    by (rule replay_scan_complete [OF run _ _ sealed_sample_simps(2,1), where i = 0])
      (use sealed_sample_simps(3) in \<open>simp_all add: reserved_name_def ascii_def\<close>)
  then show ?thesis using run by blast
qed

text \<open>
  C12: a segment leaves its directory only when that is safe.  After \<open>scan_unconfirmed_sealed\<close>, at
  start-up or as a rescan, with or without the cleanup of orphans, whatever failed: a sealed
  segment that had a file still has it under the same name, or in quarantine, or stands beside a
  valid sidecar that is on stable storage together with its directory entry; and no file's contents
  change.  The one exception is a sidecar of which an fsync had already failed before the scan, for
  the kernel may report a later fsync of it as successful; a failure during the scan keeps the
  segment.  The listings name every entry once, and the sidecar has no second name.
\<close>

theorem replay_scan_deletes_only_confirmed:
  assumes "scan_unconfirmed_sealed crc wab (Ok listing) sc exclude cleanup w m = (x, w', m')"
    "fst p \<noteq> quarantine_dir wab" "ends_with (snd p) EXT_SEALED" "w_entry w p = Some i"
    "distinct (map fst listing)" "distinct (map fst (w_dir w))"
    "\<forall>q j. w_entry w (confirmed_path p) = Some j \<longrightarrow> w_entry w q = Some j \<longrightarrow> q = confirmed_path p"
  shows "w_data w' = w_data w \<and>
    (w_entry w' p = Some i \<or> (\<exists>q. fst q = quarantine_dir wab \<and> w_entry w' q = Some i) \<or>
     (\<exists>j c. w_entry w (confirmed_path p) = Some j \<and> w_entry w' (confirmed_path p) = Some j \<and>
        parse_confirmed crc (w_data w j) = Ok c \<and>
        (w_lost w j \<or> w_ddir w' (confirmed_path p) = Some j \<and> w_disk w' j = w_data w' j)))"
proof -
  note t = scan_unconfirmed_effect(1) [OF assms(1)]
  have side: "w_entry w (confirmed_path p) = Some j" if "w_entry w' (confirmed_path p) = Some j" for j
    using tidiesD(5) [OF t _ that] confirmed_path_ext(2) [OF assms(3)] assms(2) by simp
  have lost: "w_lost w' j = w_lost w j \<or> w_entry w' p = Some i" if "w_entry w (confirmed_path p) = Some j" for j
    using scan_unconfirmed_lost [OF assms(1,3,2,5,6), of j] assms(4,7) that by simp
  consider "w_entry w' p = Some i" | "\<exists>q. fst q = quarantine_dir wab \<and> w_entry w' q = Some i" | "confirmed_at crc p w'"
    using tidiesD(7) [OF t assms(2-4)] by blast
  then show ?thesis
  proof cases
    case 3
    then obtain j c where j: "w_entry w' (confirmed_path p) = Some j" "parse_confirmed crc (w_data w' j) = Ok c"
      "w_lost w' j \<or> w_ddir w' (confirmed_path p) = Some j \<and> w_disk w' j = w_data w' j"
      unfolding confirmed_at_def valid_sidecar_def by blast
    then show ?thesis using lost [OF side [OF j(1)]] side [OF j(1)] tidiesD(1) [OF t] by auto
  qed (use tidiesD(1) [OF t] in blast)+
qed

theorem replay_scan_deletes_only_confirmed_witness:
  "\<exists>x w' m'. scan_unconfirmed_sealed crc32_hash (ascii ''w'') (Ok [(ascii ''shard_00'', True)]) None (\<lambda>_. False) True
       (replay_world (Some (build_confirmed crc32_hash 1 2 3))) no_metrics = (x, w', m') \<and>
     w_data w' = w_data (replay_world (Some (build_confirmed crc32_hash 1 2 3))) \<and>
     (w_entry w' sealed_sample = Some 0 \<or> (\<exists>q. fst q = quarantine_dir (ascii ''w'') \<and> w_entry w' q = Some 0) \<or>
      w_ddir w' (confirmed_path sealed_sample) = Some 1 \<and> w_disk w' 1 = build_confirmed crc32_hash 1 2 3)"
proof -
  let ?w = "replay_world (Some (build_confirmed crc32_hash 1 2 3))"
  obtain x w' m' where run: "scan_unconfirmed_sealed crc32_hash (ascii ''w'') (Ok [(ascii ''shard_00'', True)]) None (\<lambda>_. False) True
      ?w no_metrics = (x, w', m')" by (metis prod_cases3)
  have ne: "sealed_sample \<noteq> confirmed_path sealed_sample" using sealed_sample_simps(3) by simp
  have "w_entry ?w (confirmed_path sealed_sample) = Some 1" using ne by simp
  then have "w_data w' = w_data ?w \<and>
     (w_entry w' sealed_sample = Some 0 \<or> (\<exists>q. fst q = quarantine_dir (ascii ''w'') \<and> w_entry w' q = Some 0) \<or>
      w_ddir w' (confirmed_path sealed_sample) = Some 1 \<and> w_disk w' 1 = build_confirmed crc32_hash 1 2 3)"
    using replay_scan_deletes_only_confirmed [OF run sealed_sample_simps(5,1), of 0] ne
    by (auto simp: replay_world_def w_entry_def)
  then show ?thesis using run by blast
qed

text \<open>
  What is queued of one shard directory, and in which order.  The list is in ascending counter
  order and holds only sealed segments of the directory that the caller does not own; on a disk
  without faults it holds none that stands beside a valid sidecar, so nothing that was confirmed
  is delivered again.
\<close>

theorem replay_shard_order:
  assumes "scan_shard crc wab exclude cleanup es w m = (segs, w', m')" "\<forall>q \<in> set es. fst q = d" "d \<noteq> quarantine_dir wab"
  shows "sorted (map (\<lambda>q. option_key (segment_counter_from_path q)) segs) \<and>
    (\<forall>q \<in> set segs. q \<in> set es \<and> ends_with (snd q) EXT_SEALED \<and> \<not> exclude q) \<and>
    ((\<forall>n. w_io w n = IoDone) \<longrightarrow> (\<forall>q \<in> set segs. \<forall>j c. w_entry w (confirmed_path q) = Some j \<longrightarrow>
       parse_confirmed crc (w_data w j) \<noteq> Ok c))"
  using scan_shard_effect(2,3,5) [OF assms] unfolding valid_sidecar_def by blast

theorem replay_shard_order_witness:
  "\<exists>segs w' m'. scan_shard crc32_hash (ascii ''w'') (\<lambda>_. False) True [sealed_sample, confirmed_path sealed_sample]
       (replay_world (Some (build_confirmed crc32_hash 1 2 3))) no_metrics = (segs, w', m') \<and> sealed_sample \<notin> set segs"
proof -
  let ?w = "replay_world (Some (build_confirmed crc32_hash 1 2 3))"
  obtain segs w' m' where run: "scan_shard crc32_hash (ascii ''w'') (\<lambda>_. False) True [sealed_sample, confirmed_path sealed_sample]
      ?w no_metrics = (segs, w', m')" by (metis prod_cases3)
  have "w_entry ?w (confirmed_path sealed_sample) = Some (Suc 0)" using sealed_sample_simps(3) by simp
  moreover have "\<forall>n. w_io ?w n = IoDone" "\<exists>c. parse_confirmed crc32_hash (w_data ?w (Suc 0)) = Ok c"
    using parse_build_confirmed [of crc32_hash 1 2 3] by simp_all
  moreover have "\<forall>q \<in> set [sealed_sample, confirmed_path sealed_sample]. fst q = fst sealed_sample"
    using sealed_sample_simps(4) by simp
  ultimately have "sealed_sample \<notin> set segs"
    using replay_shard_order [OF run _ sealed_sample_simps(5)] by blast
  then show ?thesis using run by blast
qed

text \<open>
  C33: the scan relies on every error of \<open>check_confirmed\<close> meaning that the segment is in
  quarantine, and that is not always so.  When the sidecar can be read but not parsed and moving
  the segment fails, the segment stays under its name with its contents, no quarantine is counted,
  and it is not queued either.
\<close>

theorem failed_quarantine_not_queued:
  assumes "fs_exists (confirmed_path p) w = (True, w1)" "fs_read (confirmed_path p) w1 = (Ok buf, w2)"
    "parse_confirmed crc buf = Err e" "quarantine p wab w2 = (Err k, w3)" "\<not> exclude p"
    "p \<noteq> confirmed_path p" "fst p \<noteq> quarantine_dir wab"
  shows "\<exists>w'. scan_sealed crc wab exclude cleanup [p] w m = ([], w', m) \<and> w_entry w' p = w_entry w p \<and> w_data w' = w_data w"
proof -
  have w2: "w_entry w2 = w_entry w" "w_data w2 = w_data w"
    using fs_exists_effect [OF assms(1)] fs_read_effect [OF assms(2)] by simp_all
  have w3: "w_entry w3 = w_entry w" "w_data w3 = w_data w"
    using quarantine_moves [OF assms(4)] w2 by (auto simp: w_entry_def fun_eq_iff)
  obtain y w4 where q: "quarantine (confirmed_path p) wab w3 = (y, w4)" by fastforce
  have w4: "w_entry w4 p = w_entry w p" "w_data w4 = w_data w"
    using quarantine_moves [OF q] w3 assms(6,7) by (auto simp: w_entry_def update_conv' delete_conv' fun_eq_iff)
  obtain e' where "check_confirmed crc p wab w m = (Err e', w4, m)"
    using assms(1-4) q by (cases y) (auto simp: check_confirmed_def quarantine_and_count_def)
  then show ?thesis using assms(5) w4 by simp
qed

theorem failed_quarantine_not_queued_witness:
  "\<exists>w w'. w_entry w sealed_sample = Some 0 \<and>
     scan_sealed crc32_hash (ascii ''w'') (\<lambda>_. False) True [sealed_sample] w no_metrics = ([], w', no_metrics) \<and>
     w_entry w' sealed_sample = Some 0"
proof -
  define w where "w = (replay_world (Some []))\<lparr>w_io := (\<lambda>n. if n = 2 then IoFail StorageFull else IoDone)\<rparr>"
  have e: "w_entry w q = w_entry (replay_world (Some [])) q" for q by (simp add: w_def w_entry_def)
  have d: "w_data w (Suc 0) = []" "w_tick w = 0" "w_io w n = (if n = 2 then IoFail StorageFull else IoDone)" for n
    by (simp_all add: w_def)
  let ?c = "confirmed_path sealed_sample"
  have s1: "fs_exists ?c w = (True, io_tick w)"
    using sealed_sample_simps(3) by (simp add: fs_exists_def io_step_tick d e)
  have s2: "fs_read ?c (io_tick w) = (Ok [], io_tick (io_tick w))"
    using sealed_sample_simps(3) by (simp add: fs_read_def fs_open_def io_step_tick d e) (simp add: io_tick_def d)
  have s3: "parse_confirmed crc32_hash [] = Err (ConfWrongLength 0)" by (simp add: parse_confirmed_def CONFIRMED_LEN_def)
  have s4: "quarantine sealed_sample (ascii ''w'') (io_tick (io_tick w)) = (Err StorageFull, io_tick (io_tick (io_tick w)))"
    by (simp add: quarantine_def create_dir_private_def io_step_tick) (simp add: io_tick_def d)
  have "sealed_sample \<noteq> ?c" using sealed_sample_simps(3) by simp
  from failed_quarantine_not_queued [OF s1 s2 s3 s4 _ this sealed_sample_simps(5), of "\<lambda>_. False" True no_metrics]
  obtain w' where "scan_sealed crc32_hash (ascii ''w'') (\<lambda>_. False) True [sealed_sample] w no_metrics = ([], w', no_metrics)"
    "w_entry w' sealed_sample = w_entry w sealed_sample" by blast
  moreover have "w_entry w sealed_sample = Some 0" using e by simp
  ultimately show ?thesis by metis
qed

end
