(* ===== verification/Confirm.thy ===== *)
theory Confirm
  imports Replay
begin

text \<open>
  Confirming a delivered segment, \<open>weir-server/src/drain/confirmed.rs\<close>: write the
  \<open>.confirmed\<close> sidecar under a temporary name, fsync it, rename it into place, fsync the
  directory, and only then delete the segment.

  Main results: a segment is deleted only behind a valid sidecar that is on stable storage; a
  sidecar that does not become durable leaves the segment alone; whatever fails, the final name
  never stands for a torn sidecar; and a confirmed segment is not queued by the replay scan.
\<close>

text \<open>
  The counters the drain thread moves.  \<open>dm_quarantined\<close> stands for the two series that every
  quarantine bumps together, \<open>recovery_segments_quarantined\<close> and
  \<open>wab_segments{state=quarantined}\<close>.
\<close>

record drain_metrics =
  dm_confirmed :: nat
  dm_sidecar_failures :: nat
  dm_delete_failures :: nat
  dm_quarantined :: nat
  dm_quarantine_failures :: nat
  dm_committed :: nat
  dm_retried :: nat
  dm_dead_lettered :: nat
  dm_dl_write_failures :: nat
  dm_dl_bytes_on_disk :: nat
  dm_dead_letter_full :: nat

datatype confirm_outcome = ConfirmDone | SidecarFailed | DeleteFailed

section \<open>Operations\<close>

text \<open>
  \<open>OpenOptions::write(true).create(true).truncate(true).open\<close>.  Truncation drops whatever a
  failed fsync left behind.
\<close>

definition fs_create :: "path \<Rightarrow> world \<Rightarrow> (io_kind + nat) \<times> world" where
  "fs_create p w =
     (case io_step w of
        (IoFail k, w) \<Rightarrow> (Err k, w)
      | (_, w) \<Rightarrow>
         (case w_entry w p of
            Some i \<Rightarrow>
              (Ok i, w\<lparr>w_data := (w_data w)(i := []), w_disk := (w_disk w)(i := []),
                       w_lost := (w_lost w)(i := False)\<rparr>)
          | None \<Rightarrow>
              (Ok (w_next w),
               w\<lparr>w_dir := AList.update p (w_next w) (w_dir w), w_data := (w_data w)(w_next w := []),
                 w_disk := (w_disk w)(w_next w := []), w_lost := (w_lost w)(w_next w := False),
                 w_next := Suc (w_next w)\<rparr>)))"

definition read_sealed_at_nanos :: "path \<Rightarrow> world \<Rightarrow> (io_kind + i64) \<times> world" where
  "read_sealed_at_nanos p w =
     (case fs_open p w of
        (Inl k, w) \<Rightarrow> (Err k, w)
      | (Inr (i, r), w) \<Rightarrow>
      case fs_metadata_len i w of
        (Inl k, w) \<Rightarrow> (Err k, w)
      | (Inr len, w) \<Rightarrow>
      if len < SEGMENT_FOOTER_LEN + 4 then (Ok 0, w)
      else case fs_seek w of
        (Inl k, w) \<Rightarrow> (Err k, w)
      | (Inr _, w) \<Rightarrow>
      case read_exact SEGMENT_FOOTER_LEN (r\<lparr>rd_rest := drop (len - SEGMENT_FOOTER_LEN) (rd_rest r)\<rparr>) of
        Inl k \<Rightarrow> (Err k, w)
      | Inr (footer, _) \<Rightarrow> (Ok (u64_from_le (subslice 20 28 footer)), w))"

definition write_tmp_then_rename :: "path \<Rightarrow> path \<Rightarrow> bytes \<Rightarrow> world \<Rightarrow> (io_kind + unit) \<times> world" where
  "write_tmp_then_rename confirmed tmp bs w =
     (case fs_create tmp w of
        (Inl k, w) \<Rightarrow> (Err k, w)
      | (Inr f, w) \<Rightarrow>
      case fs_write_all f bs w of
        (Inl k, w) \<Rightarrow> (Err k, w)
      | (Inr _, w) \<Rightarrow>
      case fs_sync_data f w of
        (Inl k, w) \<Rightarrow> (Err k, w)
      | (Inr _, w) \<Rightarrow>
      case fs_rename tmp confirmed w of
        (Inl k, w) \<Rightarrow> (Err k, w)
      | (Inr _, w) \<Rightarrow> fs_sync_dir (fst confirmed) w)"

definition write_confirmed_durably :: "path \<Rightarrow> bytes \<Rightarrow> world \<Rightarrow> (io_kind + unit) \<times> world" where
  "write_confirmed_durably confirmed bs w =
     (let tmp = confirmed_tmp_path confirmed in
      case write_tmp_then_rename confirmed tmp bs w of
        (Inl k, w) \<Rightarrow> (Err k, snd (fs_remove_file tmp w))
      | (Inr u, w) \<Rightarrow> (Ok u, w))"

definition write_confirmed_file ::
  "(bytes \<Rightarrow> u32) \<Rightarrow> path \<Rightarrow> u64 \<Rightarrow> world \<Rightarrow> (io_kind + unit) \<times> world"
where
  "write_confirmed_file crc sealed record_count w =
     (case read_sealed_at_nanos sealed w of
        (x, w) \<Rightarrow>
          let sealed_at = (case x of Inr t \<Rightarrow> t | Inl _ \<Rightarrow> 0);
              bs = build_confirmed crc sealed_at record_count (unix_nanos_now w) in
          write_confirmed_durably (confirmed_path sealed) bs w)"

definition delete_confirmed_segment ::
  "path \<Rightarrow> world \<Rightarrow> drain_metrics \<Rightarrow> confirm_outcome \<times> world \<times> drain_metrics"
where
  "delete_confirmed_segment sealed w m =
     (case fs_remove_file sealed w of
        (Inr _, w) \<Rightarrow> (ConfirmDone, w, m)
      | (Inl k, w) \<Rightarrow>
          if k = NotFound then (ConfirmDone, w, m)
          else (DeleteFailed, w, m\<lparr>dm_delete_failures := dm_delete_failures m + 1\<rparr>))"

definition confirm_and_delete ::
  "(bytes \<Rightarrow> u32) \<Rightarrow> path \<Rightarrow> u64 \<Rightarrow> world \<Rightarrow> drain_metrics \<Rightarrow> confirm_outcome \<times> world \<times> drain_metrics"
where
  "confirm_and_delete crc sealed record_count w m =
     (case fs_exists sealed w of
        (False, w) \<Rightarrow> (ConfirmDone, w, m)
      | (True, w) \<Rightarrow>
      case write_confirmed_file crc sealed record_count w of
        (Inl _, w) \<Rightarrow> (SidecarFailed, w, m\<lparr>dm_sidecar_failures := dm_sidecar_failures m + 1\<rparr>)
      | (Inr _, w) \<Rightarrow>
          delete_confirmed_segment sealed w (m\<lparr>dm_confirmed := dm_confirmed m + 1\<rparr>))"

section \<open>What the sidecar write may do to the store\<close>

text \<open>
  Inode numbers are fresh, and the file under the temporary name is nobody else's.
\<close>

definition tmp_private :: "path \<Rightarrow> world \<Rightarrow> bool" where
  "tmp_private tmp w \<longleftrightarrow>
     (\<forall>q i. w_entry w q = Some i \<longrightarrow> i < w_next w) \<and> (\<forall>q i. w_ddir w q = Some i \<longrightarrow> i < w_next w) \<and>
     (\<forall>i q. w_entry w tmp = Some i \<longrightarrow> w_entry w q = Some i \<or> w_ddir w q = Some i \<longrightarrow> q = tmp)"

text \<open>
  \<open>side_step\<close>: only the names \<open>tmp\<close> and \<open>conf\<close> change, only a file that is new or was
  \<open>tmp\<close>'s, and \<open>conf\<close> changes only to a file that holds \<open>bs\<close> on stable storage.  What is durable in
  other directories stays as it was, and stable bytes stay a prefix of the current ones.
\<close>

definition side_step :: "path \<Rightarrow> path \<Rightarrow> bytes \<Rightarrow> world \<Rightarrow> world \<Rightarrow> bool" where
  "side_step tmp conf bs w w' \<longleftrightarrow>
     w_io w' = w_io w \<and> w_clock w' = w_clock w \<and>
     (\<forall>q. q \<noteq> tmp \<longrightarrow> q \<noteq> conf \<longrightarrow> w_entry w' q = w_entry w q) \<and>
     (\<forall>i. i < w_next w \<longrightarrow> w_entry w tmp \<noteq> Some i \<longrightarrow>
        w_data w' i = w_data w i \<and> w_disk w' i = w_disk w i \<and> w_lost w' i = w_lost w i) \<and>
     (w_entry w' conf = w_entry w conf \<or>
      (\<exists>j. w_entry w' conf = Some j \<and> w_data w' j = bs \<and> w_disk w' j = bs \<and> \<not> w_lost w' j)) \<and>
     (\<forall>q. q \<noteq> tmp \<longrightarrow> w_ddir w' q = w_ddir w q \<or> w_ddir w' q = w_entry w' q) \<and>
     (\<forall>q. fst q \<noteq> fst conf \<longrightarrow> w_ddir w' q = w_ddir w q) \<and> w_next w \<le> w_next w' \<and>
     ((\<forall>i. prefix (w_disk w i) (w_data w i)) \<longrightarrow> (\<forall>i. prefix (w_disk w' i) (w_data w' i)))"

lemma w_entry_fields [simp]:
  "w_entry (w\<lparr>w_io := a\<rparr>) = w_entry w" "w_entry (w\<lparr>w_tick := b\<rparr>) = w_entry w" "w_entry (w\<lparr>w_data := d\<rparr>) = w_entry w"
  "w_entry (w\<lparr>w_disk := d\<rparr>) = w_entry w" "w_entry (w\<lparr>w_lost := l\<rparr>) = w_entry w" "w_entry (w\<lparr>w_next := b\<rparr>) = w_entry w"
  "w_entry (w\<lparr>w_ddir := e\<rparr>) = w_entry w"
  by (rule w_entry_cong, simp)+

lemma io_tick_env [simp]: "w_io (io_tick w) = w_io w" "w_clock (io_tick w) = w_clock w"
  by (simp_all add: io_tick_def)

lemma confirmed_tmp_apart:
  "confirmed_tmp_path c \<noteq> c" "fst (confirmed_tmp_path c) = fst c"
  by (simp_all add: confirmed_tmp_path_def prod_eq_iff ascii_def)

lemma read_sealed_at_idle:
  "read_sealed_at_nanos p w = (x, w') \<Longrightarrow> \<exists>n. w' = w\<lparr>w_tick := n\<rparr>"
  by (auto simp: read_sealed_at_nanos_def io_tick_def split: prod.splits sum.splits if_splits
      dest!: fs_open_effect fs_metadata_len_effect fs_seek_effect)

lemma fs_create_effect:
  assumes "fs_create p w = (x, w')"
  shows "x = Err k \<Longrightarrow> w' = io_tick w"
    and "x = Ok f \<Longrightarrow> w_entry w p = Some f \<or> w_entry w p = None \<and> f = w_next w"
    and "x = Ok f \<Longrightarrow> w_entry w' q = (if q = p then Some f else w_entry w q)"
    and "x = Ok f \<Longrightarrow> w_data w' = (w_data w)(f := []) \<and> w_disk w' = (w_disk w)(f := []) \<and>
       w_lost w' = (w_lost w)(f := False) \<and> w_ddir w' = w_ddir w \<and> w_io w' = w_io w \<and> w_clock w' = w_clock w \<and>
       w_next w \<le> w_next w'"
  using assms
  by (auto simp: fs_create_def io_step_tick io_tick_def w_entry_def update_conv' split: io_outcome.splits option.splits)

lemma write_tmp_then_rename_effect:
  assumes run: "write_tmp_then_rename conf tmp bs w = (x, w')" and tc: "tmp \<noteq> conf" and priv: "tmp_private tmp w"
  shows "side_step tmp conf bs w w' \<and>
    (x = Ok () \<longrightarrow> (\<exists>j. w_entry w' conf = Some j \<and> w_ddir w' conf = Some j \<and> w_data w' j = bs \<and> w_disk w' j = bs))"
proof -
  obtain y1 w1 where s1: "fs_create tmp w = (y1, w1)" by fastforce
  show ?thesis
  proof (cases y1)
    case (Inl k)
    then have "w' = io_tick w" "x = Err k" using run s1 fs_create_effect(1) [OF s1] by (auto simp: write_tmp_then_rename_def)
    then show ?thesis by (auto simp: side_step_def)
  next
    case y1: (Inr f)
    note c = fs_create_effect(2-4) [OF s1 y1]
    have own: "w_entry w tmp = Some i \<or> i \<ge> w_next w" if "i = f" for i using c(1) that by auto
    obtain y2 w2 where s2: "fs_write_all f bs w1 = (y2, w2)" by fastforce
    obtain y3 w3 where s3: "fs_sync_data f w2 = (y3, w3)" by fastforce
    obtain y4 w4 where s4: "fs_rename tmp conf w3 = (y4, w4)" by fastforce
    obtain y5 w5 where s5: "fs_sync_dir (fst conf) w4 = (y5, w5)" by fastforce
    obtain n where w2: "w2 = w_append f (take n bs) (io_tick w1)" and n: "y2 = Ok () \<Longrightarrow> take n bs = bs"
      using fs_write_all_effect [OF s2] by auto
    have e2: "w_entry w2 = w_entry w1" by (rule w_entry_cong) (simp add: w2 w_append_def)
    have d2: "w_data w2 = (w_data w)(f := take n bs)" "w_disk w2 = (w_disk w)(f := [])"
      "w_lost w2 = (w_lost w)(f := False)" "w_ddir w2 = w_ddir w" "w_io w2 = w_io w" "w_clock w2 = w_clock w"
      "w_next w \<le> w_next w2"
      using c(3) by (simp_all add: w2 w_append_def io_tick_def)
    have "w_dir w3 = w_dir w2" using fs_sync_data_effect [OF s3] by auto
    then have e3: "w_entry w3 = w_entry w1" using w_entry_cong e2 by metis
    have d3: "w_data w3 = w_data w2" "w_ddir w3 = w_ddir w" "w_io w3 = w_io w" "w_clock w3 = w_clock w"
      "i \<noteq> f \<Longrightarrow> w_disk w3 i = w_disk w i \<and> w_lost w3 i = w_lost w i"
      "y3 = Ok () \<Longrightarrow> w_disk w3 f = w_data w2 f \<and> \<not> w_lost w3 f"
      "prefix (w_disk w3 f) (w_data w3 f)" "w_next w \<le> w_next w3" for i
      using fs_sync_data_effect [OF s3] d2 by (auto simp: io_tick_def)
    have e1: "w_entry w1 q = (if q = tmp then Some f else w_entry w q)" for q by (rule c(2))
    have st: "side_step tmp conf bs w v"
      if "\<And>q. w_entry v q = w_entry w1 q" and o: "\<And>i. i \<noteq> f \<Longrightarrow> w_data v i = w_data w i \<and> w_disk v i = w_disk w i \<and> w_lost v i = w_lost w i"
        and "w_ddir v = w_ddir w" "w_io v = w_io w" "w_clock v = w_clock w" "w_next w \<le> w_next v"
        and p: "prefix (w_disk v f) (w_data v f)" for v
    proof -
      have "prefix (w_disk v i) (w_data v i)" if "\<forall>i. prefix (w_disk w i) (w_data w i)" for i
        using that p o [of i] by (cases "i = f") simp_all
      then show ?thesis using that own tc unfolding side_step_def e1 by (auto simp: not_less)
    qed
    show ?thesis
    proof (cases "y2 = Ok () \<and> y3 = Ok () \<and> y4 = Ok ()")
      case False
      then have "(w' = w2 \<or> w' = w3 \<or> w' = w4 \<and> y4 \<noteq> Ok ()) \<and> x \<noteq> Ok ()"
        using run s1 y1 s2 s3 s4 by (auto simp: write_tmp_then_rename_def split: sum.splits)
      moreover have "side_step tmp conf bs w w2" "side_step tmp conf bs w w3"
        using d2 d3 e2 e3 by (auto intro!: st)
      moreover have "side_step tmp conf bs w w4" if "y4 \<noteq> Ok ()"
      proof -
        have "w4 = io_tick w3" using fs_rename_effect [OF s4] that by auto
        then show ?thesis using d2 d3 e3 by (intro st) simp_all
      qed
      ultimately show ?thesis by auto
    next
      case True
      have w4: "w4 = (io_tick w3)\<lparr>w_dir := AList.update conf f (AList.delete tmp (w_dir w3))\<rparr>"
        using fs_rename_effect [OF s4] True e3 e1 by auto
      have e4: "w_entry w4 q = (if q = conf then Some f else if q = tmp then None else w_entry w q)" for q
        by (simp add: w4 e3 e1)
      have f4: "w_data w4 f = bs" "w_disk w4 f = bs" "\<not> w_lost w4 f" using True n d2 d3(1,6) by (simp_all add: w4)
      have o4: "w_data w4 i = w_data w i" "w_disk w4 i = w_disk w i" "w_lost w4 i = w_lost w i" if "i \<noteq> f" for i
        using d2 d3(1,5) that by (simp_all add: w4)
      have r4: "w_ddir w4 = w_ddir w" "w_io w4 = w_io w" "w_clock w4 = w_clock w" "w_next w \<le> w_next w4" using d3 by (simp_all add: w4)
      have p4: "prefix (w_disk w4 i) (w_data w4 i)" if "\<forall>i. prefix (w_disk w i) (w_data w i)" for i
        using that f4 o4 [of i] by (cases "i = f") simp_all
      have s4': "side_step tmp conf bs w w4"
        using own tc f4 o4 r4 p4 unfolding side_step_def e4 by (auto simp: not_less)
      have w': "w' = w5" "x = y5" using run s1 y1 s2 s3 s4 s5 True by (auto simp: write_tmp_then_rename_def)
      from fs_sync_dir_effect [OF s5] show ?thesis
      proof (elim disjE conjE)
        assume "y5 \<noteq> Ok ()" "w5 = io_tick w4"
        then show ?thesis using s4' w' by (auto simp: side_step_def)
      next
        assume y5: "y5 = Ok ()"
          and w5: "w5 = (io_tick w4)\<lparr>w_ddir := \<lambda>q. if fst q = fst conf then w_entry w4 q else w_ddir w4 q\<rparr>"
        have e5: "w_entry w5 = w_entry w4" by (rule w_entry_cong) (simp add: w5)
        have "side_step tmp conf bs w w5"
          using s4' r4 unfolding side_step_def e5 by (simp add: w5)
        then show ?thesis using w' y5 f4 by (auto simp: e5 e4) (simp_all add: w5 e4)
      qed
    qed
  qed
qed

lemma side_step_idle: "side_step tmp conf bs (w\<lparr>w_tick := n\<rparr>) w' = side_step tmp conf bs w w'"
proof -
  have "w_entry (w\<lparr>w_tick := n\<rparr>) = w_entry w" by (rule w_entry_cong) simp
  then show ?thesis by (simp add: side_step_def)
qed

lemma side_step_remove_tmp:
  assumes "side_step tmp conf bs w v" "fs_remove_file tmp v = (x, v')" "tmp \<noteq> conf"
  shows "side_step tmp conf bs w v'"
  using fs_remove_file_effect [OF assms(2)]
proof (elim disjE conjE)
  assume "v' = io_tick v" then show ?thesis using assms(1) by (simp add: side_step_def)
next
  assume v': "v' = (io_tick v)\<lparr>w_dir := AList.delete tmp (w_dir v)\<rparr>"
  have e: "w_entry v' q = (if q = tmp then None else w_entry v q)" for q by (simp add: v')
  show ?thesis using assms(1,3) unfolding side_step_def e by (simp add: v')
qed

text \<open>A valid sidecar of \<open>p\<close> that states \<open>n\<close> records, on stable storage under its final name.\<close>

definition durable_sidecar :: "(bytes \<Rightarrow> u32) \<Rightarrow> path \<Rightarrow> u64 \<Rightarrow> world \<Rightarrow> bool" where
  "durable_sidecar crc p n w \<longleftrightarrow> (\<exists>j c. w_entry w (confirmed_path p) = Some j \<and> w_ddir w (confirmed_path p) = Some j \<and>
     w_disk w j = w_data w j \<and> parse_confirmed crc (w_data w j) = Ok c \<and> cm_record_count c = n)"

text \<open>Every file that stands, or stood durably, under the final name \<open>c\<close> is a whole sidecar.\<close>

definition sidecar_whole :: "(bytes \<Rightarrow> u32) \<Rightarrow> path \<Rightarrow> world \<Rightarrow> bool" where
  "sidecar_whole crc c w \<longleftrightarrow> (\<forall>j. w_entry w c = Some j \<or> w_ddir w c = Some j \<longrightarrow>
     w_disk w j = w_data w j \<and> valid_sidecar crc (w_data w j))"

lemma write_confirmed_file_effect:
  assumes run: "write_confirmed_file crc p n w = (x, w')" and priv: "tmp_private (confirmed_tmp_path (confirmed_path p)) w"
  shows "\<exists>s d. side_step (confirmed_tmp_path (confirmed_path p)) (confirmed_path p) (build_confirmed crc s n d) w w'"
    and "x = Ok () \<Longrightarrow> durable_sidecar crc p n w'"
proof -
  let ?c = "confirmed_path p" and ?t = "confirmed_tmp_path (confirmed_path p)"
  obtain y v where rd: "read_sealed_at_nanos p w = (y, v)" by fastforce
  obtain k where v: "v = w\<lparr>w_tick := k\<rparr>" using read_sealed_at_idle [OF rd] by blast
  define b where "b = build_confirmed crc (case y of Inr t \<Rightarrow> t | Inl _ \<Rightarrow> 0) n (unix_nanos_now v)"
  obtain z u where wr: "write_tmp_then_rename ?c ?t b v = (z, u)" by fastforce
  obtain y2 u2 where rm: "fs_remove_file ?t u = (y2, u2)" by fastforce
  have x: "(x, w') = (case z of Inl k \<Rightarrow> (Err k, u2) | Inr _ \<Rightarrow> (Ok (), u))"
    using run rd wr rm by (auto simp: write_confirmed_file_def write_confirmed_durably_def b_def Let_def split: sum.splits)
  have e: "w_entry v = w_entry w" by (rule w_entry_cong) (simp add: v)
  have "tmp_private ?t v" using priv unfolding tmp_private_def e by (simp add: v)
  note wt = write_tmp_then_rename_effect [OF wr confirmed_tmp_apart(1) this]
  have st: "side_step ?t ?c b w u" using wt by (simp add: v side_step_idle)
  have "side_step ?t ?c b w w'" using st side_step_remove_tmp [OF st rm confirmed_tmp_apart(1)] x by (auto split: sum.splits)
  then show "\<exists>s d. side_step ?t ?c (build_confirmed crc s n d) w w'" unfolding b_def by blast
  assume "x = Ok ()"
  then have z: "z = Ok ()" "w' = u" using x by (auto split: sum.splits)
  obtain j where j: "w_entry u ?c = Some j" "w_ddir u ?c = Some j" "w_data u j = b" "w_disk u j = b" using wt z by blast
  show "durable_sidecar crc p n w'"
    unfolding durable_sidecar_def z(2)
    by (intro exI [of _ j] exI conjI, (simp_all add: j)[3], simp add: j b_def parse_build_confirmed) simp
qed

lemma delete_confirmed_effect:
  assumes "delete_confirmed_segment p w m = (out, w', m')"
  shows "(out = DeleteFailed \<and> w' = io_tick w \<or> out = ConfirmDone \<and> w' = (io_tick w)\<lparr>w_dir := AList.delete p (w_dir w)\<rparr>
      \<or> out = ConfirmDone \<and> w' = io_tick w)"
  using assms by (auto simp: delete_confirmed_segment_def split: prod.splits sum.splits if_splits dest!: fs_remove_file_effect)

lemma sidecar_apart:
  assumes "sealed_name p"
  shows "confirmed_path p \<noteq> p" "confirmed_tmp_path (confirmed_path p) \<noteq> p"
proof -
  show "confirmed_path p \<noteq> p" using confirmed_path_ext(1) [OF assms] name_kinds_apart(1) assms by metis
  have "ends_with (snd (confirmed_tmp_path (confirmed_path p))) EXT_CONFIRMED_TMP"
    using confirmed_path_ext(1) [OF assms]
    by (auto simp: confirmed_tmp_path_def EXT_CONFIRMED_TMP_def EXT_CONFIRMED_def ends_with_def suffix_def ascii_def)
  then show "confirmed_tmp_path (confirmed_path p) \<noteq> p" using name_kinds_apart(3) assms by metis
qed

text \<open>The whole of \<open>confirm_and_delete\<close>: nothing, a sidecar that failed, or a sidecar and then the delete.\<close>

lemma confirm_cases:
  assumes run: "confirm_and_delete crc p n w m = (out, w', m')"
  obtains (absent) "out = ConfirmDone" "w' = io_tick w" "m' = m"
  | (failed) k where "out = SidecarFailed" "w_entry w p \<noteq> None" "write_confirmed_file crc p n (io_tick w) = (Err k, w')"
  | (written) v where "write_confirmed_file crc p n (io_tick w) = (Ok (), v)" "w_entry w p \<noteq> None"
      "delete_confirmed_segment p v (m\<lparr>dm_confirmed := dm_confirmed m + 1\<rparr>) = (out, w', m')"
proof -
  obtain b w1 where s: "fs_exists p w = (b, w1)" by fastforce
  have w1: "w1 = io_tick w" and b: "b \<longrightarrow> w_entry w p \<noteq> None" using fs_exists_effect [OF s] by auto
  obtain y v where wr: "write_confirmed_file crc p n w1 = (y, v)" by fastforce
  show thesis
  proof (cases b)
    case False
    then show ?thesis using run s w1 absent by (simp add: confirm_and_delete_def)
  next
    case True
    then show ?thesis using run s wr b failed written unfolding w1
      by (cases y) (auto simp: confirm_and_delete_def)
  qed
qed

lemma tmp_private_tick [simp]: "tmp_private t (io_tick w) = tmp_private t w"
  by (simp add: tmp_private_def)

lemma side_step_tick [simp]: "side_step t c b (io_tick w) w' = side_step t c b w w'"
  by (simp add: side_step_def)

lemma side_step_whole:
  assumes st: "side_step (confirmed_tmp_path c) c (build_confirmed crc s n d) w w'" and priv: "tmp_private (confirmed_tmp_path c) w"
    and wh: "sidecar_whole crc c w"
  shows "sidecar_whole crc c w'"
proof -
  have old: "w_disk w' j = w_data w' j \<and> valid_sidecar crc (w_data w' j)" if "w_entry w c = Some j \<or> w_ddir w c = Some j" for j
  proof -
    have "w_entry w (confirmed_tmp_path c) \<noteq> Some j" "j < w_next w"
      using that priv confirmed_tmp_apart(1) unfolding tmp_private_def by metis+
    then have "w_data w' j = w_data w j \<and> w_disk w' j = w_disk w j" using st unfolding side_step_def by blast
    then show ?thesis using wh that unfolding sidecar_whole_def by auto
  qed
  have ent: "w_disk w' j = w_data w' j \<and> valid_sidecar crc (w_data w' j)" if "w_entry w' c = Some j" for j
  proof -
    have "w_entry w' c = w_entry w c \<or> (\<exists>j. w_entry w' c = Some j \<and> w_data w' j = build_confirmed crc s n d \<and> w_disk w' j = build_confirmed crc s n d)"
      using st unfolding side_step_def by blast
    then show ?thesis using that old by (auto simp: valid_sidecar_def parse_build_confirmed)
  qed
  have "w_ddir w' c = w_ddir w c \<or> w_ddir w' c = w_entry w' c"
    using st confirmed_tmp_apart(1) [of c] unfolding side_step_def by metis
  then show ?thesis using old ent unfolding sidecar_whole_def by auto
qed

section \<open>Properties\<close>

lemma confirm_effect:
  assumes run: "confirm_and_delete crc p n w m = (out, w', m')" and p: "sealed_name p" "w_entry w p = Some i"
    and priv: "tmp_private (confirmed_tmp_path (confirmed_path p)) w"
  shows "w_data w' i = w_data w i \<and> w_disk w' i = w_disk w i \<and>
    (w_entry w' p = None \<longrightarrow> out = ConfirmDone \<and> durable_sidecar crc p n w') \<and>
    (out = DeleteFailed \<longrightarrow> w_entry w' p = Some i \<and> durable_sidecar crc p n w') \<and>
    (out = SidecarFailed \<longrightarrow> w_entry w' p = Some i)"
proof -
  let ?c = "confirmed_path p" and ?t = "confirmed_tmp_path (confirmed_path p)"
  have i: "i < w_next w" "w_entry w ?t \<noteq> Some i"
    using p priv sidecar_apart(2) [OF p(1)] unfolding tmp_private_def by metis+
  have keep: "w_data v i = w_data w i \<and> w_disk v i = w_disk w i \<and> w_entry v p = Some i"
    if wr: "write_confirmed_file crc p n (io_tick w) = (y, v)" for y v
  proof -
    obtain s d where "side_step ?t ?c (build_confirmed crc s n d) w v"
      using write_confirmed_file_effect(1) [OF wr] priv by auto
    then show ?thesis using i p(2) sidecar_apart [OF p(1)] unfolding side_step_def by metis
  qed
  from run show ?thesis
  proof (cases rule: confirm_cases)
    case absent
    then show ?thesis using p(2) by simp
  next
    case failed
    then show ?thesis using keep by simp
  next
    case (written v)
    have d: "durable_sidecar crc p n v" by (rule write_confirmed_file_effect(2) [OF written(1)]) (use priv in simp_all)
    have "durable_sidecar crc p n (io_tick v)" "durable_sidecar crc p n ((io_tick v)\<lparr>w_dir := AList.delete p (w_dir v)\<rparr>)"
      using d sidecar_apart(1) [OF p(1)] by (simp_all add: durable_sidecar_def)
    then show ?thesis using delete_confirmed_effect [OF written(3)] keep [OF written(1)] by auto
  qed
qed

text \<open>
  C18: a segment is deleted only behind a durable sidecar.  From a segment with a file, whatever
  fails in between, \<open>confirm_and_delete\<close> leaves the contents of the file alone; if the segment's
  name is gone afterwards the outcome is \<open>Done\<close>, and a valid sidecar that states the given record
  count is on stable storage under its final name, as is its directory entry; the same sidecar is
  there on \<open>DeleteFailed\<close>; and on \<open>DeleteFailed\<close> and \<open>SidecarFailed\<close> the segment still has its
  file.
\<close>

theorem confirm_deletes_behind_sidecar:
  assumes run: "confirm_and_delete crc p n w m = (out, w', m')" and p: "sealed_name p" "w_entry w p = Some i"
    and priv: "tmp_private (confirmed_tmp_path (confirmed_path p)) w"
  shows "w_data w' i = w_data w i \<and> w_disk w' i = w_disk w i \<and>
    (w_entry w' p = None \<longrightarrow> out = ConfirmDone \<and> durable_sidecar crc p n w') \<and>
    (out = DeleteFailed \<longrightarrow> w_entry w' p = Some i \<and> durable_sidecar crc p n w') \<and>
    (out = SidecarFailed \<longrightarrow> w_entry w' p = Some i)"
  by (rule confirm_effect [OF assms])

lemma replay_world_private:
  "tmp_private (confirmed_tmp_path (confirmed_path sealed_sample)) (replay_world None)"
  using sidecar_apart [OF sealed_sample_simps(1)]
  by (simp add: tmp_private_def) (simp add: replay_world_def crashed_world_def quiet_world_def)

definition no_drain_metrics :: drain_metrics where
  "no_drain_metrics = \<lparr>dm_confirmed = 0, dm_sidecar_failures = 0, dm_delete_failures = 0, dm_quarantined = 0,
     dm_quarantine_failures = 0, dm_committed = 0, dm_retried = 0, dm_dead_lettered = 0, dm_dl_write_failures = 0,
     dm_dl_bytes_on_disk = 0, dm_dead_letter_full = 0\<rparr>"

text \<open>On a fault-free disk the confirm completes.\<close>

lemma quiet_write_confirmed:
  assumes "\<forall>k. w_io w k = IoDone"
  shows "\<exists>w'. write_confirmed_file crc p n w = (Ok (), w') \<and> (\<forall>k. w_io w' k = IoDone)"
proof -
  let ?c = "confirmed_path p" and ?t = "confirmed_tmp_path (confirmed_path p)"
  obtain y v where rd: "read_sealed_at_nanos p w = (y, v)" by fastforce
  have v: "\<forall>k. w_io v k = IoDone" using read_sealed_at_idle [OF rd] assms by auto
  have "\<exists>u. write_tmp_then_rename ?c ?t b v = (Ok (), u) \<and> (\<forall>k. w_io u k = IoDone)" for b
  proof -
    obtain f u1 where 1: "fs_create ?t v = (Ok f, u1)"
      using v by (cases "w_entry v ?t") (simp_all add: fs_create_def io_step_tick)
    have i1: "w_io u1 = w_io v" "w_entry u1 ?t = Some f" using fs_create_effect(3,4) [OF 1] by auto
    obtain u2 where 2: "fs_write_all f b u1 = (Ok (), u2)" using v i1 by (simp add: fs_write_all_def io_step_tick)
    have i2: "w_io u2 = w_io v" "w_entry u2 ?t = Some f"
      using fs_write_all_effect [OF 2] i1 by (auto simp: w_append_def w_entry_def)
    obtain u3 where 3: "fs_sync_data f u2 = (Ok (), u3)" using v i2 by (simp add: fs_sync_data_def io_step_tick)
    have i3: "w_io u3 = w_io v" "w_entry u3 ?t = Some f"
      using fs_sync_data_effect [OF 3] i2 by (auto simp: w_entry_def)
    obtain u4 where 4: "fs_rename ?t ?c u3 = (Ok (), u4)" using v i3 by (simp add: fs_rename_def io_step_tick)
    have i4: "w_io u4 = w_io v" using fs_rename_effect [OF 4] i3 by auto
    show ?thesis using 1 2 3 4 i4 v by (simp add: write_tmp_then_rename_def fs_sync_dir_def io_step_tick)
  qed
  then obtain u where "write_tmp_then_rename ?c ?t (build_confirmed crc (case y of Inr t \<Rightarrow> t | Inl _ \<Rightarrow> 0) n (unix_nanos_now v)) v = (Ok (), u)"
    "\<forall>k. w_io u k = IoDone" by blast
  then show ?thesis using rd by (simp add: write_confirmed_file_def write_confirmed_durably_def Let_def)
qed

lemma quiet_confirm:
  assumes "\<forall>k. w_io w k = IoDone" "w_entry w p = Some i"
  shows "\<exists>w' m'. confirm_and_delete crc p n w m = (ConfirmDone, w', m') \<and> w_entry w' p = None"
proof -
  obtain v where wr: "write_confirmed_file crc p n (io_tick w) = (Ok (), v)" "\<forall>k. w_io v k = IoDone"
    using quiet_write_confirmed [of "io_tick w" crc p n] assms(1) by auto
  obtain x u where rm: "fs_remove_file p v = (x, u)" by fastforce
  then have "(x = Err NotFound \<and> w_entry u p = None) \<or> (x = Ok () \<and> w_entry u p = None)"
    using wr(2) by (auto simp: fs_remove_file_def io_step_tick split: if_splits)
  then show ?thesis using assms wr rm
    by (auto simp: confirm_and_delete_def fs_exists_def io_step_tick delete_confirmed_segment_def)
qed

theorem confirm_deletes_behind_sidecar_witness:
  "\<exists>w' m'. confirm_and_delete crc32_hash sealed_sample 2 (replay_world None) no_drain_metrics = (ConfirmDone, w', m') \<and>
     w_entry w' sealed_sample = None \<and> durable_sidecar crc32_hash sealed_sample 2 w'"
proof -
  obtain w' m' where run: "confirm_and_delete crc32_hash sealed_sample 2 (replay_world None) no_drain_metrics = (ConfirmDone, w', m')"
    and e: "w_entry w' sealed_sample = None"
    using quiet_confirm [of "replay_world None" sealed_sample 0 crc32_hash 2 no_drain_metrics] by auto
  from confirm_deletes_behind_sidecar [OF run sealed_sample_simps(1) _ replay_world_private, of 0] run e show ?thesis by simp
qed

text \<open>
  C19: the final name never stands for a torn sidecar.  If every file that stands under the
  sidecar's final name, now or after a crash, is a complete sidecar on stable storage, then the
  same holds after \<open>confirm_and_delete\<close>, whichever of its steps fail: a full disk or a crash in
  the middle of the write leaves at worst the temporary name.
\<close>

theorem sidecar_never_torn:
  assumes run: "confirm_and_delete crc p n w m = (out, w', m')" and p: "sealed_name p"
    and priv: "tmp_private (confirmed_tmp_path (confirmed_path p)) w" and wh: "sidecar_whole crc (confirmed_path p) w"
  shows "sidecar_whole crc (confirmed_path p) w'"
proof -
  have keep: "sidecar_whole crc (confirmed_path p) v" if wr: "write_confirmed_file crc p n (io_tick w) = (y, v)" for y v
  proof -
    obtain s d where "side_step (confirmed_tmp_path (confirmed_path p)) (confirmed_path p) (build_confirmed crc s n d) w v"
      using write_confirmed_file_effect(1) [OF wr] priv by auto
    then show ?thesis by (rule side_step_whole [OF _ priv wh])
  qed
  from run show ?thesis
  proof (cases rule: confirm_cases)
    case absent
    then show ?thesis using wh by (simp add: sidecar_whole_def)
  next
    case failed
    then show ?thesis using keep by simp
  next
    case (written v)
    then show ?thesis using delete_confirmed_effect [OF written(3)] keep [OF written(1)] sidecar_apart(1) [OF p]
      by (auto simp: sidecar_whole_def)
  qed
qed

theorem sidecar_never_torn_witness:
  "sidecar_whole crc32_hash (confirmed_path sealed_sample)
     (fst (snd (confirm_and_delete crc32_hash sealed_sample 2 ((replay_world None)\<lparr>w_io := \<lambda>k. if k < 5 then IoDone else IoFail StorageFull\<rparr>)
       no_drain_metrics)))"
proof -
  let ?w = "(replay_world None)\<lparr>w_io := \<lambda>k. if k < 5 then IoDone else IoFail StorageFull\<rparr>"
  obtain out w' m' where run: "confirm_and_delete crc32_hash sealed_sample 2 ?w no_drain_metrics = (out, w', m')" by (metis prod_cases3)
  have e: "w_entry ?w = w_entry (replay_world None)" by (rule w_entry_cong) simp
  have 1: "tmp_private (confirmed_tmp_path (confirmed_path sealed_sample)) ?w"
    using replay_world_private unfolding tmp_private_def e by simp
  have "w_ddir ?w (confirmed_path sealed_sample) = None"
    using sidecar_apart(1) [OF sealed_sample_simps(1)] by (simp add: replay_world_def crashed_world_def)
  then have 2: "sidecar_whole crc32_hash (confirmed_path sealed_sample) ?w"
    using sidecar_apart(1) [OF sealed_sample_simps(1)] unfolding sidecar_whole_def e by simp
  show ?thesis using sidecar_never_torn [OF run sealed_sample_simps(1) 1 2] run by simp
qed

text \<open>
  C20: a delivered segment that could not be deleted is not delivered again unless the disk fails.
  After \<open>DeleteFailed\<close>, take any later state \<open>u\<close> in which the sidecar is still there with its
  contents, whatever else has happened.  A scan from \<open>u\<close>, however it is configured, queues the
  segment only when a disk call failed during that scan: the code then does not know whether the
  sidecar is valid and chooses to deliver again.
\<close>

theorem confirmed_not_requeued:
  assumes run: "confirm_and_delete crc p n w m = (DeleteFailed, w', m')" and p: "sealed_name p" "w_entry w p = Some i"
    and priv: "tmp_private (confirmed_tmp_path (confirmed_path p)) w" and dir: "fst p \<noteq> quarantine_dir wab"
    and u: "w_entry u (confirmed_path p) = w_entry w' (confirmed_path p)"
      "\<forall>j. w_entry w' (confirmed_path p) = Some j \<longrightarrow> w_data u j = w_data w' j"
    and scan: "scan_unconfirmed_sealed crc wab listing sc exclude cleanup u rm = (Ok found, v, rm')"
  shows "p \<notin> set (ss_segments found) \<or> (\<exists>t. w_tick u \<le> t \<and> t < w_tick v \<and> w_io u t \<noteq> IoDone)"
proof -
  have d: "durable_sidecar crc p n w'" using confirm_effect [OF run p priv] by simp
  then obtain j c where j: "w_entry w' (confirmed_path p) = Some j" "parse_confirmed crc (w_data w' j) = Ok c"
    unfolding durable_sidecar_def by blast
  have "valid_sidecar crc (w_data u j)" "w_entry u (confirmed_path p) = Some j" using j u by (simp_all add: valid_sidecar_def)
  then show ?thesis using scan_unconfirmed_requeue [OF scan _ p(1) dir] unfolding fault_between_def by blast
qed

theorem confirmed_not_requeued_witness:
  "\<exists>w' m' found v rm'. confirm_and_delete crc32_hash sealed_sample 2
       ((replay_world None)\<lparr>w_io := \<lambda>k. if k < 9 then IoDone else IoFail (OtherIo 5)\<rparr>) no_drain_metrics = (DeleteFailed, w', m') \<and>
     scan_unconfirmed_sealed crc32_hash (ascii ''w'') (Ok [(ascii ''shard_00'', True)]) (Some 1) (\<lambda>_. False) True (w'\<lparr>w_io := \<lambda>_. IoDone\<rparr>) no_metrics =
       (Ok found, v, rm') \<and> sealed_sample \<notin> set (ss_segments found)"
proof -
  let ?w = "(replay_world None)\<lparr>w_io := \<lambda>k. if k < 9 then IoDone else IoFail (OtherIo 5)\<rparr>"
  let ?s = sealed_sample and ?c = "confirmed_path sealed_sample" and ?t = "confirmed_tmp_path (confirmed_path sealed_sample)"
  have e: "w_entry ?w = w_entry (replay_world None)" by (rule w_entry_cong) simp
  have 1: "tmp_private ?t ?w" using replay_world_private unfolding tmp_private_def e by simp
  have 2: "w_entry ?w ?s = Some 0" by (simp add: e)
  have a: "?c \<noteq> ?s" "?t \<noteq> ?s" "?t \<noteq> ?c" "?s \<noteq> ?c" "?s \<noteq> ?t" "?c \<noteq> ?t"
    using sidecar_apart [OF sealed_sample_simps(1)] confirmed_tmp_apart(1) [of ?c] by simp_all
  have m: "map_of (w_dir (replay_world None)) q = (if q = ?s then Some 0 else None)" for q
    by (simp add: w_entry_def [symmetric])
  have "length sample_prefix = 43" by (simp add: sample_prefix_def sample_records_def)
  then have "\<exists>w' m'. confirm_and_delete crc32_hash ?s 2 ?w no_drain_metrics = (DeleteFailed, w', m')"
    using a by (simp add: confirm_and_delete_def fs_exists_def write_confirmed_file_def read_sealed_at_nanos_def fs_open_def
      fs_metadata_len_def fs_seek_def write_confirmed_durably_def write_tmp_then_rename_def fs_create_def fs_write_all_def
      fs_sync_data_def fs_rename_def fs_sync_dir_def delete_confirmed_segment_def fs_remove_file_def io_step_def Let_def
      w_append_def SEGMENT_FOOTER_LEN_def read_exact_def w_entry_def update_conv' delete_conv' m)
  then obtain w' m' where run: "confirm_and_delete crc32_hash ?s 2 ?w no_drain_metrics = (DeleteFailed, w', m')" by blast
  let ?u = "w'\<lparr>w_io := \<lambda>_. IoDone\<rparr>"
  obtain found v rm' where scan: "scan_unconfirmed_sealed crc32_hash (ascii ''w'') (Ok [(ascii ''shard_00'', True)]) (Some 1) (\<lambda>_. False)
      True ?u no_metrics = (Ok found, v, rm')"
    using scan_one_shard(2) [of ?u crc32_hash "ascii ''w''" True no_metrics] by auto
  have "w_entry ?u ?c = w_entry w' ?c" by (simp add: w_entry_def)
  then have "?s \<notin> set (ss_segments found)"
    using confirmed_not_requeued [OF run sealed_sample_simps(1) 2 1 sealed_sample_simps(5) _ _ scan] by simp
  then show ?thesis using run scan by blast
qed

text \<open>
  C26: an unreadable directory is taken for a finished confirm.  When the existence check itself
  fails, \<open>confirm_and_delete\<close> reports \<open>Done\<close> and counts no failure, but nothing has been written
  and nothing deleted: the segment keeps its file and gets no sidecar.
\<close>

theorem confirm_done_on_stat_failure:
  assumes "w_io w (w_tick w) = IoFail k" "w_entry w p = Some i" "w_entry w (confirmed_path p) = None"
  shows "\<exists>w'. confirm_and_delete crc p n w m = (ConfirmDone, w', m) \<and> w_entry w' p = Some i \<and>
    w_entry w' (confirmed_path p) = None \<and> w_data w' = w_data w"
  using assms by (simp add: confirm_and_delete_def fs_exists_def io_step_tick)

theorem confirm_done_on_stat_failure_witness:
  "\<exists>w'. confirm_and_delete crc32_hash sealed_sample 2 ((replay_world None)\<lparr>w_io := \<lambda>_. IoFail (OtherIo 5)\<rparr>) no_drain_metrics =
       (ConfirmDone, w', no_drain_metrics) \<and> w_entry w' sealed_sample = Some 0"
proof -
  let ?w = "(replay_world None)\<lparr>w_io := \<lambda>_. IoFail (OtherIo 5)\<rparr>"
  have e: "w_entry ?w = w_entry (replay_world None)" by (rule w_entry_cong) simp
  have 1: "w_entry ?w sealed_sample = Some 0" "w_entry ?w (confirmed_path sealed_sample) = None"
    using sidecar_apart(1) [OF sealed_sample_simps(1)] by (simp_all add: e)
  have 2: "w_io ?w (w_tick ?w) = IoFail (OtherIo 5)" by simp
  obtain w' where "confirm_and_delete crc32_hash sealed_sample 2 ?w no_drain_metrics = (ConfirmDone, w', no_drain_metrics)"
    "w_entry w' sealed_sample = Some 0"
    using confirm_done_on_stat_failure [OF 2 1, of crc32_hash 2 no_drain_metrics] by (elim exE conjE)
  then show ?thesis by (intro exI conjI)
qed

end
