(* ===== verification/DeadLetter.thy ===== *)
theory DeadLetter
  imports Confirm RecoveryReader
begin

text \<open>
  The dead-letter writer, \<open>weir-server/src/drain/dead_letter.rs\<close>: records the sink rejects for
  good are sealed into segments \<open>dl_NNNNNNNN.wab.sealed\<close> of \<open><wab_dir>/dead_letter/\<close>, and the
  bytes of that directory are counted against a cap.  A directory is a name in the model; that
  \<open>dead_letter/\<close> itself is missing is an outcome \<open>IoFail NotFound\<close> of the calls on it.  The
  counter and the byte total are naturals, the total saturating at \<open>u64::MAX\<close> as in the source;
  the counter of the source is a \<open>u64\<close> that would wrap after \<open>2 ^ 64\<close> files, and here it does not.
  The fsync of \<open>wab_dir\<close> that makes the name \<open>dead_letter/\<close> durable is a call that can fail, but
  the name itself is not part of \<open>stable_records\<close>: what is shown of dead letters assumes that the
  directory survives.

  Main results: when \<open>write_records\<close> succeeds the records are on stable storage in a segment that
  did not exist before, and no dead letter written earlier is touched, whatever fails; the
  estimate used for the cap is exactly the size of the sealed file; and \<open>open\<close> reserves counters
  above every name in use.
\<close>

declare split_paired_All [simp del] split_paired_Ex [simp del]

definition estimated_segment_bytes :: "bytes list \<Rightarrow> nat" where
  "estimated_segment_bytes records =
     (let body = sum_list (map (\<lambda>p. 8 + length p) records) in
      SEGMENT_HEADER_LEN + body + length SENTINEL + SEGMENT_FOOTER_LEN)"

record dead_letter_writer =
  dl_wab_dir :: bytes
  dl_next_counter :: nat
  dl_total_bytes :: nat
  dl_dir_entry_durable :: bool

definition dead_letter_dir :: "bytes \<Rightarrow> bytes" where
  "dead_letter_dir wab_dir = wab_dir @ ascii ''/dead_letter''"

abbreviation dl_dir :: "dead_letter_writer \<Rightarrow> bytes" where
  "dl_dir D \<equiv> dead_letter_dir (dl_wab_dir D)"

definition dl_path :: "bytes \<Rightarrow> nat \<Rightarrow> path" where
  "dl_path dir counter = (dir, ascii ''dl_'' @ dec_pad 8 counter @ EXT_ACTIVE)"

section \<open>Scanning the directory\<close>

text \<open>\<open>DirEntry::metadata\<close> and \<open>fs::metadata\<close>, of which only the length is used.\<close>

definition fs_stat_len :: "path \<Rightarrow> world \<Rightarrow> (io_kind + nat) \<times> world" where
  "fs_stat_len p w =
     (case io_step w of
        (IoFail k, w) \<Rightarrow> (Err k, w)
      | (_, w) \<Rightarrow> (case w_entry w p of None \<Rightarrow> (Err NotFound, w) | Some i \<Rightarrow> (Ok (length (w_data w i)), w)))"

definition dl_counter :: "bytes \<Rightarrow> nat option" where
  "dl_counter name =
     (case strip_prefix (ascii ''dl_'') name of
        None \<Rightarrow> None
      | Some after_prefix \<Rightarrow> parse_usize (takeWhile (\<lambda>c. c \<noteq> 0x2E) after_prefix))"

fun scan_entries :: "path list \<Rightarrow> nat \<Rightarrow> nat \<Rightarrow> world \<Rightarrow> (io_kind + nat \<times> nat) \<times> world" where
  "scan_entries [] total_bytes max_counter w = (Ok (total_bytes, max_counter), w)"
| "scan_entries (p # ps) total_bytes max_counter w =
     (if prefix (ascii ''dl_'') (snd p)
      then case fs_stat_len p w of
             (Inl k, w) \<Rightarrow> (Err k, w)
           | (Inr len, w) \<Rightarrow>
               scan_entries ps (u64_saturating_add total_bytes len)
                 (case dl_counter (snd p) of Some counter \<Rightarrow> max max_counter counter | None \<Rightarrow> max_counter) w
      else scan_entries ps total_bytes max_counter w)"

definition scan_dir :: "bytes \<Rightarrow> world \<Rightarrow> (io_kind + nat \<times> nat) \<times> world" where
  "scan_dir dir w =
     (case fs_read_dir dir w of
        (Inl k, w) \<Rightarrow> (Err k, w)
      | (Inr entries, w) \<Rightarrow> scan_entries entries 0 0 w)"

section \<open>The writer\<close>

definition dl_open :: "bytes \<Rightarrow> world \<Rightarrow> (io_kind + dead_letter_writer) \<times> world" where
  "dl_open wab_dir w =
     (case create_dir_private w of
        (Inl k, w) \<Rightarrow> (Err k, w)
      | (Inr _, w) \<Rightarrow>
      case scan_dir (dead_letter_dir wab_dir) w of
        (Inl k, w) \<Rightarrow> (Err k, w)
      | (Inr (total_bytes, max_counter), w) \<Rightarrow>
          (Ok \<lparr>dl_wab_dir = wab_dir, dl_next_counter = max_counter + 1, dl_total_bytes = total_bytes,
               dl_dir_entry_durable = False\<rparr>, w))"

text \<open>\<open>symlink_metadata\<close> of the directory itself.\<close>

definition dir_is_missing :: "world \<Rightarrow> bool \<times> world" where
  "dir_is_missing w = (case io_step w of (oc, w) \<Rightarrow> (oc = IoFail NotFound, w))"

definition dl_create_dir :: "dead_letter_writer \<Rightarrow> world \<Rightarrow> (io_kind + unit) \<times> dead_letter_writer \<times> world" where
  "dl_create_dir D w =
     (case create_dir_private w of (x, w) \<Rightarrow> (x, D\<lparr>dl_dir_entry_durable := False\<rparr>, w))"

definition make_dir_entry_durable :: "dead_letter_writer \<Rightarrow> world \<Rightarrow> (io_kind + unit) \<times> dead_letter_writer \<times> world" where
  "make_dir_entry_durable D w =
     (if dl_dir_entry_durable D then (Ok (), D, w)
      else case fs_sync_dir (dl_wab_dir D) w of
             (Inl k, w) \<Rightarrow> (Err k, D, w)
           | (Inr _, w) \<Rightarrow> (Ok (), D\<lparr>dl_dir_entry_durable := True\<rparr>, w))"

definition recreate_dir :: "dead_letter_writer \<Rightarrow> world \<Rightarrow> (io_kind + unit) \<times> dead_letter_writer \<times> world" where
  "recreate_dir D w =
     (case dl_create_dir D w of
        (Inl k, D, w) \<Rightarrow> (Err k, D, w)
      | (Inr _, D, w) \<Rightarrow> make_dir_entry_durable (D\<lparr>dl_total_bytes := 0\<rparr>) w)"

definition dl_rescan :: "dead_letter_writer \<Rightarrow> world \<Rightarrow> (io_kind + unit) \<times> dead_letter_writer \<times> world" where
  "dl_rescan D w =
     (case scan_dir (dl_dir D) w of
        (Inr (total_bytes, _), w) \<Rightarrow> (Ok (), D\<lparr>dl_total_bytes := total_bytes\<rparr>, w)
      | (Inl k, w) \<Rightarrow>
          if k = NotFound
          then case dir_is_missing w of (True, w) \<Rightarrow> recreate_dir D w | (False, w) \<Rightarrow> (Err k, D, w)
          else (Err k, D, w))"

definition would_exceed_cap :: "dead_letter_writer \<Rightarrow> nat \<Rightarrow> nat \<Rightarrow> bool" where
  "would_exceed_cap D additional_bytes cap \<longleftrightarrow> u64_saturating_add (dl_total_bytes D) additional_bytes > cap"

fun write_payloads ::
  "'h crc_ops \<Rightarrow> 'h wab_segment \<Rightarrow> bytes list \<Rightarrow> world \<Rightarrow> (io_kind + unit) \<times> 'h wab_segment \<times> world"
where
  "write_payloads C seg [] w = (Ok (), seg, w)"
| "write_payloads C seg (payload # records) w =
     (case ws_write_record C seg payload w of
        (Inl k, seg, w) \<Rightarrow> (Err k, seg, w)
      | (Inr _, seg, w) \<Rightarrow> write_payloads C seg records w)"

definition write_sealed ::
  "'h crc_ops \<Rightarrow> dead_letter_writer \<Rightarrow> bytes list \<Rightarrow> world \<Rightarrow> (io_kind + unit) \<times> dead_letter_writer \<times> world"
where
  "write_sealed C D records w =
     (let counter = dl_next_counter D; D = D\<lparr>dl_next_counter := counter + 1\<rparr>;
          active_path = dl_path (dl_dir D) counter in
      case ws_create C active_path 0xFFFF CompNone w of
        (Inl k, w) \<Rightarrow> (Err k, D, w)
      | (Inr seg, w) \<Rightarrow>
      case write_payloads C seg records w of
        (Inl k, seg, w) \<Rightarrow> (Err k, D, w)
      | (Inr _, seg, w) \<Rightarrow>
      case ws_seal C seg w of
        (Inl k, w) \<Rightarrow> (Err k, D, w)
      | (Inr sealed, w) \<Rightarrow>
      case fs_stat_len sealed w of
        (x, w) \<Rightarrow>
          let file_bytes = (case x of Inr n \<Rightarrow> n | Inl _ \<Rightarrow> estimated_segment_bytes records) in
          (Ok (), D\<lparr>dl_total_bytes := u64_saturating_add (dl_total_bytes D) file_bytes\<rparr>, w))"

definition write_records ::
  "'h crc_ops \<Rightarrow> dead_letter_writer \<Rightarrow> bytes list \<Rightarrow> world \<Rightarrow> (io_kind + unit) \<times> dead_letter_writer \<times> world"
where
  "write_records C D records w =
     (if records = [] then (Ok (), D, w)
      else case make_dir_entry_durable D w of
        (Inl k, D, w) \<Rightarrow> (Err k, D, w)
      | (Inr _, D, w) \<Rightarrow>
      case write_sealed C D records w of
        (Inr _, D, w) \<Rightarrow> (Ok (), D, w)
      | (Inl k, D, w) \<Rightarrow>
          if k \<noteq> NotFound then (Err k, D, w)
          else case (case dir_is_missing w of
                       (True, w) \<Rightarrow> recreate_dir D w
                     | (False, w) \<Rightarrow>
                        (case dl_create_dir D w of
                           (Inl k, D, w) \<Rightarrow> (Err k, D, w)
                         | (Inr _, D, w) \<Rightarrow> make_dir_entry_durable D w)) of
                 (Inl k, D, w) \<Rightarrow> (Err k, D, w)
               | (Inr _, D, w) \<Rightarrow> write_sealed C D records w)"

section \<open>One directory of the world\<close>

text \<open>
  \<open>within d w\<close> is \<open>w\<close> with the names of directory \<open>d\<close> only.  Every call on paths of \<open>d\<close> does
  the same on both, so what is proved of segments in a well-formed world (theory \<open>Segment\<close>) holds
  for one directory, whatever happens in the others.
\<close>

definition within :: "bytes \<Rightarrow> world \<Rightarrow> world" where
  "within d w = w\<lparr>w_dir := filter (\<lambda>e. fst (fst e) = d) (w_dir w), w_ddir := w_ddir w |` {p. fst p = d}\<rparr>"

lemma within_simps [simp]:
  "w_data (within d w) = w_data w" "w_disk (within d w) = w_disk w" "w_lost (within d w) = w_lost w"
  "w_next (within d w) = w_next w" "w_io (within d w) = w_io w" "w_clock (within d w) = w_clock w" "w_tick (within d w) = w_tick w"
  "unix_nanos_now (within d w) = unix_nanos_now w" "fst p = d \<Longrightarrow> w_ddir (within d w) p = w_ddir w p"
  by (simp_all add: within_def unix_nanos_now_def)

lemma map_of_filter_dir: "map_of (filter (\<lambda>e. fst (fst e) = d) xs) p = (if fst p = d then map_of xs p else None)"
  by (induction xs) auto

lemma w_entry_within: "w_entry (within d w) p = (if fst p = d then w_entry w p else None)"
  by (simp add: within_def w_entry_def map_of_filter_dir)

lemma within_tick: "within d (io_tick w) = io_tick (within d w)"
  by (simp add: within_def io_tick_def)

lemma update_filter:
  "P k \<Longrightarrow> AList.update k v (filter (\<lambda>e. P (fst e)) xs) = filter (\<lambda>e. P (fst e)) (AList.update k v xs)"
  by (induction xs) auto

lemma delete_filter: "AList.delete k (filter (\<lambda>e. P (fst e)) xs) = filter (\<lambda>e. P (fst e)) (AList.delete k xs)"
  by (induction xs) auto

lemma within_update: "fst p = d \<Longrightarrow> AList.update p i (w_dir (within d w)) = filter (\<lambda>e. fst (fst e) = d) (AList.update p i (w_dir w))"
  using update_filter [of "\<lambda>q. fst q = d"] by (simp add: within_def)

lemma within_create_new:
  "fst p = d \<Longrightarrow> fs_create_new p (within d w) = apsnd (within d) (fs_create_new p w)"
  by (simp add: fs_create_new_def io_step_tick w_entry_within within_tick [symmetric] split: io_outcome.split)
    (simp add: within_def io_tick_def update_filter [of "\<lambda>q. fst q = d"])

lemma within_write_all: "fs_write_all i bs (within d w) = apsnd (within d) (fs_write_all i bs w)"
  by (simp add: fs_write_all_def io_step_tick split: io_outcome.split) (simp add: within_def io_tick_def w_append_def)

lemma within_write_vectored: "fs_write_vectored i bs (within d w) = apsnd (within d) (fs_write_vectored i bs w)"
  by (simp add: fs_write_vectored_def io_step_tick split: io_outcome.split) (simp add: within_def io_tick_def w_append_def)

lemma within_sync_data: "fs_sync_data i (within d w) = apsnd (within d) (fs_sync_data i w)"
  by (simp add: fs_sync_data_def io_step_tick split: io_outcome.split) (simp add: within_def io_tick_def)

lemma within_sync_dir: "fs_sync_dir d (within d w) = apsnd (within d) (fs_sync_dir d w)"
proof -
  have "(\<lambda>p. if fst p = d then w_entry (within d w) p else w_ddir (within d w) p) =
      (\<lambda>p. if fst p = d then w_entry w p else w_ddir w p) |` {p. fst p = d}"
    by (rule ext) (simp add: w_entry_within restrict_map_def, simp add: within_def)
  then show ?thesis
    by (simp add: fs_sync_dir_def io_step_tick cong: if_cong split: io_outcome.split) (simp add: within_def io_tick_def)
qed

lemma within_try_exists: "fst p = d \<Longrightarrow> fs_try_exists p (within d w) = apsnd (within d) (fs_try_exists p w)"
  by (simp add: fs_try_exists_def io_step_tick w_entry_within within_tick split: io_outcome.split)

lemma within_stat_len: "fst p = d \<Longrightarrow> fs_stat_len p (within d w) = apsnd (within d) (fs_stat_len p w)"
  by (simp add: fs_stat_len_def io_step_tick w_entry_within within_tick split: io_outcome.split option.split)

lemma within_rename:
  "fst a = d \<Longrightarrow> fst b = d \<Longrightarrow> fs_rename a b (within d w) = apsnd (within d) (fs_rename a b w)"
  by (simp add: fs_rename_def io_step_tick w_entry_within within_tick [symmetric] split: io_outcome.split option.split)
    (simp add: within_def io_tick_def update_filter [of "\<lambda>q. fst q = d"] delete_filter [of _ "\<lambda>q. fst q = d"])

lemmas within_calls = within_create_new within_write_all within_write_vectored within_sync_data within_sync_dir
  within_try_exists within_stat_len within_rename

lemma within_create: "fst p = d \<Longrightarrow> ws_create C p sh c (within d w) = apsnd (within d) (ws_create C p sh c w)"
  by (simp add: ws_create_def within_calls Let_def apsnd_def map_prod_def split: prod.split sum.split)

lemma within_write_record:
  "ws_write_record C seg pl (within d w) = (case ws_write_record C seg pl w of (x, seg, w) \<Rightarrow> (x, seg, within d w))"
  by (simp add: ws_write_record_def within_calls Let_def apsnd_def map_prod_def split: prod.split sum.split option.split)

lemma within_write_payloads:
  "write_payloads C seg ps (within d w) = (case write_payloads C seg ps w of (x, seg, w) \<Rightarrow> (x, seg, within d w))"
  by (induction ps arbitrary: seg w) (auto simp: within_write_record split: prod.split sum.split)

lemma within_seal:
  assumes "fst (ws_path seg) = d" shows "ws_seal C seg (within d w) = apsnd (within d) (ws_seal C seg w)"
proof -
  have d: "fst (sealed_path_for (ws_path seg)) = d" using assms by (simp add: sealed_path_for_eq)
  have f: "ws_finalize_to_disk C seg (within d w) = apsnd (within d) (ws_finalize_to_disk C seg w)"
    by (simp add: ws_finalize_to_disk_def within_calls Let_def apsnd_def map_prod_def split: prod.split sum.split)
  then show ?thesis
  proof (cases "ws_finalize_to_disk C seg w")
    case (Pair x v)
    note fin = this
    show ?thesis
    proof (cases x)
      case (Inl k)
      then show ?thesis using fin f by (simp add: ws_seal_def)
    next
      case (Inr a)
      then have a: "a = ws_path seg"
        using fin by (auto simp: ws_finalize_to_disk_def Let_def split: prod.splits sum.splits)
      show ?thesis using fin f Inr assms d unfolding a ws_seal_def
        by (simp add: within_calls Let_def apsnd_def map_prod_def split: prod.split sum.split bool.split)
    qed
  qed
qed

section \<open>The dead letters on stable storage\<close>

text \<open>
  The invariant: the names of the dead-letter directory are those of a well-formed world, and no
  file has a counter that is still to be given out.
\<close>

definition dl_wf :: "dead_letter_writer \<Rightarrow> world \<Rightarrow> bool" where
  "dl_wf D w \<longleftrightarrow> world_wf (within (dl_dir D) w) \<and>
     (\<forall>n \<ge> dl_next_counter D. unused (dl_path (dl_dir D) n) (within (dl_dir D) w))"

text \<open>Names outside \<open>d\<close> and files that exist stay as they are.\<close>

definition only_adds :: "bytes \<Rightarrow> world \<Rightarrow> world \<Rightarrow> bool" where
  "only_adds d w w' \<longleftrightarrow> w_next w \<le> w_next w' \<and> w_io w' = w_io w \<and> w_clock w' = w_clock w \<and>
     (\<forall>q. fst q \<noteq> d \<longrightarrow> w_entry w' q = w_entry w q) \<and>
     (\<forall>q. fst q \<noteq> d \<longrightarrow> w_ddir w' q = w_ddir w q \<or> w_ddir w' q = w_entry w' q) \<and>
     (\<forall>i < w_next w. w_data w' i = w_data w i \<and> w_disk w' i = w_disk w i \<and> w_lost w' i = w_lost w i)"

lemma only_adds_refl [simp]: "only_adds d w w"
  by (simp add: only_adds_def)

lemma only_adds_step:
  assumes ab: "only_adds d a b" and n: "w_next b \<le> w_next c" "w_io c = w_io b" "w_clock c = w_clock b"
    and e: "\<And>q. fst q \<noteq> d \<Longrightarrow> w_entry c q = w_entry b q"
    and s: "\<And>q. fst q \<noteq> d \<Longrightarrow> w_ddir c q = w_ddir b q \<or> w_ddir c q = w_entry b q"
    and i: "\<And>i. i < w_next a \<Longrightarrow> w_data c i = w_data b i \<and> w_disk c i = w_disk b i \<and> w_lost c i = w_lost b i"
  shows "only_adds d a c"
  unfolding only_adds_def
proof (intro conjI allI impI)
  show "w_next a \<le> w_next c" "w_io c = w_io a" "w_clock c = w_clock a" using ab n by (auto simp: only_adds_def)
  fix q :: path assume q: "fst q \<noteq> d"
  have "w_entry b q = w_entry a q" "w_ddir b q = w_ddir a q \<or> w_ddir b q = w_entry b q"
    using ab q unfolding only_adds_def by blast+
  then show "w_entry c q = w_entry a q" "w_ddir c q = w_ddir a q \<or> w_ddir c q = w_entry c q"
    using e [OF q] s [OF q] by auto
next
  fix j assume "j < w_next a"
  then show "w_data c j = w_data a j" "w_disk c j = w_disk a j" "w_lost c j = w_lost a j"
    using ab i [of j] unfolding only_adds_def by auto
qed

lemma only_adds_trans: "only_adds d a b \<Longrightarrow> only_adds d b c \<Longrightarrow> only_adds d a c"
  by (rule only_adds_step, assumption) (auto simp: only_adds_def)

lemma only_adds_tick [simp]: "only_adds d w (io_tick w)"
  by (simp add: only_adds_def)

lemma only_adds_append: "w_next v \<le> i \<Longrightarrow> only_adds d v w \<Longrightarrow> only_adds d v (w_append i bs (io_tick w))"
  by (rule only_adds_step, assumption) (simp_all add: w_append_def)

lemma write_all_only_adds: "fs_write_all i bs w = (x, w') \<Longrightarrow> w_next v \<le> i \<Longrightarrow> only_adds d v w \<Longrightarrow> only_adds d v w'"
  by (auto dest!: fs_write_all_effect intro: only_adds_append)

lemma write_vectored_only_adds: "fs_write_vectored i bs w = (x, w') \<Longrightarrow> w_next v \<le> i \<Longrightarrow> only_adds d v w \<Longrightarrow> only_adds d v w'"
  by (auto dest!: fs_write_vectored_effect intro: only_adds_append)

lemma sync_data_only_adds: "fs_sync_data i w = (x, w') \<Longrightarrow> w_next v \<le> i \<Longrightarrow> only_adds d v w \<Longrightarrow> only_adds d v w'"
  by (drule fs_sync_data_effect, rule only_adds_step [where b = w], assumption) auto

lemma sync_dir_only_adds:
  assumes "fs_sync_dir e w = (x, w')" "only_adds d v w" shows "only_adds d v w'"
proof (rule only_adds_step [OF assms(2)])
  fix q show "w_ddir w' q = w_ddir w q \<or> w_ddir w' q = w_entry w q" using fs_sync_dir_effect [OF assms(1)] by auto
qed (use fs_sync_dir_effect [OF assms(1)] in auto)

lemma try_exists_only_adds: "fs_try_exists p w = (x, w') \<Longrightarrow> only_adds d v w \<Longrightarrow> only_adds d v w'"
  using only_adds_trans [OF _ only_adds_tick] fs_try_exists_effect by metis

lemma rename_only_adds:
  assumes "fs_rename a b w = (x, w')" "fst a = d" "fst b = d" "only_adds d v w"
  shows "only_adds d v w'"
proof (rule only_adds_step [OF assms(4)])
  fix q :: path assume "fst q \<noteq> d"
  then show "w_entry w' q = w_entry w q" using fs_rename_effect [OF assms(1)] assms(2,3) by auto
qed (use fs_rename_effect [OF assms(1)] in auto)

lemmas call_only_adds = write_all_only_adds write_vectored_only_adds sync_data_only_adds sync_dir_only_adds
  try_exists_only_adds rename_only_adds

lemma create_new_only_adds:
  assumes "fs_create_new p w = (x, w')" "fst p = d"
  shows "only_adds d w w'" "x = Ok i \<Longrightarrow> w_next w \<le> i"
proof -
  have e: "w_entry (v\<lparr>w_dir := AList.update p j (w_dir w)\<rparr>) q = (if q = p then Some j else w_entry w q)" for v j q
    by (simp add: w_entry_def update_conv')
  show "only_adds d w w'" "x = Ok i \<Longrightarrow> w_next w \<le> i" using assms
    by (auto simp: fs_create_new_def io_step_tick only_adds_def e split: io_outcome.splits if_splits)
qed

lemma create_only_adds:
  assumes "ws_create C p sh c w = (x, w')" "fst p = d"
  shows "only_adds d w w' \<and> (\<forall>seg. x = Ok seg \<longrightarrow> w_next w \<le> ws_file seg \<and> ws_path seg = p)"
proof -
  obtain y1 w1 where s1: "fs_create_new p w = (y1, w1)" by fastforce
  note c = create_new_only_adds [OF s1 assms(2)]
  show ?thesis
  proof (cases y1)
    case (Inl k)
    then show ?thesis using assms s1 c by (auto simp: ws_create_def)
  next
    case (Inr i)
    obtain y2 w2 where s2: "fs_write_all i (build_segment_header (unix_nanos_now w1) sh c) w1 = (y2, w2)" by fastforce
    obtain y3 w3 where s3: "fs_sync_dir (fst p) w2 = (y3, w3)" by fastforce
    have o2: "only_adds d w w2" by (rule write_all_only_adds [OF s2 c(2) [OF Inr] c(1)])
    have "only_adds d w w3" by (rule sync_dir_only_adds [OF s3 o2])
    then show ?thesis using assms s1 s2 s3 Inr o2 c by (auto simp: ws_create_def Let_def split: sum.splits)
  qed
qed

lemma write_record_only_adds:
  assumes "ws_write_record C seg pl w = (x, seg', w')" "w_next v \<le> ws_file seg" "only_adds d v w"
  shows "only_adds d v w' \<and> ws_file seg' = ws_file seg \<and> ws_path seg' = ws_path seg"
  using assms by (auto simp: ws_write_record_def Let_def intro: write_vectored_only_adds split: if_splits option.splits prod.splits sum.splits)

lemma write_payloads_only_adds:
  assumes "write_payloads C seg ps w = (x, seg', w')" "w_next v \<le> ws_file seg" "only_adds d v w"
  shows "only_adds d v w' \<and> ws_file seg' = ws_file seg \<and> ws_path seg' = ws_path seg"
  using assms
proof (induction ps arbitrary: seg w)
  case (Cons p ps)
  obtain y s1 w1 where s: "ws_write_record C seg p w = (y, s1, w1)" by (metis prod_cases3)
  note r = write_record_only_adds [OF s Cons.prems(2,3)]
  show ?case using Cons.prems(1,2) Cons.IH [of s1 w1] s r by (auto split: sum.splits)
qed auto

lemma seal_only_adds:
  assumes run: "ws_seal C seg w = (x, w')" and d: "fst (ws_path seg) = d" and v: "w_next v \<le> ws_file seg" "only_adds d v w"
  shows "only_adds d v w'"
proof -
  obtain y1 w1 where s1: "ws_finalize_to_disk C seg w = (y1, w1)" by fastforce
  have o1: "only_adds d v w1 \<and> (\<forall>a. y1 = Ok a \<longrightarrow> a = ws_path seg)"
    using s1 v by (auto simp: ws_finalize_to_disk_def Let_def split: prod.splits sum.splits
        dest!: write_all_only_adds sync_data_only_adds)
  show ?thesis
  proof (cases y1)
    case (Inl k)
    then show ?thesis using run s1 o1 by (auto simp: ws_seal_def)
  next
    case (Inr a)
    have a: "a = ws_path seg" "fst (sealed_path_for (ws_path seg)) = d" using o1 Inr d by (auto simp: sealed_path_for_eq)
    obtain y2 w2 where s2: "fs_try_exists (sealed_path_for (ws_path seg)) w1 = (y2, w2)" by fastforce
    obtain y3 w3 where s3: "fs_rename (ws_path seg) (sealed_path_for (ws_path seg)) w2 = (y3, w3)" by fastforce
    obtain y4 w4 where s4: "fs_sync_dir (fst (sealed_path_for (ws_path seg))) w3 = (y4, w4)" by fastforce
    note x = run [unfolded ws_seal_def s1 Inr [unfolded a(1)] sum.case prod.case Let_def s2]
    have o2: "only_adds d v w2" using try_exists_only_adds [OF s2] o1 by blast
    have o3: "only_adds d v w3" by (rule rename_only_adds [OF s3 d a(2) o2])
    have "only_adds d v w4" by (rule sync_dir_only_adds [OF s4 o3])
    moreover have "w' = w2 \<or> w' = w3 \<or> w' = w4"
      using x s3 s4 by (auto split: sum.splits bool.splits prod.splits)
    ultimately show ?thesis using o2 o3 by auto
  qed
qed

lemma active_dl_path [simp]: "active_name (dl_path d n)" "fst (dl_path d n) = d"
  by (simp_all add: active_name_def dl_path_def suffix_def)

lemma dl_path_inject [simp]: "dl_path d m = dl_path d n \<longleftrightarrow> m = n"
  by (simp add: dl_path_def dec_pad_inject)

lemma stable_records_within: "fst p = d \<Longrightarrow> stable_records crc (within d w) p = stable_records crc w p"
  by (simp add: stable_records_def dur_inode_def sealed_path_for_eq cong: option.case_cong)

lemma write_payloads_correct:
  assumes "ws_ok C seg p rs w" "world_wf w" "write_payloads C seg ps w = (x, seg', w')"
  shows "evolves (crc_hash C) p w w' \<and> (x = Ok () \<longrightarrow> ws_ok C seg' p (rs @ ps) w')"
  using assms
proof (induction ps arbitrary: seg rs w)
  case Nil
  then show ?case by (simp add: evolves_refl)
next
  case (Cons a ps)
  obtain y s1 w1 where s: "ws_write_record C seg a w = (y, s1, w1)" by (metis prod_cases3)
  note r = ws_write_correct [OF Cons.prems(1,2) s]
  show ?case
  proof (cases y)
    case (Inl k)
    then show ?thesis using Cons.prems(3) s r by auto
  next
    case (Inr u)
    have ok: "ws_ok C s1 p (rs @ [a]) w1" and wf: "world_wf w1" using r Inr by (auto simp: evolves_def)
    have "write_payloads C s1 ps w1 = (x, seg', w')" using Cons.prems(3) s Inr by simp
    from Cons.IH [OF ok wf this] show ?thesis using r evolves_trans by fastforce
  qed
qed

text \<open>The bytes of a sealed segment are what \<open>estimated_segment_bytes\<close> says.\<close>

lemma sealed_length:
  assumes "ws_ok C seg p rs w" "w_data w' (ws_file seg) = w_data w (ws_file seg) @ SENTINEL @ build_segment_footer a b c d"
  shows "length (w_data w' (ws_file seg)) = estimated_segment_bytes rs"
proof -
  obtain hb h where hb: "parse_segment_header hb = Ok h" "w_data w (ws_file seg) = hb @ concat (map (frame (crc_hash C)) rs)"
    using assms(1) by (auto simp: ws_ok_def)
  have "length (concat (map (frame (crc_hash C)) rs)) = sum_list (map (\<lambda>p. 8 + length p) rs)"
    by (simp add: length_concat comp_def)
  then show ?thesis using header_magic_version [OF hb(1)] hb(2) assms(2)
    by (simp add: estimated_segment_bytes_def SEGMENT_HEADER_LEN_def SEGMENT_FOOTER_LEN_def)
qed

lemma write_sealed_correct:
  assumes wf: "dl_wf D w" and run: "write_sealed C D rs w = (x, D', w')"
  shows "dl_wf D' w' \<and> dl_wab_dir D' = dl_wab_dir D \<and> dl_dir_entry_durable D' = dl_dir_entry_durable D \<and>
    dl_next_counter D' = Suc (dl_next_counter D) \<and> only_adds (dl_dir D) w w' \<and>
    grows (crc_hash C) (within (dl_dir D) w) (within (dl_dir D) w') \<and>
    dl_total_bytes D' = (if x = Ok () then u64_saturating_add (dl_total_bytes D) (estimated_segment_bytes rs) else dl_total_bytes D) \<and>
    (x = Ok () \<longrightarrow> stable_records (crc_hash C) w' (dl_path (dl_dir D) (dl_next_counter D)) = rs)"
proof -
  let ?d = "dl_dir D" and ?n = "dl_next_counter D"
  let ?p = "dl_path ?d ?n" and ?in = "within ?d"
  have in_wf: "world_wf (?in w)" and fresh: "\<And>k. k \<ge> ?n \<Longrightarrow> unused (dl_path ?d k) (?in w)" using wf by (auto simp: dl_wf_def)
  have close: ?thesis
    if ev: "evolves (crc_hash C) ?p (?in w) (?in w')" and oa: "only_adds ?d w w'"
      and D': "D' = D\<lparr>dl_next_counter := Suc ?n, dl_total_bytes := t\<rparr>"
      and t: "t = (if x = Ok () then u64_saturating_add (dl_total_bytes D) (estimated_segment_bytes rs) else dl_total_bytes D)"
      and st: "x = Ok () \<Longrightarrow> stable_records (crc_hash C) (?in w') ?p = rs" for t
  proof -
    have "unused (dl_path ?d k) (?in w')" if "k \<ge> Suc ?n" for k
      using ev fresh [of k] that by (auto simp: evolves_def)
    then show ?thesis using ev oa t st by (simp add: D' dl_wf_def evolves_def stable_records_within)
  qed
  obtain y1 w1 where s1: "ws_create C ?p 0xFFFF CompNone w = (y1, w1)" by fastforce
  have "ws_create C ?p 0xFFFF CompNone (?in w) = (y1, ?in w1)" using s1 by (simp add: within_create)
  note c1 = ws_create_correct [OF in_wf _ fresh [OF order_refl] this, simplified]
  have o1: "only_adds ?d w w1 \<and> (\<forall>seg. y1 = Ok seg \<longrightarrow> w_next w \<le> ws_file seg \<and> ws_path seg = ?p)"
    by (rule create_only_adds [OF s1]) simp
  show ?thesis
  proof (cases y1)
    case (Inl k)
    then show ?thesis using run s1 c1 o1 by (intro close [of "dl_total_bytes D"]) (auto simp: write_sealed_def Let_def)
  next
    case Inr1: (Inr seg)
    have ok1: "ws_ok C seg ?p [] (?in w1)" and wf1: "world_wf (?in w1)" using c1 Inr1 by (auto simp: evolves_def)
    obtain y2 seg2 w2 where s2: "write_payloads C seg rs w1 = (y2, seg2, w2)" by (metis prod_cases3)
    have "write_payloads C seg rs (?in w1) = (y2, seg2, ?in w2)" using s2 by (simp add: within_write_payloads)
    note c2 = write_payloads_correct [OF ok1 wf1 this, simplified]
    have e2: "evolves (crc_hash C) ?p (?in w) (?in w2)" using evolves_trans c1 c2 by blast
    have o2: "only_adds ?d w w2 \<and> ws_file seg2 = ws_file seg \<and> ws_path seg2 = ws_path seg"
      by (rule write_payloads_only_adds [OF s2]) (use o1 Inr1 in auto)
    show ?thesis
    proof (cases y2)
      case (Inl k)
      then show ?thesis using run s1 Inr1 s2 e2 o2
        by (intro close [of "dl_total_bytes D"]) (auto simp: write_sealed_def Let_def)
    next
      case Inr2: (Inr u)
      have ok2: "ws_ok C seg2 ?p rs (?in w2)" and wf2: "world_wf (?in w2)" using c2 Inr2 e2 by (auto simp: evolves_def)
      have f2: "fst (ws_path seg2) = ?d" "w_next w \<le> ws_file seg2" using o2 o1 Inr1 by auto
      obtain y3 w3 where s3: "ws_seal C seg2 w2 = (y3, w3)" by fastforce
      have s3': "ws_seal C seg2 (?in w2) = (y3, ?in w3)" using within_seal [OF f2(1)] s3 by simp
      note c3 = ws_seal_correct [OF ok2 wf2 s3']
      have e3: "evolves (crc_hash C) ?p (?in w) (?in w3)" using evolves_trans e2 c3 by blast
      have o3: "only_adds ?d w w3" by (rule seal_only_adds [OF s3 f2]) (use o2 in blast)
      show ?thesis
      proof (cases y3)
        case (Inl k)
        then show ?thesis using run s1 Inr1 s2 Inr2 s3 e3 o3
          by (intro close [of "dl_total_bytes D"]) (auto simp: write_sealed_def Let_def)
      next
        case Inr3: (Inr q)
        obtain z w4 where s4: "fs_stat_len q w3 = (z, w4)" by fastforce
        have q: "q = sealed_path_for ?p" "w_entry w3 q = Some (ws_file seg2)"
          "length (w_data w3 (ws_file seg2)) = estimated_segment_bytes rs"
          "stable_records (crc_hash C) (?in w3) ?p = rs"
          using c3 Inr3 sealed_length [OF ok2, of "?in w3"] by (auto simp: w_entry_within sealed_path_for_eq split: if_splits)
        have w4: "w4 = io_tick w3" and z: "(case z of Inr n \<Rightarrow> n | Inl _ \<Rightarrow> estimated_segment_bytes rs) = estimated_segment_bytes rs"
          using s4 q by (auto simp: fs_stat_len_def io_step_tick split: io_outcome.splits)
        have "x = Ok ()" "D' = D\<lparr>dl_next_counter := Suc ?n,
            dl_total_bytes := u64_saturating_add (dl_total_bytes D) (estimated_segment_bytes rs)\<rparr>" "w' = w4"
          using run s1 Inr1 s2 Inr2 s3 Inr3 s4 z by (auto simp: write_sealed_def Let_def)
        then show ?thesis using e3 o3 q(4) only_adds_trans [OF o3 only_adds_tick] evolves_trans [OF e3 evolves_tick [OF evolves_wf [OF e3]]]
          by (intro close) (auto simp: w4 within_tick)
      qed
    qed
  qed
qed

text \<open>The directory calls leave the dead letters alone.\<close>

lemma dl_dir_not_wab: "dead_letter_dir d \<noteq> d"
  by (simp add: dead_letter_dir_def ascii_def)

lemma dl_wf_idle: "dl_wf D (w\<lparr>w_tick := n\<rparr>) = dl_wf D w"
proof -
  have "within d (w\<lparr>w_tick := n\<rparr>) = (within d w)\<lparr>w_tick := n\<rparr>" for d by (simp add: within_def)
  moreover have "world_wf (v\<lparr>w_tick := n\<rparr>) = world_wf v" "unused p (v\<lparr>w_tick := n\<rparr>) = unused p v" for v p
    by (simp_all add: world_wf_def unused_def cur_inode_def dur_inode_def cong: option.case_cong)
  ultimately show ?thesis by (simp add: dl_wf_def)
qed

definition dl_step :: "dead_letter_writer \<Rightarrow> world \<Rightarrow> dead_letter_writer \<Rightarrow> world \<Rightarrow> bool" where
  "dl_step D w D' w' \<longleftrightarrow> dl_wf D' w' \<and> dl_wab_dir D' = dl_wab_dir D \<and> dl_next_counter D' = dl_next_counter D \<and>
     only_adds (dl_dir D) w w' \<and> w_next w' = w_next w \<and> w_data w' = w_data w \<and> w_disk w' = w_disk w \<and>
     (\<forall>crc p. fst p = dl_dir D \<longrightarrow> stable_records crc w' p = stable_records crc w p)"

lemma dl_step_trans: "dl_step A u B v \<Longrightarrow> dl_step B v C w \<Longrightarrow> dl_step A u C w"
  by (simp add: dl_step_def) (metis only_adds_trans)

lemma dl_step_idle:
  assumes "dl_wf D w" "dl_wab_dir D' = dl_wab_dir D" "dl_next_counter D' = dl_next_counter D"
  shows "dl_step D w D' (w\<lparr>w_tick := n\<rparr>)"
proof -
  have "dl_wf D' (w\<lparr>w_tick := n\<rparr>)" using assms unfolding dl_wf_idle by (simp add: dl_wf_def)
  moreover have "stable_records crc (w\<lparr>w_tick := n\<rparr>) = stable_records crc w" for crc
    by (rule stable_records_cong) (simp_all add: dur_inode_def fun_eq_iff cong: option.case_cong)
  ultimately show ?thesis using assms by (simp add: dl_step_def only_adds_def)
qed

lemma create_dir_step:
  "dl_wf D w \<Longrightarrow> dl_create_dir D w = (x, D', w') \<Longrightarrow> dl_step D w D' w' \<and> dl_total_bytes D' = dl_total_bytes D"
  by (auto simp: dl_create_dir_def split: prod.splits dest!: create_dir_private_effect intro!: dl_step_idle)

lemma dir_is_missing_step:
  "dl_wf D w \<Longrightarrow> dir_is_missing w = (b, w') \<Longrightarrow> dl_step D w D w'"
  by (auto simp: dir_is_missing_def io_step_def intro!: dl_step_idle)

lemma dir_entry_step:
  assumes wf: "dl_wf D w" and run: "make_dir_entry_durable D w = (x, D', w')"
  shows "dl_step D w D' w'" "dl_total_bytes D' = dl_total_bytes D"
proof -
  have idle: "dl_step D w D w" "dl_step D w E (io_tick w)" if "dl_wab_dir E = dl_wab_dir D" "dl_next_counter E = dl_next_counter D" for E
    using dl_step_idle [OF wf, of D "w_tick w"] dl_step_idle [OF wf that] by (simp_all add: io_tick_def)
  show "dl_total_bytes D' = dl_total_bytes D"
    using run by (auto simp: make_dir_entry_durable_def split: if_splits prod.splits sum.splits)
  show "dl_step D w D' w'"
  proof (cases "dl_dir_entry_durable D")
    case True
    then show ?thesis using run idle by (simp add: make_dir_entry_durable_def)
  next
    case False
    obtain y v where s: "fs_sync_dir (dl_wab_dir D) w = (y, v)" by fastforce
    have D': "w' = v" "dl_wab_dir D' = dl_wab_dir D" "dl_next_counter D' = dl_next_counter D"
      using run False s by (auto simp: make_dir_entry_durable_def split: sum.splits)
    from fs_sync_dir_effect [OF s] show ?thesis
    proof (elim disjE conjE)
      assume "v = io_tick w" then show ?thesis using idle(2) [OF D'(2,3)] D'(1) by simp
    next
      assume v: "v = (io_tick w)\<lparr>w_ddir := \<lambda>q. if fst q = dl_wab_dir D then w_entry w q else w_ddir w q\<rparr>"
      have dd: "w_ddir v q = w_ddir w q" if "fst q = dl_dir D" for q using that dl_dir_not_wab [of "dl_wab_dir D"] by (auto simp: v)
      have disk: "w_disk v = w_disk w" "w_data v = w_data w" "w_next v = w_next w" by (simp_all add: v)
      have "w_ddir v |` {p. fst p = dl_dir D} = w_ddir w |` {p. fst p = dl_dir D}"
        by (rule ext) (simp add: restrict_map_def dd)
      then have "within (dl_dir D) v = within (dl_dir D) (w\<lparr>w_tick := w_tick v\<rparr>)" by (simp add: within_def v io_tick_def)
      then have "dl_wf D' v" using wf D'(2,3) dl_wf_idle [where w = w and n = "w_tick v"] by (simp add: dl_wf_def)
      moreover have "stable_records crc v p = stable_records crc w p" if "fst p = dl_dir D" for crc p
        using dd [of p] dd [of "sealed_path_for p"] that
        by (simp add: stable_records_def dur_inode_def sealed_path_for_eq disk cong: option.case_cong)
      moreover have "only_adds (dl_dir D) w v" using sync_dir_only_adds [OF s only_adds_refl] .
      ultimately show ?thesis using D' disk by (simp add: dl_step_def)
    qed
  qed
qed

text \<open>What every operation of the writer keeps, failing or not.\<close>

definition dl_grows :: "(bytes \<Rightarrow> u32) \<Rightarrow> dead_letter_writer \<Rightarrow> world \<Rightarrow> dead_letter_writer \<Rightarrow> world \<Rightarrow> bool" where
  "dl_grows crc D w D' w' \<longleftrightarrow> dl_wf D' w' \<and> dl_wab_dir D' = dl_wab_dir D \<and> dl_next_counter D \<le> dl_next_counter D' \<and>
     only_adds (dl_dir D) w w' \<and>
     (\<forall>p. active_name p \<longrightarrow> fst p = dl_dir D \<longrightarrow> prefix (stable_records crc w p) (stable_records crc w' p))"

lemma dl_grows_refl: "dl_wf D w \<Longrightarrow> dl_grows crc D w D w"
  by (simp add: dl_grows_def)

lemma dl_grows_trans:
  assumes a: "dl_grows crc A u B v" and b: "dl_grows crc B v C w" shows "dl_grows crc A u C w"
proof -
  have d: "dl_wab_dir B = dl_wab_dir A" using a by (simp add: dl_grows_def)
  have "only_adds (dl_dir A) u w" by (rule only_adds_trans [of _ _ v]) (use a b d in \<open>simp_all add: dl_grows_def\<close>)
  moreover have "prefix (stable_records crc u p) (stable_records crc w p)" if "active_name p" "fst p = dl_dir A" for p
    by (rule prefix_order.trans [of _ "stable_records crc v p"]) (use a b d that in \<open>simp_all add: dl_grows_def\<close>)
  ultimately show ?thesis using a b d by (simp add: dl_grows_def)
qed

lemma dl_grows_step: "dl_step D w D' w' \<Longrightarrow> dl_grows crc D w D' w'"
  by (simp add: dl_grows_def dl_step_def)

lemma dl_grows_wf: "dl_grows crc D w D' w' \<Longrightarrow> dl_wf D' w'"
  by (simp add: dl_grows_def)

lemma write_sealed_grows:
  assumes "dl_wf D w" "write_sealed C D rs w = (x, D', w')"
  shows "dl_grows (crc_hash C) D w D' w'"
proof -
  note c = write_sealed_correct [OF assms]
  have "prefix (stable_records (crc_hash C) w p) (stable_records (crc_hash C) w' p)" if "active_name p" "fst p = dl_dir D" for p
    using c that stable_records_within [of p "dl_dir D"] by (metis grows_def)
  then show ?thesis using c by (simp add: dl_grows_def)
qed

lemma unused_stable: "dl_wf D w \<Longrightarrow> n \<ge> dl_next_counter D \<Longrightarrow> stable_records crc w (dl_path (dl_dir D) n) = []"
  using stable_records_within [of "dl_path (dl_dir D) n" "dl_dir D" crc w]
  by (auto simp: dl_wf_def unused_def stable_records_def)

lemma recreate_step:
  assumes "dl_wf D w" "recreate_dir D w = (x, D', w')"
  shows "dl_step D w D' w'" "x = Ok () \<Longrightarrow> dl_total_bytes D' = 0"
proof -
  obtain y E v where s: "dl_create_dir D w = (y, E, v)" by (metis prod_cases3)
  note c = create_dir_step [OF assms(1) s]
  have "dl_wf E v" using c by (simp add: dl_step_def)
  then have wf: "dl_wf (E\<lparr>dl_total_bytes := 0\<rparr>) v" by (simp add: dl_wf_def)
  have c0: "dl_step D w (E\<lparr>dl_total_bytes := 0\<rparr>) v" using c wf by (simp add: dl_step_def)
  obtain z F u where m: "make_dir_entry_durable (E\<lparr>dl_total_bytes := 0\<rparr>) v = (z, F, u)" by (metis prod_cases3)
  note d = dir_entry_step [OF wf m]
  have t: "dl_step D w F u" by (rule dl_step_trans [OF c0 d(1)])
  have r: "(x, D', w') = (case y of Inl k \<Rightarrow> (Err k, E, v) | Inr _ \<Rightarrow> (z, F, u))"
    using assms(2) s m by (auto simp: recreate_dir_def split: sum.splits)
  show "dl_step D w D' w'" using r t c by (cases y) auto
  show "x = Ok () \<Longrightarrow> dl_total_bytes D' = 0" using r d(2) by (cases y) auto
qed

text \<open>
  A record write that succeeded: a segment with a new counter holds the records on stable
  storage, and the total has grown by its size, from zero if the directory had to be made anew.
\<close>

definition dl_written :: "(bytes \<Rightarrow> u32) \<Rightarrow> dead_letter_writer \<Rightarrow> bytes list \<Rightarrow> dead_letter_writer \<Rightarrow> world \<Rightarrow> bool" where
  "dl_written crc D rs D' w' \<longleftrightarrow>
     (\<exists>n. dl_next_counter D \<le> n \<and> n < dl_next_counter D' \<and> stable_records crc w' (dl_path (dl_dir D) n) = rs) \<and>
     (\<exists>t \<in> {dl_total_bytes D, 0}. dl_total_bytes D' = u64_saturating_add t (estimated_segment_bytes rs))"

lemma write_sealed_written:
  assumes "dl_wf E v" "write_sealed C E rs v = (Ok (), D', w')" "dl_wab_dir E = dl_wab_dir D" "dl_next_counter D \<le> dl_next_counter E"
    "dl_total_bytes E \<in> {dl_total_bytes D, 0}"
  shows "dl_written (crc_hash C) D rs D' w'"
  using write_sealed_correct [OF assms(1,2)] assms(3-5)
  unfolding dl_written_def by (intro conjI exI [of _ "dl_next_counter E"] bexI [of _ "dl_total_bytes E"]) auto

lemma write_records_correct:
  assumes wf: "dl_wf D w" and run: "write_records C D rs w = (x, D', w')"
  shows "dl_grows (crc_hash C) D w D' w' \<and> (x = Ok () \<longrightarrow> rs \<noteq> [] \<longrightarrow> dl_written (crc_hash C) D rs D' w')"
proof (cases "rs = []")
  case True
  then show ?thesis using run dl_grows_refl [OF wf] by (auto simp: write_records_def)
next
  case rs: False
  let ?g = "dl_grows (crc_hash C)"
  obtain y1 D1 w1 where s1: "make_dir_entry_durable D w = (y1, D1, w1)" by (metis prod_cases3)
  note d1 = dir_entry_step [OF wf s1]
  have g1: "?g D w D1 w1" by (rule dl_grows_step [OF d1(1)])
  obtain y2 D2 w2 where s2: "write_sealed C D1 rs w1 = (y2, D2, w2)" by (metis prod_cases3)
  note wf1 = dl_grows_wf [OF g1]
  have g2: "?g D w D2 w2" by (rule dl_grows_trans [OF g1 write_sealed_grows [OF wf1 s2]])
  note wf2 = dl_grows_wf [OF g2]
  obtain b w3 where s3: "dir_is_missing w2 = (b, w3)" by fastforce
  have st3: "dl_step D2 w2 D2 w3" by (rule dir_is_missing_step [OF wf2 s3])
  then have wf3: "dl_wf D2 w3" by (simp add: dl_step_def)
  define again where "again = (if b then recreate_dir D2 w3 else
      case dl_create_dir D2 w3 of (Inl k, E, v) \<Rightarrow> (Err k, E, v) | (Inr _, E, v) \<Rightarrow> make_dir_entry_durable E v)"
  obtain y4 D4 w4 where s4: "again = (y4, D4, w4)" by (metis prod_cases3)
  have a4: "dl_step D2 w3 D4 w4 \<and> (y4 = Ok () \<longrightarrow> dl_total_bytes D4 \<in> {dl_total_bytes D2, 0})"
  proof (cases b)
    case True
    then show ?thesis using s4 recreate_step [OF wf3] by (auto simp: again_def)
  next
    case False
    obtain y E v where c: "dl_create_dir D2 w3 = (y, E, v)" by (metis prod_cases3)
    note cs = create_dir_step [OF wf3 c]
    then have wfE: "dl_wf E v" by (simp add: dl_step_def)
    obtain z F u where m: "make_dir_entry_durable E v = (z, F, u)" by (metis prod_cases3)
    note d = dir_entry_step [OF wfE m]
    have "dl_step D2 w3 F u" by (rule dl_step_trans [OF conjunct1 [OF cs] d(1)])
    then show ?thesis using s4 False c cs d(2) m by (cases y) (auto simp: again_def)
  qed
  have st4: "dl_step D2 w2 D4 w4" using dl_step_trans [OF st3] a4 by blast
  have g4: "?g D w D4 w4" by (rule dl_grows_trans [OF g2 dl_grows_step [OF st4]])
  note wf4 = dl_grows_wf [OF g4]
  obtain y5 D5 w5 where s5: "write_sealed C D4 rs w4 = (y5, D5, w5)" by (metis prod_cases3)
  have g5: "?g D w D5 w5" by (rule dl_grows_trans [OF g4 write_sealed_grows [OF wf4 s5]])
  have r: "(x, D', w') = (case y1 of Inl k \<Rightarrow> (Err k, D1, w1) | Inr _ \<Rightarrow>
      (case y2 of Inr _ \<Rightarrow> (Ok (), D2, w2) | Inl k \<Rightarrow> if k \<noteq> NotFound then (Err k, D2, w2) else
      (case y4 of Inl k \<Rightarrow> (Err k, D4, w4) | Inr _ \<Rightarrow> (y5, D5, w5))))"
    using run rs s1 s2 s3 s4 s5 unfolding again_def write_records_def
    by (cases b) (auto split: sum.splits if_splits)
  have "dl_written (crc_hash C) D rs D2 w2" if "y2 = Ok ()"
    by (rule write_sealed_written [OF wf1 s2 [unfolded that]]) (use d1 g1 in \<open>auto simp: dl_grows_def\<close>)
  moreover have "dl_written (crc_hash C) D rs D5 w5" if "y5 = Ok ()" "y4 = Ok ()" "y2 \<noteq> Ok ()"
  proof (rule write_sealed_written [OF wf4 s5 [unfolded that(1)]])
    show "dl_total_bytes D4 \<in> {dl_total_bytes D, 0}"
      using a4 that write_sealed_correct [OF wf1 s2] d1(2) by auto
  qed (use g4 in \<open>auto simp: dl_grows_def\<close>)
  ultimately show ?thesis using r g1 g2 g4 g5 by (auto split: sum.splits if_splits)
qed

section \<open>Opening\<close>

lemma takeWhile_digits_dot: "list_all is_ascii_digit ds \<Longrightarrow> takeWhile (\<lambda>c. c \<noteq> 0x2E) (ds @ 0x2E # r) = ds"
  by (induction ds) (auto simp: is_ascii_digit_def)

lemma dl_counter_path:
  assumes "n < 2 ^ 64"
  shows "dl_counter (snd (dl_path d n)) = Some n" "dl_counter (snd (sealed_path_for (dl_path d n))) = Some n"
proof -
  have t: "takeWhile (\<lambda>c. c \<noteq> 0x2E) (dec_pad 8 n @ EXT_ACTIVE @ r) = dec_pad 8 n" for r
    using takeWhile_digits_dot [OF dec_pad_digits, of 8 n "tl EXT_ACTIVE @ r"] by (simp add: EXT_ACTIVE_def ascii_def)
  have plus: "hd (dec_pad 8 n) \<noteq> 0x2B"
    using dec_pad_digits [of 8 n] dec_pad_not_Nil [of 8 n] by (cases "dec_pad 8 n") (auto simp: is_ascii_digit_def)
  have "parse_usize (dec_pad 8 n) = Some n"
    using plus dec_pad_digits [of 8 n] dec_pad_not_Nil [of 8 n] dec_pad_value [of 8 n] assms
    by (cases "dec_pad 8 n") (auto simp: parse_usize_def parse_digits_def)
  then show "dl_counter (snd (dl_path d n)) = Some n" "dl_counter (snd (sealed_path_for (dl_path d n))) = Some n"
    using t [of "[]"] t [of "ascii ''.sealed''"] by (simp_all add: dl_counter_def dl_path_def sealed_path_for_eq)
qed

text \<open>The length of the file at \<open>p\<close>.\<close>

definition file_len :: "world \<Rightarrow> path \<Rightarrow> nat" where
  "file_len w p = (case w_entry w p of Some i \<Rightarrow> length (w_data w i) | None \<Rightarrow> 0)"

lemma fs_stat_len_effect:
  "fs_stat_len p w = (x, w') \<Longrightarrow> w' = io_tick w \<and> (\<forall>n. x = Ok n \<longrightarrow> n = file_len w p)"
  by (auto simp: fs_stat_len_def io_step_tick file_len_def split: io_outcome.splits option.splits)

lemma file_len_tick [simp]: "file_len (io_tick w) = file_len w"
  by (simp add: file_len_def fun_eq_iff cong: option.case_cong)

lemma scan_entries_effect:
  assumes "scan_entries ps t m w = (x, w')" "t \<le> 2 ^ 64 - 1"
  shows "(\<exists>k. w' = w\<lparr>w_tick := k\<rparr>) \<and> (\<forall>t' m'. x = Ok (t', m') \<longrightarrow>
    t' = min (t + sum_list (map (file_len w) (filter (\<lambda>p. prefix (ascii ''dl_'') (snd p)) ps))) (2 ^ 64 - 1) \<and> m \<le> m' \<and>
    (\<forall>p \<in> set ps. prefix (ascii ''dl_'') (snd p) \<longrightarrow> (\<forall>c. dl_counter (snd p) = Some c \<longrightarrow> c \<le> m')))"
  using assms
proof (induction ps arbitrary: t m w)
  case Nil
  then show ?case by (auto intro!: exI [of _ "w_tick w"])
next
  case (Cons p ps)
  show ?case
  proof (cases "prefix (ascii ''dl_'') (snd p)")
    case False
    then show ?thesis using Cons by auto
  next
    case True
    obtain y v where s: "fs_stat_len p w = (y, v)" by fastforce
    note e = fs_stat_len_effect [OF s]
    show ?thesis
    proof (cases y)
      case (Inl k)
      then show ?thesis using Cons.prems True s e by (auto simp: io_tick_def)
    next
      case (Inr n)
      let ?t = "u64_saturating_add t n" and ?m = "case dl_counter (snd p) of Some c \<Rightarrow> max m c | None \<Rightarrow> m"
      have v: "v = io_tick w" and n: "n = file_len w p" using e Inr by auto
      have "scan_entries ps ?t ?m v = (x, w')" using Cons.prems(1) True s Inr by simp
      moreover have "?t \<le> 2 ^ 64 - 1" by (simp add: u64_saturating_add_def)
      ultimately have ih: "(\<exists>k. w' = v\<lparr>w_tick := k\<rparr>) \<and> (\<forall>t' m'. x = Ok (t', m') \<longrightarrow>
        t' = min (?t + sum_list (map (file_len v) (filter (\<lambda>p. prefix (ascii ''dl_'') (snd p)) ps))) (2 ^ 64 - 1) \<and> ?m \<le> m' \<and>
        (\<forall>p \<in> set ps. prefix (ascii ''dl_'') (snd p) \<longrightarrow> (\<forall>c. dl_counter (snd p) = Some c \<longrightarrow> c \<le> m')))" by (rule Cons.IH)
      have sat: "min (min (t + n) M + z) M = min (t + (n + z)) M" for z M :: nat by linarith
      show ?thesis
      proof (intro conjI allI impI)
        show "\<exists>k. w' = w\<lparr>w_tick := k\<rparr>" using ih by (auto simp: v io_tick_def)
      next
        fix t' m' assume x: "x = Ok (t', m')"
        show "t' = min (t + sum_list (map (file_len w) (filter (\<lambda>p. prefix (ascii ''dl_'') (snd p)) (p # ps)))) (2 ^ 64 - 1)"
          using ih x True by (simp add: v n [symmetric] u64_saturating_add_def sat)
        show "m \<le> m'" using ih x by (auto split: option.splits)
        show "\<forall>q \<in> set (p # ps). prefix (ascii ''dl_'') (snd q) \<longrightarrow> (\<forall>c. dl_counter (snd q) = Some c \<longrightarrow> c \<le> m')"
          using ih x by (auto split: option.splits)
      qed
    qed
  qed
qed

lemma dl_prefix_path: "prefix (ascii ''dl_'') (snd (dl_path d n))" "prefix (ascii ''dl_'') (snd (sealed_path_for (dl_path d n)))"
  by (simp_all add: dl_path_def sealed_path_for_eq)

lemma dl_open_effect:
  assumes run: "dl_open wab w = (Ok D, w')" and wf: "world_wf (within (dead_letter_dir wab) w)"
    and u64: "\<And>n. n \<ge> 2 ^ 64 \<Longrightarrow> unused (dl_path (dead_letter_dir wab) n) (within (dead_letter_dir wab) w)"
  shows "dl_wab_dir D = wab \<and> dl_wf D w' \<and> \<not> dl_dir_entry_durable D \<and>
    (\<exists>es. set es = {p. fst p = dead_letter_dir wab \<and> prefix (ascii ''dl_'') (snd p) \<and> w_entry w p \<noteq> None} \<and>
       (distinct (map fst (w_dir w)) \<longrightarrow> distinct es) \<and> dl_total_bytes D = min (sum_list (map (file_len w) es)) (2 ^ 64 - 1))"
proof -
  let ?d = "dead_letter_dir wab"
  obtain y1 w1 where s1: "create_dir_private w = (y1, w1)" by fastforce
  obtain k1 where w1: "w1 = w\<lparr>w_tick := k1\<rparr>" using create_dir_private_effect [OF s1] by blast
  obtain y2 w2 where s2: "fs_read_dir ?d w1 = (y2, w2)" by fastforce
  obtain es where es: "y2 = Ok es" using run s1 s2 by (auto simp: dl_open_def scan_dir_def split: sum.splits)
  have w2: "w2 = io_tick w1" by (rule read_dir_entries(1) [OF s2])
  have mem: "p \<in> set es \<longleftrightarrow> fst p = ?d \<and> w_entry w p \<noteq> None" for p
    using read_dir_entries(2) [OF s2 es, of p] by (simp add: w1)
  have dist: "distinct es" if "distinct (map fst (w_dir w))"
    using s2 es that by (auto simp: fs_read_dir_def io_step_tick w1 io_tick_def split: io_outcome.splits)
  obtain y3 w3 where s3: "scan_entries es 0 0 w2 = (y3, w3)" by fastforce
  obtain t m where y3: "y3 = Ok (t, m)" and w': "w' = w3"
    and D: "D = \<lparr>dl_wab_dir = wab, dl_next_counter = m + 1, dl_total_bytes = t, dl_dir_entry_durable = False\<rparr>"
    using run s1 s2 es s3 by (auto simp: dl_open_def scan_dir_def split: sum.splits)
  note e = scan_entries_effect [OF s3]
  obtain k where k: "w3 = w\<lparr>w_tick := k\<rparr>" using e by (auto simp: w2 w1 io_tick_def)
  have fl: "file_len w2 = file_len w" by (simp add: w2 w1 file_len_def fun_eq_iff cong: option.case_cong)
  have top: "c \<le> m" if "p \<in> set es" "prefix (ascii ''dl_'') (snd p)" "dl_counter (snd p) = Some c" for p c
    using e y3 that by simp
  have "unused (dl_path ?d n) (within ?d w)" if n: "n \<ge> m + 1" for n
  proof (cases "n < 2 ^ 64")
    case True
    have "dl_path ?d n \<notin> set es" "sealed_path_for (dl_path ?d n) \<notin> set es"
      using top [OF _ dl_prefix_path(1) dl_counter_path(1) [OF True], of ?d]
        top [OF _ dl_prefix_path(2) dl_counter_path(2) [OF True], of ?d] n by auto
    then have "cur_inode (within ?d w) (dl_path ?d n) = None"
      unfolding mem by (simp add: cur_inode_def w_entry_within sealed_path_for_eq split: option.splits)
    then show ?thesis using wf unfolding unused_def world_wf_def by (metis active_dl_path(1) option.exhaust option.distinct(1))
  next
    case False
    then show ?thesis using u64 by simp
  qed
  then have "dl_wf D w" using wf by (simp add: dl_wf_def D)
  then have "dl_wf D w'" using k w' by (simp add: dl_wf_idle)
  moreover have "dl_total_bytes D = min (sum_list (map (file_len w) (filter (\<lambda>p. prefix (ascii ''dl_'') (snd p)) es))) (2 ^ 64 - 1)"
    using e y3 by (simp add: D fl)
  moreover have "set (filter (\<lambda>p. prefix (ascii ''dl_'') (snd p)) es) =
      {p. fst p = ?d \<and> prefix (ascii ''dl_'') (snd p) \<and> w_entry w p \<noteq> None}"
    using mem by (simp only: set_filter) blast
  ultimately show ?thesis by (intro conjI exI [of _ "filter (\<lambda>p. prefix (ascii ''dl_'') (snd p)) es"]) (simp_all add: D dist)
qed

section \<open>Properties\<close>

text \<open>
  C21: a record that is dead-lettered is durable.  Between well-formed states, \<open>write_records\<close>
  keeps the invariant of the writer whatever fails, including a directory deleted under it; it
  changes no file and no name outside the dead-letter directory, and no dead letter on stable
  storage loses a record.  When it succeeds on a non-empty batch, exactly these records are on
  stable storage in a segment with a counter that was free before, and the running total has
  grown, from its old value or from zero, by the size that the cap check had estimated.
\<close>

theorem dead_letters_durable:
  assumes "dl_wf D w" "write_records C D rs w = (x, D', w')"
  shows "dl_wf D' w' \<and> (\<forall>i < w_next w. w_data w' i = w_data w i \<and> w_disk w' i = w_disk w i) \<and>
    (\<forall>q. fst q \<noteq> dl_dir D \<longrightarrow> w_entry w' q = w_entry w q) \<and>
    (\<forall>p. active_name p \<longrightarrow> fst p = dl_dir D \<longrightarrow> prefix (stable_records (crc_hash C) w p) (stable_records (crc_hash C) w' p)) \<and>
    (x = Ok () \<longrightarrow> rs \<noteq> [] \<longrightarrow>
      (\<exists>n \<ge> dl_next_counter D. stable_records (crc_hash C) w (dl_path (dl_dir D) n) = [] \<and>
         stable_records (crc_hash C) w' (dl_path (dl_dir D) n) = rs) \<and>
      (\<exists>t \<in> {dl_total_bytes D, 0}. dl_total_bytes D' = u64_saturating_add t (estimated_segment_bytes rs)))"
proof -
  note c = write_records_correct [OF assms]
  show ?thesis
    using c unused_stable [OF assms(1)] unfolding dl_grows_def only_adds_def dl_written_def by blast
qed

text \<open>
  The writer starts above every name in use.  When \<open>open\<close> succeeds on a dead-letter directory
  whose names are well formed, every counter from \<open>next_counter\<close> on is free, so no later write can
  meet an existing file, and the total is the sum of the sizes of the dead-letter files, saturating
  at \<open>u64::MAX\<close>.
\<close>

theorem dead_letter_open_fresh:
  assumes "dl_open wab w = (Ok D, w')" "world_wf (within (dead_letter_dir wab) w)"
    "\<And>n. n \<ge> 2 ^ 64 \<Longrightarrow> unused (dl_path (dead_letter_dir wab) n) (within (dead_letter_dir wab) w)"
  shows "dl_wf D w' \<and> (\<forall>n \<ge> dl_next_counter D. w_entry w' (dl_path (dead_letter_dir wab) n) = None) \<and>
    (\<exists>es. set es = {p. fst p = dead_letter_dir wab \<and> prefix (ascii ''dl_'') (snd p) \<and> w_entry w p \<noteq> None} \<and>
       (distinct (map fst (w_dir w)) \<longrightarrow> distinct es) \<and> dl_total_bytes D = min (sum_list (map (file_len w) es)) (2 ^ 64 - 1))"
proof -
  note e = dl_open_effect [OF assms]
  have "w_entry w' (dl_path (dead_letter_dir wab) n) = None" if "n \<ge> dl_next_counter D" for n
    using e that by (auto simp: dl_wf_def unused_def cur_inode_def w_entry_within split: option.splits)
  then show ?thesis using e by simp
qed

definition sample_writer :: dead_letter_writer where
  "sample_writer = \<lparr>dl_wab_dir = ascii ''w'', dl_next_counter = 1, dl_total_bytes = 0, dl_dir_entry_durable = False\<rparr>"

lemma within_quiet: "world_wf (within d quiet_world)" "unused p (within d quiet_world)"
  by (simp_all add: world_wf_def unused_def cur_inode_def dur_inode_def w_entry_within)
    (simp_all add: quiet_world_def w_entry_def within_def)

lemma sample_writer_wf: "dl_wf sample_writer quiet_world"
  by (simp add: dl_wf_def within_quiet)

text \<open>On a fault-free disk a dead-letter write of storable records succeeds.\<close>

lemma quiet_create_at:
  "w_io w = (\<lambda>_. IoDone) \<Longrightarrow> w_entry w p = None \<Longrightarrow> \<exists>seg w'. ws_create C p sh c w = (Ok seg, w') \<and> w_io w' = (\<lambda>_. IoDone)"
  by (simp add: ws_create_def fs_defs Let_def w_append_def)

lemma quiet_write_payloads:
  assumes "ws_ok C seg p rs w" "w_io w = (\<lambda>_. IoDone)" "\<forall>st \<in> set ps. stored_ok (ws_compression seg) st" "world_wf w"
  shows "\<exists>seg' w'. write_payloads C seg ps w = (Ok (), seg', w') \<and> w_io w' = (\<lambda>_. IoDone)"
  using assms
proof (induction ps arbitrary: seg rs w)
  case (Cons a ps)
  obtain s1 w1 where s: "ws_write_record C seg a w = (Ok (), s1, w1)" "w_io w1 = (\<lambda>_. IoDone)"
    using quiet_write [OF Cons.prems(1,2), where st = a] Cons.prems(3) by auto
  note r = ws_write_correct [OF Cons.prems(1,4) s(1)]
  have ok: "ws_ok C s1 p (rs @ [a]) w1" and wf: "world_wf w1" and "ws_compression s1 = ws_compression seg"
    using r by (auto simp: evolves_def)
  then have "\<forall>st \<in> set ps. stored_ok (ws_compression s1) st" using Cons.prems(3) by simp
  from Cons.IH [OF ok s(2) this wf] show ?case using s by simp
qed simp

lemma quiet_write_sealed:
  assumes wf: "dl_wf D w" and io: "w_io w = (\<lambda>_. IoDone)" and ok: "\<forall>st \<in> set rs. stored_ok CompNone st"
  shows "\<exists>D' w'. write_sealed C D rs w = (Ok (), D', w') \<and> w_io w' = (\<lambda>_. IoDone)"
proof -
  let ?d = "dl_dir D" and ?p = "dl_path (dl_dir D) (dl_next_counter D)"
  have fresh: "world_wf (within ?d w)" "unused ?p (within ?d w)" using wf by (auto simp: dl_wf_def)
  then have "w_entry (within ?d w) ?p = None" by (auto simp: unused_def cur_inode_def split: option.splits)
  then obtain seg v1 where 1: "ws_create C ?p 0xFFFF CompNone (within ?d w) = (Ok seg, v1)" "w_io v1 = (\<lambda>_. IoDone)"
    using quiet_create_at [where w = "within ?d w" and p = ?p and C = C and sh = "0xFFFF" and c = CompNone] io by auto
  have c1: "ws_ok C seg ?p [] v1" "ws_compression seg = CompNone" "world_wf v1"
    using ws_create_correct [OF fresh(1) _ fresh(2) 1(1)] by (auto simp: evolves_def)
  obtain seg2 v2 where 2: "write_payloads C seg rs v1 = (Ok (), seg2, v2)" "w_io v2 = (\<lambda>_. IoDone)"
    using quiet_write_payloads [OF c1(1) 1(2) _ c1(3), where ps = rs] ok c1(2) by auto
  have c2: "ws_ok C seg2 ?p rs v2" "world_wf v2" using write_payloads_correct [OF c1(1,3) 2(1)] by (auto simp: evolves_def)
  obtain q v3 where 3: "ws_seal C seg2 v2 = (Ok q, v3)" "w_io v3 = (\<lambda>_. IoDone)" using quiet_seal [OF c2(1) 2(2) c2(2)] by blast
  obtain y1 w1 where s1: "ws_create C ?p 0xFFFF CompNone w = (y1, w1)" by fastforce
  have v1: "y1 = Ok seg" "v1 = within ?d w1" using 1 s1 by (simp_all add: within_create)
  obtain y2 seg2' w2 where s2: "write_payloads C seg rs w1 = (y2, seg2', w2)" by (metis prod_cases3)
  have v2: "y2 = Ok ()" "seg2' = seg2" "v2 = within ?d w2" using 2 s2 by (simp_all add: v1 within_write_payloads)
  have "fst (ws_path seg2) = ?d" using c2(1) by (simp add: ws_ok_def)
  then obtain w3 where s3: "ws_seal C seg2 w2 = (Ok q, w3)" "v3 = within ?d w3"
    using 3(1) within_seal [where seg = seg2 and d = ?d and C = C and w = w2] unfolding v2(3) by (cases "ws_seal C seg2 w2") auto
  have "w_io w3 = (\<lambda>_. IoDone)" using 3(2) s3(2) by simp
  then show ?thesis using s1 v1 s2 v2 s3(1)
    by (auto simp: write_sealed_def Let_def split: prod.split dest!: fs_stat_len_effect)
qed

lemma quiet_write_records:
  assumes wf: "dl_wf D w" and io: "w_io w = (\<lambda>_. IoDone)" and ok: "\<forall>st \<in> set rs. stored_ok CompNone st"
  shows "\<exists>D' w'. write_records C D rs w = (Ok (), D', w') \<and> w_io w' = (\<lambda>_. IoDone)"
proof -
  obtain y D1 w1 where s: "make_dir_entry_durable D w = (y, D1, w1)" by (metis prod_cases3)
  have y: "y = Ok ()" "w_io w1 = (\<lambda>_. IoDone)"
    using s io by (auto simp: make_dir_entry_durable_def fs_sync_dir_def io_step_def split: if_splits)
  have "dl_wf D1 w1" using dir_entry_step(1) [OF wf s] by (simp add: dl_step_def)
  from quiet_write_sealed [OF this y(2) ok, of C] show ?thesis using s y io by (auto simp: write_records_def)
qed

theorem dead_letters_durable_witness:
  "\<exists>D' w'. write_records crc32_ops sample_writer sample_records quiet_world = (Ok (), D', w') \<and> dl_wf D' w' \<and>
     (\<exists>n \<ge> 1. stable_records crc32_hash w' (dl_path (dl_dir sample_writer) n) = sample_records)"
proof -
  have io: "w_io quiet_world = (\<lambda>_. IoDone)" by (simp add: quiet_world_def)
  obtain D' w' where run: "write_records crc32_ops sample_writer sample_records quiet_world = (Ok (), D', w')"
    using quiet_write_records [OF sample_writer_wf io sample_records_ok, of crc32_ops] by blast
  from dead_letters_durable [OF sample_writer_wf run] run show ?thesis
    by (auto simp: sample_records_def sample_writer_def)
qed

theorem dead_letter_open_fresh_witness:
  "\<exists>D w'. dl_open (ascii ''w'') quiet_world = (Ok D, w') \<and> dl_wf D w' \<and> dl_next_counter D = 1"
proof -
  let ?D = "\<lparr>dl_wab_dir = ascii ''w'', dl_next_counter = 1, dl_total_bytes = 0, dl_dir_entry_durable = False\<rparr>"
  obtain w' where run: "dl_open (ascii ''w'') quiet_world = (Ok ?D, w')"
    by (simp add: dl_open_def create_dir_private_def scan_dir_def fs_read_dir_def io_step_def quiet_world_def)
  from dead_letter_open_fresh [OF run within_quiet(1) within_quiet(2)] run show ?thesis by auto
qed

end
