(* ===== verification/Ledger.thy ===== *)
theory Ledger
  imports DeadLetter
begin

text \<open>
  The segment ledger, \<open>weir-server/src/drain/ledger.rs\<close>: what the drain remembers of a segment
  between attempts.  A \<open>HashMap\<close> is an association list with distinct keys; its iteration order
  is that of the list.  The device and inode number that pin a cursor or a carry are the inode of
  the model, which is never reused.  Instants are naturals (milliseconds of a monotonic clock, the
  unit of the configured durations), and \<open>Instant::now()\<close> is an argument.  \<open>classify\<close> looks at the error number that \<open>OtherIo\<close> carries;
  the numbers are Linux's, and none of the named kinds has a number or a kind of the first two
  rows of its table.

  Main results: every operation keeps the ledger well formed, its published counters exact and its
  carries within their bound; admission drops a path exactly when the rescan excludes it, and
  resumes only on the file the cursor was measured on; a parked segment has no progress; and the
  retries of outstanding confirms delete a segment only behind a durable sidecar.
\<close>

section \<open>Types\<close>

record resume_cursor =
  rc_processed :: nat
  rc_ino :: nat

datatype owner = OwnConfirmPending | OwnQuarantinePending | OwnParked | OwnCoolingDown

datatype admit = AdmitProcess nat | AdmitDrop owner

datatype park_reason = LocalReadFailed | UnsupportedVersion | DrainPanic

primrec park_index :: "park_reason \<Rightarrow> nat" where
  "park_index LocalReadFailed = 0"
| "park_index UnsupportedVersion = 1"
| "park_index DrainPanic = 2"

datatype err_class = ClassProcess | ClassAccess | ClassMedia

datatype transient_cause = CauseSink | CauseLocalRead err_class "nat option" | CauseLocalWrite

definition DRAIN_PANIC_PARK_LIMIT :: nat where "DRAIN_PANIC_PARK_LIMIT = 2"

definition DL_CARRY_MAX_BYTES :: nat where "DL_CARRY_MAX_BYTES = 64 * 1024 * 1024"

record dead_letter_carry =
  ca_through :: nat
  ca_payloads :: "bytes list"
  ca_bytes :: nat
  ca_committed :: nat

record pinned_carry =
  pc_carry :: dead_letter_carry
  pc_ino :: nat

datatype confirm_stage = StageSidecar | StageDelete

record confirm_pending =
  cp_stage :: confirm_stage
  cp_record_count :: nat

record local_read_failures =
  lr_count :: nat
  lr_first_at :: nat

record ledger_counts =
  lc_confirm_pending :: nat
  lc_quarantine_pending :: nat
  lc_parked_by_reason :: "nat list"
  lc_cooling_down :: nat
  lc_resume_cursors :: nat
  lc_dl_carry_bytes :: nat

record segment_ledger =
  lg_resume_from :: "(path \<times> resume_cursor) list"
  lg_dl_carry :: "(path \<times> pinned_carry) list"
  lg_dl_carry_max_bytes :: nat
  lg_confirm_pending :: "(path \<times> confirm_pending) list"
  lg_quarantine_pending :: "(path \<times> string) list"
  lg_parked :: "(path \<times> park_reason) list"
  lg_local_read_failures :: "(path \<times> local_read_failures) list"
  lg_not_before :: "(path \<times> nat) list"
  lg_panic_count :: "(path \<times> nat) list"
  lg_in_flight :: "path option"
  lg_attempt_started :: nat
  lg_counts :: ledger_counts

section \<open>Operations\<close>

definition carry_sum :: "(path \<times> pinned_carry) list \<Rightarrow> nat" where
  "carry_sum cs = sum_list (map (\<lambda>(_, pinned). ca_bytes (pc_carry pinned)) cs)"

definition counts_of :: "segment_ledger \<Rightarrow> ledger_counts" where
  "counts_of L =
     \<lparr>lc_confirm_pending = length (lg_confirm_pending L), lc_quarantine_pending = length (lg_quarantine_pending L),
      lc_parked_by_reason = map (\<lambda>i. length (filter (\<lambda>(_, why). park_index why = i) (lg_parked L))) [0..<3],
      lc_cooling_down = length (lg_not_before L), lc_resume_cursors = length (lg_resume_from L),
      lc_dl_carry_bytes = carry_sum (lg_dl_carry L)\<rparr>"

definition sync_counts :: "segment_ledger \<Rightarrow> segment_ledger" where
  "sync_counts L = L\<lparr>lg_counts := counts_of L\<rparr>"

definition ledger_new :: "nat \<Rightarrow> segment_ledger" where
  "ledger_new now =
     sync_counts \<lparr>lg_resume_from = [], lg_dl_carry = [], lg_dl_carry_max_bytes = DL_CARRY_MAX_BYTES,
       lg_confirm_pending = [], lg_quarantine_pending = [], lg_parked = [], lg_local_read_failures = [],
       lg_not_before = [], lg_panic_count = [], lg_in_flight = None, lg_attempt_started = now,
       lg_counts = \<lparr>lc_confirm_pending = 0, lc_quarantine_pending = 0, lc_parked_by_reason = [0, 0, 0],
                    lc_cooling_down = 0, lc_resume_cursors = 0, lc_dl_carry_bytes = 0\<rparr>\<rparr>"

definition file_identity :: "path \<Rightarrow> world \<Rightarrow> nat option \<times> world" where
  "file_identity p w = (case io_step w of (IoFail _, w) \<Rightarrow> (None, w) | (_, w) \<Rightarrow> (w_entry w p, w))"

definition errno_class :: "nat \<Rightarrow> err_class" where
  "errno_class errno =
     (if errno \<in> {24, 23, 12, 105, 11, 4} then ClassProcess      \<comment> \<open>EMFILE, ENFILE, ENOMEM, ENOBUFS, EAGAIN, EINTR\<close>
      else if errno \<in> {13, 1, 21, 20, 40} then ClassAccess        \<comment> \<open>EACCES, EPERM, EISDIR, ENOTDIR, ELOOP\<close>
      else ClassMedia)"

definition classify :: "io_kind \<Rightarrow> err_class" where
  "classify k = (case k of OtherIo errno \<Rightarrow> errno_class errno | _ \<Rightarrow> ClassMedia)"

definition ledger_admit ::
  "segment_ledger \<Rightarrow> path \<Rightarrow> nat \<Rightarrow> world \<Rightarrow> admit \<times> segment_ledger \<times> world"
where
  "ledger_admit L path now w =
     (if map_of (lg_confirm_pending L) path \<noteq> None then (AdmitDrop OwnConfirmPending, L, w)
      else if map_of (lg_quarantine_pending L) path \<noteq> None then (AdmitDrop OwnQuarantinePending, L, w)
      else if map_of (lg_parked L) path \<noteq> None then (AdmitDrop OwnParked, L, w)
      else if (case map_of (lg_not_before L) path of Some at \<Rightarrow> now < at | None \<Rightarrow> False)
      then (AdmitDrop OwnCoolingDown, L, w)
      else
        let L = (case map_of (lg_not_before L) path of
                   Some _ \<Rightarrow> sync_counts (L\<lparr>lg_not_before := AList.delete path (lg_not_before L)\<rparr>)
                 | None \<Rightarrow> L) in
        case map_of (lg_resume_from L) path of
          None \<Rightarrow> (AdmitProcess 0, L, w)
        | Some cursor \<Rightarrow>
            (case file_identity path w of
               (ino, w) \<Rightarrow>
                 if ino = Some (rc_ino cursor) then (AdmitProcess (rc_processed cursor), L, w)
                 else (AdmitProcess 0, sync_counts (L\<lparr>lg_resume_from := AList.delete path (lg_resume_from L)\<rparr>), w)))"

definition ledger_excludes :: "segment_ledger \<Rightarrow> path \<Rightarrow> nat \<Rightarrow> bool" where
  "ledger_excludes L path now \<longleftrightarrow>
     map_of (lg_confirm_pending L) path \<noteq> None \<or> map_of (lg_quarantine_pending L) path \<noteq> None \<or>
     map_of (lg_parked L) path \<noteq> None \<or>
     (case map_of (lg_not_before L) path of Some at \<Rightarrow> now < at | None \<Rightarrow> False)"

definition checked_skip :: "segment_ledger \<Rightarrow> path \<Rightarrow> nat \<Rightarrow> world \<Rightarrow> nat \<times> segment_ledger \<times> world" where
  "checked_skip L path skip w =
     (if skip = 0 then (0, L, w)
      else case map_of (lg_resume_from L) path of
        None \<Rightarrow> (skip, L, w)
      | Some cursor \<Rightarrow>
          (case file_identity path w of
             (Some ino, w) \<Rightarrow>
               if ino \<noteq> rc_ino cursor
               then (0, sync_counts (L\<lparr>lg_resume_from := AList.delete path (lg_resume_from L)\<rparr>), w)
               else (skip, L, w)
           | (None, w) \<Rightarrow> (skip, L, w)))"

definition record_progress :: "segment_ledger \<Rightarrow> path \<Rightarrow> nat \<Rightarrow> world \<Rightarrow> segment_ledger \<times> world" where
  "record_progress L path processed w =
     (if processed = 0 then (L, w)
      else case file_identity path w of
        (Some ino, w) \<Rightarrow>
          (sync_counts (L\<lparr>lg_resume_from :=
             AList.update path \<lparr>rc_processed = processed, rc_ino = ino\<rparr> (lg_resume_from L)\<rparr>), w)
      | (None, w) \<Rightarrow> (sync_counts (L\<lparr>lg_resume_from := AList.delete path (lg_resume_from L)\<rparr>), w))"

definition ledger_forget :: "segment_ledger \<Rightarrow> path \<Rightarrow> segment_ledger" where
  "ledger_forget L path =
     sync_counts (L\<lparr>lg_resume_from := AList.delete path (lg_resume_from L),
       lg_dl_carry := AList.delete path (lg_dl_carry L),
       lg_local_read_failures := AList.delete path (lg_local_read_failures L),
       lg_not_before := AList.delete path (lg_not_before L),
       lg_panic_count := AList.delete path (lg_panic_count L)\<rparr>)"

definition ledger_park :: "segment_ledger \<Rightarrow> path \<Rightarrow> park_reason \<Rightarrow> segment_ledger" where
  "ledger_park L path why = ledger_forget (L\<lparr>lg_parked := AList.update path why (lg_parked L)\<rparr>) path"

definition begin_attempt :: "segment_ledger \<Rightarrow> path \<Rightarrow> nat \<Rightarrow> segment_ledger" where
  "begin_attempt L path now = L\<lparr>lg_in_flight := Some path, lg_attempt_started := now\<rparr>"

definition end_attempt :: "segment_ledger \<Rightarrow> segment_ledger" where
  "end_attempt L = L\<lparr>lg_in_flight := None\<rparr>"

definition u32_sat_inc :: "nat \<Rightarrow> nat" where
  "u32_sat_inc n = min (n + 1) (2 ^ 32 - 1)"

definition note_drain_panic :: "segment_ledger \<Rightarrow> (path \<times> nat) option \<times> segment_ledger" where
  "note_drain_panic L =
     (case lg_in_flight L of
        None \<Rightarrow> (None, L)
      | Some path \<Rightarrow>
          let panics = u32_sat_inc (case map_of (lg_panic_count L) path of Some n \<Rightarrow> n | None \<Rightarrow> 0);
              L = L\<lparr>lg_in_flight := None, lg_panic_count := AList.update path panics (lg_panic_count L)\<rparr> in
          (Some (path, panics), if panics \<ge> DRAIN_PANIC_PARK_LIMIT then ledger_park L path DrainPanic else L))"

definition local_read_count :: "segment_ledger \<Rightarrow> path \<Rightarrow> nat" where
  "local_read_count L path = (case map_of (lg_local_read_failures L) path of Some f \<Rightarrow> lr_count f | None \<Rightarrow> 0)"

definition note_local_read_failure ::
  "segment_ledger \<Rightarrow> path \<Rightarrow> err_class \<Rightarrow> nat \<Rightarrow> nat \<times> segment_ledger"
where
  "note_local_read_failure L path cls now =
     (if cls = ClassProcess then (local_read_count L path, L)
      else let f = (case map_of (lg_local_read_failures L) path of
                      Some f \<Rightarrow> f | None \<Rightarrow> \<lparr>lr_count = 0, lr_first_at = now\<rparr>);
               f = f\<lparr>lr_count := u32_sat_inc (lr_count f)\<rparr> in
           (lr_count f, L\<lparr>lg_local_read_failures := AList.update path f (lg_local_read_failures L)\<rparr>))"

text \<open>\<open>saturating_duration_since\<close> is subtraction of naturals.\<close>

definition local_read_failing_for :: "segment_ledger \<Rightarrow> path \<Rightarrow> nat" where
  "local_read_failing_for L path =
     (case map_of (lg_local_read_failures L) path of Some f \<Rightarrow> lg_attempt_started L - lr_first_at f | None \<Rightarrow> 0)"

definition set_dl_carry ::
  "segment_ledger \<Rightarrow> path \<Rightarrow> dead_letter_carry \<Rightarrow> world \<Rightarrow> bool \<times> segment_ledger \<times> world"
where
  "set_dl_carry L path carry w =
     (let others = carry_sum (filter (\<lambda>(p, _). p \<noteq> path) (lg_dl_carry L)) in
      case file_identity path w of
        (ino, w) \<Rightarrow>
          (case ino of
             Some i \<Rightarrow>
               if u64_saturating_add others (ca_bytes carry) \<le> lg_dl_carry_max_bytes L
               then (True, sync_counts (L\<lparr>lg_dl_carry :=
                       AList.update path \<lparr>pc_carry = carry, pc_ino = i\<rparr> (lg_dl_carry L)\<rparr>), w)
               else (False, sync_counts (L\<lparr>lg_dl_carry := AList.delete path (lg_dl_carry L)\<rparr>), w)
           | None \<Rightarrow> (False, sync_counts (L\<lparr>lg_dl_carry := AList.delete path (lg_dl_carry L)\<rparr>), w)))"

definition take_dl_carry ::
  "segment_ledger \<Rightarrow> path \<Rightarrow> world \<Rightarrow> dead_letter_carry option \<times> segment_ledger \<times> world"
where
  "take_dl_carry L path w =
     (case map_of (lg_dl_carry L) path of
        None \<Rightarrow> (None, L, w)
      | Some pinned \<Rightarrow>
          let L = sync_counts (L\<lparr>lg_dl_carry := AList.delete path (lg_dl_carry L)\<rparr>) in
          case file_identity path w of
            (ino, w) \<Rightarrow> (if ino = Some (pc_ino pinned) then Some (pc_carry pinned) else None, L, w))"

definition set_not_before :: "segment_ledger \<Rightarrow> path \<Rightarrow> nat \<Rightarrow> segment_ledger" where
  "set_not_before L path at = sync_counts (L\<lparr>lg_not_before := AList.update path at (lg_not_before L)\<rparr>)"

definition note_confirm_outcome :: "segment_ledger \<Rightarrow> path \<Rightarrow> confirm_outcome \<Rightarrow> nat \<Rightarrow> segment_ledger" where
  "note_confirm_outcome L path outcome record_count =
     (let own = (\<lambda>stage. sync_counts (L\<lparr>lg_confirm_pending :=
                   AList.update path \<lparr>cp_stage = stage, cp_record_count = record_count\<rparr> (lg_confirm_pending L)\<rparr>)) in
      case outcome of
        ConfirmDone \<Rightarrow> L
      | SidecarFailed \<Rightarrow> own StageSidecar
      | DeleteFailed \<Rightarrow> own StageDelete)"

definition note_quarantine_pending :: "segment_ledger \<Rightarrow> path \<Rightarrow> string \<Rightarrow> segment_ledger" where
  "note_quarantine_pending L path reason =
     ledger_forget (L\<lparr>lg_quarantine_pending := AList.update path reason (lg_quarantine_pending L)\<rparr>) path"

section \<open>Retrying dispositions\<close>

text \<open>\<open>move_to_quarantine\<close> of \<open>drain/mod.rs\<close>.\<close>

definition move_to_quarantine ::
  "path \<Rightarrow> bytes \<Rightarrow> world \<Rightarrow> drain_metrics \<Rightarrow> (io_kind + unit) \<times> world \<times> drain_metrics"
where
  "move_to_quarantine segment wab_dir w m =
     (case quarantine segment wab_dir w of
        (Inr _, w) \<Rightarrow> (Ok (), w, m\<lparr>dm_quarantined := dm_quarantined m + 1\<rparr>)
      | (Inl qe, w) \<Rightarrow>
          (case fs_stat_len segment w of
             (Inl k, w) \<Rightarrow> (if k = NotFound then Ok () else Err qe, w, m)
           | (Inr _, w) \<Rightarrow> (Err qe, w, m)))"

fun retry_quarantines ::
  "(path \<times> string) list \<Rightarrow> bytes \<Rightarrow> world \<Rightarrow> drain_metrics \<Rightarrow> path list \<times> world \<times> drain_metrics"
where
  "retry_quarantines [] wab_dir w m = ([], w, m)"
| "retry_quarantines ((path, reason) # rest) wab_dir w m =
     (case move_to_quarantine path wab_dir w m of
        (x, w, m) \<Rightarrow>
          (case retry_quarantines rest wab_dir w m of
             (moved, w, m) \<Rightarrow> (case x of Inr _ \<Rightarrow> path # moved | Inl _ \<Rightarrow> moved, w, m)))"

text \<open>Every pending confirm with its new stage, the finished ones dropped.\<close>

fun retry_confirms ::
  "(bytes \<Rightarrow> u32) \<Rightarrow> (path \<times> confirm_pending) list \<Rightarrow> world \<Rightarrow> drain_metrics \<Rightarrow>
   (path \<times> confirm_pending) list \<times> world \<times> drain_metrics"
where
  "retry_confirms crc [] w m = ([], w, m)"
| "retry_confirms crc ((path, pending) # rest) w m =
     (case (case cp_stage pending of
              StageSidecar \<Rightarrow> confirm_and_delete crc path (of_nat (cp_record_count pending)) w m
            | StageDelete \<Rightarrow> delete_confirmed_segment path w m) of
        (outcome, w, m) \<Rightarrow>
          (case retry_confirms crc rest w m of
             (left, w, m) \<Rightarrow>
               (case outcome of
                  ConfirmDone \<Rightarrow> left
                | SidecarFailed \<Rightarrow> (path, pending) # left
                | DeleteFailed \<Rightarrow> (path, pending\<lparr>cp_stage := StageDelete\<rparr>) # left, w, m)))"

definition retry_dispositions ::
  "(bytes \<Rightarrow> u32) \<Rightarrow> segment_ledger \<Rightarrow> bytes \<Rightarrow> world \<Rightarrow> drain_metrics \<Rightarrow>
   segment_ledger \<times> world \<times> drain_metrics"
where
  "retry_dispositions crc L wab_dir w m =
     (if lg_confirm_pending L = [] \<and> lg_quarantine_pending L = [] then (L, w, m)
      else case retry_confirms crc (lg_confirm_pending L) w m of
        (left, w, m) \<Rightarrow>
      case retry_quarantines (lg_quarantine_pending L) wab_dir w m of
        (moved, w, m) \<Rightarrow>
          (sync_counts (L\<lparr>lg_confirm_pending := left,
             lg_quarantine_pending := filter (\<lambda>(p, _). p \<notin> set moved) (lg_quarantine_pending L)\<rparr>), w, m))"

section \<open>Well-formed ledgers\<close>

definition ledger_wf :: "segment_ledger \<Rightarrow> bool" where
  "ledger_wf L \<longleftrightarrow>
     distinct (map fst (lg_resume_from L)) \<and> distinct (map fst (lg_dl_carry L)) \<and>
     distinct (map fst (lg_confirm_pending L)) \<and> distinct (map fst (lg_quarantine_pending L)) \<and>
     distinct (map fst (lg_parked L)) \<and> distinct (map fst (lg_local_read_failures L)) \<and>
     distinct (map fst (lg_not_before L)) \<and> distinct (map fst (lg_panic_count L)) \<and>
     lg_counts L = counts_of L \<and> lg_dl_carry_max_bytes L = DL_CARRY_MAX_BYTES \<and>
     carry_sum (lg_dl_carry L) \<le> DL_CARRY_MAX_BYTES"

text \<open>One operation of the ledger, on any path and in any world.\<close>

inductive ledger_step :: "(bytes \<Rightarrow> u32) \<Rightarrow> segment_ledger \<Rightarrow> segment_ledger \<Rightarrow> bool" for crc where
  admit_step: "ledger_admit L p now w = (a, L', w') \<Longrightarrow> ledger_step crc L L'"
| skip_step: "checked_skip L p skip w = (n, L', w') \<Longrightarrow> ledger_step crc L L'"
| progress_step: "record_progress L p n w = (L', w') \<Longrightarrow> ledger_step crc L L'"
| forget_step: "ledger_step crc L (ledger_forget L p)"
| park_step: "ledger_step crc L (ledger_park L p why)"
| begin_step: "ledger_step crc L (begin_attempt L p now)"
| end_step: "ledger_step crc L (end_attempt L)"
| panic_step: "note_drain_panic L = (x, L') \<Longrightarrow> ledger_step crc L L'"
| read_step: "note_local_read_failure L p cls now = (n, L') \<Longrightarrow> ledger_step crc L L'"
| set_carry_step: "set_dl_carry L p carry w = (b, L', w') \<Longrightarrow> ledger_step crc L L'"
| take_carry_step: "take_dl_carry L p w = (c, L', w') \<Longrightarrow> ledger_step crc L L'"
| cool_step: "ledger_step crc L (set_not_before L p at)"
| confirm_step: "ledger_step crc L (note_confirm_outcome L p outcome n)"
| quarantine_step: "ledger_step crc L (note_quarantine_pending L p reason)"
| retry_step: "retry_dispositions crc L wab w m = (L', w', m') \<Longrightarrow> ledger_step crc L L'"

lemma carry_sum_filter: "carry_sum (filter P cs) \<le> carry_sum cs"
  by (induction cs) (auto simp: carry_sum_def)

lemma carry_sum_delete: "carry_sum (AList.delete p cs) \<le> carry_sum cs"
  using carry_sum_filter by (simp add: AList.delete_eq)

lemma carry_sum_update:
  "distinct (map fst cs) \<Longrightarrow>
   carry_sum (AList.update p c cs) = carry_sum (filter (\<lambda>(q, _). q \<noteq> p) cs) + ca_bytes (pc_carry c)"
proof (induction cs)
  case (Cons e cs)
  obtain q d where e: "e = (q, d)" by (cases e)
  have "filter (\<lambda>(q, _). q \<noteq> p) cs = cs" if "q = p" "p \<notin> fst ` set cs"
    using that by (intro filter_True) force
  then show ?case using Cons by (auto simp: e carry_sum_def)
qed (simp add: carry_sum_def)

lemma counts_sync [simp]:
  "lg_counts (sync_counts L) = counts_of (sync_counts L)" "lg_resume_from (sync_counts L) = lg_resume_from L"
  "lg_dl_carry (sync_counts L) = lg_dl_carry L" "lg_dl_carry_max_bytes (sync_counts L) = lg_dl_carry_max_bytes L"
  "lg_confirm_pending (sync_counts L) = lg_confirm_pending L" "lg_quarantine_pending (sync_counts L) = lg_quarantine_pending L"
  "lg_parked (sync_counts L) = lg_parked L" "lg_local_read_failures (sync_counts L) = lg_local_read_failures L"
  "lg_not_before (sync_counts L) = lg_not_before L" "lg_panic_count (sync_counts L) = lg_panic_count L"
  "lg_in_flight (sync_counts L) = lg_in_flight L" "lg_attempt_started (sync_counts L) = lg_attempt_started L"
  by (simp_all add: sync_counts_def counts_of_def)

text \<open>The changes to the maps, once for all operations.\<close>

lemma ledger_wf_sync:
  assumes "ledger_wf L"
  shows "ledger_wf (sync_counts (L\<lparr>lg_resume_from := AList.delete p (lg_resume_from L)\<rparr>))"
    "ledger_wf (sync_counts (L\<lparr>lg_resume_from := AList.update p c (lg_resume_from L)\<rparr>))"
    "ledger_wf (sync_counts (L\<lparr>lg_dl_carry := AList.delete p (lg_dl_carry L)\<rparr>))"
    "ledger_wf (sync_counts (L\<lparr>lg_not_before := AList.delete p (lg_not_before L)\<rparr>))"
    "ledger_wf (sync_counts (L\<lparr>lg_not_before := AList.update p n (lg_not_before L)\<rparr>))"
    "ledger_wf (sync_counts (L\<lparr>lg_confirm_pending := AList.update p q (lg_confirm_pending L)\<rparr>))"
  using assms carry_sum_delete [of p "lg_dl_carry L"]
  by (simp_all add: ledger_wf_def AList.distinct_update AList.distinct_delete)

lemma ledger_wf_fields:
  assumes "ledger_wf L" shows "ledger_wf (L\<lparr>lg_in_flight := f\<rparr>)" "ledger_wf (L\<lparr>lg_attempt_started := n\<rparr>)"
    "ledger_wf (L\<lparr>lg_in_flight := f, lg_panic_count := AList.update p k (lg_panic_count L)\<rparr>)"
    "ledger_wf (L\<lparr>lg_local_read_failures := AList.update p r (lg_local_read_failures L)\<rparr>)"
  using assms by (simp_all add: ledger_wf_def counts_of_def AList.distinct_update)

lemma ledger_wf_forget_any: "ledger_wf L \<Longrightarrow> ledger_wf (ledger_forget L p)"
  using carry_sum_delete [of p "lg_dl_carry L"] by (simp add: ledger_forget_def ledger_wf_def AList.distinct_delete)

lemma ledger_wf_aside:
  assumes "ledger_wf L"
  shows "ledger_wf (ledger_park L p why)" "ledger_wf (note_quarantine_pending L p reason)"
  using assms carry_sum_delete [of p "lg_dl_carry L"]
  by (simp_all add: ledger_park_def note_quarantine_pending_def ledger_forget_def ledger_wf_def AList.distinct_update AList.distinct_delete)

lemma distinct_subseq: "subseq xs ys \<Longrightarrow> distinct ys \<Longrightarrow> distinct xs"
  by (induction rule: list_emb.induct) (auto dest: set_subseq)

lemma retry_confirms_keys: "subseq (map fst (fst (retry_confirms crc cs w m))) (map fst cs)"
proof (induction cs arbitrary: w m)
  case (Cons c cs)
  obtain p q where c: "c = (p, q)" by (cases c)
  obtain out v k where o: "(case cp_stage q of StageSidecar \<Rightarrow> confirm_and_delete crc p (of_nat (cp_record_count q)) w m
      | StageDelete \<Rightarrow> delete_confirmed_segment p w m) = (out, v, k)" by (metis prod_cases3)
  obtain l v' k' where r: "retry_confirms crc cs v k = (l, v', k')" by (metis prod_cases3)
  have "subseq (map fst l) (map fst cs)" using Cons [of v k] r by simp
  then show ?case by (cases out) (auto simp: c o r)
qed simp

lemma ledger_step_wf: "ledger_step crc L L' \<Longrightarrow> ledger_wf L \<Longrightarrow> ledger_wf L'"
proof (induction rule: ledger_step.induct)
  case (admit_step L p now w a L' w')
  have "ledger_wf (sync_counts (sync_counts (L\<lparr>lg_not_before := AList.delete p (lg_not_before L)\<rparr>)
      \<lparr>lg_resume_from := AList.delete p (lg_resume_from L)\<rparr>))"
    using ledger_wf_sync(1) [OF ledger_wf_sync(4) [OF admit_step.prems, of p], of p] by simp
  then show ?case using admit_step
    by (auto simp: ledger_admit_def Let_def intro: ledger_wf_sync split: if_splits option.splits prod.splits)
next
  case (skip_step L p skip w n L' w')
  then show ?case by (auto simp: checked_skip_def intro: ledger_wf_sync split: if_splits option.splits prod.splits)
next
  case (progress_step L p n w L' w')
  then show ?case by (auto simp: record_progress_def intro: ledger_wf_sync split: if_splits option.splits prod.splits)
next
  case (panic_step L x L')
  then show ?case
    by (auto simp: note_drain_panic_def Let_def intro!: ledger_wf_aside ledger_wf_fields split: option.splits if_splits)
next
  case (read_step L p cls now n L')
  then show ?case by (auto simp: note_local_read_failure_def Let_def intro: ledger_wf_fields split: if_splits)
next
  case (set_carry_step L p carry w b L' w')
  have "carry_sum (AList.update p \<lparr>pc_carry = carry, pc_ino = i\<rparr> (lg_dl_carry L)) \<le> DL_CARRY_MAX_BYTES"
    if "u64_saturating_add (carry_sum (filter (\<lambda>(q, _). q \<noteq> p) (lg_dl_carry L))) (ca_bytes carry) \<le> DL_CARRY_MAX_BYTES" for i
    using that set_carry_step.prems
    by (simp add: ledger_wf_def carry_sum_update u64_saturating_add_def DL_CARRY_MAX_BYTES_def min_def split: if_splits)
  then have "ledger_wf (sync_counts (L\<lparr>lg_dl_carry := AList.update p \<lparr>pc_carry = carry, pc_ino = i\<rparr> (lg_dl_carry L)\<rparr>))"
    if "u64_saturating_add (carry_sum (filter (\<lambda>(q, _). q \<noteq> p) (lg_dl_carry L))) (ca_bytes carry) \<le> lg_dl_carry_max_bytes L" for i
    using that set_carry_step.prems by (simp add: ledger_wf_def AList.distinct_update)
  then show ?case using set_carry_step
    by (auto simp: set_dl_carry_def Let_def intro: ledger_wf_sync split: if_splits option.splits prod.splits)
next
  case (take_carry_step L p w c L' w')
  then show ?case by (auto simp: take_dl_carry_def Let_def intro: ledger_wf_sync split: option.splits prod.splits)
next
  case (confirm_step L p outcome n)
  then show ?case by (cases outcome) (simp_all add: note_confirm_outcome_def Let_def ledger_wf_sync)
next
  case (retry_step L wab w m L' w' m')
  obtain l v k where r: "retry_confirms crc (lg_confirm_pending L) w m = (l, v, k)" by (metis prod_cases3)
  have "distinct (map fst l)"
    using distinct_subseq [OF retry_confirms_keys [of crc "lg_confirm_pending L" w m]] r retry_step.prems by (simp add: ledger_wf_def)
  moreover have "distinct (map fst (filter P (lg_quarantine_pending L)))" for P
    by (rule distinct_map_filter) (use retry_step.prems in \<open>simp add: ledger_wf_def\<close>)
  ultimately show ?case using retry_step r
    by (auto simp: retry_dispositions_def ledger_wf_def split: if_splits prod.splits)
qed (simp_all add: ledger_wf_forget_any ledger_wf_aside begin_attempt_def end_attempt_def ledger_wf_fields set_not_before_def ledger_wf_sync)

section \<open>Retried confirms\<close>

text \<open>
  The links of the store: inode numbers are fresh, no file has two names, and a file under a
  temporary sidecar name has never been durable under another name.
\<close>

abbreviation tmp_name :: "path \<Rightarrow> bool" where "tmp_name t \<equiv> ends_with (snd t) EXT_CONFIRMED_TMP"

definition store_links :: "world \<Rightarrow> bool" where
  "store_links w \<longleftrightarrow>
     (\<forall>q i. w_entry w q = Some i \<longrightarrow> i < w_next w) \<and> (\<forall>q i. w_ddir w q = Some i \<longrightarrow> i < w_next w) \<and>
     (\<forall>a b i. w_entry w a = Some i \<longrightarrow> w_entry w b = Some i \<longrightarrow> a = b) \<and>
     (\<forall>t q i. tmp_name t \<longrightarrow> w_entry w t = Some i \<longrightarrow> w_ddir w q = Some i \<longrightarrow> q = t)"

lemma store_linksD:
  assumes "store_links w"
  shows "w_entry w q = Some i \<Longrightarrow> i < w_next w" "w_ddir w q = Some i \<Longrightarrow> i < w_next w"
    "w_entry w a = Some i \<Longrightarrow> w_entry w b = Some i \<Longrightarrow> a = b"
    "tmp_name t \<Longrightarrow> w_entry w t = Some i \<Longrightarrow> w_ddir w q = Some i \<Longrightarrow> q = t"
  using assms unfolding store_links_def by blast+

lemma links_private: "store_links w \<Longrightarrow> tmp_name t \<Longrightarrow> tmp_private t w"
  using store_linksD unfolding tmp_private_def by metis

lemma links_same:
  assumes "store_links w" "w_entry w' = w_entry w" "w_ddir w' = w_ddir w" "w_next w' = w_next w"
  shows "store_links w'"
  using assms by (simp only: store_links_def)

lemma links_fewer:
  assumes l: "store_links w" and e: "\<And>q i. w_entry w' q = Some i \<Longrightarrow> w_entry w q = Some i"
    and d: "\<And>q i. w_ddir w' q = Some i \<Longrightarrow> w_entry w q = Some i \<or> w_ddir w q = Some i" and n: "w_next w' = w_next w"
  shows "store_links w'"
  unfolding store_links_def n
proof (intro conjI allI impI)
  show "w_entry w' q = Some i \<Longrightarrow> i < w_next w" for q i using e store_linksD(1) [OF l] by blast
  show "w_ddir w' q = Some i \<Longrightarrow> i < w_next w" for q i using d store_linksD(1,2) [OF l] by blast
  show "w_entry w' a = Some i \<Longrightarrow> w_entry w' b = Some i \<Longrightarrow> a = b" for a b i using e store_linksD(3) [OF l] by blast
  show "tmp_name t \<Longrightarrow> w_entry w' t = Some i \<Longrightarrow> w_ddir w' q = Some i \<Longrightarrow> q = t" for t q i
    using e d store_linksD(3,4) [OF l] by blast
qed

lemma links_tick: "store_links w \<Longrightarrow> store_links (io_tick w)"
  by (rule links_same) simp_all

lemma links_write_all: "store_links w \<Longrightarrow> fs_write_all i bs w = (x, w') \<Longrightarrow> store_links w'"
  by (drule fs_write_all_effect, elim exE conjE, rule links_same) (simp_all add: w_append_def)

lemma links_sync_data: "store_links w \<Longrightarrow> fs_sync_data i w = (x, w') \<Longrightarrow> store_links w'"
  by (drule fs_sync_data_effect, elim disjE conjE) (auto intro: links_same)

lemma links_create:
  assumes l: "store_links w" and run: "fs_create p w = (x, w')" shows "store_links w'"
proof (cases x)
  case (Inl k)
  then show ?thesis using fs_create_effect(1) [OF run Inl] links_tick [OF l] by simp
next
  case (Inr f)
  note c = fs_create_effect(2-4) [OF run Inr]
  show ?thesis
  proof (cases "w_entry w p")
    case None
    then have f: "f = w_next w" using c(1) by simp
    have n: "w_next w' = Suc (w_next w)" using run None Inr by (auto simp: fs_create_def io_step_tick split: io_outcome.splits)
    have d: "w_ddir w' = w_ddir w" using c(3) by blast
    have e: "w_entry w' q = (if q = p then Some (w_next w) else w_entry w q)" for q using c(2) f by simp
    have b: "w_entry w q \<noteq> Some (w_next w)" "w_ddir w q \<noteq> Some (w_next w)" for q
      using store_linksD(1,2) [OF l, of q "w_next w"] by auto
    show ?thesis unfolding store_links_def n d e
    proof (intro conjI allI impI)
      show "(if q = p then Some (w_next w) else w_entry w q) = Some i \<Longrightarrow> i < Suc (w_next w)" for q i
        using store_linksD(1) [OF l, of q i] by (auto split: if_splits)
      show "w_ddir w q = Some i \<Longrightarrow> i < Suc (w_next w)" for q i using store_linksD(2) [OF l, of q i] by simp
      show "a = b'" if "(if a = p then Some (w_next w) else w_entry w a) = Some i" "(if b' = p then Some (w_next w) else w_entry w b') = Some i" for a b' i
        using that b store_linksD(3) [OF l, of a i b'] by (auto split: if_splits)
      show "q = t" if "tmp_name t" "(if t = p then Some (w_next w) else w_entry w t) = Some i" "w_ddir w q = Some i" for t q i
        using that b store_linksD(4) [OF l, of t i q] by (auto split: if_splits)
    qed
  next
    case (Some i)
    then have "f = i" using c(1) by simp
    then have "w_entry w' = w_entry w" using c(2) Some by (auto simp: fun_eq_iff)
    moreover have "w_next w' = w_next w" using run Some by (auto simp: fs_create_def io_step_tick split: io_outcome.splits)
    ultimately show ?thesis using c(3) by (intro links_same [OF l]) auto
  qed
qed

lemma links_sync_dir: "store_links w \<Longrightarrow> fs_sync_dir d w = (x, w') \<Longrightarrow> store_links w'"
  by (drule fs_sync_dir_effect, rule links_fewer, assumption) (auto split: if_splits)

lemma links_remove: "store_links w \<Longrightarrow> fs_remove_file p w = (x, w') \<Longrightarrow> store_links w'"
  by (drule fs_remove_file_effect, rule links_fewer, assumption) (auto split: if_splits)

lemma links_rename:
  assumes l: "store_links w" and run: "fs_rename a b w = (x, w')" and b: "\<not> tmp_name b" shows "store_links w'"
  using fs_rename_effect [OF run]
proof (elim disjE exE conjE)
  assume "w' = io_tick w" then show ?thesis using links_tick [OF l] by simp
next
  fix j assume j: "w_entry w a = Some j" and w': "w' = (io_tick w)\<lparr>w_dir := AList.update b j (AList.delete a (w_dir w))\<rparr>"
  have e: "w_entry w' q = (if q = b then Some j else if q = a then None else w_entry w q)" "w_next w' = w_next w" "w_ddir w' = w_ddir w" for q
    by (simp_all add: w')
  show ?thesis unfolding store_links_def e
  proof (intro conjI allI impI)
    show "(if q = b then Some j else if q = a then None else w_entry w q) = Some i \<Longrightarrow> i < w_next w" for q i
      using store_linksD(1) [OF l, of q i] store_linksD(1) [OF l j] by (auto split: if_splits)
    show "w_ddir w q = Some i \<Longrightarrow> i < w_next w" for q i using store_linksD(2) [OF l, of q i] .
    show "c = d" if "(if c = b then Some j else if c = a then None else w_entry w c) = Some i"
      "(if d = b then Some j else if d = a then None else w_entry w d) = Some i" for c d i
      using that store_linksD(3) [OF l] j by (metis option.distinct(1) option.inject)
    show "q = t" if "tmp_name t" "(if t = b then Some j else if t = a then None else w_entry w t) = Some i" "w_ddir w q = Some i" for t q i
      using that b store_linksD(4) [OF l, of t i q] by (auto split: if_splits)
  qed
qed

lemma tmp_names:
  assumes "sealed_name p"
  shows "tmp_name (confirmed_tmp_path (confirmed_path p))" "\<not> tmp_name (confirmed_path p)"
proof -
  show "tmp_name (confirmed_tmp_path (confirmed_path p))"
    using confirmed_path_ext(1) [OF assms]
    by (auto simp: confirmed_tmp_path_def EXT_CONFIRMED_TMP_def EXT_CONFIRMED_def ends_with_def suffix_def ascii_def)
  show "\<not> tmp_name (confirmed_path p)" using name_kinds_apart(2) confirmed_path_ext(1) [OF assms] by blast
qed

lemma links_write_confirmed:
  assumes l: "store_links w" and run: "write_confirmed_file crc p n w = (x, w')" and p: "sealed_name p"
  shows "store_links w'"
proof -
  let ?c = "confirmed_path p" and ?t = "confirmed_tmp_path (confirmed_path p)"
  obtain y v where rd: "read_sealed_at_nanos p w = (y, v)" by fastforce
  obtain k where v: "v = w\<lparr>w_tick := k\<rparr>" using read_sealed_at_idle [OF rd] by blast
  have lv: "store_links v" by (rule links_same [OF l]) (simp_all add: v)
  have tmp: "store_links u" if wr: "write_tmp_then_rename ?c ?t b v = (z, u)" for b z u
  proof -
    obtain y1 w1 where s1: "fs_create ?t v = (y1, w1)" by fastforce
    have l1: "store_links w1" by (rule links_create [OF lv s1])
    show ?thesis
    proof (cases y1)
      case (Inl k)
      then show ?thesis using wr s1 l1 by (simp add: write_tmp_then_rename_def)
    next
      case (Inr f)
      obtain y2 w2 where s2: "fs_write_all f b w1 = (y2, w2)" by fastforce
      obtain y3 w3 where s3: "fs_sync_data f w2 = (y3, w3)" by fastforce
      obtain y4 w4 where s4: "fs_rename ?t ?c w3 = (y4, w4)" by fastforce
      obtain y5 w5 where s5: "fs_sync_dir (fst ?c) w4 = (y5, w5)" by fastforce
      have l2: "store_links w2" by (rule links_write_all [OF l1 s2])
      have l3: "store_links w3" by (rule links_sync_data [OF l2 s3])
      have l4: "store_links w4" by (rule links_rename [OF l3 s4 tmp_names(2) [OF p]])
      have l5: "store_links w5" by (rule links_sync_dir [OF l4 s5])
      show ?thesis using wr s1 Inr s2 s3 s4 s5 l1 l2 l3 l4 l5 by (auto simp: write_tmp_then_rename_def split: sum.splits)
    qed
  qed
  obtain z u where wr: "write_tmp_then_rename ?c ?t (build_confirmed crc (case y of Inr t \<Rightarrow> t | Inl _ \<Rightarrow> 0) n (unix_nanos_now v)) v = (z, u)"
    by fastforce
  obtain y2 u2 where rm: "fs_remove_file ?t u = (y2, u2)" by fastforce
  have "w' = u \<or> w' = u2"
    using run rd wr rm by (auto simp: write_confirmed_file_def write_confirmed_durably_def Let_def split: sum.splits)
  then show ?thesis using tmp [OF wr] links_remove [OF tmp [OF wr] rm] by auto
qed

text \<open>A sidecar write for one segment leaves the sidecars and names of the others alone.\<close>

lemma write_confirmed_others:
  assumes l: "store_links w" and run: "write_confirmed_file crc p n w = (x, w')" and p: "sealed_name p"
    and q: "sealed_name q" "q \<noteq> p"
  shows "w_entry w' q = w_entry w q" "durable_sidecar crc q k w \<Longrightarrow> durable_sidecar crc q k w'"
proof -
  let ?c = "confirmed_path p" and ?t = "confirmed_tmp_path (confirmed_path p)" and ?d = "confirmed_path q"
  have priv: "tmp_private ?t w" by (rule links_private [OF l tmp_names(1) [OF p]])
  obtain s d where st: "side_step ?t ?c (build_confirmed crc s n d) w w'" using write_confirmed_file_effect(1) [OF run priv] by blast
  have apart: "q \<noteq> ?t" "q \<noteq> ?c" "?d \<noteq> ?t" "?d \<noteq> ?c"
    using tmp_names [OF p] tmp_names(2) [OF q(1)] name_kinds_apart(1,3) q confirmed_path_ext(1) [OF p] confirmed_path_inj [OF q(1) p] by metis+
  show "w_entry w' q = w_entry w q" using st apart(1,2) unfolding side_step_def by blast
  assume "durable_sidecar crc q k w"
  then obtain j c where j: "w_entry w ?d = Some j" "w_ddir w ?d = Some j" "w_disk w j = w_data w j"
    "parse_confirmed crc (w_data w j) = Ok c" "cm_record_count c = k" unfolding durable_sidecar_def by blast
  have "j < w_next w" "w_entry w ?t \<noteq> Some j" using store_linksD(1,3) [OF l] j(1) apart(3) by metis+
  then have "w_data w' j = w_data w j" "w_disk w' j = w_disk w j" using st unfolding side_step_def by blast+
  moreover have "w_entry w' ?d = Some j" "w_ddir w' ?d = Some j" using st apart(3,4) j(1,2) unfolding side_step_def by metis+
  ultimately show "durable_sidecar crc q k w'" unfolding durable_sidecar_def using j by (intro exI [of _ j] exI [of _ c]) simp
qed

text \<open>What the ledger claims of the confirms it still owes.\<close>

definition pending_sound :: "(bytes \<Rightarrow> u32) \<Rightarrow> (path \<times> confirm_pending) list \<Rightarrow> world \<Rightarrow> bool" where
  "pending_sound crc cs w \<longleftrightarrow> (\<forall>(p, c) \<in> set cs. sealed_name p \<and>
     (cp_stage c = StageDelete \<longrightarrow> durable_sidecar crc p (of_nat (cp_record_count c)) w))"

text \<open>One step keeps the segments and sidecars outside \<open>P\<close>.\<close>

definition keeps_others :: "(bytes \<Rightarrow> u32) \<Rightarrow> path set \<Rightarrow> world \<Rightarrow> world \<Rightarrow> bool" where
  "keeps_others crc P w w' \<longleftrightarrow> store_links w' \<and> (\<forall>q. sealed_name q \<longrightarrow> q \<notin> P \<longrightarrow> w_entry w' q = w_entry w q \<and>
     (\<forall>k. durable_sidecar crc q k w \<longrightarrow> durable_sidecar crc q k w'))"

text \<open>A segment still has its file, or is deleted behind a durable sidecar that states \<open>n\<close>.\<close>

definition kept_or_confirmed :: "(bytes \<Rightarrow> u32) \<Rightarrow> path \<Rightarrow> nat \<Rightarrow> world \<Rightarrow> world \<Rightarrow> bool" where
  "kept_or_confirmed crc p n w w' \<longleftrightarrow> (\<forall>i. w_entry w p = Some i \<longrightarrow>
     w_entry w' p = Some i \<or> w_entry w' p = None \<and> durable_sidecar crc p (of_nat n) w')"

lemma durable_sidecar_tick [simp]: "durable_sidecar crc p n (io_tick w) = durable_sidecar crc p n w"
  by (simp add: durable_sidecar_def)

lemma delete_keeps:
  assumes l: "store_links w" and p: "sealed_name p" and d: "durable_sidecar crc p (of_nat n) w"
    and run: "delete_confirmed_segment p w m = (out, w', m')"
  shows "keeps_others crc {p} w w' \<and> kept_or_confirmed crc p n w w' \<and> durable_sidecar crc p (of_nat n) w'"
proof -
  let ?v = "(io_tick w)\<lparr>w_dir := AList.delete p (w_dir w)\<rparr>"
  have s: "durable_sidecar crc q k ?v" if "durable_sidecar crc q k w" "sealed_name q" for q k
  proof -
    have "confirmed_path q \<noteq> p" using name_kinds_apart(1) confirmed_path_ext(1) [OF that(2)] p by metis
    then show ?thesis using that(1) by (simp add: durable_sidecar_def)
  qed
  have lv: "store_links ?v" by (rule links_fewer [OF l]) (auto split: if_splits)
  note sp = s [OF d p]
  show ?thesis using delete_confirmed_effect [OF run]
  proof (elim disjE conjE)
    assume w': "w' = ?v"
    show ?thesis unfolding keeps_others_def kept_or_confirmed_def w' using lv s sp by (intro conjI allI impI) simp_all
  qed (use links_tick [OF l] d in \<open>simp_all add: keeps_others_def kept_or_confirmed_def\<close>)
qed

lemma confirm_keeps:
  assumes l: "store_links w" and p: "sealed_name p" and run: "confirm_and_delete crc p (of_nat n) w m = (out, w', m')"
  shows "keeps_others crc {p} w w' \<and> kept_or_confirmed crc p n w w' \<and> (out = DeleteFailed \<longrightarrow> durable_sidecar crc p (of_nat n) w')"
proof -
  have lt: "store_links (io_tick w)" by (rule links_tick [OF l])
  have wr: "keeps_others crc {p} w v \<and> w_entry v p = w_entry w p" if r: "write_confirmed_file crc p (of_nat n) (io_tick w) = (y, v)" for y v
  proof -
    have "tmp_private (confirmed_tmp_path (confirmed_path p)) (io_tick w)" by (rule links_private [OF lt tmp_names(1) [OF p]])
    then obtain s d where st: "side_step (confirmed_tmp_path (confirmed_path p)) (confirmed_path p) (build_confirmed crc s (of_nat n) d) (io_tick w) v"
      using write_confirmed_file_effect(1) [OF r] by blast
    have "w_entry v p = w_entry w p" using st sidecar_apart [OF p] unfolding side_step_def by (simp add: eq_commute [of p])
    then show ?thesis using links_write_confirmed [OF lt r p] write_confirmed_others [OF lt r p] by (simp add: keeps_others_def)
  qed
  from run show ?thesis
  proof (cases rule: confirm_cases)
    case absent
    then show ?thesis using lt by (simp add: keeps_others_def kept_or_confirmed_def)
  next
    case failed
    then show ?thesis using wr by (simp add: kept_or_confirmed_def)
  next
    case (written v)
    note w1 = wr [OF written(1)]
    have d: "durable_sidecar crc p (of_nat n) v"
      by (rule write_confirmed_file_effect(2) [OF written(1) links_private [OF lt tmp_names(1) [OF p]]]) simp
    have "store_links v" using w1 by (simp add: keeps_others_def)
    note w2 = delete_keeps [OF this p d written(3)]
    show ?thesis using w1 w2 unfolding keeps_others_def kept_or_confirmed_def by auto
  qed
qed

lemma retry_confirms_keeps:
  assumes "store_links w" "distinct (map fst cs)" "pending_sound crc cs w" "retry_confirms crc cs w m = (left, w', m')"
  shows "keeps_others crc (fst ` set cs) w w' \<and> pending_sound crc left w' \<and>
    (\<forall>(p, c) \<in> set cs. kept_or_confirmed crc p (cp_record_count c) w w')"
  using assms
proof (induction cs arbitrary: w m left w' m')
  case Nil
  then show ?case by (simp add: keeps_others_def pending_sound_def)
next
  case (Cons e cs)
  obtain p c where e: "e = (p, c)" by (cases e)
  let ?n = "cp_record_count c"
  have p: "sealed_name p" "cp_stage c = StageDelete \<Longrightarrow> durable_sidecar crc p (of_nat ?n) w" "p \<notin> fst ` set cs" "distinct (map fst cs)"
    using Cons.prems(2,3) by (auto simp: e pending_sound_def)
  obtain out v k where o: "(case cp_stage c of StageSidecar \<Rightarrow> confirm_and_delete crc p (of_nat ?n) w m
      | StageDelete \<Rightarrow> delete_confirmed_segment p w m) = (out, v, k)" by (metis prod_cases3)
  have one: "keeps_others crc {p} w v \<and> kept_or_confirmed crc p ?n w v \<and>
      (out = DeleteFailed \<or> cp_stage c = StageDelete \<longrightarrow> durable_sidecar crc p (of_nat ?n) v)"
    using o confirm_keeps [OF Cons.prems(1) p(1), of crc ?n m out v k] delete_keeps [OF Cons.prems(1) p(1,2), of m out v k]
    by (auto split: confirm_stage.splits)
  then have lv: "store_links v" by (simp add: keeps_others_def)
  have sealed: "sealed_name q" if "(q, d) \<in> set cs" for q d using that Cons.prems(3) by (auto simp: e pending_sound_def)
  have keep: "w_entry v q = w_entry w q \<and> (\<forall>k. durable_sidecar crc q k w \<longrightarrow> durable_sidecar crc q k v)" if "(q, d) \<in> set cs" for q d
  proof -
    have "q \<notin> {p}" using that p(3) by force
    then show ?thesis using one sealed [OF that] unfolding keeps_others_def by blast
  qed
  have sv: "pending_sound crc cs v" using Cons.prems(3) keep unfolding pending_sound_def e by auto
  obtain l u j where r: "retry_confirms crc cs v k = (l, u, j)" by (metis prod_cases3)
  have w': "w' = u" and left: "left = (case out of ConfirmDone \<Rightarrow> l | SidecarFailed \<Rightarrow> (p, c) # l | DeleteFailed \<Rightarrow> (p, c\<lparr>cp_stage := StageDelete\<rparr>) # l)"
    using Cons.prems(4) o r by (auto simp: e)
  note ih = Cons.IH [OF lv p(4) sv r]
  have pu: "w_entry u p = w_entry v p" "\<And>k. durable_sidecar crc p k v \<Longrightarrow> durable_sidecar crc p k u"
    using ih p(1,3) unfolding keeps_others_def by blast+
  have "keeps_others crc (fst ` set (e # cs)) w u"
    using ih one unfolding keeps_others_def e by simp
  moreover have "pending_sound crc left u"
    using ih p one pu(2) unfolding left pending_sound_def by (cases out) auto
  moreover have "kept_or_confirmed crc p ?n w u" using one pu unfolding kept_or_confirmed_def by auto
  moreover have "kept_or_confirmed crc q (cp_record_count d) w u" if "(q, d) \<in> set cs" for q d
    using ih keep [OF that] that unfolding kept_or_confirmed_def by fastforce
  ultimately show ?case unfolding w' by (auto simp: e)
qed

section \<open>Properties\<close>

text \<open>
  C22: the ledger is well formed in every state it can reach.  From \<open>new\<close>, whatever operations follow in
  whatever order, on any paths and whatever their file calls return: every map has one entry per
  path, the counters published to other threads are the sizes of the maps, and the dead-letter
  payloads held in memory never exceed \<open>DL_CARRY_MAX_BYTES\<close> in total.
\<close>

theorem ledger_well_typed:
  "(ledger_step crc)\<^sup>*\<^sup>* (ledger_new now) L \<Longrightarrow>
   ledger_wf L \<and> lg_counts L = counts_of L \<and> carry_sum (lg_dl_carry L) \<le> 64 * 1024 * 1024"
proof (induction rule: rtranclp_induct)
  case base
  then show ?case by (simp add: ledger_wf_def ledger_new_def DL_CARRY_MAX_BYTES_def carry_sum_def)
next
  case (step L L')
  then have "ledger_wf L'" using ledger_step_wf by blast
  then show ?case by (simp add: ledger_wf_def DL_CARRY_MAX_BYTES_def)
qed

theorem ledger_well_typed_witness:
  "ledger_wf (set_not_before (ledger_park (ledger_new 0) sealed_sample DrainPanic) sealed_sample 9)"
proof -
  have "(ledger_step crc32_hash)\<^sup>*\<^sup>* (ledger_new 0) (set_not_before (ledger_park (ledger_new 0) sealed_sample DrainPanic) sealed_sample 9)"
    by (rule rtranclp.rtrancl_into_rtrancl, rule rtranclp.rtrancl_into_rtrancl, rule rtranclp.rtrancl_refl, rule park_step, rule cool_step)
  from ledger_well_typed [OF this] show ?thesis by simp
qed

lemma file_identity_effect: "file_identity p w = (x, w') \<Longrightarrow> w' = io_tick w \<and> (\<forall>i. x = Some i \<longrightarrow> w_entry w p = Some i)"
  by (auto simp: file_identity_def io_step_tick split: io_outcome.splits)

text \<open>The cursor of a path applies: it is recorded, the file can be stat'ed and is the one it was recorded for.\<close>

definition cursor_applies :: "segment_ledger \<Rightarrow> path \<Rightarrow> world \<Rightarrow> resume_cursor \<Rightarrow> bool" where
  "cursor_applies L p w c \<longleftrightarrow> map_of (lg_resume_from L) p = Some c \<and> (\<forall>k. w_io w (w_tick w) \<noteq> IoFail k) \<and> w_entry w p = Some (rc_ino c)"

lemma file_identity_eq: "file_identity p w = (if \<exists>k. w_io w (w_tick w) = IoFail k then None else w_entry w p, io_tick w)"
  by (auto simp: file_identity_def io_step_tick split: io_outcome.splits)

text \<open>
  C23: admission, determined.  It drops a path exactly when the rescan's \<open>excludes\<close> skips it, and
  then changes nothing.  Otherwise it processes the path; the number of records it skips is that of
  the recorded cursor when the file at the path can be stat'ed and is the one the cursor was recorded
  for, and the cursor is kept; in every other case it is 0 and the path has no cursor afterwards.
  The cooling-down entry of the path is gone, and no other path's entries change.
\<close>

theorem admission_exact:
  assumes "ledger_admit L p now w = (a, L', w')"
  shows "((\<exists>owner. a = AdmitDrop owner) \<longleftrightarrow> ledger_excludes L p now) \<and>
    (ledger_excludes L p now \<longrightarrow> L' = L \<and> w' = w) \<and>
    (\<not> ledger_excludes L p now \<longrightarrow>
       (\<forall>c. cursor_applies L p w c \<longrightarrow> a = AdmitProcess (rc_processed c) \<and> map_of (lg_resume_from L') p = Some c) \<and>
       ((\<nexists>c. cursor_applies L p w c) \<longrightarrow> a = AdmitProcess 0 \<and> map_of (lg_resume_from L') p = None) \<and>
       map_of (lg_not_before L') p = None \<and>
       (\<forall>q. q \<noteq> p \<longrightarrow> map_of (lg_resume_from L') q = map_of (lg_resume_from L) q \<and>
          map_of (lg_not_before L') q = map_of (lg_not_before L) q) \<and>
       lg_confirm_pending L' = lg_confirm_pending L \<and> lg_quarantine_pending L' = lg_quarantine_pending L \<and>
       lg_parked L' = lg_parked L \<and> lg_dl_carry L' = lg_dl_carry L)"
  using assms
  by (auto simp: ledger_admit_def ledger_excludes_def cursor_applies_def file_identity_eq sync_counts_def Let_def AList.delete_conv'
      split: if_splits option.splits prod.splits)

definition pinned_ledger :: segment_ledger where
  "pinned_ledger = (ledger_new 0)\<lparr>lg_resume_from := [(sealed_sample, \<lparr>rc_processed = 2, rc_ino = 0\<rparr>)],
     lg_counts := \<lparr>lc_confirm_pending = 0, lc_quarantine_pending = 0, lc_parked_by_reason = [0, 0, 0], lc_cooling_down = 0,
                   lc_resume_cursors = 1, lc_dl_carry_bytes = 0\<rparr>\<rparr>"

theorem admission_exact_witness:
  "\<exists>L' w'. ledger_admit pinned_ledger sealed_sample 5 (replay_world None) = (AdmitProcess 2, L', w') \<and>
     \<not> ledger_excludes pinned_ledger sealed_sample 5"
proof -
  obtain L' w' where run: "ledger_admit pinned_ledger sealed_sample 5 (replay_world None) = (AdmitProcess 2, L', w')"
    by (simp add: ledger_admit_def pinned_ledger_def ledger_new_def file_identity_def io_step_tick)
  from admission_exact [OF run] run show ?thesis by auto
qed

text \<open>
  C24: progress survives a strand.  After \<open>record_progress\<close> of \<open>n > 0\<close> records of a segment that can be
  stat'ed, an admission at any later time at which the path is not excluded, and at which the file
  can be stat'ed again, resumes at \<open>n\<close> if the file at the path is still the same, and at 0 if it
  was replaced; and \<open>checked_skip\<close> agrees with it.
\<close>

theorem cursor_roundtrip:
  assumes "record_progress L p n w = (L1, w1)" "0 < n" "w_entry w p = Some i" "\<forall>k. w_io w (w_tick w) \<noteq> IoFail k"
    and "\<not> ledger_excludes L1 p now" "w_entry v p = Some j" "\<forall>k. w_io v (w_tick v) \<noteq> IoFail k"
  shows "fst (ledger_admit L1 p now v) = AdmitProcess (if j = i then n else 0) \<and>
    fst (checked_skip L1 p n v) = (if j = i then n else 0)"
proof -
  have 1: "map_of (lg_resume_from L1) p = Some \<lparr>rc_processed = n, rc_ino = i\<rparr>"
    using assms(1-4)
    by (cases "w_io w (w_tick w)") (auto simp: record_progress_def file_identity_def io_step_tick AList.update_conv')
  have "fst (file_identity p v) = Some j"
    using assms(6,7) by (cases "w_io v (w_tick v)") (simp_all add: file_identity_def io_step_tick)
  then obtain v' where 2: "file_identity p v = (Some j, v')" by (metis prod.collapse)
  show ?thesis using assms(2,5) 1 2
    by (auto simp: ledger_admit_def ledger_excludes_def checked_skip_def Let_def split: option.splits)
qed

theorem cursor_roundtrip_witness:
  "\<exists>L1 w1. record_progress (ledger_new 0) sealed_sample 2 (replay_world None) = (L1, w1) \<and>
     fst (ledger_admit L1 sealed_sample 5 (replay_world None)) = AdmitProcess 2"
proof -
  obtain L1 w1 where run: "record_progress (ledger_new 0) sealed_sample 2 (replay_world None) = (L1, w1)" by fastforce
  then have L1: "\<not> ledger_excludes L1 sealed_sample 5"
    by (auto simp: record_progress_def file_identity_def io_step_tick ledger_excludes_def ledger_new_def split: prod.splits)
  show ?thesis using cursor_roundtrip [OF run _ _ _ L1, of 0 "replay_world None" 0] run by simp
qed

text \<open>
  A segment that keeps crashing the drain is set aside.  When the drain panics on a segment, is
  respawned, admits the segment again and panics on it again, the segment is parked as \<open>DrainPanic\<close>:
  it is excluded at every later time, and its cursor, carry, failure count and panic count are gone.
\<close>

theorem two_panics_park:
  assumes "note_drain_panic (begin_attempt L p t1) = (x1, L1)" "\<not> ledger_excludes L1 p t2"
    "note_drain_panic (begin_attempt L1 p t2) = (x2, L2)"
  shows "map_of (lg_parked L2) p = Some DrainPanic \<and> (\<forall>now. ledger_excludes L2 p now) \<and> lg_in_flight L2 = None \<and>
    map_of (lg_resume_from L2) p = None \<and> map_of (lg_dl_carry L2) p = None \<and> map_of (lg_panic_count L2) p = None \<and>
    local_read_count L2 p = 0"
proof -
  let ?n = "case map_of (lg_panic_count L) p of None \<Rightarrow> 0 | Some n \<Rightarrow> n"
  have two: "DRAIN_PANIC_PARK_LIMIT \<le> u32_sat_inc (u32_sat_inc k)" for k by (simp add: DRAIN_PANIC_PARK_LIMIT_def u32_sat_inc_def)
  have park: "map_of (lg_parked (ledger_park M p DrainPanic)) p = Some DrainPanic" "lg_in_flight (ledger_park M p DrainPanic) = lg_in_flight M"
    "map_of (lg_resume_from (ledger_park M p DrainPanic)) p = None" "map_of (lg_dl_carry (ledger_park M p DrainPanic)) p = None"
    "map_of (lg_panic_count (ledger_park M p DrainPanic)) p = None" "local_read_count (ledger_park M p DrainPanic) p = 0" for M
    by (simp_all add: ledger_park_def ledger_forget_def local_read_count_def AList.update_conv' AList.delete_conv')
  show ?thesis
  proof (cases "DRAIN_PANIC_PARK_LIMIT \<le> u32_sat_inc ?n")
    case True
    then have "map_of (lg_parked L1) p = Some DrainPanic"
      using assms(1) park(1) by (auto simp: note_drain_panic_def begin_attempt_def Let_def)
    then show ?thesis using assms(2) by (simp add: ledger_excludes_def)
  next
    case False
    then have "map_of (lg_panic_count L1) p = Some (u32_sat_inc ?n)"
      using assms(1) by (auto simp: note_drain_panic_def begin_attempt_def Let_def AList.update_conv')
    then show ?thesis using assms(3) two [of ?n] park
      by (auto simp: note_drain_panic_def begin_attempt_def Let_def ledger_excludes_def)
  qed
qed

theorem two_panics_park_witness:
  "\<exists>x1 L1 x2 L2. note_drain_panic (begin_attempt (ledger_new 0) sealed_sample 1) = (x1, L1) \<and>
     note_drain_panic (begin_attempt L1 sealed_sample 2) = (x2, L2) \<and> map_of (lg_parked L2) sealed_sample = Some DrainPanic"
proof -
  obtain x1 L1 where 1: "note_drain_panic (begin_attempt (ledger_new 0) sealed_sample 1) = (x1, L1)" by fastforce
  obtain x2 L2 where 2: "note_drain_panic (begin_attempt L1 sealed_sample 2) = (x2, L2)" by fastforce
  have "\<not> ledger_excludes L1 sealed_sample 2"
    using 1 by (auto simp: note_drain_panic_def begin_attempt_def ledger_new_def Let_def u32_sat_inc_def DRAIN_PANIC_PARK_LIMIT_def
        ledger_excludes_def)
  from two_panics_park [OF 1 this 2] 1 2 show ?thesis by auto
qed

text \<open>
  C25: a retried confirm deletes only behind a durable sidecar.  Start from a store whose links are
  sound and a set of pending confirms of sealed segments in which every \<open>Delete\<close> entry has its
  sidecar on stable storage.  After \<open>retry_confirms\<close>, whatever fails, each of these segments still
  has its file or was deleted behind a durable sidecar that states its record count; the entries
  that are left satisfy the same condition, so the retries can go on for ever; and every other
  segment keeps its file and its sidecar.
\<close>

theorem retried_confirm_safe:
  assumes "store_links w" "distinct (map fst cs)" "pending_sound crc cs w" "retry_confirms crc cs w m = (left, w', m')"
  shows "store_links w' \<and> pending_sound crc left w' \<and> subseq (map fst left) (map fst cs) \<and>
    (\<forall>(p, c) \<in> set cs. \<forall>i. w_entry w p = Some i \<longrightarrow>
       w_entry w' p = Some i \<or> w_entry w' p = None \<and> durable_sidecar crc p (of_nat (cp_record_count c)) w') \<and>
    (\<forall>q. sealed_name q \<longrightarrow> q \<notin> fst ` set cs \<longrightarrow> w_entry w' q = w_entry w q)"
  using retry_confirms_keeps [OF assms] retry_confirms_keys [of crc cs w m] assms(4)
  unfolding keeps_others_def kept_or_confirmed_def by auto

theorem retried_confirm_safe_witness:
  "\<exists>left w' m'. retry_confirms crc32_hash [(sealed_sample, \<lparr>cp_stage = StageSidecar, cp_record_count = 2\<rparr>)] (replay_world None) no_drain_metrics
       = (left, w', m') \<and> left = [] \<and> w_entry w' sealed_sample = None \<and> durable_sidecar crc32_hash sealed_sample 2 w'"
proof -
  let ?cs = "[(sealed_sample, \<lparr>cp_stage = StageSidecar, cp_record_count = 2\<rparr>)]"
  obtain w' m' where c: "confirm_and_delete crc32_hash sealed_sample (of_nat 2) (replay_world None) no_drain_metrics = (ConfirmDone, w', m')"
    and e: "w_entry w' sealed_sample = None"
    using quiet_confirm [of "replay_world None" sealed_sample 0 crc32_hash "of_nat 2" no_drain_metrics] by auto
  have run: "retry_confirms crc32_hash ?cs (replay_world None) no_drain_metrics = ([], w', m')" using c by simp
  have l: "store_links (replay_world None)"
    by (simp add: store_links_def) (simp add: replay_world_def crashed_world_def)
  have s: "pending_sound crc32_hash ?cs (replay_world None)" by (simp add: pending_sound_def sealed_sample_simps(1))
  show ?thesis using retried_confirm_safe [OF l _ s run] run e by simp
qed

end
