(* ===== verification/Delivery.thy ===== *)
theory Delivery
  imports Ledger
begin

text \<open>
  Delivering one segment to the sink: the sink interface of \<open>weir-sink-sdk/src/lib.rs\<close> and the
  segment processing of \<open>weir-server/src/drain/mod.rs\<close> (\<open>process_segment_ctl\<close>,
  \<open>commit_batch_ctl\<close>, \<open>dead_letter_records\<close> and their helpers).

  The sink is code of its own.  \<open>de_sink\<close> says how the \<open>n\<close>-th commit ends, raced against
  \<open>commit_timeout\<close> and the stop deadline; \<open>de_log\<close> is the calls made so far.  \<open>de_control\<close> is
  what the \<open>n\<close>-th look at the control flags shows.  SHA-256 is the parameter \<open>sha\<close>.  The item
  list of the record loop is all that the reader yields; the loop stops at the first item it does
  not continue after.  Heartbeats, spans and log lines are left out; what is published to the
  status board is the list \<open>de_sink_events\<close>.

  Main results: when an attempt is \<open>Confirmed\<close>, every record after the ones skipped was committed
  by the sink or is on stable storage as a dead letter, each exactly once; whatever else the
  attempt returns, the progress it reports is exactly what has been settled, together with the
  rejected records it still owes; every record is sent under an address that depends only on its
  place in the segment; and a file that cannot be read whole is never confirmed.
\<close>

section \<open>The sink interface\<close>

text \<open>\<open>DedupToken::for_payloads\<close> and \<open>RecordId::for_record\<close>.\<close>

definition dedup_token_for :: "(bytes \<Rightarrow> bytes) \<Rightarrow> bytes list \<Rightarrow> bytes" where
  "dedup_token_for sha payloads = sha (concat (map (\<lambda>p. u64_le (of_nat (length p)) @ p) payloads))"

definition record_id_for :: "(bytes \<Rightarrow> bytes) \<Rightarrow> bytes \<Rightarrow> u64 \<Rightarrow> bytes \<Rightarrow> bytes" where
  "record_id_for sha segment index payload =
     sha (u64_le (of_nat (length segment)) @ segment @ u64_le index @ u64_le (of_nat (length payload)) @ payload)"

record sink_batch =
  sb_records :: "bytes list"
  sb_dedup_token :: bytes
  sb_record_ids :: "bytes list option"
  sb_segment_created_at :: "i64 option"

text \<open>
  The source asserts that there are as many ids as records; \<open>record_addresses_stable\<close> in theory
  \<open>Settlement\<close> shows that the drain's batches have them.
\<close>

definition with_segment_context :: "bytes list \<Rightarrow> bytes \<Rightarrow> bytes list \<Rightarrow> i64 \<Rightarrow> sink_batch" where
  "with_segment_context records dedup_token record_ids segment_created_at =
     \<lparr>sb_records = records, sb_dedup_token = dedup_token, sb_record_ids = Some record_ids,
      sb_segment_created_at = Some segment_created_at\<rparr>"

datatype sink_reply =
    Committed "bytes list" "(bytes \<times> string) list"    \<comment> \<open>committed, dead-lettered with reasons\<close>
  | SinkErr bool "nat option"                           \<comment> \<open>transient, retry-after\<close>

text \<open>The \<open>select!\<close> of \<open>commit_batch_ctl\<close>.\<close>

datatype commit_race = Finished sink_reply | Elapsed | DeadlineReached

datatype sink_event = SinkSuccess | SinkTimeout | SinkContractViolation | SinkTransient | SinkPermanent

section \<open>The drain's surroundings\<close>

text \<open>Durations are in milliseconds.\<close>

record drain_config =
  cfg_wab_dir :: bytes
  cfg_dead_letter_max_bytes :: nat
  cfg_dead_letter_check_interval :: nat
  cfg_base_retry_delay :: nat
  cfg_max_retries :: nat
  cfg_max_respawns :: nat
  cfg_commit_timeout :: nat
  cfg_health_poll_interval :: nat
  cfg_health_probe_timeout :: nat
  cfg_orphan_cleanup :: bool
  cfg_local_read_escalation_min_age :: nat

record control_view =
  cv_stop_requested :: bool
  cv_deadline_passed :: bool
  cv_pause_requested :: bool

record delivery_env =
  de_world :: world
  de_metrics :: drain_metrics
  de_dead_letter :: dead_letter_writer
  de_sink :: "nat \<Rightarrow> sink_batch \<Rightarrow> commit_race"
  de_log :: "(sink_batch \<times> commit_race) list"
  de_control :: "nat \<Rightarrow> control_view"
  de_looks :: nat
  de_sink_events :: "sink_event list"

definition publish :: "sink_event \<Rightarrow> delivery_env \<Rightarrow> delivery_env" where
  "publish ev E = E\<lparr>de_sink_events := de_sink_events E @ [ev]\<rparr>"

definition count_retried :: "nat \<Rightarrow> delivery_env \<Rightarrow> delivery_env" where
  "count_retried n E = E\<lparr>de_metrics := (de_metrics E)\<lparr>dm_retried := dm_retried (de_metrics E) + n\<rparr>\<rparr>"

definition count_committed :: "nat \<Rightarrow> delivery_env \<Rightarrow> delivery_env" where
  "count_committed n E = E\<lparr>de_metrics := (de_metrics E)\<lparr>dm_committed := dm_committed (de_metrics E) + n\<rparr>\<rparr>"

section \<open>Committing a batch\<close>

record dead_letter_owed =
  ow_payloads :: "bytes list"
  ow_committed :: nat

datatype dead_letter_failure = DlBlocked nat | DlWriteFailed

datatype batch_result =
    BatchOk
  | BatchTransient "nat option" transient_cause "dead_letter_owed option"
  | BatchBlocked nat dead_letter_owed
  | BatchAbandoned

definition into_carry :: "dead_letter_owed \<Rightarrow> nat \<Rightarrow> dead_letter_carry" where
  "into_carry ow through =
     \<lparr>ca_through = through, ca_payloads = ow_payloads ow, ca_bytes = sum_list (map length (ow_payloads ow)),
      ca_committed = ow_committed ow\<rparr>"

definition estimated_write_bytes :: "bytes list \<Rightarrow> nat" where
  "estimated_write_bytes payloads = estimated_segment_bytes payloads"

definition dead_letter_records ::
  "'h crc_ops \<Rightarrow> drain_config \<Rightarrow> bytes list \<Rightarrow> delivery_env \<Rightarrow> (dead_letter_failure + unit) \<times> delivery_env"
where
  "dead_letter_records C cfg records E =
     (let estimated = estimated_write_bytes records; cap = cfg_dead_letter_max_bytes cfg in
      if would_exceed_cap (de_dead_letter E) estimated cap \<and> \<not> estimated > cap
      then (Err (DlBlocked estimated), E)
      else case write_records C (de_dead_letter E) records (de_world E) of
        (x, D, w) \<Rightarrow>
          let E = E\<lparr>de_dead_letter := D, de_world := w\<rparr>; m = de_metrics E in
          case x of
            Inr _ \<Rightarrow>
              (Ok (), E\<lparr>de_metrics := m\<lparr>dm_dead_lettered := dm_dead_lettered m + length records,
                                         dm_dl_bytes_on_disk := dl_total_bytes D\<rparr>\<rparr>)
          | Inl _ \<Rightarrow>
              (Err DlWriteFailed, E\<lparr>de_metrics := m\<lparr>dm_dl_write_failures := dm_dl_write_failures m + 1\<rparr>\<rparr>))"

definition owed_result :: "dead_letter_failure \<Rightarrow> bytes list \<Rightarrow> nat \<Rightarrow> batch_result" where
  "owed_result failure payloads committed =
     (let owed = \<lparr>ow_payloads = payloads, ow_committed = committed\<rparr> in
      case failure of
        DlBlocked needed \<Rightarrow> BatchBlocked needed owed
      | DlWriteFailed \<Rightarrow> BatchTransient None CauseLocalWrite (Some owed))"

text \<open>The call of the sink: its outcome is logged.\<close>

definition call_sink :: "sink_batch \<Rightarrow> delivery_env \<Rightarrow> commit_race \<times> delivery_env" where
  "call_sink batch E =
     (let timed = de_sink E (length (de_log E)) batch in (timed, E\<lparr>de_log := de_log E @ [(batch, timed)]\<rparr>))"

definition commit_batch_ctl ::
  "'h crc_ops \<Rightarrow> (bytes \<Rightarrow> bytes) \<Rightarrow> drain_config \<Rightarrow> bytes list \<Rightarrow> bytes list \<Rightarrow> i64 \<Rightarrow> delivery_env \<Rightarrow> batch_result \<times> delivery_env"
where
  "commit_batch_ctl C sha cfg payloads record_ids segment_created_at E =
     (let dedup_token = dedup_token_for sha payloads;
          batch = with_segment_context payloads dedup_token record_ids segment_created_at in
      case call_sink batch E of
        (DeadlineReached, E) \<Rightarrow> (BatchAbandoned, E)
      | (Elapsed, E) \<Rightarrow>
          (BatchTransient None CauseSink None, publish SinkTimeout (count_retried (length payloads) E))
      | (Finished (Committed committed dead_lettered), E) \<Rightarrow>
          if length committed + length dead_lettered \<noteq> length payloads
          then (BatchTransient None CauseSink None, publish SinkContractViolation E)
          else
            let E = publish SinkSuccess E; committed_count = length committed;
                dead_payloads = map fst dead_lettered in
            if dead_lettered \<noteq> []
            then case dead_letter_records C cfg dead_payloads E of
                   (Inl failure, E) \<Rightarrow> (owed_result failure dead_payloads committed_count, E)
                 | (Inr _, E) \<Rightarrow> (BatchOk, count_committed committed_count E)
            else (BatchOk, count_committed committed_count E)
      | (Finished (SinkErr True retry_after), E) \<Rightarrow>
          (BatchTransient retry_after CauseSink None, publish SinkTransient (count_retried (length payloads) E))
      | (Finished (SinkErr False _), E) \<Rightarrow>
         (case dead_letter_records C cfg payloads (publish SinkPermanent E) of
            (Inl failure, E) \<Rightarrow> (owed_result failure payloads 0, E)
          | (Inr _, E) \<Rightarrow> (BatchOk, E)))"

section \<open>Processing a segment\<close>

datatype process_result =
    Confirmed nat
  | PTransient "nat option" nat transient_cause "dead_letter_carry option"
  | PBlockedDeadLetter nat nat "dead_letter_carry option"
  | PQuarantined
  | PQuarantinePending string
  | PParked park_reason
  | PPaused nat
  | PAbandoned nat

definition batch_gate :: "nat \<Rightarrow> delivery_env \<Rightarrow> process_result option \<times> delivery_env" where
  "batch_gate durable_through E =
     (let cv = de_control E (de_looks E); E = E\<lparr>de_looks := de_looks E + 1\<rparr> in
      if cv_stop_requested cv \<and> cv_deadline_passed cv then (Some (PAbandoned durable_through), E)
      else if cv_pause_requested cv then (Some (PPaused durable_through), E)
      else (None, E))"

fun apply_batch :: "batch_result \<Rightarrow> nat \<Rightarrow> nat \<Rightarrow> process_result + nat" where
  "apply_batch BatchOk processed n = Inr (processed + n)"
| "apply_batch (BatchTransient retry_after cause owed) processed n =
     Inl (PTransient retry_after processed cause (map_option (\<lambda>ow. into_carry ow (processed + n)) owed))"
| "apply_batch (BatchBlocked needed owed) processed n =
     Inl (PBlockedDeadLetter processed needed (Some (into_carry owed (processed + n))))"
| "apply_batch BatchAbandoned processed n = Inl (PAbandoned processed)"

definition is_corruption :: "io_kind \<Rightarrow> bool" where
  "is_corruption k \<longleftrightarrow> k = InvalidData \<or> k = UnexpectedEof"

definition raw_os_error :: "io_kind \<Rightarrow> nat option" where
  "raw_os_error k =
     (case k of
        NotFound \<Rightarrow> Some 2 | AlreadyExists \<Rightarrow> Some 17 | StorageFull \<Rightarrow> Some 28
      | OtherIo errno \<Rightarrow> Some errno
      | _ \<Rightarrow> None)"

definition local_read_failure :: "io_kind \<Rightarrow> nat \<Rightarrow> process_result" where
  "local_read_failure k skip = PTransient None skip (CauseLocalRead (classify k) (raw_os_error k)) None"

datatype header_verdict = NewerFormat u8 "u8 option" | HvCorrupt | HvGone | HvUnreadable io_kind

text \<open>\<open>take(n).read_to_end\<close>: up to \<open>n\<close> bytes, or the error met before them.\<close>

definition read_up_to :: "nat \<Rightarrow> reader \<Rightarrow> io_kind + bytes" where
  "read_up_to n r =
     (if n \<le> length (rd_rest r) then Ok (take n (rd_rest r))
      else case rd_fail r of Some k \<Rightarrow> Err k | None \<Rightarrow> Ok (rd_rest r))"

definition inspect_rejected_header :: "path \<Rightarrow> world \<Rightarrow> header_verdict \<times> world" where
  "inspect_rejected_header segment w =
     (case fs_open segment w of
        (x, w) \<Rightarrow>
          (case (case x of Inl k \<Rightarrow> Err k | Inr (_, r) \<Rightarrow> read_up_to SEGMENT_HEADER_LEN r) of
             Inl k \<Rightarrow> if k = NotFound then HvGone else HvUnreadable k
           | Inr header \<Rightarrow>
               if length header < 5 \<or> subslice 0 4 header \<noteq> SEGMENT_MAGIC then HvCorrupt
               else let version = header ! 4 in
               if version > FORMAT_VERSION_MAX_SUPPORTED
               then NewerFormat version (if 5 < length header then Some (header ! 5) else None)
               else case parse_segment_header header of
                 Inl (HdrReservedFlagsSet v flags) \<Rightarrow>
                   if v = FORMAT_VERSION_V2 then NewerFormat FORMAT_VERSION_V2 (Some flags) else HvCorrupt
               | Inl _ \<Rightarrow> HvCorrupt
               | Inr _ \<Rightarrow> HvUnreadable InvalidData, w))"

definition open_segment :: "path \<Rightarrow> world \<Rightarrow> (read_fault + segment_reader) \<times> world" where
  "open_segment segment w =
     (case fs_open segment w of (x, w) \<Rightarrow> (sr_open (case x of Inl k \<Rightarrow> Err k | Inr (_, r) \<Rightarrow> Ok r), w))"

definition quarantine_segment :: "path \<Rightarrow> drain_config \<Rightarrow> delivery_env \<Rightarrow> bool \<times> delivery_env" where
  "quarantine_segment segment cfg E =
     (case move_to_quarantine segment (cfg_wab_dir cfg) (de_world E) (de_metrics E) of
        (Inr _, w, m) \<Rightarrow> (True, E\<lparr>de_world := w, de_metrics := m\<rparr>)
      | (Inl _, w, m) \<Rightarrow>
          (False, E\<lparr>de_world := w, de_metrics := m\<lparr>dm_quarantine_failures := dm_quarantine_failures m + 1\<rparr>\<rparr>))"

definition quarantine_result :: "path \<Rightarrow> drain_config \<Rightarrow> string \<Rightarrow> delivery_env \<Rightarrow> process_result \<times> delivery_env" where
  "quarantine_result segment cfg reason E =
     (case quarantine_segment segment cfg E of
        (True, E) \<Rightarrow> (PQuarantined, E)
      | (False, E) \<Rightarrow> (PQuarantinePending reason, E))"

text \<open>The locals of the record loop.\<close>

record batching =
  bt_read_index :: nat
  bt_durable_through :: nat
  bt_batch :: "bytes list"
  bt_ids :: "bytes list"

text \<open>The gate, the commit of the collected batch, and its result.\<close>

definition commit_collected ::
  "'h crc_ops \<Rightarrow> (bytes \<Rightarrow> bytes) \<Rightarrow> drain_config \<Rightarrow> i64 \<Rightarrow> batching \<Rightarrow> delivery_env \<Rightarrow> (process_result + batching) \<times> delivery_env"
where
  "commit_collected C sha cfg created_at b E =
     (case batch_gate (bt_durable_through b) E of
        (Some stop, E) \<Rightarrow> (Inl stop, E)
      | (None, E) \<Rightarrow>
      case commit_batch_ctl C sha cfg (bt_batch b) (bt_ids b) created_at E of
        (result, E) \<Rightarrow>
          (case apply_batch result (bt_durable_through b) (length (bt_batch b)) of
             Inl setback \<Rightarrow> Inl setback
           | Inr durable \<Rightarrow> Inr (b\<lparr>bt_durable_through := durable, bt_batch := [], bt_ids := []\<rparr>), E))"

fun record_loop ::
  "'h crc_ops \<Rightarrow> (bytes \<Rightarrow> bytes) \<Rightarrow> drain_config \<Rightarrow> bytes \<Rightarrow> i64 \<Rightarrow> nat \<Rightarrow> nat \<Rightarrow> bool \<Rightarrow>
   (read_fault + bytes) list \<Rightarrow> batching \<Rightarrow> delivery_env \<Rightarrow> (process_result + string option \<times> batching) \<times> delivery_env"
where
  "record_loop C sha cfg name created_at max_batch skip last_chance [] b E = (Inr (None, b), E)"
| "record_loop C sha cfg name created_at max_batch skip last_chance (Inl e # items) b E =
     (let k = fault_kind e in
      if is_corruption k then (Inr (Some ''drain: mid-segment read error'', b), E)
      else let cls = classify k in
      if last_chance \<and> cls = ClassMedia
      then (Inr (Some ''drain: persistent local read error mid-segment'', b), E)
      else (Inl (PTransient None (bt_durable_through b) (CauseLocalRead cls (raw_os_error k)) None), E))"
| "record_loop C sha cfg name created_at max_batch skip last_chance (Inr payload # items) b E =
     (let read_index = bt_read_index b + 1; b = b\<lparr>bt_read_index := read_index\<rparr> in
      if read_index \<le> skip
      then record_loop C sha cfg name created_at max_batch skip last_chance items b E
      else
        let b = b\<lparr>bt_batch := bt_batch b @ [payload],
                  bt_ids := bt_ids b @ [record_id_for sha name (of_nat read_index) payload]\<rparr> in
        if length (bt_batch b) \<ge> max_batch
        then case commit_collected C sha cfg created_at b E of
               (Inl setback, E) \<Rightarrow> (Inl setback, E)
             | (Inr b, E) \<Rightarrow> record_loop C sha cfg name created_at max_batch skip last_chance items b E
        else record_loop C sha cfg name created_at max_batch skip last_chance items b E)"

text \<open>The completeness check against the footer.\<close>

definition check_footer :: "path \<Rightarrow> drain_config \<Rightarrow> batching \<Rightarrow> delivery_env \<Rightarrow> process_result \<times> delivery_env" where
  "check_footer segment cfg b E =
     (case read_segment_record_count segment (de_world E) of
        (x, w) \<Rightarrow>
          let E = E\<lparr>de_world := w\<rparr> in
          case x of
            Inr footer_count \<Rightarrow>
              if footer_count = of_nat (bt_read_index b) then (Confirmed (bt_read_index b), E)
              else quarantine_result segment cfg ''drain: record count mismatch vs footer (truncated tail)'' E
          | Inl k \<Rightarrow>
              if is_corruption k
              then quarantine_result segment cfg ''drain: footer unreadable, completeness unverifiable'' E
              else if k = NotFound then (Confirmed (bt_read_index b), E)
              else (PTransient None (bt_durable_through b) (CauseLocalRead (classify k) (raw_os_error k)) None, E))"

definition deliver_segment ::
  "'h crc_ops \<Rightarrow> zstd_ops \<Rightarrow> (bytes \<Rightarrow> bytes) \<Rightarrow> drain_config \<Rightarrow> nat \<Rightarrow> path \<Rightarrow> nat \<Rightarrow> bool \<Rightarrow> segment_reader \<Rightarrow>
   delivery_env \<Rightarrow> process_result \<times> delivery_env"
where
  "deliver_segment C Z sha cfg max_batch_size segment skip last_chance reader E =
     (let created_at = hm_created_at (sr_header reader); max_batch = max max_batch_size 1;
          b = \<lparr>bt_read_index = 0, bt_durable_through = skip, bt_batch = [], bt_ids = []\<rparr> in
      case record_loop C sha cfg (segment_identity segment) created_at max_batch skip last_chance
             (fst (sr_collect (crc_hash C) Z reader)) b E of
        (Inl setback, E) \<Rightarrow> (setback, E)
      | (Inr (quarantine_after_prefix, b), E) \<Rightarrow>
      case (if bt_batch b \<noteq> [] then commit_collected C sha cfg created_at b E else (Inr b, E)) of
        (Inl setback, E) \<Rightarrow> (setback, E)
      | (Inr b, E) \<Rightarrow>
      case quarantine_after_prefix of
        Some reason \<Rightarrow> quarantine_result segment cfg reason E
      | None \<Rightarrow> check_footer segment cfg b E)"

definition process_segment_ctl ::
  "'h crc_ops \<Rightarrow> zstd_ops \<Rightarrow> (bytes \<Rightarrow> bytes) \<Rightarrow> drain_config \<Rightarrow> nat \<Rightarrow> path \<Rightarrow> nat \<Rightarrow> bool \<Rightarrow> delivery_env \<Rightarrow> process_result \<times> delivery_env"
where
  "process_segment_ctl C Z sha cfg max_batch_size segment skip last_local_read_chance E =
     (case open_segment segment (de_world E) of
        (Inr reader, w) \<Rightarrow>
          deliver_segment C Z sha cfg max_batch_size segment skip last_local_read_chance reader (E\<lparr>de_world := w\<rparr>)
      | (Inl e, w) \<Rightarrow>
          let E = E\<lparr>de_world := w\<rparr>; k = fault_kind e in
          if k = NotFound then (Confirmed 0, E)
          else if k = InvalidData
          then case inspect_rejected_header segment (de_world E) of
                 (verdict, w) \<Rightarrow>
                   let E = E\<lparr>de_world := w\<rparr> in
                   (case verdict of
                      NewerFormat _ _ \<Rightarrow> (PParked UnsupportedVersion, E)
                    | HvCorrupt \<Rightarrow> quarantine_result segment cfg ''drain: corrupt segment header'' E
                    | HvGone \<Rightarrow> (Confirmed 0, E)
                    | HvUnreadable re \<Rightarrow> (local_read_failure re skip, E))
          else (local_read_failure k skip, E))"

end
