(* ===== verification/Settlement.thy ===== *)
theory Settlement
  imports Delivery "HOL-Library.Multiset"
begin

text \<open>
  What an attempt at a segment settles (theory \<open>Delivery\<close>).

  \<open>settled E ow rs E' ow'\<close> is the books of a run: every record of \<open>rs\<close>, and every one owed
  before, was committed by the sink, or is a dead letter on stable storage, or is owed afterwards,
  each exactly once, and the counters agree.  Such runs compose.  The lemmas follow the code: one
  sink call, the payment of a debt by a dead-letter write, one batch, the record loop
  (\<open>loop_inv\<close>), an open segment (\<open>deliver_cases\<close>) and a whole attempt (\<open>process_cases\<close>).
\<close>

declare split_paired_All [simp del] split_paired_Ex [simp del]

section \<open>What an attempt has settled\<close>

text \<open>
  The sink's contract (\<open>CommitResult\<close>): a result that accounts for every record by number splits
  the batch into the committed and the dead-lettered records.
\<close>

definition sink_partitions :: "(nat \<Rightarrow> sink_batch \<Rightarrow> commit_race) \<Rightarrow> bool" where
  "sink_partitions S \<longleftrightarrow>
     (\<forall>n b cs ds. S n b = Finished (Committed cs ds) \<longrightarrow> length cs + length ds = length (sb_records b) \<longrightarrow>
        mset cs + mset (map fst ds) = mset (sb_records b))"

text \<open>The records the sink said it committed, in results that account for the whole batch.\<close>

fun acked_by :: "sink_batch \<times> commit_race \<Rightarrow> bytes list" where
  "acked_by (b, Finished (Committed cs ds)) = (if length cs + length ds = length (sb_records b) then cs else [])"
| "acked_by (b, _) = []"

definition acked :: "(sink_batch \<times> commit_race) list \<Rightarrow> bytes list" where
  "acked log = concat (map acked_by log)"

text \<open>
  Dead letters on stable storage: each list of \<open>dls\<close> stands at the front of the records of a
  dead-letter segment of its own, with a counter from \<open>a\<close> up to \<open>b\<close>.
\<close>

definition dl_holds :: "(bytes \<Rightarrow> u32) \<Rightarrow> bytes \<Rightarrow> world \<Rightarrow> nat \<Rightarrow> nat \<Rightarrow> bytes list list \<Rightarrow> bool" where
  "dl_holds crc d w a b dls \<longleftrightarrow>
     (\<exists>ns. sorted_wrt (<) ns \<and> set ns \<subseteq> {a..<b} \<and>
        list_all2 (\<lambda>n ds. prefix ds (stable_records crc w (dl_path d n))) ns dls)"

abbreviation no_debt :: dead_letter_owed where
  "no_debt \<equiv> \<lparr>ow_payloads = [], ow_committed = 0\<rparr>"

text \<open>
  From \<open>E\<close> with debt \<open>ow\<close> to \<open>E'\<close> with debt \<open>ow'\<close>, exactly the records \<open>rs\<close> were settled: each one,
  and each one owed before, was committed by the sink, or is a dead letter on stable storage, or is
  owed afterwards.  The counters say the same.
\<close>

definition settled ::
  "(bytes \<Rightarrow> u32) \<Rightarrow> delivery_env \<Rightarrow> dead_letter_owed \<Rightarrow> bytes list \<Rightarrow> delivery_env \<Rightarrow> dead_letter_owed \<Rightarrow> bool"
where
  "settled crc E ow rs E' ow' \<longleftrightarrow>
     de_sink E' = de_sink E \<and> de_control E' = de_control E \<and>
     dl_grows crc (de_dead_letter E) (de_world E) (de_dead_letter E') (de_world E') \<and>
     (\<exists>log dls. de_log E' = de_log E @ log \<and>
        dl_holds crc (dl_dir (de_dead_letter E)) (de_world E')
          (dl_next_counter (de_dead_letter E)) (dl_next_counter (de_dead_letter E')) dls \<and>
        mset (ow_payloads ow) + mset rs = mset (acked log) + mset (concat dls) + mset (ow_payloads ow') \<and>
        dm_committed (de_metrics E') + ow_committed ow' = dm_committed (de_metrics E) + ow_committed ow + length (acked log) \<and>
        dm_dead_lettered (de_metrics E') = dm_dead_lettered (de_metrics E) + length (concat dls))"

abbreviation env_wf :: "delivery_env \<Rightarrow> bool" where
  "env_wf E \<equiv> dl_wf (de_dead_letter E) (de_world E)"

lemma acked_simps [simp]:
  "acked [] = []" "acked (e # log) = acked_by e @ acked log" "acked (xs @ ys) = acked xs @ acked ys"
  by (simp_all add: acked_def)

lemma dl_holds_Nil [simp]: "dl_holds crc d w a b []"
  unfolding dl_holds_def by (intro exI [of _ "[]"]) simp

lemma dl_holds_append:
  assumes 1: "dl_holds crc (dl_dir A) v a b xs" and 2: "dl_holds crc (dl_dir A) w b c ys"
    and g: "\<forall>n. prefix (stable_records crc v (dl_path (dl_dir A) n)) (stable_records crc w (dl_path (dl_dir A) n))"
    and le: "a \<le> b" "b \<le> c"
  shows "dl_holds crc (dl_dir A) w a c (xs @ ys)"
proof -
  obtain ms where ms: "sorted_wrt (<) ms" "set ms \<subseteq> {a..<b}"
    "list_all2 (\<lambda>n ds. prefix ds (stable_records crc v (dl_path (dl_dir A) n))) ms xs" using 1 unfolding dl_holds_def by blast
  obtain ns where ns: "sorted_wrt (<) ns" "set ns \<subseteq> {b..<c}"
    "list_all2 (\<lambda>n ds. prefix ds (stable_records crc w (dl_path (dl_dir A) n))) ns ys" using 2 unfolding dl_holds_def by blast
  have "list_all2 (\<lambda>n ds. prefix ds (stable_records crc w (dl_path (dl_dir A) n))) ms xs"
    by (intro list_all2_mono [OF ms(3)]) (use g prefix_order.trans in blast)
  moreover have "sorted_wrt (<) (ms @ ns)"
    using ms(1,2) ns(1,2) unfolding sorted_wrt_append by (auto simp: subset_iff) force
  ultimately show ?thesis using ms ns le unfolding dl_holds_def
    by (intro exI [of _ "ms @ ns"]) (auto intro: list_all2_appendI)
qed

lemma settled_refl: "env_wf E \<Longrightarrow> settled crc E ow [] E ow"
  unfolding settled_def by (intro conjI exI [of _ "[]"]) (simp_all add: dl_grows_refl)

lemma settled_wf: "settled crc E ow rs E' ow' \<Longrightarrow> env_wf E'"
  unfolding settled_def using dl_grows_wf by blast

lemma settled_fixed: "settled crc E ow rs E' ow' \<Longrightarrow> de_sink E' = de_sink E \<and> de_control E' = de_control E"
  by (simp add: settled_def)

lemma settled_grows: "settled crc E ow rs E' ow' \<Longrightarrow> dl_grows crc (de_dead_letter E) (de_world E) (de_dead_letter E') (de_world E')"
  by (simp add: settled_def)

lemma sums_add:
  fixes a :: "'a multiset"
  assumes "a + x = p + q + b" "b + y = r + s + c"
  shows "a + (x + y) = p + r + (q + s) + c"
proof -
  have "a + (x + y) = (a + x) + y" by (simp add: add.assoc)
  also have "\<dots> = p + q + (b + y)" using assms(1) by (simp add: add.assoc)
  also have "\<dots> = p + r + (q + s) + c" using assms(2) by (simp add: ac_simps)
  finally show ?thesis .
qed

lemma settled_trans:
  assumes 1: "settled crc E a xs F b" and 2: "settled crc F b ys G c"
  shows "settled crc E a (xs @ ys) G c"
proof -
  obtain l1 d1 where 11: "de_log F = de_log E @ l1"
      "dl_holds crc (dl_dir (de_dead_letter E)) (de_world F) (dl_next_counter (de_dead_letter E)) (dl_next_counter (de_dead_letter F)) d1"
    and 12: "mset (ow_payloads a) + mset xs = mset (acked l1) + mset (concat d1) + mset (ow_payloads b)"
      "dm_committed (de_metrics F) + ow_committed b = dm_committed (de_metrics E) + ow_committed a + length (acked l1)"
      "dm_dead_lettered (de_metrics F) = dm_dead_lettered (de_metrics E) + length (concat d1)"
    using 1 unfolding settled_def by blast
  obtain l2 d2 where 21: "de_log G = de_log F @ l2"
      "dl_holds crc (dl_dir (de_dead_letter F)) (de_world G) (dl_next_counter (de_dead_letter F)) (dl_next_counter (de_dead_letter G)) d2"
    and 22: "mset (ow_payloads b) + mset ys = mset (acked l2) + mset (concat d2) + mset (ow_payloads c)"
      "dm_committed (de_metrics G) + ow_committed c = dm_committed (de_metrics F) + ow_committed b + length (acked l2)"
      "dm_dead_lettered (de_metrics G) = dm_dead_lettered (de_metrics F) + length (concat d2)"
    using 2 unfolding settled_def by blast
  note g1 = settled_grows [OF 1] and g2 = settled_grows [OF 2]
  have d: "dl_wab_dir (de_dead_letter F) = dl_wab_dir (de_dead_letter E)" using g1 by (simp add: dl_grows_def)
  have "dl_holds crc (dl_dir (de_dead_letter E)) (de_world G) (dl_next_counter (de_dead_letter E))
      (dl_next_counter (de_dead_letter G)) (d1 @ d2)"
    by (rule dl_holds_append [OF 11(2)]) (use 21(2) d g1 g2 in \<open>simp_all add: dl_grows_def\<close>)
  moreover have "mset (ow_payloads a) + mset (xs @ ys) = mset (acked (l1 @ l2)) + mset (concat (d1 @ d2)) + mset (ow_payloads c)"
    using sums_add [OF 12(1) 22(1)] by simp
  ultimately show ?thesis
    using settled_fixed [OF 1] settled_fixed [OF 2] dl_grows_trans [OF g1 g2] 11(1) 21(1) 12(2,3) 22(2,3)
    by (subst settled_def) (intro conjI exI [of _ "l1 @ l2"] exI [of _ "d1 @ d2"], simp_all)
qed

text \<open>Steps that settle nothing: file reads, looks at the control flags, events.\<close>

lemma settled_idle:
  assumes "env_wf E" "de_world E' = (de_world E)\<lparr>w_tick := t\<rparr>" "de_dead_letter E' = de_dead_letter E"
    "de_log E' = de_log E" "de_sink E' = de_sink E" "de_control E' = de_control E"
    "dm_committed (de_metrics E') = dm_committed (de_metrics E)"
    "dm_dead_lettered (de_metrics E') = dm_dead_lettered (de_metrics E)"
  shows "settled crc E ow [] E' ow"
  using assms dl_grows_step [OF dl_step_idle [OF assms(1) refl refl]]
  by (subst settled_def) (intro conjI exI [of _ "[]"], simp_all)

section \<open>One commit\<close>

lemma settled_count: "env_wf E \<Longrightarrow> settled crc E \<lparr>ow_payloads = pl, ow_committed = c\<rparr> [] (count_committed c E) \<lparr>ow_payloads = pl, ow_committed = 0\<rparr>"
  by (subst settled_def) (intro conjI exI [of _ "[]"], simp_all add: count_committed_def dl_grows_refl)

text \<open>Writing rejected records pays for them, or changes nothing that counts.\<close>

lemma dead_letter_records_effect:
  assumes wf: "env_wf E" and run: "dead_letter_records C cfg rs E = (x, E')"
  shows "(x = Ok () \<longrightarrow> settled (crc_hash C) E \<lparr>ow_payloads = rs, ow_committed = c\<rparr> [] E' \<lparr>ow_payloads = [], ow_committed = c\<rparr>) \<and>
    (x \<noteq> Ok () \<longrightarrow> settled (crc_hash C) E ow [] E' ow)"
proof (cases "would_exceed_cap (de_dead_letter E) (estimated_write_bytes rs) (cfg_dead_letter_max_bytes cfg) \<and>
    \<not> estimated_write_bytes rs > cfg_dead_letter_max_bytes cfg")
  case True
  then show ?thesis using run settled_refl [OF wf] by (auto simp: dead_letter_records_def Let_def)
next
  case False
  obtain y D w where w: "write_records C (de_dead_letter E) rs (de_world E) = (y, D, w)" by (metis prod_cases3)
  note c = write_records_correct [OF wf w]
  show ?thesis
  proof (cases y)
    case (Inl k)
    then have "x \<noteq> Ok ()" "E' = E\<lparr>de_dead_letter := D, de_world := w,
        de_metrics := (de_metrics E)\<lparr>dm_dl_write_failures := dm_dl_write_failures (de_metrics E) + 1\<rparr>\<rparr>"
      using run False w by (auto simp: dead_letter_records_def Let_def)
    moreover have "settled (crc_hash C) E ow [] E' ow" if "E' = E\<lparr>de_dead_letter := D, de_world := w,
        de_metrics := (de_metrics E)\<lparr>dm_dl_write_failures := dm_dl_write_failures (de_metrics E) + 1\<rparr>\<rparr>"
      unfolding settled_def using c that by (intro conjI exI [of _ "[]"]) simp_all
    ultimately show ?thesis by blast
  next
    case (Inr u)
    then have x: "x = Ok ()" and E': "E' = E\<lparr>de_dead_letter := D, de_world := w,
        de_metrics := (de_metrics E)\<lparr>dm_dead_lettered := dm_dead_lettered (de_metrics E) + length rs,
                                      dm_dl_bytes_on_disk := dl_total_bytes D\<rparr>\<rparr>"
      using run False w by (auto simp: dead_letter_records_def Let_def)
    have "\<exists>dls. dl_holds (crc_hash C) (dl_dir (de_dead_letter E)) w (dl_next_counter (de_dead_letter E)) (dl_next_counter D) dls \<and> concat dls = rs"
    proof (cases "rs = []")
      case False
      then obtain n where "dl_next_counter (de_dead_letter E) \<le> n" "n < dl_next_counter D"
        "stable_records (crc_hash C) w (dl_path (dl_dir (de_dead_letter E)) n) = rs"
        using c Inr unfolding dl_written_def by auto
      then show ?thesis unfolding dl_holds_def by (intro exI [of _ "[rs]"] conjI exI [of _ "[n]"]) simp_all
    qed (intro exI [of _ "[]"], simp)
    then obtain dls where "dl_holds (crc_hash C) (dl_dir (de_dead_letter E)) w (dl_next_counter (de_dead_letter E)) (dl_next_counter D) dls"
      "concat dls = rs" by blast
    then have "settled (crc_hash C) E \<lparr>ow_payloads = rs, ow_committed = c\<rparr> [] E' \<lparr>ow_payloads = [], ow_committed = c\<rparr>"
      unfolding settled_def using c by (intro conjI exI [of _ "[]"] exI [of _ dls]) (simp_all add: E')
    then show ?thesis using x by simp
  qed
qed

text \<open>The sink's answer, as a debt still to be paid.\<close>

definition debt_of :: "bytes list \<Rightarrow> commit_race \<Rightarrow> dead_letter_owed" where
  "debt_of ps race =
     (case race of
        Finished (Committed cs ds) \<Rightarrow>
          if length cs + length ds = length ps then \<lparr>ow_payloads = map fst ds, ow_committed = length cs\<rparr> else no_debt
      | Finished (SinkErr False _) \<Rightarrow> \<lparr>ow_payloads = ps, ow_committed = 0\<rparr>
      | _ \<Rightarrow> no_debt)"

definition answered :: "bytes list \<Rightarrow> commit_race \<Rightarrow> bool" where
  "answered ps race =
     (case race of
        Finished (Committed cs ds) \<Rightarrow> length cs + length ds = length ps
      | Finished (SinkErr transient _) \<Rightarrow> \<not> transient
      | _ \<Rightarrow> False)"

lemma call_sink_effect:
  assumes "env_wf E" "sink_partitions (de_sink E)" "call_sink b E = (race, E')"
  shows "settled crc E no_debt (if answered (sb_records b) race then sb_records b else []) E' (debt_of (sb_records b) race)"
    "de_log E' = de_log E @ [(b, race)]"
proof -
  have E': "E' = E\<lparr>de_log := de_log E @ [(b, race)]\<rparr>" and r: "race = de_sink E (length (de_log E)) b"
    using assms(3) by (auto simp: call_sink_def Let_def)
  show "de_log E' = de_log E @ [(b, race)]" using E' by simp
  have p: "mset cs + mset (map fst ds) = mset (sb_records b)"
    if "race = Finished (Committed cs ds)" "length cs + length ds = length (sb_records b)" for cs ds
    using assms(2) that r unfolding sink_partitions_def by metis
  have "mset (if answered (sb_records b) race then sb_records b else []) =
      mset (acked [(b, race)]) + mset (ow_payloads (debt_of (sb_records b) race))"
    "ow_committed (debt_of (sb_records b) race) = length (acked [(b, race)])"
    using p by (auto simp: answered_def debt_of_def split: commit_race.splits sink_reply.splits bool.splits)
  then show "settled crc E no_debt (if answered (sb_records b) race then sb_records b else []) E' (debt_of (sb_records b) race)"
    using assms(1) unfolding settled_def E'
    by (intro conjI exI [of _ "[(b, race)]"] exI [of _ "[]"]) (simp_all add: dl_grows_refl)
qed

text \<open>What a batch result owes and whether the batch is settled up to that.\<close>

fun batch_owes :: "batch_result \<Rightarrow> dead_letter_owed" where
  "batch_owes (BatchTransient _ _ (Some ow)) = ow"
| "batch_owes (BatchBlocked _ ow) = ow"
| "batch_owes _ = no_debt"

fun batch_answered :: "batch_result \<Rightarrow> bool" where
  "batch_answered BatchOk = True"
| "batch_answered (BatchTransient _ _ ow) = (ow \<noteq> None)"
| "batch_answered (BatchBlocked _ _) = True"
| "batch_answered BatchAbandoned = False"

lemma owed_result_simps [simp]:
  "batch_owes (owed_result f ps c) = \<lparr>ow_payloads = ps, ow_committed = c\<rparr>" "batch_answered (owed_result f ps c)"
  "owed_result f ps c \<noteq> BatchOk"
  by (simp_all add: owed_result_def Let_def split: dead_letter_failure.splits)

lemma settled_publish [simp]: "settled crc E ow rs (publish ev E') ow' = settled crc E ow rs E' ow'"
  by (simp add: settled_def publish_def)

lemma settled_retried [simp]: "settled crc E ow rs (count_retried n E') ow' = settled crc E ow rs E' ow'"
  by (simp add: settled_def count_retried_def)

lemma settled_pay:
  assumes s: "settled (crc_hash C) E no_debt ps E1 \<lparr>ow_payloads = rs, ow_committed = c\<rparr>"
    and run: "dead_letter_records C cfg rs (publish ev E1) = (x, E')"
  shows "x = Ok () \<Longrightarrow> settled (crc_hash C) E no_debt ps (count_committed c E') no_debt"
    "x \<noteq> Ok () \<Longrightarrow> settled (crc_hash C) E no_debt ps E' \<lparr>ow_payloads = rs, ow_committed = c\<rparr>"
proof -
  let ?F = "publish ev E1"
  have s': "settled (crc_hash C) E no_debt ps ?F \<lparr>ow_payloads = rs, ow_committed = c\<rparr>" using s by simp
  note d = dead_letter_records_effect [OF settled_wf [OF s'] run]
  show "settled (crc_hash C) E no_debt ps E' \<lparr>ow_payloads = rs, ow_committed = c\<rparr>" if "x \<noteq> Ok ()"
    using settled_trans [OF s'] d that by fastforce
  show "settled (crc_hash C) E no_debt ps (count_committed c E') no_debt" if "x = Ok ()"
  proof -
    have p: "settled (crc_hash C) ?F \<lparr>ow_payloads = rs, ow_committed = c\<rparr> [] E' \<lparr>ow_payloads = [], ow_committed = c\<rparr>"
      using d that by blast
    note settled_trans [OF settled_trans [OF s' p] settled_count [OF settled_wf [OF p]]]
    then show ?thesis by simp
  qed
qed

lemma dead_letter_records_log: "dead_letter_records C cfg rs E = (x, E') \<Longrightarrow> de_log E' = de_log E"
  by (auto simp: dead_letter_records_def Let_def split: prod.splits sum.splits if_splits)

lemma commit_batch_effect:
  assumes wf: "env_wf E" and sp: "sink_partitions (de_sink E)"
    and run: "commit_batch_ctl C sha cfg ps ids t E = (r, E')"
  shows "settled (crc_hash C) E no_debt (if batch_answered r then ps else []) E' (batch_owes r)"
    "\<exists>race. de_log E' = de_log E @ [(with_segment_context ps (dedup_token_for sha ps) ids t, race)]"
proof -
  let ?b = "with_segment_context ps (dedup_token_for sha ps) ids t"
  obtain race E1 where s: "call_sink ?b E = (race, E1)" by fastforce
  have b: "sb_records ?b = ps" by (simp add: with_segment_context_def)
  note c = call_sink_effect(1) [OF wf sp s, of "crc_hash C", unfolded b]
  note run' = run [unfolded commit_batch_ctl_def Let_def s]
  have "settled (crc_hash C) E no_debt (if batch_answered r then ps else []) E' (batch_owes r) \<and> de_log E' = de_log E1"
  proof (cases race)
    case (Finished reply)
    show ?thesis
    proof (cases reply)
      case (Committed cs ds)
      show ?thesis
      proof (cases "length cs + length ds = length ps")
        case True
        have d: "settled (crc_hash C) E no_debt ps E1 \<lparr>ow_payloads = map fst ds, ow_committed = length cs\<rparr>"
          using c True by (simp add: Finished Committed answered_def debt_of_def)
        show ?thesis
        proof (cases "ds = []")
          case True
          have "settled (crc_hash C) E no_debt ps (count_committed (length cs) (publish SinkSuccess E1)) no_debt"
            using settled_trans [OF settled_publish [THEN iffD2, OF d] settled_count] settled_wf [OF d] True
            by (simp add: publish_def)
          then show ?thesis using run' True \<open>length cs + length ds = length ps\<close>
            by (auto simp: Finished Committed count_committed_def publish_def)
        next
          case False
          obtain x F where p: "dead_letter_records C cfg (map fst ds) (publish SinkSuccess E1) = (x, F)" by fastforce
          show ?thesis using settled_pay [OF d p] run' True False p dead_letter_records_log [OF p]
            by (cases x) (auto simp: Finished Committed Let_def count_committed_def publish_def)
        qed
      qed (use run' c in \<open>auto simp: Finished Committed answered_def debt_of_def publish_def [of _ E1] settled_def\<close>)
    next
      case (SinkErr tr ra)
      show ?thesis
      proof (cases tr)
        case True
        then show ?thesis using run' c by (auto simp: Finished SinkErr answered_def debt_of_def) (simp add: publish_def count_retried_def)
      next
        case False
        have d: "settled (crc_hash C) E no_debt ps E1 \<lparr>ow_payloads = ps, ow_committed = 0\<rparr>"
          using c False by (simp add: Finished SinkErr answered_def debt_of_def)
        obtain x F where p: "dead_letter_records C cfg ps (publish SinkPermanent E1) = (x, F)" by fastforce
        have z: "count_committed 0 F = F" by (simp add: count_committed_def)
        show ?thesis using settled_pay [OF d p] run' False p dead_letter_records_log [OF p] z
          by (cases x) (auto simp: Finished SinkErr publish_def)
      qed
    qed
  next
    case Elapsed
    then show ?thesis using run' c by (auto simp: answered_def debt_of_def) (simp add: publish_def count_retried_def)
  next
    case DeadlineReached
    then show ?thesis using run' c by (auto simp: answered_def debt_of_def)
  qed
  then show "settled (crc_hash C) E no_debt (if batch_answered r then ps else []) E' (batch_owes r)"
    "\<exists>race. de_log E' = de_log E @ [(?b, race)]" using call_sink_effect(2) [OF wf sp s] by auto
qed

section \<open>The record loop\<close>

text \<open>Records \<open>a\<close> up to \<open>b\<close> of a segment, counted from 0.\<close>

abbreviation slice :: "nat \<Rightarrow> nat \<Rightarrow> bytes list \<Rightarrow> bytes list" where
  "slice a b ps \<equiv> take (b - a) (drop a ps)"

text \<open>The batch of \<open>n\<close> records from place \<open>a\<close> on, and consecutive batches of given sizes.\<close>

definition ids_at :: "(bytes \<Rightarrow> bytes) \<Rightarrow> bytes \<Rightarrow> bytes list \<Rightarrow> nat \<Rightarrow> nat \<Rightarrow> bytes list" where
  "ids_at sha name ps a b = map (\<lambda>j. record_id_for sha name (of_nat (j + 1)) (ps ! j)) [a..<b]"

definition batch_at :: "(bytes \<Rightarrow> bytes) \<Rightarrow> bytes \<Rightarrow> i64 \<Rightarrow> bytes list \<Rightarrow> nat \<Rightarrow> nat \<Rightarrow> sink_batch" where
  "batch_at sha name created ps a n =
     with_segment_context (slice a (a + n) ps) (dedup_token_for sha (slice a (a + n) ps)) (ids_at sha name ps a (a + n)) created"

fun batches_at :: "(bytes \<Rightarrow> bytes) \<Rightarrow> bytes \<Rightarrow> i64 \<Rightarrow> bytes list \<Rightarrow> nat \<Rightarrow> nat list \<Rightarrow> sink_batch list" where
  "batches_at sha name created ps a [] = []"
| "batches_at sha name created ps a (n # ns) = batch_at sha name created ps a n # batches_at sha name created ps (a + n) ns"

text \<open>The calls from \<open>E\<close> to \<open>E'\<close>: consecutive batches of at most \<open>mx\<close> records from \<open>a\<close> up to \<open>t\<close>.\<close>

definition sent_to ::
  "(bytes \<Rightarrow> bytes) \<Rightarrow> bytes \<Rightarrow> i64 \<Rightarrow> nat \<Rightarrow> delivery_env \<Rightarrow> bytes list \<Rightarrow> nat \<Rightarrow> nat \<Rightarrow> delivery_env \<Rightarrow> bool"
where
  "sent_to sha name created mx E ps a t E' \<longleftrightarrow>
     (\<exists>log ns. de_log E' = de_log E @ log \<and> map fst log = batches_at sha name created ps a ns \<and>
        list_all (\<lambda>n. 0 < n \<and> n \<le> mx) ns \<and> t = a + sum_list ns \<and> t \<le> max a (length ps))"

definition loop_inv ::
  "(bytes \<Rightarrow> u32) \<Rightarrow> (bytes \<Rightarrow> bytes) \<Rightarrow> bytes \<Rightarrow> i64 \<Rightarrow> nat \<Rightarrow> delivery_env \<Rightarrow> bytes list \<Rightarrow> nat \<Rightarrow> batching \<Rightarrow> delivery_env \<Rightarrow> bool"
where
  "loop_inv crc sha name created mx E ps skip b E' \<longleftrightarrow>
     bt_read_index b = length ps \<and> skip \<le> bt_durable_through b \<and> bt_batch b = drop (bt_durable_through b) ps \<and>
     bt_ids b = ids_at sha name ps (bt_durable_through b) (length ps) \<and> length (bt_batch b) < mx \<and>
     settled crc E no_debt (slice skip (bt_durable_through b) ps) E' no_debt \<and>
     sent_to sha name created mx E ps skip (bt_durable_through b) E'"

text \<open>The progress a result reports: how far the segment is settled, and what is owed up to there.\<close>

fun reported :: "process_result \<Rightarrow> (nat \<times> dead_letter_owed) option" where
  "reported (PTransient _ k _ None) = Some (k, no_debt)"
| "reported (PTransient _ k _ (Some c)) = Some (ca_through c, \<lparr>ow_payloads = ca_payloads c, ow_committed = ca_committed c\<rparr>)"
| "reported (PBlockedDeadLetter k _ None) = Some (k, no_debt)"
| "reported (PBlockedDeadLetter k _ (Some c)) = Some (ca_through c, \<lparr>ow_payloads = ca_payloads c, ow_committed = ca_committed c\<rparr>)"
| "reported (PPaused k) = Some (k, no_debt)"
| "reported (PAbandoned k) = Some (k, no_debt)"
| "reported (Confirmed n) = Some (n, no_debt)"
| "reported _ = None"

text \<open>The end of the last batch that is settled in full.\<close>

fun processed_of :: "process_result \<Rightarrow> nat option" where
  "processed_of (PTransient _ k _ _) = Some k"
| "processed_of (PBlockedDeadLetter k _ _) = Some k"
| "processed_of (PPaused k) = Some k"
| "processed_of (PAbandoned k) = Some k"
| "processed_of _ = None"

text \<open>
  \<open>k\<close> records are settled with debt \<open>ow\<close>, and \<open>k0\<close> of them were settled without debt before.
\<close>

definition settled_via ::
  "(bytes \<Rightarrow> u32) \<Rightarrow> delivery_env \<Rightarrow> bytes list \<Rightarrow> nat \<Rightarrow> nat option \<Rightarrow> nat \<Rightarrow> delivery_env \<Rightarrow> dead_letter_owed \<Rightarrow> bool"
where
  "settled_via crc E ps skip processed k E' ow \<longleftrightarrow> settled crc E no_debt (slice skip k ps) E' ow \<and>
     (\<exists>k0 F xs. processed = Some k0 \<and> skip \<le> k0 \<and> k0 \<le> k \<and>
        settled crc E no_debt (slice skip k0 ps) F no_debt \<and> settled crc F no_debt xs E' ow)"

definition stopped ::
  "(bytes \<Rightarrow> u32) \<Rightarrow> (bytes \<Rightarrow> bytes) \<Rightarrow> bytes \<Rightarrow> i64 \<Rightarrow> nat \<Rightarrow> delivery_env \<Rightarrow> bytes list \<Rightarrow> nat \<Rightarrow> process_result \<Rightarrow> delivery_env \<Rightarrow> bool"
where
  "stopped crc sha name created mx E ps skip res E' \<longleftrightarrow>
     (\<forall>n. res \<noteq> Confirmed n) \<and>
     (\<exists>k ow. reported res = Some (k, ow) \<and> skip \<le> k \<and> k \<le> max skip (length ps) \<and>
        settled_via crc E ps skip (processed_of res) k E' ow \<and> (\<exists>t \<ge> k. sent_to sha name created mx E ps skip t E'))"

lemma stoppedI:
  "\<forall>n. res \<noteq> Confirmed n \<Longrightarrow> reported res = Some (k, ow) \<Longrightarrow> skip \<le> k \<Longrightarrow> k \<le> max skip (length ps) \<Longrightarrow>
   settled_via crc E ps skip (processed_of res) k E' ow \<Longrightarrow> sent_to sha name created mx E ps skip t E' \<Longrightarrow> k \<le> t \<Longrightarrow>
   stopped crc sha name created mx E ps skip res E'"
  unfolding stopped_def by blast

lemma settled_via_same: "skip \<le> k \<Longrightarrow> settled crc E no_debt (slice skip k ps) E' no_debt \<Longrightarrow> settled_via crc E ps skip (Some k) k E' no_debt"
  unfolding settled_via_def using settled_refl [OF settled_wf] by blast

lemma settled_viaD: "settled_via crc E ps skip processed k E' ow \<Longrightarrow> settled crc E no_debt (slice skip k ps) E' ow"
  by (simp add: settled_via_def)

lemma slice_append: "skip \<le> k \<Longrightarrow> k \<le> max skip (length ps) \<Longrightarrow> slice skip k (ps @ qs) = slice skip k ps"
  by (cases "k = skip") auto

lemma slice_join: "a \<le> b \<Longrightarrow> b \<le> c \<Longrightarrow> slice a b ps @ slice b c ps = slice a c ps"
proof -
  assume "a \<le> b" "b \<le> c"
  then have "slice b c ps = take (c - b) (drop (b - a) (drop a ps))" by simp
  moreover have "take (b - a) (drop a ps) @ take (c - b) (drop (b - a) (drop a ps)) = take ((b - a) + (c - b)) (drop a ps)"
    by (rule take_add [symmetric])
  ultimately show ?thesis using \<open>a \<le> b\<close> \<open>b \<le> c\<close> by simp
qed

lemma batches_at_append [simp]:
  "batches_at sha name created ps a (ms @ ns) = batches_at sha name created ps a ms @ batches_at sha name created ps (a + sum_list ms) ns"
  by (induction ms arbitrary: a) (simp_all add: add.assoc)

lemma batches_at_extend:
  "a + sum_list ns \<le> length ps \<Longrightarrow> batches_at sha name created (ps @ qs) a ns = batches_at sha name created ps a ns"
proof (induction ns arbitrary: a)
  case (Cons n ns)
  then have "ids_at sha name (ps @ qs) a (a + n) = ids_at sha name ps a (a + n)"
    by (auto simp: ids_at_def nth_append)
  moreover have "slice a (a + n) (ps @ qs) = slice a (a + n) ps" using Cons.prems by simp
  ultimately have "batch_at sha name created (ps @ qs) a n = batch_at sha name created ps a n"
    by (simp only: batch_at_def)
  then show ?case using Cons by simp
qed simp

lemma sent_to_extend:
  assumes "sent_to sha name created mx E ps a t E'" shows "sent_to sha name created mx E (ps @ qs) a t E'"
proof -
  obtain log ns where l: "de_log E' = de_log E @ log" "map fst log = batches_at sha name created ps a ns"
    "list_all (\<lambda>n. 0 < n \<and> n \<le> mx) ns" "t = a + sum_list ns" "t \<le> max a (length ps)"
    using assms unfolding sent_to_def by blast
  have "batches_at sha name created (ps @ qs) a ns = batches_at sha name created ps a ns"
  proof (cases ns)
    case (Cons n ms)
    then have "a < t" using l(3,4) by simp
    then show ?thesis using l(4,5) by (intro batches_at_extend) simp
  qed simp
  then show ?thesis using l unfolding sent_to_def by (intro exI [of _ log] exI [of _ ns]) auto
qed

lemma ids_at_snoc: "ids_at sha name (ps @ [p]) a (Suc (length ps)) =
    (if a \<le> length ps then ids_at sha name ps a (length ps) @ [record_id_for sha name (of_nat (length ps + 1)) p] else [])"
  by (auto simp: ids_at_def nth_append)

lemma loop_inv_read:
  assumes inv: "loop_inv crc sha name created mx E ps skip b E'"
  shows "length ps < skip \<Longrightarrow> loop_inv crc sha name created mx E (ps @ [p]) skip (b\<lparr>bt_read_index := bt_read_index b + 1\<rparr>) E'"
    and "skip \<le> length ps \<Longrightarrow> bt_durable_through b \<le> length ps"
    and "sent_to sha name created mx E (ps @ [p]) skip (bt_durable_through b) E'"
    and "settled crc E no_debt (slice skip (bt_durable_through b) (ps @ [p])) E' no_debt"
proof -
  have le: "bt_durable_through b \<le> max skip (length ps)" using inv by (auto simp: loop_inv_def sent_to_def)
  then show "skip \<le> length ps \<Longrightarrow> bt_durable_through b \<le> length ps" by simp
  have sl: "slice skip (bt_durable_through b) (ps @ [p]) = slice skip (bt_durable_through b) ps"
    by (rule slice_append) (use inv le in \<open>auto simp: loop_inv_def\<close>)
  show st: "sent_to sha name created mx E (ps @ [p]) skip (bt_durable_through b) E'"
    using inv by (auto simp: loop_inv_def intro: sent_to_extend)
  show se: "settled crc E no_debt (slice skip (bt_durable_through b) (ps @ [p])) E' no_debt"
    unfolding sl using inv by (simp add: loop_inv_def)
  show "loop_inv crc sha name created mx E (ps @ [p]) skip (b\<lparr>bt_read_index := bt_read_index b + 1\<rparr>) E'" if "length ps < skip"
    using inv st se that le unfolding loop_inv_def by (simp add: ids_at_snoc ids_at_def)
qed

lemma apply_batch_reported:
  "apply_batch r d n = Inl res \<Longrightarrow>
   reported res = Some (if batch_answered r then d + n else d, batch_owes r) \<and> (\<forall>m. res \<noteq> Confirmed m)"
proof (cases r)
  case (BatchTransient ra c ow)
  then show "apply_batch r d n = Inl res \<Longrightarrow> ?thesis" by (cases ow) (auto simp: into_carry_def)
qed (auto simp: into_carry_def)

lemma apply_batch_processed: "apply_batch r d n = Inl res \<Longrightarrow> processed_of res = Some d"
  by (cases r) auto

lemma apply_batch_ok: "apply_batch r d n = Inr k \<Longrightarrow> r = BatchOk \<and> k = d + n"
  by (cases r) auto

text \<open>A commit of the collected batch, which ends with the last record read.\<close>

lemma commit_collected_effect:
  assumes wf: "env_wf E" and sp: "sink_partitions (de_sink E)"
    and b: "bt_read_index b = length ps" "skip \<le> bt_durable_through b" "bt_durable_through b < length ps"
      "bt_batch b = drop (bt_durable_through b) ps" "bt_ids b = ids_at sha name ps (bt_durable_through b) (length ps)"
      "length (bt_batch b) \<le> mx"
    and se: "settled (crc_hash C) E no_debt (slice skip (bt_durable_through b) ps) E1 no_debt"
    and st: "sent_to sha name created mx E ps skip (bt_durable_through b) E1"
    and run: "commit_collected C sha cfg created b E1 = (x, E')"
  shows "case x of
      Inr b' \<Rightarrow> loop_inv (crc_hash C) sha name created mx E ps skip b' E' \<and> bt_durable_through b' = length ps
    | Inl res \<Rightarrow> stopped (crc_hash C) sha name created mx E ps skip res E'"
proof -
  let ?d = "bt_durable_through b" and ?n = "length (bt_batch b)" and ?E2 = "E1\<lparr>de_looks := de_looks E1 + 1\<rparr>"
  have n: "?d + ?n = length ps" "0 < ?n" "slice ?d (length ps) ps = bt_batch b" using b by auto
  have wf1: "env_wf E1" by (rule settled_wf [OF se])
  have i2: "settled (crc_hash C) E1 no_debt [] ?E2 no_debt" by (rule settled_idle [OF wf1, of _ "w_tick (de_world E1)"]) simp_all
  have se2: "settled (crc_hash C) E no_debt (slice skip ?d ps) ?E2 no_debt" using settled_trans [OF se i2] by simp
  have st2: "sent_to sha name created mx E ps skip ?d ?E2" using st by (simp add: sent_to_def)
  obtain g E2 where g: "batch_gate ?d E1 = (g, E2)" by fastforce
  have E2: "E2 = ?E2" using g by (auto simp: batch_gate_def Let_def split: if_splits)
  show ?thesis
  proof (cases g)
    case (Some stop)
    then have "x = Inl stop" "E' = ?E2" "stop = PAbandoned ?d \<or> stop = PPaused ?d"
      using run g E2 by (auto simp: commit_collected_def batch_gate_def Let_def split: if_splits)
    moreover have "stopped (crc_hash C) sha name created mx E ps skip stop ?E2"
      by (rule stoppedI [of _ ?d no_debt _ _ _ _ _ _ _ _ _ ?d])
        (use \<open>stop = PAbandoned ?d \<or> stop = PPaused ?d\<close> settled_via_same [OF b(2) se2] st2 b in auto)
    ultimately show ?thesis by simp
  next
    case None
    obtain r E3 where r: "commit_batch_ctl C sha cfg (bt_batch b) (bt_ids b) created ?E2 = (r, E3)" by fastforce
    have sp2: "sink_partitions (de_sink ?E2)" using sp settled_fixed [OF se2] by simp
    note c = commit_batch_effect [OF settled_wf [OF se2] sp2 r]
    have x: "x = (case apply_batch r ?d ?n of Inl setback \<Rightarrow> Inl setback
        | Inr durable \<Rightarrow> Inr (b\<lparr>bt_durable_through := durable, bt_batch := [], bt_ids := []\<rparr>))" "E' = E3"
      using run g None E2 r by (auto simp: commit_collected_def)
    obtain race where "de_log E3 = de_log ?E2 @ [(batch_at sha name created ps ?d ?n, race)]"
      using c(2) b n by (auto simp: batch_at_def)
    then have sent: "sent_to sha name created mx E ps skip (length ps) E3"
      using st2 n b(6) unfolding sent_to_def
      by (elim exE conjE) (rule exI, rule exI [of _ "ns @ [?n]" for ns], auto)
    have set: "settled (crc_hash C) E no_debt (slice skip (if batch_answered r then length ps else ?d) ps) E3 (batch_owes r)"
      using settled_trans [OF se2 c(1)] slice_join [of skip ?d "length ps" ps] b n by (auto split: if_splits)
    show ?thesis
    proof (cases "apply_batch r ?d ?n")
      case (Inl res)
      let ?k = "if batch_answered r then length ps else ?d"
      have via: "settled_via (crc_hash C) E ps skip (processed_of res) ?k E3 (batch_owes r)"
        unfolding settled_via_def apply_batch_processed [OF Inl] using set se2 c(1) b(2) n(1)
        by (intro conjI exI [of _ ?d] exI [of _ ?E2] exI [of _ "if batch_answered r then bt_batch b else []"]) auto
      have "stopped (crc_hash C) sha name created mx E ps skip res E3"
        by (rule stoppedI [OF _ _ _ _ via sent]) (use apply_batch_reported [OF Inl] n b in auto)
      then show ?thesis using x Inl by simp
    next
      case (Inr k)
      then show ?thesis using set sent x b n apply_batch_ok [OF Inr] by (auto simp: loop_inv_def ids_at_def)
    qed
  qed
qed

definition read_stops :: "bool \<Rightarrow> read_fault \<Rightarrow> bool" where
  "read_stops last_chance e \<longleftrightarrow>
     is_corruption (fault_kind e) \<or> last_chance \<and> classify (fault_kind e) = ClassMedia"

definition loop_done ::
  "(bytes \<Rightarrow> u32) \<Rightarrow> (bytes \<Rightarrow> bytes) \<Rightarrow> bytes \<Rightarrow> i64 \<Rightarrow> nat \<Rightarrow> delivery_env \<Rightarrow> bytes list \<Rightarrow> nat \<Rightarrow> bool \<Rightarrow>
   (read_fault + bytes) list \<Rightarrow> process_result + string option \<times> batching \<Rightarrow> delivery_env \<Rightarrow> bool"
where
  "loop_done crc sha name created mx E ps skip last_chance rest x E' \<longleftrightarrow>
     (case x of
        Inl res \<Rightarrow> stopped crc sha name created mx E ps skip res E'
      | Inr (reason, b) \<Rightarrow> loop_inv crc sha name created mx E ps skip b E' \<and>
          (case reason of None \<Rightarrow> rest = [] | Some _ \<Rightarrow> \<exists>e rest'. rest = Inl e # rest' \<and> read_stops last_chance e))"

text \<open>One record joins the batch.\<close>

lemma loop_inv_collect:
  assumes wf: "env_wf E" and sp: "sink_partitions (de_sink E)"
    and inv: "loop_inv (crc_hash C) sha name created mx E ps skip b E1" and skip: "skip \<le> length ps"
    and bq: "b2 = b\<lparr>bt_read_index := bt_read_index b + 1, bt_batch := bt_batch b @ [p],
                      bt_ids := bt_ids b @ [record_id_for sha name (of_nat (bt_read_index b + 1)) p]\<rparr>"
  shows "length (bt_batch b2) < mx \<Longrightarrow> loop_inv (crc_hash C) sha name created mx E (ps @ [p]) skip b2 E1"
    and "commit_collected C sha cfg created b2 E1 = (y, E2) \<Longrightarrow>
      (case y of
         Inr b' \<Rightarrow> loop_inv (crc_hash C) sha name created mx E (ps @ [p]) skip b' E2 \<and> bt_durable_through b' = length (ps @ [p])
       | Inl res \<Rightarrow> stopped (crc_hash C) sha name created mx E (ps @ [p]) skip res E2)"
proof -
  note rd = loop_inv_read(2) [OF inv] loop_inv_read(3,4) [OF inv, of p]
  have d: "bt_durable_through b \<le> length ps" using rd(1) skip by simp
  have b: "bt_read_index b2 = length (ps @ [p])" "bt_durable_through b2 = bt_durable_through b"
    "bt_batch b2 = drop (bt_durable_through b) (ps @ [p])"
    "bt_ids b2 = ids_at sha name (ps @ [p]) (bt_durable_through b) (length (ps @ [p]))"
    "skip \<le> bt_durable_through b" "length (bt_batch b2) \<le> mx"
    using inv d bq by (auto simp: loop_inv_def ids_at_snoc)
  show "loop_inv (crc_hash C) sha name created mx E (ps @ [p]) skip b2 E1" if "length (bt_batch b2) < mx"
    using b that rd(2,3) by (simp add: loop_inv_def)
  assume c: "commit_collected C sha cfg created b2 E1 = (y, E2)"
  show "case y of
      Inr b' \<Rightarrow> loop_inv (crc_hash C) sha name created mx E (ps @ [p]) skip b' E2 \<and> bt_durable_through b' = length (ps @ [p])
    | Inl res \<Rightarrow> stopped (crc_hash C) sha name created mx E (ps @ [p]) skip res E2"
    by (rule commit_collected_effect [OF wf sp _ _ _ _ _ _ _ _ c]) (use b d rd(2,3) in simp_all)
qed

lemma record_loop_effect:
  assumes wf: "env_wf E" and sp: "sink_partitions (de_sink E)"
    and inv: "loop_inv (crc_hash C) sha name created mx E ps skip b E1"
    and run: "record_loop C sha cfg name created mx skip last_chance items b E1 = (x, E')"
  shows "\<exists>qs rest. items = map Inr qs @ rest \<and> loop_done (crc_hash C) sha name created mx E (ps @ qs) skip last_chance rest x E'"
  using inv run
proof (induction items arbitrary: ps b E1)
  case Nil
  then show ?case by (intro exI [of _ "[]"]) (auto simp: loop_done_def)
next
  case (Cons item items)
  have shift: ?case if "item = Inr p" "items = map Inr qs @ rest"
      "loop_done (crc_hash C) sha name created mx E ((ps @ [p]) @ qs) skip last_chance rest x E'" for p qs rest
    using that by (intro exI [of _ "p # qs"] exI [of _ rest]) simp
  show ?case
  proof (cases item)
    case (Inl e)
    have "stopped (crc_hash C) sha name created mx E ps skip (PTransient None (bt_durable_through b) c None) E1" for c
      using Cons.prems(1) settled_via_same [of skip "bt_durable_through b" "crc_hash C" E ps E1] unfolding loop_inv_def
      by (intro stoppedI [where k = "bt_durable_through b" and t = "bt_durable_through b" and ow = no_debt]) (auto simp: sent_to_def)
    then have "loop_done (crc_hash C) sha name created mx E ps skip last_chance (item # items) x E'"
      using Cons.prems Inl by (auto simp: loop_done_def read_stops_def Let_def split: if_splits)
    then show ?thesis by - (rule exI [of _ "[]"], rule exI [of _ "item # items"], simp)
  next
    case (Inr p)
    note rd = loop_inv_read(1) [OF Cons.prems(1), of p]
    let ?b1 = "b\<lparr>bt_read_index := bt_read_index b + 1\<rparr>"
    define b2 where "b2 = ?b1\<lparr>bt_batch := bt_batch b @ [p], bt_ids := bt_ids b @ [record_id_for sha name (of_nat (bt_read_index b + 1)) p]\<rparr>"
    have idx: "bt_read_index b = length ps" using Cons.prems(1) by (simp add: loop_inv_def)
    show ?thesis
    proof (cases "length ps < skip")
      case True
      have "record_loop C sha cfg name created mx skip last_chance items ?b1 E1 = (x, E')"
        using Cons.prems(2) Inr True idx by (simp add: Let_def)
      then show ?thesis using Cons.IH [OF rd [OF True]] shift [OF Inr] by blast
    next
      case False
      then have sk: "skip \<le> length ps" by simp
      note col = loop_inv_collect [OF wf sp Cons.prems(1) sk b2_def]
      have run: "(if mx \<le> length (bt_batch b2)
          then case commit_collected C sha cfg created b2 E1 of (Inl setback, E) \<Rightarrow> (Inl setback, E)
               | (Inr b, E) \<Rightarrow> record_loop C sha cfg name created mx skip last_chance items b E
          else record_loop C sha cfg name created mx skip last_chance items b2 E1) = (x, E')"
        using Cons.prems(2) Inr False idx unfolding b2_def by (simp add: Let_def cong: if_cong split del: if_split)
      show ?thesis
      proof (cases "mx \<le> length (bt_batch b2)")
        case True
        obtain y E2 where c: "commit_collected C sha cfg created b2 E1 = (y, E2)" by fastforce
        note e = col(2) [OF c]
        show ?thesis
        proof (cases y)
          case (Inl res)
          then have "x = Inl res" "E' = E2" using run True c by auto
          then have "loop_done (crc_hash C) sha name created mx E ((ps @ [p]) @ []) skip last_chance items x E'"
            using e Inl by (simp add: loop_done_def)
          then show ?thesis using shift [OF Inr, of "[]" items] by simp
        next
          case (Inr b')
          then show ?thesis using Cons.IH [of "ps @ [p]" b' E2] e run True c shift [OF \<open>item = Inr p\<close>] by auto
        qed
      next
        case False
        then have "loop_inv (crc_hash C) sha name created mx E (ps @ [p]) skip b2 E1" using col(1) by simp
        then show ?thesis using Cons.IH [of "ps @ [p]" b2 E1] run False shift [OF Inr] by auto
      qed
    qed
  qed
qed

lemma read_segment_record_count_idle:
  "read_segment_record_count p w = (x, w') \<Longrightarrow> \<exists>t. w' = w\<lparr>w_tick := t\<rparr>"
  by (auto simp: read_segment_record_count_def fs_seek_def io_step_tick io_tick_def fs_open_def fs_metadata_len_def
      split: prod.splits sum.splits if_splits io_outcome.splits option.splits)

text \<open>
  How an attempt on an open segment ends: with a setback, or at the quarantine move or the check of
  the footer, with every record read settled.
\<close>

definition all_settled ::
  "(bytes \<Rightarrow> u32) \<Rightarrow> (bytes \<Rightarrow> bytes) \<Rightarrow> bytes \<Rightarrow> i64 \<Rightarrow> nat \<Rightarrow> delivery_env \<Rightarrow> bytes list \<Rightarrow> nat \<Rightarrow> delivery_env \<Rightarrow> bool"
where
  "all_settled crc sha name created mx E ps skip E' \<longleftrightarrow>
     settled crc E no_debt (drop skip ps) E' no_debt \<and> sent_to sha name created mx E ps skip (max skip (length ps)) E'"

lemma final_batch:
  assumes wf: "env_wf E" and sp: "sink_partitions (de_sink E)"
    and inv: "loop_inv (crc_hash C) sha name created mx E ps skip b E1"
    and run: "(if bt_batch b \<noteq> [] then commit_collected C sha cfg created b E1 else (Inr b, E1)) = (y, E2)"
  shows "case y of
      Inr b' \<Rightarrow> loop_inv (crc_hash C) sha name created mx E ps skip b' E2 \<and> bt_durable_through b' = max skip (length ps)
    | Inl res \<Rightarrow> stopped (crc_hash C) sha name created mx E ps skip res E2"
proof (cases "bt_batch b = []")
  case True
  moreover have "bt_durable_through b \<le> max skip (length ps)" "skip \<le> bt_durable_through b" "length ps \<le> bt_durable_through b"
    using inv True by (auto simp: loop_inv_def sent_to_def)
  ultimately show ?thesis using run inv by auto
next
  case False
  then have c: "commit_collected C sha cfg created b E1 = (y, E2)" using run by simp
  have "skip \<le> bt_durable_through b" "bt_durable_through b < length ps" using inv False by (auto simp: loop_inv_def)
  then have m: "max skip (length ps) = length ps" by simp
  show ?thesis unfolding m
    by (rule commit_collected_effect [OF wf sp _ _ _ _ _ _ _ _ c]) (use inv False in \<open>auto simp: loop_inv_def\<close>)
qed

lemma deliver_cases:
  assumes wf: "env_wf E" and sp: "sink_partitions (de_sink E)"
    and run: "deliver_segment C Z sha cfg mb segment skip last_chance reader E = (res, E')"
  obtains (setback) ps rest where
      "fst (sr_collect (crc_hash C) Z reader) = map Inr ps @ rest"
      "stopped (crc_hash C) sha (segment_identity segment) (hm_created_at (sr_header reader)) (max mb 1) E ps skip res E'"
  | (unreadable) ps e rest E1 reason where
      "fst (sr_collect (crc_hash C) Z reader) = map Inr ps @ Inl e # rest" "read_stops last_chance e"
      "all_settled (crc_hash C) sha (segment_identity segment) (hm_created_at (sr_header reader)) (max mb 1) E ps skip E1"
      "quarantine_result segment cfg reason E1 = (res, E')"
  | (footer) ps E1 b where
      "fst (sr_collect (crc_hash C) Z reader) = map Inr ps"
      "all_settled (crc_hash C) sha (segment_identity segment) (hm_created_at (sr_header reader)) (max mb 1) E ps skip E1"
      "bt_read_index b = length ps" "bt_durable_through b = max skip (length ps)" "check_footer segment cfg b E1 = (res, E')"
proof -
  let ?name = "segment_identity segment" and ?t = "hm_created_at (sr_header reader)" and ?mx = "max mb 1" and ?crc = "crc_hash C"
  let ?b = "\<lparr>bt_read_index = 0, bt_durable_through = skip, bt_batch = [], bt_ids = []\<rparr>"
  let ?items = "fst (sr_collect (crc_hash C) Z reader)"
  have inv: "loop_inv ?crc sha ?name ?t ?mx E [] skip ?b E"
    using settled_refl [OF wf] by (auto simp: loop_inv_def ids_at_def sent_to_def intro!: exI [of _ "[]"])
  obtain x E1 where l: "record_loop C sha cfg ?name ?t ?mx skip last_chance ?items ?b E = (x, E1)" by fastforce
  obtain ps rest where items: "?items = map Inr ps @ rest" and d: "loop_done ?crc sha ?name ?t ?mx E ps skip last_chance rest x E1"
    using record_loop_effect [OF wf sp inv l] by auto
  show thesis
  proof (cases x)
    case (Inl r)
    then have "res = r" "E' = E1" using run l by (auto simp: deliver_segment_def Let_def)
    then show thesis using setback items d Inl by (simp add: loop_done_def)
  next
    case (Inr rb)
    obtain reason b where rb: "rb = (reason, b)" by fastforce
    have inv1: "loop_inv ?crc sha ?name ?t ?mx E ps skip b E1" using d Inr rb by (simp add: loop_done_def)
    obtain y E2 where f: "(if bt_batch b \<noteq> [] then commit_collected C sha cfg ?t b E1 else (Inr b, E1)) = (y, E2)" by fastforce
    have e: "case y of
        Inr b' \<Rightarrow> loop_inv ?crc sha ?name ?t ?mx E ps skip b' E2 \<and> bt_durable_through b' = max skip (length ps)
      | Inl r \<Rightarrow> stopped ?crc sha ?name ?t ?mx E ps skip r E2"
      by (rule final_batch [OF wf sp inv1 f])
    have r: "(res, E') = (case y of Inl r \<Rightarrow> (r, E2) | Inr b \<Rightarrow>
        (case reason of Some why \<Rightarrow> quarantine_result segment cfg why E2 | None \<Rightarrow> check_footer segment cfg b E2))"
      using run l Inr rb f by (simp add: deliver_segment_def Let_def split: sum.splits option.splits if_splits)
    show thesis
    proof (cases y)
      case (Inl r')
      then show thesis using setback items e r by simp
    next
      case (Inr b')
      then have "all_settled ?crc sha ?name ?t ?mx E ps skip E2"
        using e by (cases "skip \<le> length ps") (auto simp: all_settled_def loop_inv_def max_def)
      moreover have "case reason of None \<Rightarrow> rest = [] | Some _ \<Rightarrow> \<exists>e rest'. rest = Inl e # rest' \<and> read_stops last_chance e"
        using d \<open>x = Inr rb\<close> rb by (simp add: loop_done_def)
      ultimately show thesis using unreadable [of ps _ _ E2] footer [of ps E2 b'] items e r Inr
        by (cases reason) (auto simp: loop_inv_def)
    qed
  qed
qed

text \<open>The system call layer does not report a missing file for one that is there.\<close>

definition no_false_absence :: "world \<Rightarrow> bool" where
  "no_false_absence w \<longleftrightarrow> (\<forall>t. w_io w t \<noteq> IoFail NotFound)"

lemma fs_open_present:
  assumes "w_entry w p = Some i" "no_false_absence w" "fs_open p w = (x, w')"
  shows "w' = io_tick w" "x \<noteq> Err NotFound" "x = Ok (j, r) \<Longrightarrow> j = i \<and> prefix (rd_rest r) (w_data w i) \<and> rd_fail r \<noteq> Some NotFound"
  using assms by (auto simp: fs_open_def io_step_tick no_false_absence_def take_is_prefix file_reader_def split: io_outcome.splits)

lemma open_segment_present:
  assumes "w_entry w p = Some i" "no_false_absence w" "open_segment p w = (x, w')"
  shows "w' = io_tick w" "x = Inl e \<Longrightarrow> fault_kind e \<noteq> NotFound"
    "x = Inr s \<Longrightarrow> \<exists>r. sr_open (Ok r) = Ok s \<and> prefix (rd_rest r) (w_data w i)"
proof -
  obtain y v where o: "fs_open p w = (y, v)" by fastforce
  note f = fs_open_present [OF assms(1,2) o]
  have x: "x = sr_open (case y of Inl k \<Rightarrow> Err k | Inr (_, r) \<Rightarrow> Ok r)" "w' = v" using assms(3) o by (auto simp: open_segment_def)
  show "w' = io_tick w" using x f by simp
  show "\<exists>r. sr_open (Ok r) = Ok s \<and> prefix (rd_rest r) (w_data w i)" if "x = Inr s"
    using that x f(2,3) by (cases y) (auto simp: sr_open_def)
  show "fault_kind e \<noteq> NotFound" if "x = Inl e"
    using that x f(2,3) by (cases y) (auto simp: sr_open_def read_exact_def rd_end_def split: if_splits sum.splits option.splits)
qed

lemma inspect_present:
  assumes "w_entry w p = Some i" "no_false_absence w" "inspect_rejected_header p w = (v, w')"
  shows "w' = io_tick w" "v \<noteq> HvGone"
proof -
  obtain y u where o: "fs_open p w = (y, u)" by fastforce
  note f = fs_open_present [OF assms(1,2) o]
  show "w' = io_tick w" using assms(3) o f by (auto simp: inspect_rejected_header_def)
  show "v \<noteq> HvGone" using assms(3) o f(2,3)
    by (cases y) (auto simp: inspect_rejected_header_def read_up_to_def Let_def
        split: if_splits sum.splits option.splits segment_header_parse_error.splits)
qed

section \<open>A whole attempt\<close>

lemma quarantine_result_effect:
  assumes "quarantine_result segment cfg reason E = (res, E')"
  shows "res = PQuarantined \<or> res = PQuarantinePending reason" "de_log E' = de_log E"
    "(\<exists>t. de_world E' = (de_world E)\<lparr>w_tick := t\<rparr>) \<or>
     (\<exists>q i t. res = PQuarantined \<and> fst q = quarantine_dir (cfg_wab_dir cfg) \<and> w_entry (de_world E) q = None \<and>
        w_entry (de_world E) segment = Some i \<and>
        de_world E' = (de_world E)\<lparr>w_tick := t, w_dir := AList.update q i (AList.delete segment (w_dir (de_world E)))\<rparr>)"
proof -
  obtain x w where q: "quarantine segment (cfg_wab_dir cfg) (de_world E) = (x, w)" by fastforce
  note m = quarantine_moves [OF q]
  show "res = PQuarantined \<or> res = PQuarantinePending reason" "de_log E' = de_log E"
    using assms by (auto simp: quarantine_result_def quarantine_segment_def split: prod.splits sum.splits bool.splits)
  have s: "fs_stat_len segment w = (y, w2) \<Longrightarrow> w2 = io_tick w" for y w2
    by (auto simp: fs_stat_len_def io_step_tick split: io_outcome.splits option.splits)
  show "(\<exists>t. de_world E' = (de_world E)\<lparr>w_tick := t\<rparr>) \<or>
     (\<exists>q i t. res = PQuarantined \<and> fst q = quarantine_dir (cfg_wab_dir cfg) \<and> w_entry (de_world E) q = None \<and>
        w_entry (de_world E) segment = Some i \<and>
        de_world E' = (de_world E)\<lparr>w_tick := t, w_dir := AList.update q i (AList.delete segment (w_dir (de_world E)))\<rparr>)"
    using m
  proof (elim disjE conjE exE)
    fix n assume w: "w = (de_world E)\<lparr>w_tick := n\<rparr>" and x: "x \<noteq> Ok ()"
    obtain y w2 where y: "fs_stat_len segment w = (y, w2)" by fastforce
    have "de_world E' = w2" using assms q x y
      by (auto simp: quarantine_result_def quarantine_segment_def move_to_quarantine_def split: sum.splits if_splits)
    then show ?thesis using s [OF y] w by (simp add: io_tick_def) blast
  next
    fix r i n assume w: "x = Ok ()" "fst r = quarantine_dir (cfg_wab_dir cfg)" "w_entry (de_world E) r = None"
      "w_entry (de_world E) segment = Some i"
      "w = (de_world E)\<lparr>w_tick := n, w_dir := AList.update r i (AList.delete segment (w_dir (de_world E)))\<rparr>"
    then have "res = PQuarantined" "de_world E' = w" using assms q
      by (auto simp: quarantine_result_def quarantine_segment_def move_to_quarantine_def)
    then show ?thesis using w by blast
  qed
qed

definition segment_items :: "'h crc_ops \<Rightarrow> zstd_ops \<Rightarrow> path \<Rightarrow> world \<Rightarrow> (read_fault + bytes) list" where
  "segment_items C Z p w =
     (case fst (open_segment p w) of Inl _ \<Rightarrow> [] | Inr reader \<Rightarrow> fst (sr_collect (crc_hash C) Z reader))"

lemma process_cases:
  assumes run: "process_segment_ctl C Z sha cfg mb segment skip last_chance E = (res, E')"
  obtains (opened) reader t where "open_segment segment (de_world E) = (Inr reader, (de_world E)\<lparr>w_tick := t\<rparr>)"
      "deliver_segment C Z sha cfg mb segment skip last_chance reader (E\<lparr>de_world := (de_world E)\<lparr>w_tick := t\<rparr>\<rparr>) = (res, E')"
  | (absent) t where "segment_items C Z segment (de_world E) = []" "res = Confirmed 0" "E' = E\<lparr>de_world := (de_world E)\<lparr>w_tick := t\<rparr>\<rparr>"
      "no_false_absence (de_world E) \<Longrightarrow> w_entry (de_world E) segment = None"
  | (unread) t where "segment_items C Z segment (de_world E) = []" "E' = E\<lparr>de_world := (de_world E)\<lparr>w_tick := t\<rparr>\<rparr>"
      "(\<exists>k. res = local_read_failure k skip) \<or> res = PParked UnsupportedVersion"
  | (corrupt) t reason where "segment_items C Z segment (de_world E) = []"
      "quarantine_result segment cfg reason (E\<lparr>de_world := (de_world E)\<lparr>w_tick := t\<rparr>\<rparr>) = (res, E')"
proof -
  obtain x w where o: "open_segment segment (de_world E) = (x, w)" by fastforce
  have w: "w = io_tick (de_world E)"
    using o by (auto simp: open_segment_def dest: fs_open_effect split: prod.splits)
  obtain v u where i: "inspect_rejected_header segment w = (v, u)" by fastforce
  have u: "u = io_tick w" using i by (auto simp: inspect_rejected_header_def dest: fs_open_effect split: prod.splits)
  show thesis
  proof (cases x)
    case (Inr reader)
    then show thesis using opened run o w by (auto simp: process_segment_ctl_def io_tick_def)
  next
    case (Inl e)
    have items: "segment_items C Z segment (de_world E) = []" using o Inl by (simp add: segment_items_def)
    have ent: "w_entry w = w_entry (de_world E)" "no_false_absence w = no_false_absence (de_world E)"
      by (simp_all add: w no_false_absence_def io_tick_def w_entry_def)
    have gone: "w_entry (de_world E) segment = None"
      if "no_false_absence (de_world E)" "fault_kind e = NotFound \<or> v = HvGone"
    proof (rule ccontr)
      assume "w_entry (de_world E) segment \<noteq> None"
      then obtain j where j: "w_entry (de_world E) segment = Some j" by auto
      then show False using that open_segment_present(2) [OF j that(1) o Inl] inspect_present(2) [of w segment j v u] ent i by auto
    qed
    have r: "(res, E') = (let E = E\<lparr>de_world := w\<rparr> in
        if fault_kind e = NotFound then (Confirmed 0, E)
        else if fault_kind e = InvalidData
        then let E = E\<lparr>de_world := u\<rparr> in
             (case v of
                NewerFormat _ _ \<Rightarrow> (PParked UnsupportedVersion, E)
              | HvCorrupt \<Rightarrow> quarantine_result segment cfg ''drain: corrupt segment header'' E
              | HvGone \<Rightarrow> (Confirmed 0, E)
              | HvUnreadable re \<Rightarrow> (local_read_failure re skip, E))
        else (local_read_failure (fault_kind e) skip, E))"
      using run o Inl i by (simp add: process_segment_ctl_def Let_def cong: if_cong)
    have tw: "w = (de_world E)\<lparr>w_tick := Suc (w_tick (de_world E))\<rparr>" using w by (simp add: io_tick_def)
    have tu: "u = (de_world E)\<lparr>w_tick := Suc (Suc (w_tick (de_world E)))\<rparr>" using u tw by (simp add: io_tick_def)
    consider "fault_kind e = NotFound" | "fault_kind e = InvalidData" | "fault_kind e \<noteq> NotFound" "fault_kind e \<noteq> InvalidData" by blast
    then show thesis
    proof cases
      case 1
      show thesis by (rule absent [OF items _ _ gone, where t = "w_tick w"]) (use r 1 tw in simp_all)
    next
      case 2
      then have r: "(res, E') = (case v of
                NewerFormat _ _ \<Rightarrow> (PParked UnsupportedVersion, E\<lparr>de_world := u\<rparr>)
              | HvCorrupt \<Rightarrow> quarantine_result segment cfg ''drain: corrupt segment header'' (E\<lparr>de_world := u\<rparr>)
              | HvGone \<Rightarrow> (Confirmed 0, E\<lparr>de_world := u\<rparr>)
              | HvUnreadable re \<Rightarrow> (local_read_failure re skip, E\<lparr>de_world := u\<rparr>))"
        using r by (cases v) simp_all
      show thesis
      proof (cases v)
        case HvGone
        show thesis by (rule absent [OF items _ _ gone, where t = "w_tick u"]) (use r HvGone tu in simp_all)
      next
        case HvCorrupt
        show thesis by (rule corrupt [OF items, where t = "w_tick u"]) (use r HvCorrupt tu in simp)
      qed (rule unread [OF items, where t = "w_tick u"], use r tu in auto)+
    next
      case 3
      show thesis by (rule unread [OF items, where t = "w_tick w"]) (use r 3 tw in auto)
    qed
  qed
qed

section \<open>What is read\<close>

lemma check_footer_cases:
  assumes run: "check_footer segment cfg b E = (res, E')"
  obtains (complete) t where "res = Confirmed (bt_read_index b)" "E' = E\<lparr>de_world := (de_world E)\<lparr>w_tick := t\<rparr>\<rparr>"
      "fst (read_segment_record_count segment (de_world E)) \<in> {Ok (of_nat (bt_read_index b)), Err NotFound}"
  | (retry) t c where "res = PTransient None (bt_durable_through b) c None" "E' = E\<lparr>de_world := (de_world E)\<lparr>w_tick := t\<rparr>\<rparr>"
  | (incomplete) t reason where "quarantine_result segment cfg reason (E\<lparr>de_world := (de_world E)\<lparr>w_tick := t\<rparr>\<rparr>) = (res, E')"
proof -
  obtain x w where r: "read_segment_record_count segment (de_world E) = (x, w)" by fastforce
  obtain t where w: "w = (de_world E)\<lparr>w_tick := t\<rparr>" using read_segment_record_count_idle [OF r] by blast
  show thesis
  proof (cases x)
    case (Inl k)
    consider "is_corruption k" | "k = NotFound" | "\<not> is_corruption k" "k \<noteq> NotFound" by blast
    then show thesis
    proof cases
      case 1 then show thesis using incomplete [of _ t] run r w Inl by (simp add: check_footer_def)
    next
      case 2 then show thesis using complete [of t] run r w Inl by (simp add: check_footer_def is_corruption_def)
    next
      case 3 then show thesis using retry [of _ t] run r w Inl by (auto simp: check_footer_def)
    qed
  next
    case (Inr c)
    then show thesis using complete [of t] incomplete [of _ t] run r w by (cases "c = of_nat (bt_read_index b)") (simp_all add: check_footer_def)
  qed
qed

lemma oks_prefix: "map Inr ps @ rest = map Inr qs @ map Inl errs \<Longrightarrow> prefix ps qs"
proof (induction ps arbitrary: qs)
  case (Cons p ps)
  then show ?case by (cases qs) (auto simp: Cons_eq_append_conv map_eq_Cons_conv [symmetric] dest: sym)
qed simp

lemma list_all2_reads_prefix:
  "list_all2 (record_reads Z c) xs ps \<Longrightarrow> list_all2 (record_reads Z c) ys rs \<Longrightarrow> prefix xs ys \<Longrightarrow> prefix ps rs"
proof (induction xs ps arbitrary: ys rs rule: list_all2_induct)
  case (Cons x xs p ps)
  then obtain ys' where ys: "ys = x # ys'" "prefix xs ys'" by (cases ys) auto
  then obtain r rs' where rs: "rs = r # rs'" "record_reads Z c x r" "list_all2 (record_reads Z c) ys' rs'"
    using Cons.prems(1) by (auto simp: list_all2_Cons1)
  have "r = p" using rs(2) Cons.hyps(1) by (simp add: record_reads_def)
  then show ?case using Cons.IH [OF rs(3) ys(2)] rs(1) by simp
qed simp

text \<open>Whatever part of a sealed segment a reader sees, the records it yields are the first ones, in order.\<close>

lemma image_items:
  assumes img: "sealed_image crc h f sts bs" and rs: "list_all2 (record_reads Z (hm_compression h)) sts rs"
    and o: "sr_open (Ok r) = Ok s" "prefix (rd_rest r) bs" and items: "fst (sr_collect crc Z s) = map Inr ps @ rest"
  shows "prefix ps rs" "sr_header s = h"
proof -
  obtain hb fb where hb: "parse_segment_header hb = Ok h" "bs = hb @ concat (map (frame crc) sts) @ SENTINEL @ fb"
    "\<forall>st \<in> set sts. stored_ok (hm_compression h) st" using img unfolding sealed_image_def by blast
  obtain hb' h' tl where r: "rd_rest r = hb' @ tl" "parse_segment_header hb' = Ok h'" "s = sr_start h' (r\<lparr>rd_rest := tl\<rparr>)"
    using o(1) by (auto simp: sr_open_exact)
  have "length hb' = 24" "length hb = 24" using header_magic_version [OF r(2)] header_magic_version [OF hb(1)] by simp_all
  moreover obtain z where "bs = (hb' @ tl) @ z" using o(2) r(1) by (auto simp: prefix_def)
  ultimately have "hb' = hb" using hb(2) by (metis append_assoc append_eq_append_conv)
  then have h': "h' = h" using r(2) hb(1) by simp
  then show "sr_header s = h" using r(3) by (simp add: sr_start_def)
  obtain its s' where c: "sr_collect crc Z s = (its, s')" by fastforce
  have nd: "\<not> sr_done s" "sr_compression s = hm_compression h" using r(3) h' by (simp_all add: sr_start_def)
  from c nd(1) obtain sts' qs errs z where q: "its = map Ok qs @ map Err errs"
    "list_all2 (record_reads Z (sr_compression s)) sts' qs" "rd_rest (sr_reader s) = concat (map (frame crc) sts') @ z"
    by (rule sr_collect_sound)
  have ok: "\<forall>st \<in> set sts'. stored_ok (hm_compression h) st"
    using q(2) nd(2) by (auto simp: list_all2_conv_all_nth in_set_conv_nth record_reads_def)
  have "prefix (hb @ concat (map (frame crc) sts')) bs"
    using o(2) r(1,3) q(3) \<open>hb' = hb\<close> by (auto simp: sr_start_def prefix_def)
  from file_records_mono [OF this, of crc] have "prefix sts' sts"
    using file_records_image(1) [OF hb(1) ok, of crc] file_records_image(2) [OF hb(1) hb(3), of crc] hb(2) by simp
  then have "prefix qs rs" using list_all2_reads_prefix [OF q(2) [unfolded nd(2)] rs] by simp
  moreover have "prefix ps qs" by (rule oks_prefix [of ps rest qs errs]) (use items c q(1) in simp)
  ultimately show "prefix ps rs" by (rule prefix_order.trans [rotated])
qed

text \<open>The footer at the end of a file states \<open>n\<close> records.\<close>

definition footer_states :: "bytes \<Rightarrow> nat \<Rightarrow> bool" where
  "footer_states bs n \<longleftrightarrow> SEGMENT_FOOTER_LEN \<le> length bs \<and>
     u64_from_le (take 8 (drop (length bs - SEGMENT_FOOTER_LEN) bs)) = of_nat n"

lemma record_count_of_file:
  assumes e: "w_entry w p = Some i" and run: "read_segment_record_count p w = (Ok c, w')"
  shows "SEGMENT_FOOTER_LEN \<le> length (w_data w i)" "c = u64_from_le (take 8 (drop (length (w_data w i) - SEGMENT_FOOTER_LEN) (w_data w i)))"
proof -
  obtain x w1 where 1: "fs_open p w = (x, w1)" by fastforce
  then obtain j r where x: "x = Ok (j, r)" using run by (cases x) (auto simp: read_segment_record_count_def)
  have r: "j = i" "w1 = io_tick w" "prefix (rd_rest r) (w_data w i)" using fs_open_effect [OF 1] x e by auto
  obtain y w2 where 2: "fs_metadata_len i w1 = (y, w2)" by fastforce
  then obtain n where y: "y = Ok n" using run 1 x r(1) by (cases y) (auto simp: read_segment_record_count_def)
  have n: "n = length (w_data w i)" using fs_metadata_len_effect [OF 2] y r(2) by simp
  have c: "c = u64_from_le (take 8 (drop (n - 32) (rd_rest r)))" "8 \<le> length (drop (n - 32) (rd_rest r))" "32 \<le> n"
    using run 1 x r(1) 2 y
    by (auto simp: read_segment_record_count_def read_exact_def SEGMENT_FOOTER_LEN_def split: if_splits sum.splits prod.splits)
  obtain z where z: "w_data w i = rd_rest r @ z" using r(3) by (auto simp: prefix_def)
  have "take 8 (drop (n - 32) (w_data w i)) = take 8 (drop (n - 32) (rd_rest r))" using c(2) by (simp add: z)
  then show "SEGMENT_FOOTER_LEN \<le> length (w_data w i)" "c = u64_from_le (take 8 (drop (length (w_data w i) - SEGMENT_FOOTER_LEN) (w_data w i)))"
    using c(1,3) n by (simp_all add: SEGMENT_FOOTER_LEN_def)
qed

lemma footer_of_image:
  assumes img: "sealed_image crc h f sts bs"
  shows "u64_from_le (take 8 (drop (length bs - SEGMENT_FOOTER_LEN) bs)) = fm_record_count f"
proof -
  obtain hb fb where fb: "parse_segment_footer fb = Ok f" "bs = (hb @ concat (map (frame crc) sts) @ SENTINEL) @ fb"
    using img unfolding sealed_image_def by auto
  have len: "length fb = 32" by (rule footer_length [OF fb(1)])
  have "drop (length bs - 32) bs = fb" using fb(2) len by simp
  then show ?thesis using fb(1) len by (auto simp: parse_segment_footer_def subslice_def SEGMENT_FOOTER_LEN_def split: if_splits)
qed

lemma record_count_of_image:
  assumes "sealed_image crc h f sts (w_data w i)" "w_entry w p = Some i" "read_segment_record_count p w = (Ok c, w')"
  shows "c = fm_record_count f"
  using record_count_of_file(2) [OF assms(2,3)] footer_of_image [OF assms(1)] by simp

lemma read_count_present:
  assumes "w_entry w p = Some i" "no_false_absence w" "read_segment_record_count p w = (x, w')"
  shows "x \<noteq> Err NotFound"
proof -
  have nf: "io_step v = (IoFail k, u) \<Longrightarrow> w_io v = w_io w \<Longrightarrow> k \<noteq> NotFound" for v k u
    using assms(2) by (auto simp: io_step_def no_false_absence_def)
  obtain y w1 where 1: "fs_open p w = (y, w1)" by fastforce
  note f = fs_open_present [OF assms(1,2) 1]
  show ?thesis
  proof (cases y)
    case (Inl k)
    then show ?thesis using assms(3) 1 f by (auto simp: read_segment_record_count_def)
  next
    case (Inr jr)
    obtain j r where jr: "jr = (j, r)" by fastforce
    have "rd_fail r \<noteq> Some NotFound" using f(3) Inr jr by blast
    then have "read_exact n (r\<lparr>rd_rest := d\<rparr>) \<noteq> Err NotFound" for n d by (auto simp: read_exact_def rd_end_def split: option.splits)
    moreover have "fs_metadata_len j w1 = (Err NotFound, v) \<Longrightarrow> False" for v
      using assms(2) f(1) by (auto simp: fs_metadata_len_def io_step_tick no_false_absence_def split: io_outcome.splits)
    moreover have "w_io v = w_io w \<Longrightarrow> fs_seek v = (Err NotFound, u) \<Longrightarrow> False" for v u
      using assms(2) by (auto simp: fs_seek_def io_step_tick no_false_absence_def split: io_outcome.splits)
    moreover have "fs_metadata_len j w1 = (z, v) \<Longrightarrow> w_io v = w_io w" for z v
      using fs_metadata_len_effect [of j w1 z v] f(1) by simp
    ultimately show ?thesis using assms(3) 1 Inr jr
      by (auto simp: read_segment_record_count_def split: prod.splits sum.splits if_splits)
  qed
qed

section \<open>The guarantees\<close>

lemma settled_keeps:
  assumes s: "settled crc E ow rs E' ow'" and p: "fst p \<noteq> dl_dir (de_dead_letter E)"
  shows "w_entry (de_world E') p = w_entry (de_world E) p" "no_false_absence (de_world E') = no_false_absence (de_world E)"
    "i < w_next (de_world E) \<Longrightarrow> w_data (de_world E') i = w_data (de_world E) i"
  using settled_grows [OF s] p by (simp_all add: dl_grows_def only_adds_def no_false_absence_def)

lemma settled_tick:
  assumes "settled crc E ow rs F ow'" "E' = F\<lparr>de_world := (de_world F)\<lparr>w_tick := t\<rparr>\<rparr>"
  shows "settled crc E ow rs E' ow'"
  using settled_trans [OF assms(1) settled_idle [OF settled_wf [OF assms(1)], of E' t]] assms(2) by simp

lemma settled_from_tick:
  assumes "env_wf E" "settled crc (E\<lparr>de_world := (de_world E)\<lparr>w_tick := t\<rparr>\<rparr>) ow rs E' ow'"
  shows "settled crc E ow rs E' ow'"
  using settled_trans [OF settled_idle [OF assms(1), of "E\<lparr>de_world := (de_world E)\<lparr>w_tick := t\<rparr>\<rparr>" t] assms(2)] by simp

lemma env_wf_tick: "env_wf E \<Longrightarrow> env_wf (E\<lparr>de_world := (de_world E)\<lparr>w_tick := t\<rparr>\<rparr>)"
  using settled_wf [OF settled_idle [of E "E\<lparr>de_world := (de_world E)\<lparr>w_tick := t\<rparr>\<rparr>" t undefined no_debt]] by simp

text \<open>A segment is confirmed only when it was read to its end and its footer states the number of records read.\<close>

lemma confirmed_complete:
  assumes wf: "env_wf E" and sp: "sink_partitions (de_sink E)"
    and fl: "w_entry (de_world E) segment = Some i" "i < w_next (de_world E)" "fst segment \<noteq> dl_dir (de_dead_letter E)"
      "no_false_absence (de_world E)"
    and run: "process_segment_ctl C Z sha cfg mb segment skip last_chance E = (Confirmed n, E')"
  shows "\<exists>ps. segment_items C Z segment (de_world E) = map Inr ps \<and> n = length ps \<and> footer_states (w_data (de_world E) i) n \<and>
    settled (crc_hash C) E no_debt (drop skip ps) E' no_debt"
  using run
proof (cases rule: process_cases)
  case (opened reader t)
  let ?F = "E\<lparr>de_world := (de_world E)\<lparr>w_tick := t\<rparr>\<rparr>"
  have wfF: "env_wf ?F" by (rule env_wf_tick [OF wf])
  have spF: "sink_partitions (de_sink ?F)" using sp by simp
  from wfF spF opened(2) show ?thesis
  proof (cases rule: deliver_cases)
    case (footer ps E1 b)
    have se: "settled (crc_hash C) E no_debt (drop skip ps) E1 no_debt"
      using settled_from_tick [OF wf] footer(2) by (auto simp: all_settled_def)
    have f1: "w_entry (de_world E1) segment = Some i" "no_false_absence (de_world E1)" "w_data (de_world E1) i = w_data (de_world E) i"
      using settled_keeps [OF se fl(3)] fl by simp_all
    have it: "segment_items C Z segment (de_world E) = map Inr ps" using opened(1) footer(1) by (simp add: segment_items_def)
    from footer(5) show ?thesis
    proof (cases rule: check_footer_cases)
      case (complete t')
      obtain c w where c: "read_segment_record_count segment (de_world E1) = (c, w)" by fastforce
      have "c \<noteq> Err NotFound" using read_count_present [OF f1(1,2) c] .
      then have "c = Ok (of_nat (length ps))" using complete(3) c footer(3) by simp
      then have "footer_states (w_data (de_world E) i) (length ps)"
        using record_count_of_file [OF f1(1)] c f1(3) by (simp add: footer_states_def)
      then show ?thesis using it complete(1,2) footer(3) settled_tick [OF se] by auto
    qed (auto dest: quarantine_result_effect(1))
  qed (auto simp: stopped_def dest: quarantine_result_effect(1))
qed (use fl in \<open>auto simp: local_read_failure_def dest: quarantine_result_effect(1)\<close>)

lemma confirmed_books:
  assumes wf: "env_wf E" and sp: "sink_partitions (de_sink E)"
    and fl: "w_entry (de_world E) segment = Some i" "i < w_next (de_world E)" "fst segment \<noteq> dl_dir (de_dead_letter E)"
      "no_false_absence (de_world E)"
    and img: "sealed_image (crc_hash C) h f sts (w_data (de_world E) i)"
      "list_all2 (record_reads Z (hm_compression h)) sts rs" "length rs < 2 ^ 64"
    and run: "process_segment_ctl C Z sha cfg mb segment skip last_chance E = (Confirmed n, E')"
  shows "n = length rs \<and> settled (crc_hash C) E no_debt (drop skip rs) E' no_debt"
proof -
  obtain ps where ps: "segment_items C Z segment (de_world E) = map Inr ps" "n = length ps" "footer_states (w_data (de_world E) i) n"
    "settled (crc_hash C) E no_debt (drop skip ps) E' no_debt" using confirmed_complete [OF wf sp fl run] by blast
  have pre: "prefix ps rs"
  proof (cases "fst (open_segment segment (de_world E))")
    case (Inl e)
    then show ?thesis using ps(1) by (simp add: segment_items_def)
  next
    case (Inr reader)
    obtain rd where rd: "sr_open (Ok rd) = Ok reader" "prefix (rd_rest rd) (w_data (de_world E) i)"
      using open_segment_present(3) [OF fl(1,4), of "Inr reader"] Inr by (metis prod.collapse)
    have "fst (sr_collect (crc_hash C) Z reader) = map Inr ps @ []" using ps(1) Inr by (simp add: segment_items_def)
    from image_items(1) [OF img(1,2) rd this] show ?thesis .
  qed
  have "(of_nat (length ps) :: u64) = fm_record_count f"
    using ps(2,3) footer_of_image [OF img(1)] by (simp add: footer_states_def)
  also have "\<dots> = of_nat (length rs)" using img(1) list_all2_lengthD [OF img(2)] by (auto simp: sealed_image_def)
  finally have eq: "(of_nat (length ps) :: u64) = of_nat (length rs)" .
  have le: "length ps \<le> length rs" using pre by (rule prefix_length_le)
  have "length ps = unat (of_nat (length ps) :: u64)" using le img(3) by (simp add: unat_of_nat_eq)
  also have "\<dots> = length rs" unfolding eq using img(3) by (simp add: unat_of_nat_eq)
  finally have "ps = rs" using pre by (auto simp: prefix_def)
  then show ?thesis using ps by simp
qed

text \<open>The books of a whole attempt that did not confirm, in terms of the records the reader yields.\<close>

lemma sent_to_log: "de_log F = de_log E \<Longrightarrow> de_log F' = de_log E' \<Longrightarrow> sent_to sha name created mx F ps a t F' = sent_to sha name created mx E ps a t E'"
  by (simp add: sent_to_def)

lemma sent_to_none: "de_log E' = de_log E \<Longrightarrow> sent_to sha name created mx E ps a a E'"
  by (auto simp: sent_to_def intro!: exI [of _ "[]"])

lemma settled_via_from_tick:
  assumes "env_wf E" "settled_via crc (E\<lparr>de_world := (de_world E)\<lparr>w_tick := t\<rparr>\<rparr>) ps skip processed k E' ow"
  shows "settled_via crc E ps skip processed k E' ow"
  using assms(2) settled_from_tick [OF assms(1)] unfolding settled_via_def by blast

lemma settled_via_extend:
  assumes "settled_via crc E ps skip processed k E' ow" "skip \<le> k" "k \<le> max skip (length ps)"
  shows "settled_via crc E (ps @ qs) skip processed k E' ow"
proof -
  obtain k0 F xs where k0: "processed = Some k0" "skip \<le> k0" "k0 \<le> k" "settled crc E no_debt (slice skip k0 ps) F no_debt"
    "settled crc F no_debt xs E' ow" and k: "settled crc E no_debt (slice skip k ps) E' ow"
    using assms(1) unfolding settled_via_def by blast
  have "slice skip k0 (ps @ qs) = slice skip k0 ps" "slice skip k (ps @ qs) = slice skip k ps"
    using assms(2,3) k0 by (simp_all only: slice_append [OF k0(2)] slice_append [OF assms(2,3)] le_trans [OF k0(3) assms(3)])
  then show ?thesis unfolding settled_via_def using k0 k by metis
qed

text \<open>
  C13: confirmed means delivered.  Take a sealed segment that is intact on disk, with records \<open>rs\<close>, a
  sink that keeps its contract, and any sequence of faults, short reads, slow or failing commits
  and control requests.  If the attempt that skips the first \<open>skip\<close> records returns
  \<open>Confirmed n\<close>, then \<open>n\<close> is the number of records, and each record after the skipped ones was
  committed by the sink or stands in a dead-letter segment on stable storage, each exactly once;
  the counters of committed and dead-lettered records have grown by just these numbers.
\<close>

theorem confirmed_means_delivered:
  assumes wf: "env_wf E" and sp: "sink_partitions (de_sink E)"
    and fl: "w_entry (de_world E) segment = Some i" "i < w_next (de_world E)" "fst segment \<noteq> dl_dir (de_dead_letter E)"
      "no_false_absence (de_world E)"
    and img: "sealed_image (crc_hash C) h f sts (w_data (de_world E) i)"
      "list_all2 (record_reads Z (hm_compression h)) sts rs" "length rs < 2 ^ 64"
    and run: "process_segment_ctl C Z sha cfg mb segment skip last_chance E = (Confirmed n, E')"
  shows "n = length rs \<and> settled (crc_hash C) E no_debt (drop skip rs) E' no_debt"
  by (rule confirmed_books [OF assms])

lemma attempt_books:
  assumes wf: "env_wf E" and sp: "sink_partitions (de_sink E)"
    and run: "process_segment_ctl C Z sha cfg mb segment skip last_chance E = (res, E')"
  obtains (books) ps rest created t where
    "segment_items C Z segment (de_world E) = map Inr ps @ rest"
    "\<forall>reader. fst (open_segment segment (de_world E)) = Inr reader \<longrightarrow> created = hm_created_at (sr_header reader)"
    "sent_to sha (segment_identity segment) created (max mb 1) E ps skip t E'"
    "\<forall>k ow. reported res = Some (k, ow) \<longrightarrow> (\<forall>n. res \<noteq> Confirmed n) \<longrightarrow>
       skip \<le> k \<and> k \<le> max skip (length ps) \<and> settled_via (crc_hash C) E ps skip (processed_of res) k E' ow"
    "\<forall>n. res = Confirmed n \<longrightarrow> rest = []"
proof -
  have none: thesis if "segment_items C Z segment (de_world E) = []" "de_log E' = de_log E"
      "\<And>k ow. reported res = Some (k, ow) \<Longrightarrow> \<forall>n. res \<noteq> Confirmed n \<Longrightarrow> k = skip \<and> settled_via (crc_hash C) E [] skip (processed_of res) k E' ow"
    by (rule books [of "[]" "[]" "case fst (open_segment segment (de_world E)) of Inr r \<Rightarrow> hm_created_at (sr_header r) | _ \<Rightarrow> 0" skip])
      (use that in \<open>auto simp: sent_to_none\<close>)
  from run show thesis
  proof (cases rule: process_cases)
    case (opened reader t)
    let ?F = "E\<lparr>de_world := (de_world E)\<lparr>w_tick := t\<rparr>\<rparr>" and ?nm = "segment_identity segment" and ?cr = "hm_created_at (sr_header reader)"
    have wfF: "env_wf ?F" by (rule env_wf_tick [OF wf])
    have spF: "sink_partitions (de_sink ?F)" using sp by simp
    have items: "segment_items C Z segment (de_world E) = fst (sr_collect (crc_hash C) Z reader)"
      using opened(1) by (simp add: segment_items_def)
    have cr: "fst (open_segment segment (de_world E)) = Inr reader' \<Longrightarrow> ?cr = hm_created_at (sr_header reader')" for reader'
      using opened(1) by simp
    from wfF spF opened(2) show thesis
    proof (cases rule: deliver_cases)
      case (setback ps rest)
      from setback(2) obtain k ow t where k: "reported res = Some (k, ow)" "skip \<le> k" "k \<le> max skip (length ps)" "\<forall>n. res \<noteq> Confirmed n"
        "settled_via (crc_hash C) ?F ps skip (processed_of res) k E' ow" "sent_to sha ?nm ?cr (max mb 1) ?F ps skip t E'"
        unfolding stopped_def by blast
      show thesis
        by (rule books [of ps rest ?cr t]) (use k setback(1) items cr settled_via_from_tick [OF wf k(5)] in \<open>auto simp: sent_to_def\<close>)
    next
      case (unreadable ps e rest E1 reason)
      note q = quarantine_result_effect(1,2) [OF unreadable(4)]
      show thesis
        by (rule books [of ps "Inl e # rest" ?cr "max skip (length ps)"])
          (use q unreadable(1,3) items cr in \<open>auto simp: all_settled_def sent_to_def\<close>)
    next
      case (footer ps E1 b)
      have s: "sent_to sha ?nm ?cr (max mb 1) E ps skip (max skip (length ps)) E1" "settled (crc_hash C) E no_debt (drop skip ps) E1 no_debt"
        using footer(2) settled_from_tick [OF wf] by (auto simp: all_settled_def sent_to_def)
      have lg: "de_log E' = de_log E1"
        using footer(5) by (cases rule: check_footer_cases) (auto dest: quarantine_result_effect(2))
      have sl: "slice skip (max skip (length ps)) ps = drop skip ps" by (cases "skip \<le> length ps") auto
      show thesis
      proof (rule books [of ps "[]" ?cr "max skip (length ps)"])
        show "segment_items C Z segment (de_world E) = map Inr ps @ []" using items footer(1) by simp
        show "sent_to sha ?nm ?cr (max mb 1) E ps skip (max skip (length ps)) E'"
          using s(1) sent_to_log [of E E E' E1] lg by simp
        have "skip \<le> k \<and> k \<le> max skip (length ps) \<and> settled_via (crc_hash C) E ps skip (processed_of res) k E' ow"
          if r: "reported res = Some (k, ow)" "\<forall>n. res \<noteq> Confirmed n" for k ow
          using footer(5)
        proof (cases rule: check_footer_cases)
          case (retry t c)
          then show ?thesis using r settled_via_same [of skip "max skip (length ps)" "crc_hash C" E ps E'] settled_tick [OF s(2) retry(2)] footer(4) sl by auto
        qed (use r in \<open>auto dest: quarantine_result_effect(1)\<close>)
        then show "\<forall>k ow. reported res = Some (k, ow) \<longrightarrow> (\<forall>n. res \<noteq> Confirmed n) \<longrightarrow>
            skip \<le> k \<and> k \<le> max skip (length ps) \<and> settled_via (crc_hash C) E ps skip (processed_of res) k E' ow" by blast
      qed (use cr in simp_all)
    qed
  next
    case (absent t)
    show thesis by (rule none) (use absent in auto)
  next
    case (unread t)
    have "settled (crc_hash C) E no_debt [] E' no_debt" by (rule settled_idle [OF wf, of _ t]) (simp_all add: unread)
    then show thesis using settled_via_same [of skip skip "crc_hash C" E "[]" E']
      by (intro none) (use unread in \<open>auto simp: local_read_failure_def\<close>)
  next
    case (corrupt t reason)
    show thesis by (rule none) (use corrupt quarantine_result_effect(1,2) [OF corrupt(2)] in auto)
  qed
qed

text \<open>The same for an intact sealed segment with records \<open>rs\<close>.\<close>

lemma image_books:
  assumes wf: "env_wf E" and sp: "sink_partitions (de_sink E)"
    and seg: "w_entry (de_world E) segment = Some i" "no_false_absence (de_world E)"
    and img: "sealed_image (crc_hash C) h f sts (w_data (de_world E) i)" "list_all2 (record_reads Z (hm_compression h)) sts rs"
    and run: "process_segment_ctl C Z sha cfg mb segment skip last_chance E = (res, E')"
  shows "\<exists>t. sent_to sha (segment_identity segment) (hm_created_at h) (max mb 1) E rs skip t E'"
    and "reported res = Some (k, ow) \<Longrightarrow> \<forall>n. res \<noteq> Confirmed n \<Longrightarrow>
      skip \<le> k \<and> k \<le> max skip (length rs) \<and> settled_via (crc_hash C) E rs skip (processed_of res) k E' ow"
proof -
  from wf sp run obtain ps rest created t where b: "segment_items C Z segment (de_world E) = map Inr ps @ rest"
    "\<forall>reader. fst (open_segment segment (de_world E)) = Inr reader \<longrightarrow> created = hm_created_at (sr_header reader)"
    "sent_to sha (segment_identity segment) created (max mb 1) E ps skip t E'"
    "\<forall>k ow. reported res = Some (k, ow) \<longrightarrow> (\<forall>n. res \<noteq> Confirmed n) \<longrightarrow>
       skip \<le> k \<and> k \<le> max skip (length ps) \<and> settled_via (crc_hash C) E ps skip (processed_of res) k E' ow"
    "\<forall>n. res = Confirmed n \<longrightarrow> rest = []"
    by (rule attempt_books)
  have "prefix ps rs \<and> (created = hm_created_at h \<or> ps = [])"
  proof (cases "fst (open_segment segment (de_world E))")
    case (Inl e)
    then show ?thesis using b(1) by (simp add: segment_items_def)
  next
    case (Inr reader)
    then obtain r where r: "sr_open (Ok r) = Ok reader" "prefix (rd_rest r) (w_data (de_world E) i)"
      using open_segment_present(3) [OF seg, of "Inr reader"] by (metis prod.collapse)
    have "fst (sr_collect (crc_hash C) Z reader) = map Inr ps @ rest" using b(1) Inr by (simp add: segment_items_def)
    from image_items [OF img r this] show ?thesis using b(2) Inr by simp
  qed
  then obtain qs where rs: "rs = ps @ qs" and cr: "created = hm_created_at h \<or> ps = []" by (auto simp: prefix_def)
  have "sent_to sha (segment_identity segment) (hm_created_at h) (max mb 1) E ps skip t E'"
  proof (cases "ps = []")
    case True
    then have "de_log E' = de_log E \<and> t = skip"
      using b(3) unfolding sent_to_def by (elim exE conjE, rename_tac log ns, case_tac ns) auto
    then show ?thesis using sent_to_none by metis
  qed (use b(3) cr in simp)
  then show "\<exists>t. sent_to sha (segment_identity segment) (hm_created_at h) (max mb 1) E rs skip t E'"
    using sent_to_extend rs by blast
  assume "reported res = Some (k, ow)" "\<forall>n. res \<noteq> Confirmed n"
  with b(4) have "skip \<le> k \<and> k \<le> max skip (length ps) \<and> settled_via (crc_hash C) E ps skip (processed_of res) k E' ow" by blast
  then show "skip \<le> k \<and> k \<le> max skip (length rs) \<and> settled_via (crc_hash C) E rs skip (processed_of res) k E' ow"
    using settled_via_extend [of "crc_hash C" E ps skip "processed_of res" k E' ow qs] by (auto simp: rs)
qed

text \<open>
  C14: the progress an attempt reports is exactly what it settled.  For an intact sealed segment with
  records \<open>rs\<close>, whatever fails and whenever it stops: when the attempt ends with a transient
  failure, a full dead-letter directory, a pause or the stop deadline, and reports that the
  segment is settled up to record \<open>k\<close> (the end of the carried batch, if there is a carry),
  then the records from \<open>skip\<close> to \<open>k\<close> were committed by the sink, or are dead letters on stable
  storage, or are the rejected records of the carry, each exactly once.  A retry from there
  neither loses a record nor sends a settled one again.
\<close>

theorem reported_progress_settled:
  assumes "env_wf E" "sink_partitions (de_sink E)"
    and "w_entry (de_world E) segment = Some i" "no_false_absence (de_world E)"
    and "sealed_image (crc_hash C) h f sts (w_data (de_world E) i)" "list_all2 (record_reads Z (hm_compression h)) sts rs"
    and "process_segment_ctl C Z sha cfg mb segment skip last_chance E = (res, E')"
    and "reported res = Some (k, ow)" "\<forall>n. res \<noteq> Confirmed n"
  shows "skip \<le> k \<and> k \<le> max skip (length rs) \<and> settled (crc_hash C) E no_debt (slice skip k rs) E' ow"
  using image_books(2) [OF assms] settled_viaD by blast

text \<open>
  C15: a record's address at the sink is its place in the segment.  Whatever \<open>skip\<close>, batch size,
  failures and result, the batches an attempt sends are consecutive runs of records from \<open>skip\<close>
  on, none empty and none above the sink's limit; each carries the segment's creation time, the
  token of its own payloads, and for the record at place \<open>j\<close> (from 0) the id derived from the
  segment's identity, the index \<open>j + 1\<close> and the payload.  So a retry, a crash-replay and another
  split into batches all send a record under the same id.
\<close>

theorem record_addresses_stable:
  assumes "env_wf E" "sink_partitions (de_sink E)"
    and "w_entry (de_world E) segment = Some i" "no_false_absence (de_world E)"
    and "sealed_image (crc_hash C) h f sts (w_data (de_world E) i)" "list_all2 (record_reads Z (hm_compression h)) sts rs"
    and "process_segment_ctl C Z sha cfg mb segment skip last_chance E = (res, E')"
  shows "\<exists>log ns. de_log E' = de_log E @ log \<and>
    map fst log = batches_at sha (segment_identity segment) (hm_created_at h) rs skip ns \<and>
    list_all (\<lambda>n. 0 < n \<and> n \<le> max mb 1) ns \<and> skip + sum_list ns \<le> max skip (length rs)"
  using image_books(1) [OF assms] unfolding sent_to_def by metis

text \<open>A segment's file stays what it is, under its name or in quarantine.\<close>

definition file_kept :: "bytes \<Rightarrow> path \<Rightarrow> nat \<Rightarrow> world \<Rightarrow> process_result \<Rightarrow> world \<Rightarrow> bool" where
  "file_kept wab p i w res w' \<longleftrightarrow> w_data w' i = w_data w i \<and> w_disk w' i = w_disk w i \<and>
     (w_entry w' p = Some i \<or> res = PQuarantined \<and> (\<exists>q. fst q = quarantine_dir wab \<and> w_entry w' q = Some i))"

lemma settled_file_kept:
  assumes "settled crc E ow rs E' ow'" "w_entry (de_world E) p = Some i" "i < w_next (de_world E)" "fst p \<noteq> dl_dir (de_dead_letter E)"
  shows "file_kept wab p i (de_world E) res (de_world E')"
  using settled_grows [OF assms(1)] assms(2-) by (simp add: file_kept_def dl_grows_def only_adds_def)

lemma quarantine_file_kept:
  assumes kept: "file_kept (cfg_wab_dir cfg) p i w res' (de_world E)" "w_entry (de_world E) p = Some i"
    and run: "quarantine_result p cfg reason E = (res, E')"
  shows "file_kept (cfg_wab_dir cfg) p i w res (de_world E')"
  using quarantine_result_effect(3) [OF run]
proof (elim disjE exE conjE)
  fix t assume "de_world E' = (de_world E)\<lparr>w_tick := t\<rparr>"
  then show ?thesis using kept by (simp add: file_kept_def w_entry_def)
next
  fix q j t assume q: "res = PQuarantined" "fst q = quarantine_dir (cfg_wab_dir cfg)" "w_entry (de_world E) p = Some j"
    "de_world E' = (de_world E)\<lparr>w_tick := t, w_dir := AList.update q j (AList.delete p (w_dir (de_world E)))\<rparr>"
  then have "w_entry (de_world E') q = Some i" using kept(2) by (simp add: w_entry_def update_conv')
  moreover have "w_data (de_world E') i = w_data w i" "w_disk (de_world E') i = w_disk w i"
    using q(4) kept(1) by (simp_all add: file_kept_def)
  ultimately show ?thesis using q(1,2) unfolding file_kept_def by blast
qed

lemma file_kept_entry: "file_kept wab p i w (Confirmed 0) w' \<Longrightarrow> w_entry w' p = Some i"
  by (simp add: file_kept_def)

lemma attempt_keeps:
  assumes wf: "env_wf E" and sp: "sink_partitions (de_sink E)"
    and seg: "w_entry (de_world E) segment = Some i" "i < w_next (de_world E)" "fst segment \<noteq> dl_dir (de_dead_letter E)"
    and run: "process_segment_ctl C Z sha cfg mb segment skip last_chance E = (res, E')"
  shows "file_kept (cfg_wab_dir cfg) segment i (de_world E) res (de_world E')"
    "Inl e \<in> set (segment_items C Z segment (de_world E)) \<Longrightarrow> res \<noteq> Confirmed n"
proof -
  have tick: "file_kept (cfg_wab_dir cfg) segment i (de_world E) r ((de_world E)\<lparr>w_tick := t\<rparr>)" for r t
    using seg(1) by (simp add: file_kept_def w_entry_def)
  show "file_kept (cfg_wab_dir cfg) segment i (de_world E) res (de_world E')"
    using run
  proof (cases rule: process_cases)
    case (opened reader t)
    let ?F = "E\<lparr>de_world := (de_world E)\<lparr>w_tick := t\<rparr>\<rparr>"
    have wfF: "env_wf ?F" by (rule env_wf_tick [OF wf])
    have spF: "sink_partitions (de_sink ?F)" using sp by simp
    have kept: "settled (crc_hash C) ?F no_debt rs F' ow \<Longrightarrow> file_kept (cfg_wab_dir cfg) segment i (de_world E) r (de_world F')" for rs F' ow r
      using settled_file_kept [OF settled_from_tick [OF wf] seg] by blast
    from wfF spF opened(2) show ?thesis
    proof (cases rule: deliver_cases)
      case (setback ps rest)
      then show ?thesis using kept settled_viaD unfolding stopped_def by blast
    next
      case (unreadable ps e rest E1 reason)
      then have s: "settled (crc_hash C) ?F no_debt (drop skip ps) E1 no_debt" by (simp add: all_settled_def)
      show ?thesis by (rule quarantine_file_kept [OF kept [OF s] file_kept_entry [OF kept [OF s]] unreadable(4)])
    next
      case (footer ps E1 b)
      then have s: "settled (crc_hash C) ?F no_debt (drop skip ps) E1 no_debt" by (simp add: all_settled_def)
      have s': "settled (crc_hash C) ?F no_debt (drop skip ps) (E1\<lparr>de_world := (de_world E1)\<lparr>w_tick := u\<rparr>\<rparr>) no_debt" for u
        by (rule settled_tick [OF s refl])
      from footer(5) show ?thesis
      proof (cases rule: check_footer_cases)
        case (incomplete u reason)
        then show ?thesis by (rule quarantine_file_kept [OF kept [OF s'] file_kept_entry [OF kept [OF s']]])
      qed (use kept [OF s'] in simp_all)
    qed
  next
    case (corrupt t reason)
    show ?thesis
      by (rule quarantine_file_kept [OF _ _ corrupt(2)]) (use tick [of _ t] file_kept_entry [OF tick] in simp_all)
  qed (use tick in simp_all)
  assume e: "Inl e \<in> set (segment_items C Z segment (de_world E))"
  from wf sp run show "res \<noteq> Confirmed n"
    by (rule attempt_books) (use e in auto)
qed

text \<open>
  C16: an attempt never destroys a segment, and never confirms one that it did not read to its end.
  Whatever the file holds and whatever fails, after the attempt the segment's bytes are
  unchanged, and they stand under the segment's name or, if the result is \<open>Quarantined\<close>,
  possibly under a name of the quarantine directory.  If the reader meets an error anywhere in
  the file, the result is not \<open>Confirmed\<close>.  If the result is \<open>Confirmed n\<close>, and no call claims that
  an existing file is missing, then the reader yielded \<open>n\<close> records and no error, the
  footer at the end of the file states \<open>n\<close> records, and all but the skipped ones are settled.  A
  tail that was cut off, even at a record boundary, is therefore not confirmed.
\<close>

theorem attempt_keeps_segment:
  assumes "env_wf E" "sink_partitions (de_sink E)"
    and "w_entry (de_world E) segment = Some i" "i < w_next (de_world E)" "fst segment \<noteq> dl_dir (de_dead_letter E)"
    and "process_segment_ctl C Z sha cfg mb segment skip last_chance E = (res, E')"
  shows "file_kept (cfg_wab_dir cfg) segment i (de_world E) res (de_world E') \<and>
    (\<forall>e n. Inl e \<in> set (segment_items C Z segment (de_world E)) \<longrightarrow> res \<noteq> Confirmed n) \<and>
    (no_false_absence (de_world E) \<longrightarrow> (\<forall>n. res = Confirmed n \<longrightarrow>
       (\<exists>ps. segment_items C Z segment (de_world E) = map Inr ps \<and> n = length ps \<and>
          footer_states (w_data (de_world E) i) n \<and> settled (crc_hash C) E no_debt (drop skip ps) E' no_debt)))"
  using attempt_keeps [OF assms] confirmed_complete [OF assms(1-5)] assms(6) by blast

section \<open>Progress\<close>

text \<open>A sink that commits every batch whole, and control flags that let the drain go on.\<close>

definition accepting :: "delivery_env \<Rightarrow> bool" where
  "accepting E \<longleftrightarrow>
     (\<forall>n b. \<exists>cs. de_sink E n b = Finished (Committed cs []) \<and> length cs = length (sb_records b)) \<and>
     (\<forall>n. \<not> (cv_stop_requested (de_control E n) \<and> cv_deadline_passed (de_control E n)) \<and> \<not> cv_pause_requested (de_control E n))"

lemma accepting_commit:
  assumes "accepting E"
  obtains E' where "commit_collected C sha cfg created b E =
      (Inr (b\<lparr>bt_durable_through := bt_durable_through b + length (bt_batch b), bt_batch := [], bt_ids := []\<rparr>), E')"
    "accepting E'" "de_world E' = de_world E"
proof -
  let ?E1 = "E\<lparr>de_looks := de_looks E + 1\<rparr>"
  let ?b = "with_segment_context (bt_batch b) (dedup_token_for sha (bt_batch b)) (bt_ids b) created"
  let ?F = "\<lambda>cs. count_committed (length cs) (publish SinkSuccess (?E1\<lparr>de_log := de_log E @ [(?b, Finished (Committed cs []))]\<rparr>))"
  have g: "batch_gate (bt_durable_through b) E = (None, ?E1)"
    using assms by (simp add: batch_gate_def accepting_def Let_def)
  obtain cs where cs: "de_sink E (length (de_log E)) ?b = Finished (Committed cs [])" "length cs = length (sb_records ?b)"
    using assms unfolding accepting_def by blast
  then have "length cs = length (bt_batch b)" by (simp add: with_segment_context_def)
  then have c: "commit_batch_ctl C sha cfg (bt_batch b) (bt_ids b) created ?E1 = (BatchOk, ?F cs)"
    using cs(1) by (simp add: commit_batch_ctl_def call_sink_def Let_def)
  have "accepting (?F cs)" using assms by (simp add: accepting_def count_committed_def publish_def)
  then show thesis using g c
    by (intro that [of "?F cs"]) (simp_all add: commit_collected_def count_committed_def publish_def)
qed

lemma accepting_loop:
  "accepting E \<Longrightarrow> \<exists>b' E'. record_loop C sha cfg name created mx skip lc (map Inr ps) b E = (Inr (None, b'), E') \<and>
     accepting E' \<and> de_world E' = de_world E \<and> bt_read_index b' = bt_read_index b + length ps"
proof (induction ps arbitrary: b E)
  case (Cons p ps)
  let ?b1 = "b\<lparr>bt_read_index := bt_read_index b + 1\<rparr>"
  let ?b2 = "?b1\<lparr>bt_batch := bt_batch b @ [p], bt_ids := bt_ids b @ [record_id_for sha name (of_nat (bt_read_index b + 1)) p]\<rparr>"
  show ?case
  proof (cases "bt_read_index b + 1 \<le> skip \<or> length (bt_batch ?b2) < mx")
    case True
    then show ?thesis using Cons.IH [OF Cons.prems, of ?b1] Cons.IH [OF Cons.prems, of ?b2] by (auto simp: Let_def)
  next
    case False
    obtain E1 where c: "commit_collected C sha cfg created ?b2 E =
        (Inr (?b2\<lparr>bt_durable_through := bt_durable_through ?b2 + length (bt_batch ?b2), bt_batch := [], bt_ids := []\<rparr>), E1)"
      "accepting E1" "de_world E1 = de_world E" by (rule accepting_commit [OF Cons.prems])
    then show ?thesis using False
      Cons.IH [OF c(2), of "?b2\<lparr>bt_durable_through := bt_durable_through ?b2 + length (bt_batch ?b2), bt_batch := [], bt_ids := []\<rparr>"]
      by (auto simp: Let_def)
  qed
qed simp

lemma quiet_open_segment:
  assumes "w_entry w p = Some i" "w_io w = (\<lambda>_. IoDone)"
  shows "open_segment p w = (sr_open (Ok (file_reader (w_data w i))), io_tick w)"
  using assms by (simp add: open_segment_def fs_open_def io_step_tick)

lemma quiet_record_count:
  assumes img: "sealed_image crc h f sts (w_data w i)" and w: "w_entry w p = Some i" "w_io w = (\<lambda>_. IoDone)"
  shows "\<exists>w'. read_segment_record_count p w = (Ok (fm_record_count f), w')"
proof -
  obtain hb fb where fb: "parse_segment_footer fb = Ok f" "w_data w i = (hb @ concat (map (frame crc) sts) @ SENTINEL) @ fb"
    using img unfolding sealed_image_def by auto
  have "length fb = 32" by (rule footer_length [OF fb(1)])
  then have "\<exists>c w'. read_segment_record_count p w = (Ok c, w')"
    using w fb(2) by (simp add: read_segment_record_count_def fs_open_def fs_metadata_len_def fs_seek_def io_step_tick
        read_exact_def file_reader_def SEGMENT_FOOTER_LEN_def)
  then show ?thesis using record_count_of_image [OF img w(1)] by metis
qed

lemma healthy_run:
  assumes acc: "accepting E" and w: "w_io (de_world E) = (\<lambda>_. IoDone)" "w_entry (de_world E) segment = Some i"
    and img: "sealed_image (crc_hash C) h f sts (w_data (de_world E) i)" "list_all2 (record_reads Z (hm_compression h)) sts rs"
  shows "\<exists>E' t. process_segment_ctl C Z sha cfg mb segment skip last_chance E = (Confirmed (length rs), E') \<and>
    de_world E' = (de_world E)\<lparr>w_tick := t\<rparr>"
proof -
  let ?F = "E\<lparr>de_world := io_tick (de_world E)\<rparr>" and ?nm = "segment_identity segment"
  obtain hb fb where hb: "parse_segment_header hb = Ok h" "w_data (de_world E) i = hb @ concat (map (frame (crc_hash C)) sts) @ SENTINEL @ fb"
    using img(1) unfolding sealed_image_def by blast
  obtain s where s: "sr_open (Ok (file_reader (w_data (de_world E) i))) = Ok s" "fst (sr_collect (crc_hash C) Z s) = map Inr rs"
    using sr_reads_image [OF hb(1) img(2) hb(2)] by auto
  let ?b = "\<lparr>bt_read_index = 0, bt_durable_through = skip, bt_batch = [], bt_ids = []\<rparr>"
  have "accepting ?F" using acc by (simp add: accepting_def)
  from accepting_loop [OF this, of C sha cfg ?nm "hm_created_at (sr_header s)" "max mb 1" skip last_chance rs ?b]
  obtain b1 E1 where l: "record_loop C sha cfg ?nm (hm_created_at (sr_header s)) (max mb 1) skip last_chance (map Inr rs) ?b ?F = (Inr (None, b1), E1)"
    "accepting E1" "de_world E1 = io_tick (de_world E)" "bt_read_index b1 = length rs" by auto
  obtain E3 where c: "commit_collected C sha cfg (hm_created_at (sr_header s)) b1 E1 =
      (Inr (b1\<lparr>bt_durable_through := bt_durable_through b1 + length (bt_batch b1), bt_batch := [], bt_ids := []\<rparr>), E3)"
    "de_world E3 = de_world E1" by (rule accepting_commit [OF l(2)])
  obtain b2 E2 where f: "(if bt_batch b1 \<noteq> [] then commit_collected C sha cfg (hm_created_at (sr_header s)) b1 E1 else (Inr b1, E1)) = (Inr b2, E2)"
    "de_world E2 = io_tick (de_world E)" "bt_read_index b2 = length rs"
    using l c by (cases "bt_batch b1 = []") auto
  have w2: "w_entry (io_tick (de_world E)) segment = Some i" "w_io (io_tick (de_world E)) = (\<lambda>_. IoDone)"
    using w by simp_all
  have "fm_record_count f = of_nat (length rs)" using img(1) list_all2_lengthD [OF img(2)] by (auto simp: sealed_image_def)
  then obtain w3 where rc: "read_segment_record_count segment (io_tick (de_world E)) = (Ok (of_nat (length rs)), w3)"
    using quiet_record_count [OF _ w2, of "crc_hash C" h f sts] img(1) by auto
  then obtain t where w3: "w3 = (de_world E)\<lparr>w_tick := t\<rparr>" using read_segment_record_count_idle [OF rc] by (auto simp: io_tick_def)
  have "check_footer segment cfg b2 E2 = (Confirmed (length rs), E2\<lparr>de_world := w3\<rparr>)"
    using rc f(2,3) by (simp add: check_footer_def)
  then have "deliver_segment C Z sha cfg mb segment skip last_chance s ?F = (Confirmed (length rs), E2\<lparr>de_world := w3\<rparr>)"
    using s(2) l(1) f(1) by (simp add: deliver_segment_def Let_def)
  then have "process_segment_ctl C Z sha cfg mb segment skip last_chance E = (Confirmed (length rs), E2\<lparr>de_world := w3\<rparr>)"
    using quiet_open_segment [OF w(2,1)] s(1) by (simp add: process_segment_ctl_def)
  then show ?thesis using w3 by (intro exI [of _ "E2\<lparr>de_world := w3\<rparr>"] exI [of _ t]) simp
qed

text \<open>
  C17: a healthy drain finishes a segment.  On a disk without faults, with a sink that commits every
  batch and without a pause or a passed deadline, one attempt at an intact sealed segment
  returns \<open>Confirmed\<close> with the number of its records, from every resume point and for every
  batch size.
\<close>

theorem healthy_attempt_confirms:
  assumes "accepting E" "w_io (de_world E) = (\<lambda>_. IoDone)" "w_entry (de_world E) segment = Some i"
    "sealed_image (crc_hash C) h f sts (w_data (de_world E) i)" "list_all2 (record_reads Z (hm_compression h)) sts rs"
  shows "\<exists>E'. process_segment_ctl C Z sha cfg mb segment skip last_chance E = (Confirmed (length rs), E')"
  using healthy_run [OF assms] by blast

section \<open>A concrete drain\<close>

text \<open>One sealed segment of two records, and a sink that answers as told.\<close>

definition sample_header :: segment_header_meta where
  "sample_header = \<lparr>hm_format_version = FORMAT_VERSION_V1, hm_compression = CompNone, hm_shard_id = 3, hm_created_at = 5\<rparr>"

definition sample_image :: bytes where
  "sample_image = sealed_bytes crc32_hash (build_segment_header 5 3 CompNone) sample_records 9"

definition sample_env :: "(nat \<Rightarrow> sink_batch \<Rightarrow> commit_race) \<Rightarrow> delivery_env" where
  "sample_env S = \<lparr>de_world = crashed_world sealed_sample sample_image, de_metrics = no_drain_metrics,
     de_dead_letter = sample_writer, de_sink = S, de_log = [],
     de_control = (\<lambda>_. \<lparr>cv_stop_requested = False, cv_deadline_passed = False, cv_pause_requested = False\<rparr>),
     de_looks = 0, de_sink_events = []\<rparr>"

definition sample_config :: drain_config where
  "sample_config = \<lparr>cfg_wab_dir = ascii ''w'', cfg_dead_letter_max_bytes = 1000, cfg_dead_letter_check_interval = 30000,
     cfg_base_retry_delay = 100, cfg_max_retries = 3, cfg_max_respawns = 10, cfg_commit_timeout = 60000,
     cfg_health_poll_interval = 30000, cfg_health_probe_timeout = 5000, cfg_orphan_cleanup = True,
     cfg_local_read_escalation_min_age = 600000\<rparr>"

definition commits_all :: "nat \<Rightarrow> sink_batch \<Rightarrow> commit_race" where
  "commits_all n b = Finished (Committed (sb_records b) [])"

definition commits_once :: "nat \<Rightarrow> sink_batch \<Rightarrow> commit_race" where
  "commits_once n b = (if n = 0 then Finished (Committed (sb_records b) []) else Elapsed)"

lemma sample_image_ok:
  "\<exists>f. sealed_image crc32_hash sample_header f sample_records sample_image"
  "list_all2 (record_reads Z (hm_compression sample_header)) sample_records sample_records" "length sample_records < 2 ^ 64"
  using sealed_bytes_image [of "build_segment_header 5 3 CompNone" sample_header sample_records crc32_hash 9] sample_records_ok sample_reads
  by (auto simp: sample_image_def sample_header_def parse_build_segment_header sample_records_def)

lemma sample_env_ok:
  "env_wf (sample_env S)" "w_entry (de_world (sample_env S)) sealed_sample = Some 0" "0 < w_next (de_world (sample_env S))"
  "fst sealed_sample \<noteq> dl_dir (de_dead_letter (sample_env S))" "no_false_absence (de_world (sample_env S))"
  "de_sink (sample_env S) = S" "w_data (de_world (sample_env S)) 0 = sample_image" "w_io (de_world (sample_env S)) = (\<lambda>_. IoDone)"
proof -
  show d: "fst sealed_sample \<noteq> dl_dir (de_dead_letter (sample_env S))"
    unfolding sealed_sample_simps(2) by (simp add: sample_env_def sample_writer_def dead_letter_dir_def ascii_def)
  have "w_dir (within (dl_dir sample_writer) (crashed_world sealed_sample sample_image)) = []"
    "w_ddir (within (dl_dir sample_writer) (crashed_world sealed_sample sample_image)) = Map.empty"
    using d by (auto simp: within_def crashed_world_def sample_env_def restrict_map_def fun_eq_iff)
  moreover have "\<forall>i. prefix (w_disk (crashed_world sealed_sample sample_image) i) (w_data (crashed_world sealed_sample sample_image) i)"
    by (simp add: crashed_world_def)
  ultimately show "env_wf (sample_env S)"
    by (simp add: sample_env_def dl_wf_def world_wf_def unused_def cur_inode_def dur_inode_def w_entry_def)
qed (simp_all add: sample_env_def no_false_absence_def fun_eq_iff)

lemma sinks_partition: "sink_partitions commits_all" "sink_partitions commits_once"
  by (auto simp: sink_partitions_def commits_all_def commits_once_def split: if_splits)

lemma accepting_sample: "accepting (sample_env commits_all)"
  by (simp add: accepting_def sample_env_def commits_all_def)

lemma sample_confirms:
  "\<exists>E' t. process_segment_ctl crc32_ops Z sha cfg mb sealed_sample skip lc (sample_env commits_all) = (Confirmed 2, E') \<and>
     de_world E' = (de_world (sample_env commits_all))\<lparr>w_tick := t\<rparr>"
proof -
  obtain f where "sealed_image (crc_hash crc32_ops) sample_header f sample_records (w_data (de_world (sample_env commits_all)) 0)"
    using sample_image_ok(1) sample_env_ok(7) [of commits_all] by auto
  from healthy_run [OF accepting_sample sample_env_ok(8,2) this sample_image_ok(2)]
  show ?thesis by (auto simp: sample_records_def numeral_2_eq_2)
qed

lemma sample_sealed: obtains f where
  "sealed_image (crc_hash crc32_ops) sample_header f sample_records (w_data (de_world (sample_env S)) 0)"
  using sample_image_ok(1) sample_env_ok(7) [of S] by auto

theorem confirmed_means_delivered_witness:
  "\<exists>E'. process_segment_ctl crc32_ops zstd_verbatim id sample_config 1 sealed_sample 0 False (sample_env commits_all) = (Confirmed 2, E') \<and>
     settled crc32_hash (sample_env commits_all) no_debt sample_records E' no_debt"
proof -
  obtain E' where run: "process_segment_ctl crc32_ops zstd_verbatim id sample_config 1 sealed_sample 0 False (sample_env commits_all) = (Confirmed 2, E')"
    using sample_confirms by blast
  obtain f where img: "sealed_image (crc_hash crc32_ops) sample_header f sample_records (w_data (de_world (sample_env commits_all)) 0)"
    by (rule sample_sealed)
  have sp: "sink_partitions (de_sink (sample_env commits_all))" by (simp add: sample_env_ok sinks_partition)
  from confirmed_means_delivered [OF sample_env_ok(1) sp sample_env_ok(2-5) img sample_image_ok(2,3) run] run
  show ?thesis by auto
qed

theorem record_addresses_stable_witness:
  "\<exists>E' log ns. process_segment_ctl crc32_ops zstd_verbatim id sample_config 1 sealed_sample 0 False (sample_env commits_all) = (Confirmed 2, E') \<and>
     de_log E' = log \<and> map fst log = batches_at id (segment_identity sealed_sample) 5 sample_records 0 ns"
proof -
  obtain E' where run: "process_segment_ctl crc32_ops zstd_verbatim id sample_config 1 sealed_sample 0 False (sample_env commits_all) = (Confirmed 2, E')"
    using sample_confirms by blast
  obtain f where img: "sealed_image (crc_hash crc32_ops) sample_header f sample_records (w_data (de_world (sample_env commits_all)) 0)"
    by (rule sample_sealed)
  have sp: "sink_partitions (de_sink (sample_env commits_all))" by (simp add: sample_env_ok sinks_partition)
  from record_addresses_stable [OF sample_env_ok(1) sp sample_env_ok(2,5) img sample_image_ok(2) run] run
  show ?thesis by (auto simp: sample_header_def sample_env_def)
qed

theorem attempt_keeps_segment_witness:
  "\<exists>E'. process_segment_ctl crc32_ops zstd_verbatim id sample_config 1 sealed_sample 0 False (sample_env commits_all) = (Confirmed 2, E') \<and>
     w_entry (de_world E') sealed_sample = Some 0 \<and> w_data (de_world E') 0 = sample_image \<and> footer_states sample_image 2"
proof -
  obtain E' where run: "process_segment_ctl crc32_ops zstd_verbatim id sample_config 1 sealed_sample 0 False (sample_env commits_all) = (Confirmed 2, E')"
    using sample_confirms by blast
  have sp: "sink_partitions (de_sink (sample_env commits_all))" by (simp add: sample_env_ok sinks_partition)
  from attempt_keeps_segment [OF sample_env_ok(1) sp sample_env_ok(2-4) run] run sample_env_ok(5)
  show ?thesis by (auto simp: file_kept_def sample_env_ok)
qed

theorem healthy_attempt_confirms_witness:
  "\<exists>E'. process_segment_ctl crc32_ops zstd_verbatim id sample_config 7 sealed_sample 1 False (sample_env commits_all) =
     (Confirmed (length sample_records), E')"
proof -
  obtain f where img: "sealed_image (crc_hash crc32_ops) sample_header f sample_records (w_data (de_world (sample_env commits_all)) 0)"
    by (rule sample_sealed)
  show ?thesis by (rule healthy_attempt_confirms [OF accepting_sample sample_env_ok(8,2) img sample_image_ok(2)])
qed

text \<open>A sink that commits the first batch and then times out.\<close>

lemma sample_times_out:
  "\<exists>E'. process_segment_ctl crc32_ops zstd_verbatim id sample_config 1 sealed_sample 0 False (sample_env commits_once) =
     (PTransient None 1 CauseSink None, E')"
proof -
  have hb: "parse_segment_header (build_segment_header 5 3 CompNone) = Ok sample_header"
    by (simp add: parse_build_segment_header sample_header_def)
  obtain s where s: "sr_open (Ok (file_reader sample_image)) = Ok s" "fst (sr_collect crc32_hash zstd_verbatim s) = map Inr sample_records"
    using sr_reads_image [OF hb sample_image_ok(2) sample_image_def [unfolded sealed_bytes_def], of zstd_verbatim] by auto
  have o: "open_segment sealed_sample (de_world (sample_env commits_once)) = (Inr s, io_tick (de_world (sample_env commits_once)))"
    using quiet_open_segment [OF sample_env_ok(2,8)] s(1) by (simp add: sample_env_ok)
  show ?thesis
    using s(2) o
    by (simp add: process_segment_ctl_def deliver_segment_def Let_def sample_records_def commit_collected_def batch_gate_def
        commit_batch_ctl_def call_sink_def)
      (simp add: sample_env_def commits_once_def with_segment_context_def count_committed_def publish_def count_retried_def
        commit_collected_def batch_gate_def commit_batch_ctl_def call_sink_def Let_def)
qed

theorem reported_progress_settled_witness:
  "\<exists>E'. process_segment_ctl crc32_ops zstd_verbatim id sample_config 1 sealed_sample 0 False (sample_env commits_once) =
     (PTransient None 1 CauseSink None, E') \<and> settled crc32_hash (sample_env commits_once) no_debt [ascii ''a''] E' no_debt"
proof -
  obtain E' where run: "process_segment_ctl crc32_ops zstd_verbatim id sample_config 1 sealed_sample 0 False (sample_env commits_once) =
      (PTransient None 1 CauseSink None, E')" using sample_times_out by blast
  obtain f where img: "sealed_image (crc_hash crc32_ops) sample_header f sample_records (w_data (de_world (sample_env commits_once)) 0)"
    by (rule sample_sealed)
  have sp: "sink_partitions (de_sink (sample_env commits_once))" by (simp add: sample_env_ok sinks_partition)
  from reported_progress_settled [OF sample_env_ok(1) sp sample_env_ok(2,5) img sample_image_ok(2) run, of 1 no_debt] run
  show ?thesis by (simp add: sample_records_def)
qed

end
