(* ===== verification/Drain.thy ===== *)
theory Drain
  imports Settlement
begin

text \<open>
  The drain's state machine (\<open>weir-server/src/drain/mod.rs\<close>): one attempt at a segment with the
  ledger around it (\<open>attempt_segment\<close>), the next state after its result
  (\<open>next_state_after_process\<close>), the escalation of local read failures, and the arms of the loop of
  \<open>drain_thread_with\<close> that act on a segment: admission, retry, strand, the check while the
  dead-letter directory is full, and the end of a hold.

  What the arms do besides is left out: waiting, the health poll and its rescan, operator
  requests, gauges and the status board.  How a wait ends shows only in which step comes next.
\<close>

section \<open>State\<close>

datatype held_resume =
    HeldFresh
  | HeldRetry nat nat transient_cause bool                   \<comment> \<open>retries_left, next_delay, cause, backoff_cut\<close>

datatype drain_state =
    Draining
  | RetryingTransient path nat nat nat transient_cause bool bool
      \<comment> \<open>segment, retries_left, next_delay, processed, cause, backoff_cut, waited\<close>
  | Held path nat held_resume
  | StateAbandoned path nat
  | BlockedDeadLetterFull path nat nat nat                   \<comment> \<open>segment, blocked_since, processed, needed\<close>

text \<open>The locals of \<open>drain_thread_with\<close> that these arms change.\<close>

record drain_core =
  dc_env :: delivery_env
  dc_ledger :: segment_ledger
  dc_block_episode :: "nat option"
  dc_prev_health_ok :: bool
  dc_segments_stranded :: nat
  dc_local_io_strands_read :: nat
  dc_local_io_strands_write :: nat

definition LOCAL_READ_STRAND_LIMIT :: nat where "LOCAL_READ_STRAND_LIMIT = 3"

abbreviation u32_max :: nat where "u32_max \<equiv> 2 ^ 32 - 1"

definition with_ledger :: "(segment_ledger \<Rightarrow> world \<Rightarrow> segment_ledger \<times> world) \<Rightarrow> drain_core \<Rightarrow> drain_core" where
  "with_ledger f K =
     (case f (dc_ledger K) (de_world (dc_env K)) of
        (L, w) \<Rightarrow> K\<lparr>dc_ledger := L, dc_env := (dc_env K)\<lparr>de_world := w\<rparr>\<rparr>)"

section \<open>An attempt\<close>

definition store_dl_carry :: "path \<Rightarrow> dead_letter_carry option \<Rightarrow> drain_core \<Rightarrow> drain_core" where
  "store_dl_carry segment carry K =
     (case carry of
        None \<Rightarrow> K
      | Some carry \<Rightarrow> with_ledger (\<lambda>L w. case set_dl_carry L segment carry w of (_, L, w) \<Rightarrow> (L, w)) K)"

definition settle_dl_carry ::
  "'h crc_ops \<Rightarrow> drain_config \<Rightarrow> nat \<Rightarrow> dead_letter_carry \<Rightarrow> delivery_env \<Rightarrow> (process_result + nat) \<times> delivery_env"
where
  "settle_dl_carry C cfg skip carry E =
     (case dead_letter_records C cfg (ca_payloads carry) E of
        (Inr _, E) \<Rightarrow> (Ok (max (ca_through carry) skip), count_committed (ca_committed carry) E)
      | (Inl (DlBlocked needed), E) \<Rightarrow> (Err (PBlockedDeadLetter skip needed (Some carry)), E)
      | (Inl DlWriteFailed, E) \<Rightarrow> (Err (PTransient None skip CauseLocalWrite (Some carry)), E))"

definition local_read_limit :: "drain_config \<Rightarrow> nat" where
  "local_read_limit cfg = min (min (cfg_max_retries cfg + 1) u32_max * LOCAL_READ_STRAND_LIMIT) u32_max"

definition local_read_escalation_due :: "path \<Rightarrow> nat \<Rightarrow> drain_config \<Rightarrow> segment_ledger \<Rightarrow> bool" where
  "local_read_escalation_due segment failures cfg L \<longleftrightarrow>
     failures \<ge> local_read_limit cfg \<and> local_read_failing_for L segment \<ge> cfg_local_read_escalation_min_age cfg"

definition local_read_escalates_next :: "path \<Rightarrow> drain_config \<Rightarrow> segment_ledger \<Rightarrow> bool" where
  "local_read_escalates_next segment cfg L =
     local_read_escalation_due segment (u32_sat_inc (local_read_count L segment)) cfg L"

definition attempt_segment ::
  "'h crc_ops \<Rightarrow> zstd_ops \<Rightarrow> (bytes \<Rightarrow> bytes) \<Rightarrow> drain_config \<Rightarrow> nat \<Rightarrow> path \<Rightarrow> nat \<Rightarrow> nat \<Rightarrow> drain_core \<Rightarrow> process_result \<times> drain_core"
where
  "attempt_segment C Z sha cfg max_batch_size segment skip now K =
     (let L = begin_attempt (dc_ledger K) segment now; E = dc_env K in
      case checked_skip L segment skip (de_world E) of
        (skip, L, w) \<Rightarrow>
      case take_dl_carry L segment w of
        (carry, L, w) \<Rightarrow>
      let E = E\<lparr>de_world := w\<rparr> in
      case (case carry of None \<Rightarrow> (Ok skip, E) | Some carry \<Rightarrow> settle_dl_carry C cfg skip carry E) of
        (Inl result, E) \<Rightarrow> (result, K\<lparr>dc_env := E, dc_ledger := end_attempt L\<rparr>)
      | (Inr skip, E) \<Rightarrow>
          (case process_segment_ctl C Z sha cfg max_batch_size segment skip (local_read_escalates_next segment cfg L) E of
             (result, E) \<Rightarrow> (result, K\<lparr>dc_env := E, dc_ledger := end_attempt L\<rparr>)))"

section \<open>After an attempt\<close>

text \<open>The gauge of the blocked time is left out.\<close>

definition end_block_episode :: "drain_core \<Rightarrow> drain_core" where
  "end_block_episode K = K\<lparr>dc_block_episode := None\<rparr>"

definition next_retry_delay :: "nat \<Rightarrow> nat option \<Rightarrow> nat" where
  "next_retry_delay dflt hint = min (case hint of Some d \<Rightarrow> d | None \<Rightarrow> dflt) (300 * 1000)"

definition enter_blocked :: "path \<Rightarrow> nat \<Rightarrow> nat \<Rightarrow> nat \<Rightarrow> drain_core \<Rightarrow> drain_state \<times> drain_core" where
  "enter_blocked segment processed needed now K =
     (case dc_block_episode K of
        Some since \<Rightarrow> (BlockedDeadLetterFull segment since processed needed, K)
      | None \<Rightarrow>
          let m = de_metrics (dc_env K) in
          (BlockedDeadLetterFull segment now processed needed,
           K\<lparr>dc_block_episode := Some now,
             dc_env := (dc_env K)\<lparr>de_metrics := m\<lparr>dm_dead_letter_full := dm_dead_letter_full m + 1\<rparr>\<rparr>\<rparr>))"

definition escalate_local_read ::
  "drain_config \<Rightarrow> path \<Rightarrow> err_class \<Rightarrow> nat \<Rightarrow> drain_core \<Rightarrow> drain_state option \<times> drain_core"
where
  "escalate_local_read cfg segment cls now K =
     (case note_local_read_failure (dc_ledger K) segment cls now of
        (failures, L) \<Rightarrow>
          let K = K\<lparr>dc_ledger := L\<rparr> in
          if \<not> local_read_escalation_due segment failures cfg L then (None, K)
          else case cls of
            ClassProcess \<Rightarrow> (None, K)
          | ClassAccess \<Rightarrow> (Some Draining, end_block_episode (K\<lparr>dc_ledger := ledger_park L segment LocalReadFailed\<rparr>))
          | ClassMedia \<Rightarrow>
              (case quarantine_segment segment cfg (dc_env K) of
                 (moved, E) \<Rightarrow>
                   (Some Draining, end_block_episode (K\<lparr>dc_env := E, dc_ledger :=
                      if moved then ledger_forget L segment
                      else note_quarantine_pending L segment ''drain: persistent local read error''\<rparr>))))"

definition next_state_after_process ::
  "'h crc_ops \<Rightarrow> drain_config \<Rightarrow> path \<Rightarrow> process_result \<Rightarrow> held_resume \<Rightarrow> nat \<Rightarrow>
   (nat option \<Rightarrow> nat \<Rightarrow> transient_cause \<Rightarrow> drain_state) \<Rightarrow> drain_core \<Rightarrow> drain_state \<times> drain_core"
where
  "next_state_after_process C cfg segment result resume now on_transient K =
     (case result of
        Confirmed record_count \<Rightarrow>
          (case confirm_and_delete (crc_hash C) segment (of_nat record_count) (de_world (dc_env K)) (de_metrics (dc_env K)) of
             (outcome, w, m) \<Rightarrow>
               (Draining, end_block_episode (K\<lparr>dc_env := (dc_env K)\<lparr>de_world := w, de_metrics := m\<rparr>,
                  dc_ledger := note_confirm_outcome (ledger_forget (dc_ledger K) segment) segment outcome record_count\<rparr>)))
      | PTransient retry_after processed cause carry \<Rightarrow>
          (case (case cause of CauseLocalRead cls _ \<Rightarrow> escalate_local_read cfg segment cls now K | _ \<Rightarrow> (None, K)) of
             (Some next, K) \<Rightarrow> (next, K)
           | (None, K) \<Rightarrow>
               (on_transient retry_after processed cause,
                store_dl_carry segment carry (with_ledger (\<lambda>L w. record_progress L segment processed w) K)))
      | PBlockedDeadLetter processed needed carry \<Rightarrow>
          enter_blocked segment processed needed now
            (store_dl_carry segment carry (with_ledger (\<lambda>L w. record_progress L segment processed w) K))
      | PParked reason \<Rightarrow> (Draining, end_block_episode (K\<lparr>dc_ledger := ledger_park (dc_ledger K) segment reason\<rparr>))
      | PQuarantined \<Rightarrow> (Draining, end_block_episode (K\<lparr>dc_ledger := ledger_forget (dc_ledger K) segment\<rparr>))
      | PQuarantinePending reason \<Rightarrow>
          (Draining, end_block_episode (K\<lparr>dc_ledger := note_quarantine_pending (dc_ledger K) segment reason\<rparr>))
      | PPaused processed \<Rightarrow>
          (Held segment processed resume, with_ledger (\<lambda>L w. record_progress L segment processed w) K)
      | PAbandoned processed \<Rightarrow>
          (StateAbandoned segment processed, with_ledger (\<lambda>L w. record_progress L segment processed w) K))"

definition transition_from_draining ::
  "'h crc_ops \<Rightarrow> drain_config \<Rightarrow> path \<Rightarrow> process_result \<Rightarrow> nat \<Rightarrow> drain_core \<Rightarrow> drain_state \<times> drain_core"
where
  "transition_from_draining C cfg segment result now K =
     next_state_after_process C cfg segment result HeldFresh now
       (\<lambda>retry_after processed cause.
          RetryingTransient segment (cfg_max_retries cfg) (next_retry_delay (cfg_base_retry_delay cfg) retry_after)
            processed cause False False) K"

section \<open>The arms of the loop\<close>

text \<open>The retry, once its wait is over, with at least one retry left.\<close>

definition retry_segment ::
  "'h crc_ops \<Rightarrow> zstd_ops \<Rightarrow> (bytes \<Rightarrow> bytes) \<Rightarrow> drain_config \<Rightarrow> nat \<Rightarrow> path \<Rightarrow> nat \<Rightarrow> nat \<Rightarrow> nat \<Rightarrow> transient_cause \<Rightarrow> bool \<Rightarrow> nat \<Rightarrow> nat \<Rightarrow>
   drain_core \<Rightarrow> drain_state \<times> drain_core"
where
  "retry_segment C Z sha cfg max_batch_size segment retries_left next_delay processed cause backoff_cut started ended K =
     (case attempt_segment C Z sha cfg max_batch_size segment processed started K of
        (result, K) \<Rightarrow>
          next_state_after_process C cfg segment result (HeldRetry retries_left next_delay cause backoff_cut) ended
            (\<lambda>retry_after processed cause.
               RetryingTransient segment (retries_left - 1) (next_retry_delay (next_delay * 2) retry_after)
                 processed cause backoff_cut False) K)"

definition strand_segment :: "path \<Rightarrow> nat \<Rightarrow> transient_cause \<Rightarrow> nat \<Rightarrow> drain_core \<Rightarrow> drain_state \<times> drain_core" where
  "strand_segment segment next_delay cause now K =
     (let K = K\<lparr>dc_ledger := set_not_before (dc_ledger K) segment (now + next_delay)\<rparr> in
      (Draining,
       case cause of
         CauseSink \<Rightarrow> K\<lparr>dc_segments_stranded := dc_segments_stranded K + 1, dc_prev_health_ok := False\<rparr>
       | CauseLocalRead _ _ \<Rightarrow> K\<lparr>dc_local_io_strands_read := dc_local_io_strands_read K + 1\<rparr>
       | CauseLocalWrite \<Rightarrow> K\<lparr>dc_local_io_strands_write := dc_local_io_strands_write K + 1\<rparr>))"

datatype drain_exit_reason = ExitStopped | ExitDeadlineAbandoned | ExitGaveUp

text \<open>
  The end of a wait for room: first the rescan of the dead-letter directory, then the check.
  \<open>stop_seen\<close> says whether a stop, or the end of the channel, ended the wait.
\<close>

definition rescan_blocked :: "drain_core \<Rightarrow> drain_core" where
  "rescan_blocked K =
     (let E = dc_env K in
      case dl_rescan (de_dead_letter E) (de_world E) of
        (_, D, w) \<Rightarrow>
          K\<lparr>dc_env := E\<lparr>de_dead_letter := D, de_world := w,
              de_metrics := (de_metrics E)\<lparr>dm_dl_bytes_on_disk := dl_total_bytes D\<rparr>\<rparr>\<rparr>)"

definition check_blocked ::
  "drain_config \<Rightarrow> path \<Rightarrow> nat \<Rightarrow> nat \<Rightarrow> nat \<Rightarrow> bool \<Rightarrow> bool \<Rightarrow> drain_core \<Rightarrow> drain_exit_reason + drain_state"
where
  "check_blocked cfg segment blocked_since processed needed stop_seen deadline_passed K =
     (if \<not> would_exceed_cap (de_dead_letter (dc_env K)) needed (cfg_dead_letter_max_bytes cfg)
      then Inr (RetryingTransient segment (cfg_max_retries cfg) (cfg_base_retry_delay cfg) processed CauseSink False False)
      else if stop_seen then Inl (if deadline_passed then ExitDeadlineAbandoned else ExitStopped)
      else Inr (BlockedDeadLetterFull segment blocked_since processed needed))"

text \<open>The end of a hold.  \<open>HeldFresh\<close> goes back to the head of the queue and through admission.\<close>

definition resume_held :: "path \<Rightarrow> nat \<Rightarrow> held_resume \<Rightarrow> drain_state" where
  "resume_held segment processed resume =
     (case resume of
        HeldFresh \<Rightarrow> Draining
      | HeldRetry retries_left next_delay cause backoff_cut \<Rightarrow>
          RetryingTransient segment retries_left next_delay processed cause backoff_cut True)"

text \<open>
  The choice of the next segment.  The channel is the list of what it holds now.
\<close>

definition next_queued ::
  "path list \<Rightarrow> path list \<Rightarrow> path list \<Rightarrow> bool \<Rightarrow> path option \<times> path list \<times> path list \<times> path list \<times> bool"
where
  "next_queued pending backlog rx backlog_turn =
     (case (if backlog_turn \<and> backlog \<noteq> [] then None
            else case pending of
              p # ps \<Rightarrow> Some (p, ps, rx)
            | [] \<Rightarrow> (case rx of p # ps \<Rightarrow> Some (p, pending, ps) | [] \<Rightarrow> None)) of
        Some (p, pending, rx) \<Rightarrow> (Some p, pending, backlog, rx, True)
      | None \<Rightarrow>
          (case backlog of
             [] \<Rightarrow> (None, pending, backlog, rx, backlog_turn)
           | p # ps \<Rightarrow> (Some p, pending, ps, rx, False)))"

definition stop_exit :: "bool \<Rightarrow> bool \<Rightarrow> bool \<Rightarrow> bool \<Rightarrow> path list \<Rightarrow> drain_exit_reason option" where
  "stop_exit stop_requested deadline_passed input_closed queues_empty rx =
     (if \<not> stop_requested then None
      else let nothing_left = (queues_empty \<and> rx = []) in
      if deadline_passed then Some (if nothing_left then ExitStopped else ExitDeadlineAbandoned)
      else if input_closed \<and> nothing_left then Some ExitStopped else None)"

end
