(* ===== verification/AtLeastOnce.thy ===== *)
theory AtLeastOnce
  imports Drain
begin

text \<open>
  At-least-once delivery across attempts: what the drain may have done to a segment, its records and
  the dead letters after any sequence of attempts, retries, strands, holds and full dead-letter
  directories, and that a deleted segment was delivered in full.
\<close>

section \<open>At least once\<close>

text \<open>
  What later activity keeps of the dead letters: those on stable storage stay there.
\<close>

definition dl_kept :: "(bytes \<Rightarrow> u32) \<Rightarrow> delivery_env \<Rightarrow> delivery_env \<Rightarrow> bool" where
  "dl_kept crc E E' \<longleftrightarrow> env_wf E' \<and> dl_wab_dir (de_dead_letter E') = dl_wab_dir (de_dead_letter E) \<and>
     dl_next_counter (de_dead_letter E) \<le> dl_next_counter (de_dead_letter E') \<and>
     (\<forall>n. prefix (stable_records crc (de_world E) (dl_path (dl_dir (de_dead_letter E)) n))
        (stable_records crc (de_world E') (dl_path (dl_dir (de_dead_letter E)) n)))"

text \<open>
  Every record of \<open>rs\<close> was committed by the sink since \<open>E0\<close>, or is a dead letter on stable storage
  that was written since \<open>E0\<close>, or is one of the owed records \<open>pl\<close>.
\<close>

definition covered :: "(bytes \<Rightarrow> u32) \<Rightarrow> delivery_env \<Rightarrow> delivery_env \<Rightarrow> bytes list \<Rightarrow> bytes list \<Rightarrow> bool" where
  "covered crc E0 E rs pl \<longleftrightarrow> dl_kept crc E0 E \<and>
     (\<exists>log dls. de_log E = de_log E0 @ log \<and>
        dl_holds crc (dl_dir (de_dead_letter E0)) (de_world E)
          (dl_next_counter (de_dead_letter E0)) (dl_next_counter (de_dead_letter E)) dls \<and>
        mset rs \<subseteq># mset (acked log) + mset (concat dls) + mset pl)"

lemma dl_kept_refl: "env_wf E \<Longrightarrow> dl_kept crc E E"
  by (simp add: dl_kept_def)

lemma dl_kept_trans:
  assumes 1: "dl_kept crc E F" and 2: "dl_kept crc F G"
  shows "dl_kept crc E G"
proof -
  have d: "dl_wab_dir (de_dead_letter F) = dl_wab_dir (de_dead_letter E)" using 1 by (simp add: dl_kept_def)
  have "prefix (stable_records crc (de_world E) (dl_path (dl_dir (de_dead_letter E)) n))
      (stable_records crc (de_world G) (dl_path (dl_dir (de_dead_letter E)) n))" for n
    by (rule prefix_order.trans [of _ "stable_records crc (de_world F) (dl_path (dl_dir (de_dead_letter E)) n)"])
      (use 1 2 d in \<open>simp_all add: dl_kept_def\<close>)
  then show ?thesis using 1 2 by (simp add: dl_kept_def)
qed

lemma settled_dl_kept: "settled crc E ow rs E' ow' \<Longrightarrow> dl_kept crc E E'"
  by (drule settled_grows) (simp add: dl_kept_def dl_grows_def)

lemma dl_kept_append:
  assumes 1: "dl_holds crc (dl_dir (de_dead_letter E)) (de_world F) (dl_next_counter (de_dead_letter E)) (dl_next_counter (de_dead_letter F)) xs"
    and 2: "dl_holds crc (dl_dir (de_dead_letter F)) (de_world G) (dl_next_counter (de_dead_letter F)) (dl_next_counter (de_dead_letter G)) ys"
    and k: "dl_kept crc E F" "dl_kept crc F G"
  shows "dl_holds crc (dl_dir (de_dead_letter E)) (de_world G) (dl_next_counter (de_dead_letter E)) (dl_next_counter (de_dead_letter G)) (xs @ ys)"
proof -
  have d: "dl_wab_dir (de_dead_letter F) = dl_wab_dir (de_dead_letter E)" using k(1) by (simp add: dl_kept_def)
  show ?thesis
    by (rule dl_holds_append [OF 1]) (use 2 k in \<open>simp_all add: d dl_kept_def\<close>)
qed

lemma covered_step:
  assumes c: "covered crc E0 E rs (ow_payloads ow)" and s: "settled crc E ow rs' E' ow'"
  shows "covered crc E0 E' (rs @ rs') (ow_payloads ow')"
proof -
  obtain log dls where 1: "de_log E = de_log E0 @ log"
      "dl_holds crc (dl_dir (de_dead_letter E0)) (de_world E) (dl_next_counter (de_dead_letter E0)) (dl_next_counter (de_dead_letter E)) dls"
      "mset rs \<subseteq># mset (acked log) + mset (concat dls) + mset (ow_payloads ow)" using c unfolding covered_def by blast
  obtain log' dls' where 2: "de_log E' = de_log E @ log'"
      "dl_holds crc (dl_dir (de_dead_letter E)) (de_world E') (dl_next_counter (de_dead_letter E)) (dl_next_counter (de_dead_letter E')) dls'"
      "mset (ow_payloads ow) + mset rs' = mset (acked log') + mset (concat dls') + mset (ow_payloads ow')"
    using s unfolding settled_def by blast
  have k: "dl_kept crc E0 E" "dl_kept crc E E'" using c settled_dl_kept [OF s] by (simp_all add: covered_def)
  have "mset rs + mset rs' \<subseteq># (mset (acked log) + mset (concat dls) + mset (ow_payloads ow)) + mset rs'"
    by (rule subset_mset.add_right_mono [OF 1(3)])
  also have "\<dots> = mset (acked log) + mset (concat dls) + (mset (ow_payloads ow) + mset rs')" by simp
  also have "\<dots> = mset (acked (log @ log')) + mset (concat (dls @ dls')) + mset (ow_payloads ow')"
    unfolding 2(3) by simp
  finally have "mset (rs @ rs') \<subseteq># mset (acked (log @ log')) + mset (concat (dls @ dls')) + mset (ow_payloads ow')" by simp
  then show ?thesis using dl_kept_append [OF 1(2) 2(2) k] dl_kept_trans [OF k] 1(1) 2(1)
    unfolding covered_def by (intro conjI exI [of _ "log @ log'"] exI [of _ "dls @ dls'"]) simp_all
qed

lemma covered_kept:
  assumes c: "covered crc E0 E rs pl" and k: "dl_kept crc E E'" and l: "de_log E' = de_log E @ log'"
  shows "covered crc E0 E' rs pl"
proof -
  obtain log dls where 1: "de_log E = de_log E0 @ log"
      "dl_holds crc (dl_dir (de_dead_letter E0)) (de_world E) (dl_next_counter (de_dead_letter E0)) (dl_next_counter (de_dead_letter E)) dls"
      "mset rs \<subseteq># mset (acked log) + mset (concat dls) + mset pl" using c unfolding covered_def by blast
  have k0: "dl_kept crc E0 E" using c by (simp add: covered_def)
  have "mset (acked log) + mset (concat dls) + mset pl \<subseteq># mset (acked (log @ log')) + mset (concat (dls @ [])) + mset pl" by simp
  then have "mset rs \<subseteq># mset (acked (log @ log')) + mset (concat (dls @ [])) + mset pl"
    by (rule subset_mset.order_trans [OF 1(3)])
  then show ?thesis using dl_kept_append [OF 1(2) dl_holds_Nil k0 k] dl_kept_trans [OF k0 k] 1(1) l
    unfolding covered_def by (intro conjI exI [of _ "log @ log'"] exI [of _ "dls @ []"]) simp_all
qed

lemma covered_fewer: "covered crc E0 E rs pl \<Longrightarrow> mset rs' \<subseteq># mset rs \<Longrightarrow> covered crc E0 E rs' pl"
  unfolding covered_def using subset_mset.order_trans by blast

lemma covered_Nil: "env_wf E \<Longrightarrow> covered crc E E [] []"
  unfolding covered_def by (intro conjI exI [of _ "[]"]) (simp_all add: dl_kept_refl)

lemma covered_take:
  assumes "covered crc E0 E (take skip rs) []" "settled crc E no_debt (slice skip k rs) E' ow" "skip \<le> k"
  shows "covered crc E0 E' (take k rs) (ow_payloads ow)"
proof -
  have "take skip rs @ slice skip k rs = take k rs"
    using assms(3) take_add [of skip "k - skip" rs] by simp
  then show ?thesis using covered_step [of crc E0 E "take skip rs" no_debt, OF _ assms(2)] assms(1) by simp
qed

section \<open>What every step leaves\<close>

text \<open>A change of the world outside the dead-letter directory.\<close>

lemma dl_frame:
  assumes wf: "dl_wf D w"
    and same: "\<And>q. fst q = dl_dir D \<Longrightarrow> w_entry w' q = w_entry w q \<and> w_ddir w' q = w_ddir w q"
    and nx: "w_next w \<le> w_next w'" and pre: "\<And>i. prefix (w_disk w' i) (w_data w' i)"
    and disk: "\<And>q i. fst q = dl_dir D \<Longrightarrow> w_ddir w q = Some i \<Longrightarrow> w_disk w' i = w_disk w i"
  shows "dl_wf D w'" "fst p = dl_dir D \<Longrightarrow> stable_records crc w' p = stable_records crc w p"
proof -
  let ?d = "dl_dir D"
  have e: "w_entry (within ?d w') = w_entry (within ?d w)" using same by (auto simp: w_entry_within fun_eq_iff)
  have dd: "w_ddir (within ?d w') = w_ddir (within ?d w)" using same by (auto simp: within_def restrict_map_def fun_eq_iff)
  have c: "cur_inode (within ?d w') = cur_inode (within ?d w)" "dur_inode (within ?d w') = dur_inode (within ?d w)"
    by (rule ext, simp only: cur_inode_def dur_inode_def e dd)+
  have "world_wf (within ?d w')"
    using wf [unfolded dl_wf_def world_wf_def] pre less_le_trans [OF _ nx] unfolding world_wf_def c e dd by simp
  then show "dl_wf D w'" using wf by (simp add: dl_wf_def unused_def c)
  assume p: "fst p = ?d"
  then have sp: "fst (sealed_path_for p) = ?d" by (simp add: sealed_path_for_def)
  have "w_ddir w' p = w_ddir w p" "w_ddir w' (sealed_path_for p) = w_ddir w (sealed_path_for p)" using same [OF p] same [OF sp] by simp_all
  then have "dur_inode w' p = dur_inode w p" by (simp add: dur_inode_def cong: option.case_cong)
  moreover have "w_disk w' i = w_disk w i" if "dur_inode w p = Some i" for i
    using that disk [OF p] disk [OF sp] unfolding dur_inode_def by (cases "w_ddir w p") simp_all
  ultimately show "stable_records crc w' p = stable_records crc w p" by (cases "dur_inode w p") (simp_all add: stable_records_def)
qed

text \<open>
  From \<open>E\<close> to \<open>E'\<close> nothing delivered is lost, the environment is the same, and the file \<open>i\<close> keeps its
  contents.
\<close>

definition proceeds :: "(bytes \<Rightarrow> u32) \<Rightarrow> nat \<Rightarrow> delivery_env \<Rightarrow> delivery_env \<Rightarrow> bool" where
  "proceeds crc i E E' \<longleftrightarrow> dl_kept crc E E' \<and> prefix (de_log E) (de_log E') \<and> de_sink E' = de_sink E \<and>
     w_io (de_world E') = w_io (de_world E) \<and> w_next (de_world E) \<le> w_next (de_world E') \<and>
     w_data (de_world E') i = w_data (de_world E) i"

lemma proceeds_trans: "proceeds crc i E F \<Longrightarrow> proceeds crc i F G \<Longrightarrow> proceeds crc i E G"
  using dl_kept_trans [of crc E F G] prefix_order.trans [of "de_log E" "de_log F" "de_log G"] by (simp add: proceeds_def)

lemma settled_proceeds: "settled crc E ow rs E' ow' \<Longrightarrow> i < w_next (de_world E) \<Longrightarrow> proceeds crc i E E'"
  using settled_dl_kept [of crc E ow rs E' ow'] settled_grows [of crc E ow rs E' ow']
  by (auto simp: proceeds_def settled_def dl_grows_def only_adds_def)

lemma covered_proceeds: "covered crc E0 E rs pl \<Longrightarrow> proceeds crc i E E' \<Longrightarrow> covered crc E0 E' rs pl"
  unfolding proceeds_def prefix_def by (elim conjE exE) (rule covered_kept)

lemma proceeds_idle:
  assumes "env_wf E" "de_world E' = (de_world E)\<lparr>w_tick := t\<rparr>" "dl_wab_dir (de_dead_letter E') = dl_wab_dir (de_dead_letter E)"
    "dl_next_counter (de_dead_letter E') = dl_next_counter (de_dead_letter E)"
    "de_log E' = de_log E" "de_sink E' = de_sink E"
  shows "proceeds crc i E E'"
  using assms dl_step_idle [OF assms(1,3,4), of t] by (simp add: proceeds_def dl_kept_def dl_step_def)

lemma quarantine_apart: "quarantine_dir wab \<noteq> dead_letter_dir wab"
  by (simp add: quarantine_dir_def dead_letter_dir_def ascii_def)

lemma quarantine_segment_effect:
  assumes "quarantine_segment segment cfg E = (b, E')"
  obtains (still) t m where "E' = E\<lparr>de_world := (de_world E)\<lparr>w_tick := t\<rparr>, de_metrics := m\<rparr>"
  | (moved) q j t m where "fst q = quarantine_dir (cfg_wab_dir cfg)" "w_entry (de_world E) segment = Some j" "b"
      "E' = E\<lparr>de_world := (de_world E)\<lparr>w_tick := t, w_dir := AList.update q j (AList.delete segment (w_dir (de_world E)))\<rparr>, de_metrics := m\<rparr>"
proof -
  obtain x w where q: "quarantine segment (cfg_wab_dir cfg) (de_world E) = (x, w)" by fastforce
  obtain y w2 where s: "fs_stat_len segment w = (y, w2)" by fastforce
  have w2: "w2 = io_tick w" using s by (auto simp: fs_stat_len_def io_step_tick split: io_outcome.splits option.splits)
  have "\<exists>m. E' = E\<lparr>de_world := if x = Ok () then w else w2, de_metrics := m\<rparr> \<and> (x = Ok () \<longrightarrow> b)"
  proof (cases x)
    case (Inr u)
    then show ?thesis using assms q by (auto simp: quarantine_segment_def move_to_quarantine_def)
  next
    case (Inl k)
    then show ?thesis using assms q s
      by (cases y) (auto simp: quarantine_segment_def move_to_quarantine_def split: if_splits intro!: exI [of _ "de_metrics E'"] delivery_env.equality)
  qed
  then obtain m where E': "E' = E\<lparr>de_world := if x = Ok () then w else w2, de_metrics := m\<rparr>" and b: "x = Ok () \<longrightarrow> b" by blast
  from quarantine_moves [OF q] show thesis
  proof (elim disjE conjE exE)
    fix n assume "w = (de_world E)\<lparr>w_tick := n\<rparr>" "x \<noteq> Ok ()"
    then show thesis using w2 by (intro still [of m "w_tick w2"]) (simp add: E' io_tick_def)
  next
    fix q j n assume "x = Ok ()" "fst q = quarantine_dir (cfg_wab_dir cfg)" "w_entry (de_world E) segment = Some j"
      "w = (de_world E)\<lparr>w_tick := n, w_dir := AList.update q j (AList.delete segment (w_dir (de_world E)))\<rparr>"
    then show thesis using b by (intro moved [of q j m n]) (simp_all add: E')
  qed
qed

lemma quarantine_proceeds:
  assumes wf: "env_wf E" and dir: "dl_wab_dir (de_dead_letter E) = cfg_wab_dir cfg" "fst segment \<noteq> dl_dir (de_dead_letter E)"
    and run: "quarantine_segment segment cfg E = (b, E')"
  shows "proceeds crc i E E'"
  using run
proof (cases rule: quarantine_segment_effect)
  case (still t m)
  then show ?thesis by (intro proceeds_idle [OF wf, of _ t]) simp_all
next
  case (moved q j t m)
  let ?w = "(de_world E)\<lparr>w_tick := t, w_dir := AList.update q j (AList.delete segment (w_dir (de_world E)))\<rparr>"
  have pre: "prefix (w_disk (de_world E) i) (w_data (de_world E) i)" for i
    using wf by (simp add: dl_wf_def world_wf_def)
  have same: "w_entry ?w r = w_entry (de_world E) r" if "fst r = dl_dir (de_dead_letter E)" for r
    using that dir moved(1) quarantine_apart by (auto simp: w_entry_def update_conv' delete_conv')
  have "dl_wf (de_dead_letter E) ?w" "fst r = dl_dir (de_dead_letter E) \<Longrightarrow> stable_records crc ?w r = stable_records crc (de_world E) r" for r crc
    by (rule dl_frame [OF wf]; use same pre in simp)+
  then show ?thesis using moved(4) by (simp add: proceeds_def dl_kept_def)
qed

lemma covered_none: "proceeds crc i E0 E \<Longrightarrow> covered crc E0 E [] []"
  unfolding covered_def proceeds_def prefix_def by (elim conjE exE) (intro conjI exI [of _ "[]"] exI, simp_all)

lemma proceeds_refl: "env_wf E \<Longrightarrow> proceeds crc i E E"
  by (simp add: proceeds_def dl_kept_refl)

lemma process_proceeds:
  assumes wf: "env_wf E" and sp: "sink_partitions (de_sink E)" and i: "i < w_next (de_world E)"
    and dir: "dl_wab_dir (de_dead_letter E) = cfg_wab_dir cfg" "fst segment \<noteq> dl_dir (de_dead_letter E)"
    and run: "process_segment_ctl C Z sha cfg mb segment skip last_chance E = (res, E')"
  shows "proceeds (crc_hash C) i E E'"
proof -
  let ?c = "crc_hash C"
  have tick: "proceeds ?c i E (E\<lparr>de_world := (de_world E)\<lparr>w_tick := t\<rparr>\<rparr>)" for t
    by (rule proceeds_idle [OF wf, of _ t]) simp_all
  have quar: "proceeds ?c i E G"
    if p: "proceeds ?c i E F" and q: "quarantine_result segment cfg reason F = (res, G)" for F G reason
  proof -
    obtain b H where s: "quarantine_segment segment cfg F = (b, H)" by fastforce
    have "G = H" using q s by (auto simp: quarantine_result_def split: bool.splits)
    moreover have "proceeds ?c i F H"
      by (rule quarantine_proceeds [OF _ _ _ s]) (use p dir in \<open>auto simp: proceeds_def dl_kept_def\<close>)
    ultimately show ?thesis using proceeds_trans [OF p] by simp
  qed
  from run show ?thesis
  proof (cases rule: process_cases)
    case (opened reader t)
    let ?F = "E\<lparr>de_world := (de_world E)\<lparr>w_tick := t\<rparr>\<rparr>"
    have wfF: "env_wf ?F" by (rule env_wf_tick [OF wf])
    have spF: "sink_partitions (de_sink ?F)" using sp by simp
    have st: "settled ?c ?F no_debt rs G ow \<Longrightarrow> proceeds ?c i E G" for rs G ow
      using settled_proceeds [OF settled_from_tick [OF wf]] i by blast
    from wfF spF opened(2) show ?thesis
    proof (cases rule: deliver_cases)
      case (setback ps rest)
      then show ?thesis using st settled_viaD unfolding stopped_def by blast
    next
      case (unreadable ps e rest E1 reason)
      then have "settled ?c ?F no_debt (drop skip ps) E1 no_debt" by (simp add: all_settled_def)
      then show ?thesis using quar [OF st unreadable(4)] by blast
    next
      case (footer ps E1 b)
      then have s: "settled ?c ?F no_debt (drop skip ps) E1 no_debt" by (simp add: all_settled_def)
      have s': "settled ?c ?F no_debt (drop skip ps) (E1\<lparr>de_world := (de_world E1)\<lparr>w_tick := u\<rparr>\<rparr>) no_debt" for u
        by (rule settled_tick [OF s refl])
      from footer(5) show ?thesis
      proof (cases rule: check_footer_cases)
        case (incomplete u reason)
        then show ?thesis using quar [OF st [OF s']] by blast
      qed (use st [OF s'] in simp_all)
    qed
  next
    case (corrupt t reason)
    then show ?thesis using quar [OF tick] by blast
  qed (use tick in simp_all)
qed

section \<open>Tracking one segment\<close>

text \<open>The segment \<open>p\<close> stands in its place, with the file \<open>i\<close>, and the drain can reach it.\<close>

definition in_place :: "drain_config \<Rightarrow> path \<Rightarrow> nat \<Rightarrow> delivery_env \<Rightarrow> bool" where
  "in_place cfg p i E \<longleftrightarrow> env_wf E \<and> sink_partitions (de_sink E) \<and> dl_wab_dir (de_dead_letter E) = cfg_wab_dir cfg \<and>
     fst p \<noteq> dead_letter_dir (cfg_wab_dir cfg) \<and> no_false_absence (de_world E) \<and>
     w_entry (de_world E) p = Some i \<and> i < w_next (de_world E)"

text \<open>The ledger's resume point and carry of \<open>p\<close>, if they are for this file, are backed by deliveries since \<open>E0\<close>.\<close>

definition ledger_covered ::
  "(bytes \<Rightarrow> u32) \<Rightarrow> delivery_env \<Rightarrow> bytes list \<Rightarrow> path \<Rightarrow> nat \<Rightarrow> delivery_env \<Rightarrow> segment_ledger \<Rightarrow> bool"
where
  "ledger_covered crc E0 rs p i E L \<longleftrightarrow>
     (\<forall>c. map_of (lg_resume_from L) p = Some c \<longrightarrow> rc_ino c = i \<longrightarrow> covered crc E0 E (take (rc_processed c) rs) []) \<and>
     (\<forall>c. map_of (lg_dl_carry L) p = Some c \<longrightarrow> pc_ino c = i \<longrightarrow>
        covered crc E0 E (take (ca_through (pc_carry c)) rs) (ca_payloads (pc_carry c)))"

definition tracked ::
  "(bytes \<Rightarrow> u32) \<Rightarrow> drain_config \<Rightarrow> path \<Rightarrow> nat \<Rightarrow> bytes list \<Rightarrow> delivery_env \<Rightarrow> drain_core \<Rightarrow> bool"
where
  "tracked crc cfg p i rs E0 K \<longleftrightarrow> in_place cfg p i (dc_env K) \<and> proceeds crc i E0 (dc_env K) \<and>
     ledger_covered crc E0 rs p i (dc_env K) (dc_ledger K)"

text \<open>The progress a state of the drain holds for \<open>p\<close> is backed too.\<close>

definition state_covered :: "(bytes \<Rightarrow> u32) \<Rightarrow> delivery_env \<Rightarrow> bytes list \<Rightarrow> path \<Rightarrow> delivery_env \<Rightarrow> drain_state \<Rightarrow> bool" where
  "state_covered crc E0 rs p E st \<longleftrightarrow>
     (case st of
        RetryingTransient q _ _ k _ _ _ \<Rightarrow> q = p \<longrightarrow> covered crc E0 E (take k rs) []
      | Held q k _ \<Rightarrow> q = p \<longrightarrow> covered crc E0 E (take k rs) []
      | BlockedDeadLetterFull q _ k _ \<Rightarrow> q = p \<longrightarrow> covered crc E0 E (take k rs) []
      | StateAbandoned q k \<Rightarrow> q = p \<longrightarrow> covered crc E0 E (take k rs) []
      | Draining \<Rightarrow> True)"

lemma in_place_proceeds:
  "in_place cfg p i E \<Longrightarrow> proceeds crc i E E' \<Longrightarrow> w_entry (de_world E') p = Some i \<Longrightarrow> in_place cfg p i E'"
  by (auto simp: in_place_def proceeds_def dl_kept_def no_false_absence_def)

lemma state_covered_proceeds: "state_covered crc E0 rs p E st \<Longrightarrow> proceeds crc i E E' \<Longrightarrow> state_covered crc E0 rs p E' st"
  unfolding state_covered_def using covered_proceeds by (auto split: drain_state.splits)

lemma ledger_covered_proceeds:
  assumes "ledger_covered crc E0 rs p i E L" "proceeds crc j E E'"
    and "map_of (lg_resume_from L') p \<in> {None, map_of (lg_resume_from L) p}" "map_of (lg_dl_carry L') p \<in> {None, map_of (lg_dl_carry L) p}"
  shows "ledger_covered crc E0 rs p i E' L'"
  using assms covered_proceeds [OF _ assms(2)] unfolding ledger_covered_def by auto

lemma file_identity_tick: "file_identity p w = (x, w') \<Longrightarrow> (\<exists>t. w' = w\<lparr>w_tick := t\<rparr>) \<and> (\<forall>j. x = Some j \<longrightarrow> w_entry w p = Some j)"
  using file_identity_effect [of p w x w'] by (auto simp: io_tick_def)

lemma idle_world: "\<exists>t. w = w\<lparr>w_tick := t\<rparr>"
  by (rule exI [of _ "w_tick w"]) simp

lemma map_of_deleted [simp]: "map_of (AList.delete p xs) p = None"
  by (simp add: AList.delete_conv')

lemma checked_skip_effect:
  assumes "checked_skip L p skip w = (k, L', w')"
  shows "k = 0 \<or> k = skip" "\<exists>t. w' = w\<lparr>w_tick := t\<rparr>" "lg_dl_carry L' = lg_dl_carry L"
    "map_of (lg_resume_from L') p \<in> {None, map_of (lg_resume_from L) p}"
  using assms idle_world [of w]
  by (auto simp: checked_skip_def split: if_splits option.splits prod.splits dest: file_identity_tick)

lemma take_dl_carry_effect:
  assumes "take_dl_carry L p w = (ca, L', w')"
  shows "\<exists>t. w' = w\<lparr>w_tick := t\<rparr>" "lg_resume_from L' = lg_resume_from L" "map_of (lg_dl_carry L') p = None"
    "ca = Some c \<Longrightarrow> \<exists>pc. map_of (lg_dl_carry L) p = Some pc \<and> pc_carry pc = c \<and> w_entry w p = Some (pc_ino pc)"
  using assms idle_world [of w]
  by (auto simp: take_dl_carry_def Let_def split: if_splits option.splits prod.splits dest: file_identity_tick)

lemma record_progress_effect:
  assumes "record_progress L p k w = (L', w')"
  shows "\<exists>t. w' = w\<lparr>w_tick := t\<rparr>" "lg_dl_carry L' = lg_dl_carry L"
    "map_of (lg_resume_from L') p \<in> {None, map_of (lg_resume_from L) p} \<or>
     (\<exists>j. w_entry w p = Some j \<and> map_of (lg_resume_from L') p = Some \<lparr>rc_processed = k, rc_ino = j\<rparr>)"
  using assms idle_world [of w]
  by (auto simp: record_progress_def update_conv' split: if_splits option.splits prod.splits dest: file_identity_tick)

lemma set_dl_carry_effect:
  assumes "set_dl_carry L p c w = (b, L', w')"
  shows "\<exists>t. w' = w\<lparr>w_tick := t\<rparr>" "lg_resume_from L' = lg_resume_from L"
    "map_of (lg_dl_carry L') p = None \<or> (\<exists>j. w_entry w p = Some j \<and> map_of (lg_dl_carry L') p = Some \<lparr>pc_carry = c, pc_ino = j\<rparr>)"
  using assms
  by (auto simp: set_dl_carry_def Let_def update_conv' split: if_splits option.splits prod.splits dest: file_identity_tick)

lemma ledger_admit_effect:
  assumes "ledger_admit L p now w = (AdmitProcess k, L', w')"
  shows "\<exists>t. w' = w\<lparr>w_tick := t\<rparr>" "lg_dl_carry L' = lg_dl_carry L"
    "map_of (lg_resume_from L') p \<in> {None, map_of (lg_resume_from L) p}"
    "k = 0 \<or> (\<exists>c. map_of (lg_resume_from L) p = Some c \<and> k = rc_processed c \<and> w_entry w p = Some (rc_ino c))"
  using assms idle_world [of w]
  by (auto simp: ledger_admit_def Let_def split: if_splits option.splits prod.splits dest: file_identity_tick)

lemma settle_dl_carry_effect:
  assumes wf: "env_wf E" and run: "settle_dl_carry C cfg skip ca E = (x, E')"
    and c: "covered (crc_hash C) E0 E (take (ca_through ca) rs) (ca_payloads ca)" "covered (crc_hash C) E0 E (take skip rs) []"
  shows "\<exists>ow ow'. settled (crc_hash C) E ow [] E' ow'"
    "x = Ok k \<Longrightarrow> covered (crc_hash C) E0 E' (take k rs) []"
    "x = Err res \<Longrightarrow> (\<exists>n. res = PBlockedDeadLetter skip n (Some ca)) \<or> res = PTransient None skip CauseLocalWrite (Some ca)"
proof -
  let ?c = "crc_hash C"
  obtain y F where d: "dead_letter_records C cfg (ca_payloads ca) E = (y, F)" by fastforce
  note e = dead_letter_records_effect [OF wf d, of "ca_committed ca" no_debt]
  have x: "x = (case y of Inr _ \<Rightarrow> Ok (max (ca_through ca) skip) | Inl (DlBlocked n) \<Rightarrow> Err (PBlockedDeadLetter skip n (Some ca))
      | Inl DlWriteFailed \<Rightarrow> Err (PTransient None skip CauseLocalWrite (Some ca)))"
    and E': "E' = (case y of Inr _ \<Rightarrow> count_committed (ca_committed ca) F | Inl _ \<Rightarrow> F)"
    using run d by (auto simp: settle_dl_carry_def split: sum.splits dead_letter_failure.splits)
  show "x = Err res \<Longrightarrow> (\<exists>n. res = PBlockedDeadLetter skip n (Some ca)) \<or> res = PTransient None skip CauseLocalWrite (Some ca)"
    using x by (auto split: sum.splits dead_letter_failure.splits)
  have paid: "settled ?c E \<lparr>ow_payloads = ca_payloads ca, ow_committed = ca_committed ca\<rparr> [] E' no_debt" if "y = Ok ()"
  proof -
    have "settled ?c E \<lparr>ow_payloads = ca_payloads ca, ow_committed = ca_committed ca\<rparr> [] F \<lparr>ow_payloads = [], ow_committed = ca_committed ca\<rparr>"
      using e that by simp
    from settled_trans [OF this settled_count [OF settled_wf [OF this]]] show ?thesis using that E' by simp
  qed
  show "\<exists>ow ow'. settled ?c E ow [] E' ow'"
  proof (cases y)
    case (Inr u)
    then show ?thesis using paid by auto
  next
    case (Inl k)
    then show ?thesis using e E' by auto
  qed
  assume k: "x = Ok k"
  then have y: "y = Ok ()" using x by (auto split: sum.splits dead_letter_failure.splits)
  have 1: "covered ?c E0 E' (take (ca_through ca) rs) []"
    using covered_step [OF _ paid [OF y]] c(1) by simp
  have 2: "covered ?c E0 E' (take skip rs) []"
    using covered_kept [OF c(2) settled_dl_kept [OF paid [OF y]]] settled_def [of ?c E] paid [OF y] by blast
  show "covered ?c E0 E' (take k rs) []" using 1 2 k x y by (simp add: max_def split: if_splits)
qed

lemma covered_settled: "covered crc E0 F rs pl \<Longrightarrow> settled crc F ow xs G ow' \<Longrightarrow> covered crc E0 G rs pl"
  using covered_kept [OF _ settled_dl_kept] unfolding settled_def by blast

text \<open>The result of an attempt is backed by deliveries.\<close>

definition backed :: "(bytes \<Rightarrow> u32) \<Rightarrow> delivery_env \<Rightarrow> bytes list \<Rightarrow> process_result \<Rightarrow> delivery_env \<Rightarrow> bool" where
  "backed crc E0 rs res E \<longleftrightarrow>
     (\<forall>n. res = Confirmed n \<longrightarrow> n = length rs) \<and>
     (\<forall>k ow. reported res = Some (k, ow) \<longrightarrow> covered crc E0 E (take k rs) (ow_payloads ow)) \<and>
     (\<forall>k. processed_of res = Some k \<longrightarrow> covered crc E0 E (take k rs) [])"

lemma process_backed:
  assumes pl: "in_place cfg p i E"
    and img: "sealed_image (crc_hash C) h f sts (w_data (de_world E) i)" "list_all2 (record_reads Z (hm_compression h)) sts rs" "length rs < 2 ^ 64"
    and c: "covered (crc_hash C) E0 E (take skip rs) []"
    and run: "process_segment_ctl C Z sha cfg mb p skip last_chance E = (res, E')"
  shows "backed (crc_hash C) E0 rs res E'"
proof (cases "\<exists>n. res = Confirmed n")
  case True
  then obtain n where n: "res = Confirmed n" by blast
  have "n = length rs \<and> settled (crc_hash C) E no_debt (drop skip rs) E' no_debt"
    by (rule confirmed_books [OF _ _ _ _ _ _ img run [unfolded n]]) (use pl in \<open>simp_all add: in_place_def\<close>)
  then show ?thesis using covered_step [of "crc_hash C" E0 E "take skip rs" no_debt "drop skip rs" E' no_debt] c
    by (simp add: backed_def n)
next
  case False
  have b: "skip \<le> k \<and> k \<le> max skip (length rs) \<and> settled_via (crc_hash C) E rs skip (processed_of res) k E' ow"
    if "reported res = Some (k, ow)" for k ow
    by (rule image_books(2) [OF _ _ _ _ img(1,2) run that]) (use pl False in \<open>auto simp: in_place_def\<close>)
  have "covered (crc_hash C) E0 E' (take k rs) (ow_payloads ow)" if "reported res = Some (k, ow)" for k ow
    using covered_take [OF c] b [OF that] settled_viaD by blast
  moreover have "covered (crc_hash C) E0 E' (take k rs) []" if k: "processed_of res = Some k" for k
  proof -
    have "\<exists>j ow. reported res = Some (j, ow)" using k by (cases res rule: reported.cases) simp_all
    then obtain F xs ow where "skip \<le> k" "settled (crc_hash C) E no_debt (slice skip k rs) F no_debt" "settled (crc_hash C) F no_debt xs E' ow"
      using b k unfolding settled_via_def by fastforce
    then show ?thesis using covered_settled covered_take [OF c, of k F no_debt] by simp
  qed
  ultimately show ?thesis using False by (simp add: backed_def)
qed

lemma tracked_idle:
  assumes t: "tracked crc cfg p i rs E0 K" and w: "w = (de_world (dc_env K))\<lparr>w_tick := n\<rparr>"
    and L: "map_of (lg_resume_from L) p \<in> {None, map_of (lg_resume_from (dc_ledger K)) p}"
      "map_of (lg_dl_carry L) p \<in> {None, map_of (lg_dl_carry (dc_ledger K)) p}"
  shows "tracked crc cfg p i rs E0 (K\<lparr>dc_ledger := L, dc_env := (dc_env K)\<lparr>de_world := w\<rparr>\<rparr>)"
    "proceeds crc i (dc_env K) ((dc_env K)\<lparr>de_world := w\<rparr>)"
proof -
  have pl: "in_place cfg p i (dc_env K)" using t by (simp add: tracked_def)
  show pr: "proceeds crc i (dc_env K) ((dc_env K)\<lparr>de_world := w\<rparr>)"
    by (rule proceeds_idle [of _ _ n]) (use pl w in \<open>simp_all add: in_place_def\<close>)
  have "in_place cfg p i ((dc_env K)\<lparr>de_world := w\<rparr>)"
    by (rule in_place_proceeds [OF pl pr]) (use pl w in \<open>simp add: in_place_def\<close>)
  then show "tracked crc cfg p i rs E0 (K\<lparr>dc_ledger := L, dc_env := (dc_env K)\<lparr>de_world := w\<rparr>\<rparr>)"
    using t proceeds_trans [OF _ pr] ledger_covered_proceeds [OF _ pr L] by (simp add: tracked_def)
qed

lemma file_kept_trans: "file_kept wab p i u r v \<Longrightarrow> file_kept wab p i v res w \<Longrightarrow> file_kept wab p i u res w"
  by (auto simp: file_kept_def)

text \<open>
  An attempt first checks its resume point and settles the carry; then it ends with the carry
  still owed, or goes on with \<open>process_segment_ctl\<close> from a covered place.
\<close>

lemma attempt_ledger:
  assumes "attempt_segment C Z sha cfg mb p skip now K = (res, K')"
  obtains s ca L w n where "(s = 0 \<or> s = skip)" "w = (de_world (dc_env K))\<lparr>w_tick := n\<rparr>" "dc_ledger K' = end_attempt L"
    "map_of (lg_resume_from L) p \<in> {None, map_of (lg_resume_from (dc_ledger K)) p}" "map_of (lg_dl_carry L) p = None"
    "\<forall>x. ca = Some x \<longrightarrow> (\<exists>pc. map_of (lg_dl_carry (dc_ledger K)) p = Some pc \<and> pc_carry pc = x \<and> w_entry (de_world (dc_env K)) p = Some (pc_ino pc))"
    "(case (case ca of None \<Rightarrow> (Ok s, (dc_env K)\<lparr>de_world := w\<rparr>) | Some x \<Rightarrow> settle_dl_carry C cfg s x ((dc_env K)\<lparr>de_world := w\<rparr>)) of
        (Inl r, F) \<Rightarrow> res = r \<and> dc_env K' = F
      | (Inr k, F) \<Rightarrow> process_segment_ctl C Z sha cfg mb p k (local_read_escalates_next p cfg L) F = (res, dc_env K'))"
proof -
  let ?E = "dc_env K" and ?L0 = "begin_attempt (dc_ledger K) p now"
  obtain s L1 w1 where 1: "checked_skip ?L0 p skip (de_world ?E) = (s, L1, w1)" by (metis prod_cases3)
  obtain ca L w where 2: "take_dl_carry L1 p w1 = (ca, L, w)" by (metis prod_cases3)
  note e1 = checked_skip_effect [OF 1] and e2 = take_dl_carry_effect [OF 2]
  obtain n where w: "w = (de_world ?E)\<lparr>w_tick := n\<rparr>" using e1(2) e2(1) by auto
  have ent: "w_entry w1 = w_entry (de_world ?E)" using e1(2) by auto
  show thesis
  proof (rule that [OF e1(1) w])
    show "map_of (lg_resume_from L) p \<in> {None, map_of (lg_resume_from (dc_ledger K)) p}" "map_of (lg_dl_carry L) p = None"
      using e1(4) e2(2,3) by (simp_all add: begin_attempt_def)
    show "\<forall>x. ca = Some x \<longrightarrow> (\<exists>pc. map_of (lg_dl_carry (dc_ledger K)) p = Some pc \<and> pc_carry pc = x \<and> w_entry (de_world ?E) p = Some (pc_ino pc))"
      using e2(4) e1(3) ent by (simp add: begin_attempt_def)
  qed (use assms 1 2 in \<open>auto simp: attempt_segment_def Let_def split: prod.splits sum.splits\<close>)
qed

lemma attempt_start:
  assumes t: "tracked (crc_hash C) cfg p i rs E0 K" and c: "covered (crc_hash C) E0 (dc_env K) (take skip rs) []"
    and run: "attempt_segment C Z sha cfg mb p skip now K = (res, K')"
  obtains y F where "in_place cfg p i F" "proceeds (crc_hash C) i (dc_env K) F"
      "\<And>r. file_kept (cfg_wab_dir cfg) p i (de_world (dc_env K)) r (de_world F)"
      "y = Inl res \<and> dc_env K' = F \<and> backed (crc_hash C) E0 rs res F \<or>
       (\<exists>k lc. y = Inr k \<and> covered (crc_hash C) E0 F (take k rs) [] \<and> process_segment_ctl C Z sha cfg mb p k lc F = (res, dc_env K'))"
  using run
proof (cases rule: attempt_ledger)
  case (1 s ca L w n)
  let ?c = "crc_hash C" and ?F = "(dc_env K)\<lparr>de_world := w\<rparr>"
  note tk = tracked_idle [OF t 1(2), of L]
  have tF: "tracked ?c cfg p i rs E0 (K\<lparr>dc_ledger := L, dc_env := ?F\<rparr>)" and pr: "proceeds ?c i (dc_env K) ?F" using tk 1(4,5) by simp_all
  have pl: "in_place cfg p i ?F" using tF by (simp add: tracked_def)
  have wf: "env_wf ?F" using pl by (simp add: in_place_def)
  have cs: "covered ?c E0 ?F (take s rs) []"
    using 1(1) covered_proceeds [OF c pr] covered_none [of ?c i E0 ?F] tF by (auto simp: tracked_def)
  have carry: "covered ?c E0 ?F (take (ca_through x) rs) (ca_payloads x)" if "ca = Some x" for x
  proof -
    have "covered ?c E0 (dc_env K) (take (ca_through x) rs) (ca_payloads x)"
      using t 1(6) that by (auto simp: tracked_def ledger_covered_def in_place_def)
    then show ?thesis by (rule covered_proceeds [OF _ pr])
  qed
  obtain y F where s: "(case ca of None \<Rightarrow> (Ok s, ?F) | Some x \<Rightarrow> settle_dl_carry C cfg s x ?F) = (y, F)" by fastforce
  have sF: "\<exists>ow ow'. settled ?c ?F ow [] F ow'" and yk: "\<And>k. y = Inr k \<Longrightarrow> covered ?c E0 F (take k rs) []"
    using s settled_refl [OF wf] cs settle_dl_carry_effect(1,2) [OF wf _ carry cs] by (cases ca; auto)+
  have pF: "proceeds ?c i ?F F" using settled_proceeds sF pl by (auto simp: in_place_def)
  have yr: "backed ?c E0 rs r F" if y: "y = Inl r" for r
  proof -
    obtain x where x: "ca = Some x" using s y by (cases ca) auto
    then show ?thesis using settle_dl_carry_effect(3) [OF wf _ carry [OF x] cs, of cfg y F r] s y
        covered_proceeds [OF carry [OF x] pF] covered_proceeds [OF cs pF] by (auto simp: backed_def)
  qed
  show thesis
  proof (rule that [of F y])
    show "in_place cfg p i F"
      by (rule in_place_proceeds [OF pl pF]) (use sF settled_keeps(1) [of ?c ?F _ _ F _ p] pl in \<open>auto simp: in_place_def\<close>)
    show "proceeds ?c i (dc_env K) F" by (rule proceeds_trans [OF pr pF])
    show "file_kept (cfg_wab_dir cfg) p i (de_world (dc_env K)) r (de_world F)" for r
      using sF settled_file_kept [of ?c ?F _ _ F _ p i] pl 1(2) by (auto simp: in_place_def file_kept_def)
  qed (use s 1(7) yr yk in \<open>cases y; auto\<close>)
qed

lemma attempt_effect:
  assumes t: "tracked (crc_hash C) cfg p i rs E0 K"
    and img: "sealed_image (crc_hash C) h f sts (w_data (de_world E0) i)" "list_all2 (record_reads Z (hm_compression h)) sts rs" "length rs < 2 ^ 64"
    and c: "covered (crc_hash C) E0 (dc_env K) (take skip rs) []"
    and run: "attempt_segment C Z sha cfg mb p skip now K = (res, K')"
  shows "proceeds (crc_hash C) i (dc_env K) (dc_env K') \<and> backed (crc_hash C) E0 rs res (dc_env K') \<and>
    file_kept (cfg_wab_dir cfg) p i (de_world (dc_env K)) res (de_world (dc_env K'))"
  using t c run
proof (cases rule: attempt_start)
  case (1 y F)
  from 1(4) show ?thesis
  proof (elim disjE conjE exE)
    assume "dc_env K' = F" "backed (crc_hash C) E0 rs res F"
    then show ?thesis using 1(2,3) by simp
  next
    fix k lc assume k: "covered (crc_hash C) E0 F (take k rs) []" and pr: "process_segment_ctl C Z sha cfg mb p k lc F = (res, dc_env K')"
    have dat: "w_data (de_world F) i = w_data (de_world E0) i" using t 1(2) by (simp add: tracked_def proceeds_def)
    have "proceeds (crc_hash C) i F (dc_env K')" by (rule process_proceeds [OF _ _ _ _ _ pr]) (use 1(1) in \<open>simp_all add: in_place_def\<close>)
    moreover have "backed (crc_hash C) E0 rs res (dc_env K')" by (rule process_backed [OF 1(1) _ img(2,3) k pr]) (use img(1) dat in simp)
    moreover have "file_kept (cfg_wab_dir cfg) p i (de_world F) res (de_world (dc_env K'))"
      by (rule attempt_keeps(1) [OF _ _ _ _ _ pr]) (use 1(1) in \<open>simp_all add: in_place_def\<close>)
    ultimately show ?thesis using proceeds_trans [OF 1(2)] file_kept_trans [OF 1(3)] by blast
  qed
qed

lemma attempt_maps:
  assumes "attempt_segment C Z sha cfg mb p skip now K = (res, K')"
  shows "map_of (lg_resume_from (dc_ledger K')) p \<in> {None, map_of (lg_resume_from (dc_ledger K)) p}" "map_of (lg_dl_carry (dc_ledger K')) p = None"
  using assms by (cases rule: attempt_ledger, simp add: end_attempt_def)+

lemma tracked_step:
  assumes t: "tracked crc cfg p i rs E0 K" and pr: "proceeds crc i (dc_env K) (dc_env K')"
    and e: "w_entry (de_world (dc_env K')) p = Some i" and l: "ledger_covered crc E0 rs p i (dc_env K') (dc_ledger K')"
  shows "tracked crc cfg p i rs E0 K'"
  using t in_place_proceeds [OF _ pr e] proceeds_trans [OF _ pr] l by (simp add: tracked_def)

lemma tracked_same:
  assumes t: "tracked crc cfg p i rs E0 K" and pr: "proceeds crc i (dc_env K) (dc_env K')"
    and e: "w_entry (de_world (dc_env K')) p = Some i"
    and L: "map_of (lg_resume_from (dc_ledger K')) p \<in> {None, map_of (lg_resume_from (dc_ledger K)) p}"
      "map_of (lg_dl_carry (dc_ledger K')) p \<in> {None, map_of (lg_dl_carry (dc_ledger K)) p}"
  shows "tracked crc cfg p i rs E0 K'"
  by (rule tracked_step [OF t pr e]) (use ledger_covered_proceeds [OF _ pr L] t in \<open>simp add: tracked_def\<close>)

lemma tracked_proceeds_refl: "tracked crc cfg p i rs E0 K \<Longrightarrow> proceeds crc i (dc_env K) (dc_env K)"
  by (simp add: tracked_def in_place_def proceeds_refl)

lemma tracked_entry: "tracked crc cfg p i rs E0 K \<Longrightarrow> w_entry (de_world (dc_env K)) p = Some i"
  by (simp add: tracked_def in_place_def)

lemma with_ledger_tracked:
  assumes t: "tracked crc cfg p i rs E0 K" and run: "f (dc_ledger K) (de_world (dc_env K)) = (L, (de_world (dc_env K))\<lparr>w_tick := n\<rparr>)"
    and l: "ledger_covered crc E0 rs p i (dc_env K) L"
  shows "tracked crc cfg p i rs E0 (with_ledger f K)" "proceeds crc i (dc_env K) (dc_env (with_ledger f K))"
proof -
  have K': "with_ledger f K = K\<lparr>dc_ledger := L, dc_env := (dc_env K)\<lparr>de_world := (de_world (dc_env K))\<lparr>w_tick := n\<rparr>\<rparr>\<rparr>"
    using run by (simp add: with_ledger_def)
  show pr: "proceeds crc i (dc_env K) (dc_env (with_ledger f K))"
    by (rule proceeds_idle [of _ _ n]) (use t in \<open>simp_all add: K' tracked_def in_place_def\<close>)
  show "tracked crc cfg p i rs E0 (with_ledger f K)"
    by (rule tracked_step [OF t pr]) (use tracked_entry [OF t] ledger_covered_proceeds [OF l pr, of L] in \<open>simp_all add: K'\<close>)
qed

lemma progress_tracked:
  assumes t: "tracked crc cfg p i rs E0 K" and c: "covered crc E0 (dc_env K) (take k rs) []"
  shows "tracked crc cfg p i rs E0 (with_ledger (\<lambda>L w. record_progress L p k w) K)"
    "proceeds crc i (dc_env K) (dc_env (with_ledger (\<lambda>L w. record_progress L p k w) K))"
proof -
  obtain L w where r: "record_progress (dc_ledger K) p k (de_world (dc_env K)) = (L, w)" by fastforce
  note e = record_progress_effect [OF r]
  obtain n where w: "w = (de_world (dc_env K))\<lparr>w_tick := n\<rparr>" using e(1) by blast
  have l: "ledger_covered crc E0 rs p i (dc_env K) L"
    using t c e(2,3) unfolding tracked_def ledger_covered_def by auto
  show "tracked crc cfg p i rs E0 (with_ledger (\<lambda>L w. record_progress L p k w) K)"
    "proceeds crc i (dc_env K) (dc_env (with_ledger (\<lambda>L w. record_progress L p k w) K))"
    by (rule with_ledger_tracked [OF t _ l, of _ n]; simp add: r w)+
qed

lemma store_tracked:
  assumes t: "tracked crc cfg p i rs E0 K"
    and c: "\<forall>c. carry = Some c \<longrightarrow> covered crc E0 (dc_env K) (take (ca_through c) rs) (ca_payloads c)"
  shows "tracked crc cfg p i rs E0 (store_dl_carry p carry K)" "proceeds crc i (dc_env K) (dc_env (store_dl_carry p carry K))"
proof -
  have "tracked crc cfg p i rs E0 (store_dl_carry p carry K) \<and> proceeds crc i (dc_env K) (dc_env (store_dl_carry p carry K))"
  proof (cases carry)
    case None
    then show ?thesis using t tracked_proceeds_refl [OF t] by (simp add: store_dl_carry_def)
  next
    case (Some ca)
    obtain b L w where r: "set_dl_carry (dc_ledger K) p ca (de_world (dc_env K)) = (b, L, w)" by (metis prod_cases3)
    note e = set_dl_carry_effect [OF r]
    obtain n where w: "w = (de_world (dc_env K))\<lparr>w_tick := n\<rparr>" using e(1) by blast
    have l: "ledger_covered crc E0 rs p i (dc_env K) L"
      using t c e(2,3) Some unfolding tracked_def ledger_covered_def by auto
    have "tracked crc cfg p i rs E0 (with_ledger (\<lambda>L w. case set_dl_carry L p ca w of (_, L, w) \<Rightarrow> (L, w)) K)"
      "proceeds crc i (dc_env K) (dc_env (with_ledger (\<lambda>L w. case set_dl_carry L p ca w of (_, L, w) \<Rightarrow> (L, w)) K))"
      by (rule with_ledger_tracked [OF t _ l, of _ n]; simp add: r w)+
    then show ?thesis by (simp add: store_dl_carry_def Some id_def)
  qed
  then show "tracked crc cfg p i rs E0 (store_dl_carry p carry K)" "proceeds crc i (dc_env K) (dc_env (store_dl_carry p carry K))" by simp_all
qed

lemma note_local_read_maps:
  "note_local_read_failure L p cls now = (n, L') \<Longrightarrow> lg_resume_from L' = lg_resume_from L \<and> lg_dl_carry L' = lg_dl_carry L"
  by (auto simp: note_local_read_failure_def Let_def split: if_splits)

lemma forget_maps [simp]:
  "map_of (lg_resume_from (ledger_forget L p)) p = None" "map_of (lg_dl_carry (ledger_forget L p)) p = None"
  "map_of (lg_resume_from (ledger_park L p why)) p = None" "map_of (lg_dl_carry (ledger_park L p why)) p = None"
  "map_of (lg_resume_from (note_quarantine_pending L p reason)) p = None" "map_of (lg_dl_carry (note_quarantine_pending L p reason)) p = None"
  by (simp_all add: ledger_forget_def ledger_park_def note_quarantine_pending_def)

lemma block_episode_simps [simp]: "dc_env (end_block_episode K) = dc_env K" "dc_ledger (end_block_episode K) = dc_ledger K"
  by (simp_all add: end_block_episode_def)

lemma escalate_tracked:
  assumes t: "tracked crc cfg p i rs E0 K" and run: "escalate_local_read cfg p cls now K = (x, K')"
    and e: "w_entry (de_world (dc_env K')) p = Some i"
  shows "tracked crc cfg p i rs E0 K'" "x = None \<or> x = Some Draining" "proceeds crc i (dc_env K) (dc_env K')"
proof -
  obtain n L where nl: "note_local_read_failure (dc_ledger K) p cls now = (n, L)" by fastforce
  note m = note_local_read_maps [OF nl]
  obtain b F where q: "quarantine_segment p cfg (dc_env K) = (b, F)" by fastforce
  have pq: "proceeds crc i (dc_env K) F"
    by (rule quarantine_proceeds [OF _ _ _ q]) (use t in \<open>simp_all add: tracked_def in_place_def\<close>)
  have K': "(dc_env K' = dc_env K \<or> dc_env K' = F) \<and>
      (lg_resume_from (dc_ledger K') = lg_resume_from L \<and> lg_dl_carry (dc_ledger K') = lg_dl_carry L \<or>
       map_of (lg_resume_from (dc_ledger K')) p = None \<and> map_of (lg_dl_carry (dc_ledger K')) p = None)"
    and x: "x = None \<or> x = Some Draining"
    using run nl q by (auto simp: escalate_local_read_def Let_def split: if_splits err_class.splits)
  show pr: "proceeds crc i (dc_env K) (dc_env K')" using K' pq tracked_proceeds_refl [OF t] by auto
  show "tracked crc cfg p i rs E0 K'" by (rule tracked_same [OF t pr e]) (use K' m in auto)
  show "x = None \<or> x = Some Draining" by (rule x)
qed

lemma escalate_none: "escalate_local_read cfg p cls now K = (None, K') \<Longrightarrow> dc_env K' = dc_env K"
  by (auto simp: escalate_local_read_def Let_def split: if_splits err_class.splits prod.splits)

lemma record_and_store:
  assumes t: "tracked crc cfg p i rs E0 K" and c: "covered crc E0 (dc_env K) (take k rs) []"
    and ca: "\<forall>c. carry = Some c \<longrightarrow> covered crc E0 (dc_env K) (take (ca_through c) rs) (ca_payloads c)"
  defines "K' \<equiv> store_dl_carry p carry (with_ledger (\<lambda>L w. record_progress L p k w) K)"
  shows "tracked crc cfg p i rs E0 K'" "covered crc E0 (dc_env K') (take k rs) []"
proof -
  note r = progress_tracked [OF t c]
  note s = store_tracked [OF r(1), of carry]
  show "tracked crc cfg p i rs E0 K'" unfolding K'_def by (rule s(1)) (use ca covered_proceeds [OF _ r(2)] in blast)
  have "proceeds crc i (dc_env (with_ledger (\<lambda>L w. record_progress L p k w) K)) (dc_env K')"
    unfolding K'_def by (rule s(2)) (use ca covered_proceeds [OF _ r(2)] in blast)
  then show "covered crc E0 (dc_env K') (take k rs) []" using covered_proceeds [OF covered_proceeds [OF c r(2)]] by blast
qed

lemma enter_blocked_tracked:
  assumes t: "tracked crc cfg p i rs E0 K" and c: "covered crc E0 (dc_env K) (take k rs) []"
    and run: "enter_blocked p k needed now K = (st, K')"
  shows "tracked crc cfg p i rs E0 K' \<and> state_covered crc E0 rs p (dc_env K') st"
proof -
  have m: "proceeds crc i (dc_env K) ((dc_env K)\<lparr>de_metrics := m\<rparr>)" for m
    by (rule proceeds_idle [of _ _ "w_tick (de_world (dc_env K))"]) (use t in \<open>simp_all add: tracked_def in_place_def\<close>)
  have pr: "proceeds crc i (dc_env K) (dc_env K')" and L: "dc_ledger K' = dc_ledger K"
    and st: "\<exists>s. st = BlockedDeadLetterFull p s k needed" and e: "w_entry (de_world (dc_env K')) p = Some i"
    using run m tracked_proceeds_refl [OF t] tracked_entry [OF t] by (auto simp: enter_blocked_def Let_def split: option.splits)
  have "tracked crc cfg p i rs E0 K'" by (rule tracked_same [OF t pr e]) (simp_all add: L)
  then show ?thesis using covered_proceeds [OF c pr] st by (auto simp: state_covered_def)
qed

lemma next_state_tracked:
  assumes t: "tracked crc cfg p i rs E0 K" and b: "backed crc E0 rs res (dc_env K)"
    and run: "next_state_after_process C cfg p res resume now on_transient K = (st, K')"
    and nc: "\<forall>n. res \<noteq> Confirmed n" and e: "w_entry (de_world (dc_env K')) p = Some i"
    and on: "\<And>ra k cause E. covered crc E0 E (take k rs) [] \<Longrightarrow> state_covered crc E0 rs p E (on_transient ra k cause)"
  shows "tracked crc cfg p i rs E0 K' \<and> state_covered crc E0 rs p (dc_env K') st"
proof (cases res)
  case (Confirmed n)
  then show ?thesis using nc by simp
next
  case (PTransient ra k cause carry)
  have c: "covered crc E0 (dc_env K) (take k rs) []" using b by (simp add: backed_def PTransient)
  have ca: "\<forall>c. carry = Some c \<longrightarrow> covered crc E0 (dc_env K) (take (ca_through c) rs) (ca_payloads c)"
    using b by (auto simp: backed_def PTransient)
  obtain x K1 where x: "(case cause of CauseLocalRead cls _ \<Rightarrow> escalate_local_read cfg p cls now K | _ \<Rightarrow> (None, K)) = (x, K1)" by fastforce
  show ?thesis
  proof (cases x)
    case (Some st1)
    then obtain cls where es: "escalate_local_read cfg p cls now K = (x, K1)" using x by (auto split: transient_cause.splits)
    have K': "K' = K1" "st = st1" using run x Some by (auto simp: next_state_after_process_def PTransient)
    show ?thesis using escalate_tracked(1,2) [OF t es] e Some by (simp add: K' state_covered_def)
  next
    case None
    then have env: "dc_env K1 = dc_env K" using x escalate_none by (auto split: transient_cause.splits)
    have "x = None \<and> K1 = K \<or> (\<exists>cls. escalate_local_read cfg p cls now K = (x, K1))" using x by (auto split: transient_cause.splits)
    then have t1: "tracked crc cfg p i rs E0 K1" using escalate_tracked(1) [OF t] t env tracked_entry [OF t] by auto
    have K': "K' = store_dl_carry p carry (with_ledger (\<lambda>L w. record_progress L p k w) K1)" and st: "st = on_transient ra k cause"
      using run x None by (auto simp: next_state_after_process_def PTransient)
    show ?thesis using record_and_store [OF t1, of k carry] c ca on by (simp add: K' st env)
  qed
next
  case (PBlockedDeadLetter k needed carry)
  have c: "covered crc E0 (dc_env K) (take k rs) []" using b by (simp add: backed_def PBlockedDeadLetter)
  have ca: "\<forall>c. carry = Some c \<longrightarrow> covered crc E0 (dc_env K) (take (ca_through c) rs) (ca_payloads c)"
    using b by (auto simp: backed_def PBlockedDeadLetter)
  note r = record_and_store [OF t c ca]
  show ?thesis by (rule enter_blocked_tracked [OF r]) (use run in \<open>simp add: next_state_after_process_def PBlockedDeadLetter\<close>)
next
  case (PPaused k)
  have c: "covered crc E0 (dc_env K) (take k rs) []" using b by (simp add: backed_def PPaused)
  show ?thesis using progress_tracked [OF t c] covered_proceeds [OF c] run
    by (auto simp: next_state_after_process_def PPaused state_covered_def)
next
  case (PAbandoned k)
  have c: "covered crc E0 (dc_env K) (take k rs) []" using b by (simp add: backed_def PAbandoned)
  show ?thesis using progress_tracked [OF t c] covered_proceeds [OF c] run
    by (auto simp: next_state_after_process_def PAbandoned state_covered_def)
qed (use run tracked_same [OF t, of K'] tracked_proceeds_refl [OF t] tracked_entry [OF t] in
    \<open>auto simp: next_state_after_process_def state_covered_def\<close>)

lemma rescan_step: "dl_wf D w \<Longrightarrow> dl_rescan D w = (x, D', w') \<Longrightarrow> dl_step D w D' w'"
proof -
  assume wf: "dl_wf D w" and run: "dl_rescan D w = (x, D', w')"
  have rd: "fs_read_dir d v = (y, u) \<Longrightarrow> u = io_tick v" for d v y u
    by (auto simp: fs_read_dir_def io_step_tick split: io_outcome.splits)
  have sc: "\<exists>n. u = w\<lparr>w_tick := n\<rparr>" if "scan_dir (dl_dir D) w = (y, u)" for y u
  proof -
    obtain z v where r: "fs_read_dir (dl_dir D) w = (z, v)" by fastforce
    then have v: "v = io_tick w" by (rule rd)
    show ?thesis
    proof (cases z)
      case (Inl k)
      then show ?thesis using that r v by (auto simp: scan_dir_def io_tick_def)
    next
      case (Inr es)
      then have "scan_entries es 0 0 v = (y, u)" using that r by (simp add: scan_dir_def)
      from scan_entries_effect [OF this] show ?thesis by (auto simp: v io_tick_def)
    qed
  qed
  obtain y u where s: "scan_dir (dl_dir D) w = (y, u)" by fastforce
  obtain n where u: "u = w\<lparr>w_tick := n\<rparr>" using sc [OF s] by blast
  have idle: "dl_wab_dir D1 = dl_wab_dir D \<Longrightarrow> dl_next_counter D1 = dl_next_counter D \<Longrightarrow> dl_step D w D1 u" for D1
    unfolding u by (rule dl_step_idle [OF wf])
  have wfu: "dl_wf D u" using wf by (simp add: u dl_wf_idle)
  obtain b v where m: "dir_is_missing u = (b, v)" by fastforce
  have st: "dl_step D w D v" by (rule dl_step_trans [OF idle dir_is_missing_step [OF wfu m]]) simp_all
  then have "dl_wf D v" by (simp add: dl_step_def)
  then have "recreate_dir D v = (x, D', w') \<Longrightarrow> dl_step D w D' w'" using recreate_step(1) dl_step_trans [OF st] by blast
  then show ?thesis using run s m idle st by (auto simp: dl_rescan_def split: sum.splits if_splits prod.splits bool.splits)
qed

lemma fst_sidecar: "fst (confirmed_path p) = fst p" "fst (confirmed_tmp_path (confirmed_path p)) = fst p"
  by (simp_all add: confirmed_path_def confirmed_tmp_path_def)

lemma side_step_proceeds:
  assumes pl: "in_place cfg p i E" and nm: "sealed_name p" and priv: "tmp_private (confirmed_tmp_path (confirmed_path p)) (de_world E)"
    and st: "side_step (confirmed_tmp_path (confirmed_path p)) (confirmed_path p) bs (de_world E) w"
  shows "proceeds crc i E (E\<lparr>de_world := w, de_metrics := m\<rparr>)"
proof -
  let ?t = "confirmed_tmp_path (confirmed_path p)" and ?w = "de_world E" and ?D = "de_dead_letter E"
  have wf: "dl_wf ?D ?w" and d: "fst p \<noteq> dl_dir ?D" and i: "w_entry ?w p = Some i" "i < w_next ?w" using pl by (simp_all add: in_place_def)
  have pre: "prefix (w_disk ?w j) (w_data ?w j)" for j using wf by (simp add: dl_wf_def world_wf_def)
  have own: "w_entry ?w ?t = Some j \<Longrightarrow> w_entry ?w q = Some j \<or> w_ddir ?w q = Some j \<Longrightarrow> q = ?t" for q j
    using priv unfolding tmp_private_def by blast
  have nt: "q \<noteq> ?t" "q \<noteq> confirmed_path p" "fst q \<noteq> fst (confirmed_path p)" if "fst q = dl_dir ?D" for q
    using that d fst_sidecar [of p] by auto
  have keep: "w_data w j = w_data ?w j \<and> w_disk w j = w_disk ?w j" if "j < w_next ?w" "w_entry ?w ?t \<noteq> Some j" for j
    using st that unfolding side_step_def by blast
  have dd: "w_disk w j = w_disk ?w j" if "fst q = dl_dir ?D" "w_ddir ?w q = Some j" for q j
  proof -
    have "j < w_next ?w" using priv that(2) unfolding tmp_private_def by blast
    moreover have "w_entry ?w ?t \<noteq> Some j" using own [of j q] that nt(1) [OF that(1)] by blast
    ultimately show ?thesis using keep by blast
  qed
  have fr: "dl_wf ?D w" "fst q = dl_dir ?D \<Longrightarrow> stable_records crc w q = stable_records crc ?w q" for q
    by (rule dl_frame [OF wf]; use st nt pre dd in \<open>auto simp: side_step_def\<close>)+
  have "w_data w i = w_data ?w i" using keep [OF i(2)] own [of i p] i(1) sidecar_apart(2) [OF nm] by auto
  then show ?thesis using fr st by (simp add: proceeds_def dl_kept_def side_step_def)
qed

lemma confirm_proceeds:
  assumes pl: "in_place cfg p i E" and nm: "sealed_name p" and priv: "tmp_private (confirmed_tmp_path (confirmed_path p)) (de_world E)"
    and run: "confirm_and_delete crc' p n (de_world E) m = (out, w, m')"
  shows "proceeds crc i E (E\<lparr>de_world := w, de_metrics := m'\<rparr>)"
proof -
  have wf: "env_wf E" using pl by (simp add: in_place_def)
  have wr: "proceeds crc i E (E\<lparr>de_world := v, de_metrics := k\<rparr>)" if w: "write_confirmed_file crc' p n (io_tick (de_world E)) = (y, v)" for y v k
  proof -
    obtain s d where "side_step (confirmed_tmp_path (confirmed_path p)) (confirmed_path p) (build_confirmed crc' s n d) (de_world E) v"
      using write_confirmed_file_effect(1) [OF w] priv by auto
    then show ?thesis by (rule side_step_proceeds [OF pl nm priv])
  qed
  from run show ?thesis
  proof (cases rule: confirm_cases)
    case absent
    then show ?thesis by (intro proceeds_idle [OF wf, of _ "w_tick (io_tick (de_world E))"]) (simp_all add: io_tick_def)
  next
    case (failed k)
    then show ?thesis using wr by blast
  next
    case (written v)
    let ?F = "E\<lparr>de_world := v, de_metrics := m'\<rparr>"
    have p1: "proceeds crc i E ?F" by (rule wr [OF written(1)])
    have wfF: "dl_wf (de_dead_letter E) v" using p1 by (simp add: proceeds_def dl_kept_def)
    have pre: "prefix (w_disk v j) (w_data v j)" for j using wfF by (simp add: dl_wf_def world_wf_def)
    have d: "fst p \<noteq> dl_dir (de_dead_letter E)" using pl by (simp add: in_place_def)
    have fr: "dl_wf (de_dead_letter E) ((io_tick v)\<lparr>w_dir := AList.delete p (w_dir v)\<rparr>)"
      "fst q = dl_dir (de_dead_letter E) \<Longrightarrow> stable_records crc ((io_tick v)\<lparr>w_dir := AList.delete p (w_dir v)\<rparr>) q = stable_records crc v q" for q
      by (rule dl_frame [OF wfF]; use d pre in \<open>auto simp: w_entry_def delete_conv'\<close>)+
    have "proceeds crc i ?F (E\<lparr>de_world := io_tick v, de_metrics := m'\<rparr>)"
      by (rule proceeds_idle [of _ _ "w_tick (io_tick v)"]) (use wfF in \<open>simp_all add: io_tick_def\<close>)
    moreover have "proceeds crc i ?F (E\<lparr>de_world := (io_tick v)\<lparr>w_dir := AList.delete p (w_dir v)\<rparr>, de_metrics := m'\<rparr>)"
      using fr by (simp add: proceeds_def dl_kept_def)
    ultimately show ?thesis using delete_confirmed_effect [OF written(3)] proceeds_trans [OF p1] by auto
  qed
qed

section \<open>Runs of the drain, seen from one segment\<close>

text \<open>
  One attempt at \<open>p\<close>: from \<open>Draining\<close>, after its admission, or as a retry.  \<open>K1\<close> is the core between
  the attempt and the transition, which confirms and deletes.
\<close>

inductive attempts ::
  "'h crc_ops \<Rightarrow> zstd_ops \<Rightarrow> (bytes \<Rightarrow> bytes) \<Rightarrow> drain_config \<Rightarrow> nat \<Rightarrow> path \<Rightarrow> drain_state \<Rightarrow> drain_core \<Rightarrow>
   process_result \<Rightarrow> drain_core \<Rightarrow> drain_state \<Rightarrow> drain_core \<Rightarrow> bool"
  for C Z sha cfg mb p
where
  admitted: "ledger_admit (dc_ledger K) p now (de_world (dc_env K)) = (AdmitProcess skip, L, w) \<Longrightarrow>
     attempt_segment C Z sha cfg mb p skip started (K\<lparr>dc_ledger := L, dc_env := (dc_env K)\<lparr>de_world := w\<rparr>\<rparr>) = (res, K1) \<Longrightarrow>
     transition_from_draining C cfg p res ended K1 = (st', K') \<Longrightarrow>
     attempts C Z sha cfg mb p Draining K res K1 st' K'"
| retried: "0 < left \<Longrightarrow>
     attempt_segment C Z sha cfg mb p k started K = (res, K1) \<Longrightarrow>
     retry_segment C Z sha cfg mb p left delay k cause bc started ended K = (st', K') \<Longrightarrow>
     attempts C Z sha cfg mb p (RetryingTransient p left delay k cause bc waited) K res K1 st' K'"

text \<open>What the rest of the daemon, and the drain at other segments, may do between the steps for \<open>p\<close>.\<close>

definition leaves_alone :: "(bytes \<Rightarrow> u32) \<Rightarrow> path \<Rightarrow> nat \<Rightarrow> drain_core \<Rightarrow> drain_core \<Rightarrow> bool" where
  "leaves_alone crc p i K K' \<longleftrightarrow> proceeds crc i (dc_env K) (dc_env K') \<and>
     w_entry (de_world (dc_env K')) p = w_entry (de_world (dc_env K)) p \<and>
     map_of (lg_resume_from (dc_ledger K')) p \<in> {None, map_of (lg_resume_from (dc_ledger K)) p} \<and>
     map_of (lg_dl_carry (dc_ledger K')) p \<in> {None, map_of (lg_dl_carry (dc_ledger K)) p}"

fun state_segment :: "drain_state \<Rightarrow> path option" where
  "state_segment Draining = None"
| "state_segment (RetryingTransient p _ _ _ _ _ _) = Some p"
| "state_segment (Held p _ _) = Some p"
| "state_segment (StateAbandoned p _) = Some p"
| "state_segment (BlockedDeadLetterFull p _ _ _) = Some p"

text \<open>
  The states and cores that a run from \<open>K0\<close> can reach while \<open>p\<close> has its file \<open>i\<close> in place and no attempt
  at it was confirmed.
\<close>

inductive drains ::
  "'h crc_ops \<Rightarrow> zstd_ops \<Rightarrow> (bytes \<Rightarrow> bytes) \<Rightarrow> drain_config \<Rightarrow> nat \<Rightarrow> path \<Rightarrow> nat \<Rightarrow> drain_core \<Rightarrow> drain_state \<Rightarrow> drain_core \<Rightarrow> bool"
  for C Z sha cfg mb p i K0
where
  start: "drains C Z sha cfg mb p i K0 Draining K0"
| attempt: "drains C Z sha cfg mb p i K0 st K \<Longrightarrow> attempts C Z sha cfg mb p st K res K1 st' K' \<Longrightarrow>
     \<forall>n. res \<noteq> Confirmed n \<Longrightarrow> w_entry (de_world (dc_env K')) p = Some i \<Longrightarrow> drains C Z sha cfg mb p i K0 st' K'"
| strand: "drains C Z sha cfg mb p i K0 (RetryingTransient p 0 delay k cause bc waited) K \<Longrightarrow>
     strand_segment p delay cause now K = (st', K') \<Longrightarrow> drains C Z sha cfg mb p i K0 st' K'"
| blocked: "drains C Z sha cfg mb p i K0 (BlockedDeadLetterFull p since k needed) K \<Longrightarrow>
     check_blocked cfg p since k needed stop deadline (rescan_blocked K) = Inr st' \<Longrightarrow> drains C Z sha cfg mb p i K0 st' (rescan_blocked K)"
| resumed: "drains C Z sha cfg mb p i K0 (Held p k resume) K \<Longrightarrow> drains C Z sha cfg mb p i K0 (resume_held p k resume) K"
| elsewhere: "drains C Z sha cfg mb p i K0 st K \<Longrightarrow> leaves_alone (crc_hash C) p i K K' \<Longrightarrow>
     st' = st \<or> state_segment st \<noteq> Some p \<and> state_segment st' \<noteq> Some p \<Longrightarrow> drains C Z sha cfg mb p i K0 st' K'"

lemma attempts_effect:
  assumes t: "tracked (crc_hash C) cfg p i rs E0 K" and s: "state_covered (crc_hash C) E0 rs p (dc_env K) st"
    and img: "sealed_image (crc_hash C) h f sts (w_data (de_world E0) i)" "list_all2 (record_reads Z (hm_compression h)) sts rs" "length rs < 2 ^ 64"
    and run: "attempts C Z sha cfg mb p st K res K1 st' K'"
  obtains resume ended on_transient where
    "next_state_after_process C cfg p res resume ended on_transient K1 = (st', K')"
    "\<And>ra k cause E. covered (crc_hash C) E0 E (take k rs) [] \<Longrightarrow> state_covered (crc_hash C) E0 rs p E (on_transient ra k cause)"
    "proceeds (crc_hash C) i (dc_env K) (dc_env K1)" "backed (crc_hash C) E0 rs res (dc_env K1)"
    "w_entry (de_world (dc_env K1)) p = Some i \<Longrightarrow> tracked (crc_hash C) cfg p i rs E0 K1"
    "file_kept (cfg_wab_dir cfg) p i (de_world (dc_env K)) res (de_world (dc_env K1))"
  using run
proof cases
  case (admitted now skip L w started ended)
  note a = ledger_admit_effect [OF admitted(2)]
  let ?K = "K\<lparr>dc_ledger := L, dc_env := (dc_env K)\<lparr>de_world := w\<rparr>\<rparr>"
  obtain n where w: "w = (de_world (dc_env K))\<lparr>w_tick := n\<rparr>" using a(1) by blast
  note tk = tracked_idle [OF t w, of L]
  have t': "tracked (crc_hash C) cfg p i rs E0 ?K" and pr: "proceeds (crc_hash C) i (dc_env K) (dc_env ?K)"
    using tk a(2,3) by simp_all
  have c: "covered (crc_hash C) E0 (dc_env ?K) (take skip rs) []"
  proof (cases "skip = 0")
    case True
    then show ?thesis using covered_none [of "crc_hash C" i E0 "dc_env ?K"] t' by (simp add: tracked_def)
  next
    case False
    then have "covered (crc_hash C) E0 (dc_env K) (take skip rs) []"
      using a(4) t tracked_entry [OF t] by (auto simp: tracked_def ledger_covered_def)
    then show ?thesis by (rule covered_proceeds [OF _ pr])
  qed
  have e: "proceeds (crc_hash C) i (dc_env ?K) (dc_env K1)" "backed (crc_hash C) E0 rs res (dc_env K1)"
    "file_kept (cfg_wab_dir cfg) p i (de_world (dc_env ?K)) res (de_world (dc_env K1))"
    using attempt_effect [OF t' img c admitted(3)] by blast+
  note m = attempt_maps [OF admitted(3)]
  show ?thesis
  proof (rule that [OF admitted(4) [unfolded transition_from_draining_def]])
    show "proceeds (crc_hash C) i (dc_env K) (dc_env K1)" by (rule proceeds_trans [OF pr e(1)])
    show "tracked (crc_hash C) cfg p i rs E0 K1" if "w_entry (de_world (dc_env K1)) p = Some i"
      by (rule tracked_same [OF t' e(1) that]) (use m in simp_all)
    show "file_kept (cfg_wab_dir cfg) p i (de_world (dc_env K)) res (de_world (dc_env K1))"
      using e(3) by (simp add: file_kept_def w)
  qed (use e(2) in \<open>simp_all add: state_covered_def\<close>)
next
  case (retried left k started delay cause bc ended waited)
  have c: "covered (crc_hash C) E0 (dc_env K) (take k rs) []" using s retried(1) by (simp add: state_covered_def)
  have e: "proceeds (crc_hash C) i (dc_env K) (dc_env K1)" "backed (crc_hash C) E0 rs res (dc_env K1)"
    "file_kept (cfg_wab_dir cfg) p i (de_world (dc_env K)) res (de_world (dc_env K1))"
    using attempt_effect [OF t img c retried(3)] by blast+
  note m = attempt_maps [OF retried(3)]
  have n: "next_state_after_process C cfg p res (HeldRetry left delay cause bc) ended
            (\<lambda>retry_after processed cause.
               RetryingTransient p (left - 1) (next_retry_delay (delay * 2) retry_after) processed cause bc False) K1 = (st', K')"
    using retried(3,4) by (simp add: retry_segment_def)
  show ?thesis
  proof (rule that [OF n])
    show "tracked (crc_hash C) cfg p i rs E0 K1" if "w_entry (de_world (dc_env K1)) p = Some i"
      by (rule tracked_same [OF t e(1) that]) (use m in simp_all)
  qed (use e in \<open>simp_all add: state_covered_def\<close>)
qed

lemma attempt_tracked:
  assumes t: "tracked (crc_hash C) cfg p i rs E0 K" and s: "state_covered (crc_hash C) E0 rs p (dc_env K) st"
    and img: "sealed_image (crc_hash C) h f sts (w_data (de_world E0) i)" "list_all2 (record_reads Z (hm_compression h)) sts rs" "length rs < 2 ^ 64"
    and run: "attempts C Z sha cfg mb p st K res K1 st' K'"
    and nc: "\<forall>n. res \<noteq> Confirmed n" and e: "w_entry (de_world (dc_env K')) p = Some i"
  shows "tracked (crc_hash C) cfg p i rs E0 K' \<and> state_covered (crc_hash C) E0 rs p (dc_env K') st'"
  using t s img run
proof (cases rule: attempts_effect)
  case (1 resume ended on)
  have "w_entry (de_world (dc_env K1)) p = Some i"
  proof (cases "res = PQuarantined")
    case True
    then show ?thesis using 1(1) e by (auto simp: next_state_after_process_def)
  next
    case False
    then show ?thesis using 1(6) by (simp add: file_kept_def)
  qed
  then show ?thesis by (intro next_state_tracked [OF 1(5) 1(4) 1(1) nc e 1(2)])
qed

lemma rescan_blocked_tracked:
  assumes t: "tracked crc cfg p i rs E0 K"
  shows "tracked crc cfg p i rs E0 (rescan_blocked K)" "proceeds crc i (dc_env K) (dc_env (rescan_blocked K))"
proof -
  let ?E = "dc_env K" and ?K = "rescan_blocked K"
  obtain x D w where r: "dl_rescan (de_dead_letter ?E) (de_world ?E) = (x, D, w)" by (metis prod_cases3)
  have pl: "in_place cfg p i ?E" using t by (simp add: tracked_def)
  have st: "dl_step (de_dead_letter ?E) (de_world ?E) D w" by (rule rescan_step [OF _ r]) (use pl in \<open>simp add: in_place_def\<close>)
  have K': "dc_ledger ?K = dc_ledger K" "de_world (dc_env ?K) = w" "de_dead_letter (dc_env ?K) = D" "de_log (dc_env ?K) = de_log ?E"
    "de_sink (dc_env ?K) = de_sink ?E"
    using r by (simp_all add: rescan_blocked_def Let_def)
  show pr: "proceeds crc i ?E (dc_env ?K)" using st by (simp add: proceeds_def dl_kept_def K' dl_step_def only_adds_def)
  have e: "w_entry (de_world (dc_env ?K)) p = Some i" using st pl by (simp add: K' dl_step_def only_adds_def in_place_def)
  show "tracked crc cfg p i rs E0 ?K" using tracked_same [OF t pr e] K'(1) by simp
qed

lemma check_blocked_covered:
  "covered crc E0 E (take k rs) [] \<Longrightarrow> check_blocked cfg p since k needed stop dl K = Inr st \<Longrightarrow> state_covered crc E0 rs p E st"
  by (auto simp: check_blocked_def state_covered_def split: if_splits)

lemma drains_tracked:
  assumes pl: "in_place cfg p i (dc_env K0)" and new: "map_of (lg_resume_from (dc_ledger K0)) p = None" "map_of (lg_dl_carry (dc_ledger K0)) p = None"
    and img: "sealed_image (crc_hash C) h f sts (w_data (de_world (dc_env K0)) i)" "list_all2 (record_reads Z (hm_compression h)) sts rs" "length rs < 2 ^ 64"
    and run: "drains C Z sha cfg mb p i K0 st K"
  shows "tracked (crc_hash C) cfg p i rs (dc_env K0) K \<and> state_covered (crc_hash C) (dc_env K0) rs p (dc_env K) st"
  using run
proof induction
  case start
  have "proceeds (crc_hash C) i (dc_env K0) (dc_env K0)" by (rule proceeds_refl) (use pl in \<open>simp add: in_place_def\<close>)
  then show ?case using pl new by (simp add: tracked_def ledger_covered_def state_covered_def)
next
  case (attempt st K res K1 st' K')
  then show ?case using attempt_tracked [OF _ _ img attempt.hyps(2-4)] by blast
next
  case (strand delay k cause bc waited K now st' K')
  then have t: "tracked (crc_hash C) cfg p i rs (dc_env K0) K" by simp
  have K': "dc_env K' = dc_env K" "lg_resume_from (dc_ledger K') = lg_resume_from (dc_ledger K)"
    "lg_dl_carry (dc_ledger K') = lg_dl_carry (dc_ledger K)" "st' = Draining"
    using strand.hyps(2) by (auto simp: strand_segment_def set_not_before_def Let_def split: transient_cause.splits)
  show ?case using tracked_same [OF t, of K'] tracked_proceeds_refl [OF t] tracked_entry [OF t] by (simp add: K' state_covered_def)
next
  case (blocked since k needed K stop deadline st')
  then have t: "tracked (crc_hash C) cfg p i rs (dc_env K0) K" and c: "covered (crc_hash C) (dc_env K0) (dc_env K) (take k rs) []"
    by (simp_all add: state_covered_def)
  note r = rescan_blocked_tracked [OF t]
  show ?case using r(1) check_blocked_covered [OF covered_proceeds [OF c r(2)] blocked.hyps(2)] by blast
next
  case (resumed k resume K)
  then show ?case by (cases resume) (simp_all add: resume_held_def state_covered_def)
next
  case (elsewhere st K K' st')
  then have t: "tracked (crc_hash C) cfg p i rs (dc_env K0) K" and l: "leaves_alone (crc_hash C) p i K K'" by simp_all
  have pr: "proceeds (crc_hash C) i (dc_env K) (dc_env K')" using l by (simp add: leaves_alone_def)
  have "tracked (crc_hash C) cfg p i rs (dc_env K0) K'"
    by (rule tracked_same [OF t pr]) (use l tracked_entry [OF t] in \<open>simp_all add: leaves_alone_def\<close>)
  moreover have "state_covered (crc_hash C) (dc_env K0) rs p (dc_env K') st'"
    if "state_segment st' \<noteq> Some p" using that by (cases st') (simp_all add: state_covered_def)
  ultimately show ?case using elsewhere state_covered_proceeds [OF _ pr] by blast
qed

text \<open>Except for a confirmation, the transition changes no file and no name but to move the segment to quarantine.\<close>

lemma progress_world: "\<exists>t. de_world (dc_env (with_ledger (\<lambda>L w. record_progress L p k w) K)) = (de_world (dc_env K))\<lparr>w_tick := t\<rparr>"
proof -
  obtain L w where r: "record_progress (dc_ledger K) p k (de_world (dc_env K)) = (L, w)" by fastforce
  then show ?thesis using record_progress_effect(1) [OF r] by (simp add: with_ledger_def)
qed

lemma store_world: "\<exists>t. de_world (dc_env (store_dl_carry p carry K)) = (de_world (dc_env K))\<lparr>w_tick := t\<rparr>"
proof (cases carry)
  case None
  then show ?thesis using idle_world by (simp add: store_dl_carry_def)
next
  case (Some ca)
  obtain b L w where r: "set_dl_carry (dc_ledger K) p ca (de_world (dc_env K)) = (b, L, w)" by (metis prod_cases3)
  then show ?thesis using set_dl_carry_effect(1) [OF r] Some by (simp add: store_dl_carry_def with_ledger_def)
qed

definition set_aside :: "bytes \<Rightarrow> path \<Rightarrow> world \<Rightarrow> world \<Rightarrow> bool" where
  "set_aside wab p w w' \<longleftrightarrow> (\<exists>t. w' = w\<lparr>w_tick := t\<rparr>) \<or>
     (\<exists>q j t. fst q = quarantine_dir wab \<and> w_entry w p = Some j \<and>
        w' = w\<lparr>w_tick := t, w_dir := AList.update q j (AList.delete p (w_dir w))\<rparr>)"

lemma set_aside_idle [simp]: "set_aside wab p w (w\<lparr>w_tick := t\<rparr>)" "set_aside wab p w w"
proof -
  show i: "set_aside wab p w (w\<lparr>w_tick := t\<rparr>)" for t unfolding set_aside_def by blast
  show "set_aside wab p w w" using i [of "w_tick w"] by simp
qed

lemma set_aside_file:
  assumes "set_aside wab p w w'" "w_entry w p = Some i"
  shows "w_data w' i = w_data w i \<and> (w_entry w' p = Some i \<or> (\<exists>q. fst q = quarantine_dir wab \<and> w_entry w' q = Some i))"
  using assms(1) unfolding set_aside_def
proof (elim disjE exE conjE)
  fix t assume "w' = w\<lparr>w_tick := t\<rparr>"
  then show ?thesis using assms(2) by simp
next
  fix q j t assume q: "fst q = quarantine_dir wab" "w_entry w p = Some j"
    and w': "w' = w\<lparr>w_tick := t, w_dir := AList.update q j (AList.delete p (w_dir w))\<rparr>"
  have "w_entry w' q = Some i" using q(2) assms(2) by (simp add: w' w_entry_def update_conv')
  then show ?thesis using q(1) w' by auto
qed

lemma escalate_world:
  assumes "escalate_local_read cfg p cls now K = (x, K')"
  shows "set_aside (cfg_wab_dir cfg) p (de_world (dc_env K)) (de_world (dc_env K'))"
proof -
  obtain b F where q: "quarantine_segment p cfg (dc_env K) = (b, F)" by fastforce
  have "dc_env K' = dc_env K \<or> dc_env K' = F"
    using assms q by (auto simp: escalate_local_read_def Let_def split: if_splits err_class.splits prod.splits)
  moreover have "set_aside (cfg_wab_dir cfg) p (de_world (dc_env K)) (de_world F)"
    using q
  proof (cases rule: quarantine_segment_effect)
    case (moved q j t m)
    then show ?thesis unfolding set_aside_def by (intro disjI2 exI [of _ q] exI [of _ j] exI [of _ t]) simp
  qed simp
  ultimately show ?thesis by auto
qed

lemma next_state_world:
  assumes run: "next_state_after_process C cfg p res resume now on_transient K = (st, K')" and nc: "\<forall>n. res \<noteq> Confirmed n"
  shows "set_aside (cfg_wab_dir cfg) p (de_world (dc_env K)) (de_world (dc_env K'))"
proof -
  have rs: "\<exists>t. de_world (dc_env (store_dl_carry p carry (with_ledger (\<lambda>L w. record_progress L p k w) J))) = (de_world (dc_env J))\<lparr>w_tick := t\<rparr>" for carry k J
    using progress_world [of p k J] store_world [of p carry "with_ledger (\<lambda>L w. record_progress L p k w) J"] by auto
  show ?thesis
  proof (cases res)
    case (PTransient ra k cause carry)
    obtain x K1 where x: "(case cause of CauseLocalRead cls _ \<Rightarrow> escalate_local_read cfg p cls now K | _ \<Rightarrow> (None, K)) = (x, K1)" by fastforce
    have 1: "set_aside (cfg_wab_dir cfg) p (de_world (dc_env K)) (de_world (dc_env K1))" "x = None \<Longrightarrow> dc_env K1 = dc_env K"
      using x escalate_world escalate_none by (auto split: transient_cause.splits)
    show ?thesis
    proof (cases x)
      case None
      then have "K' = store_dl_carry p carry (with_ledger (\<lambda>L w. record_progress L p k w) K1)"
        using run x by (auto simp: next_state_after_process_def PTransient)
      then show ?thesis using rs [of carry k K1] 1(2) [OF None] by auto
    qed (use run x 1(1) in \<open>auto simp: next_state_after_process_def PTransient\<close>)
  next
    case (PBlockedDeadLetter k needed carry)
    let ?K = "store_dl_carry p carry (with_ledger (\<lambda>L w. record_progress L p k w) K)"
    have "de_world (dc_env K') = de_world (dc_env ?K)"
      using run by (auto simp: next_state_after_process_def PBlockedDeadLetter enter_blocked_def Let_def split: option.splits)
    then show ?thesis using rs [of carry k K] by auto
  next
    case (PPaused k)
    then show ?thesis using run progress_world [of p k K] by (auto simp: next_state_after_process_def)
  next
    case (PAbandoned k)
    then show ?thesis using run progress_world [of p k K] by (auto simp: next_state_after_process_def)
  qed (use run nc in \<open>auto simp: next_state_after_process_def\<close>)
qed

lemma confirm_entry:
  assumes run: "confirm_and_delete crc p n w m = (out, w', m')" and nm: "sealed_name p" and e: "w_entry w p = Some i"
    and priv: "tmp_private (confirmed_tmp_path (confirmed_path p)) w"
  shows "w_entry w' p = None \<or> w_entry w' p = Some i"
proof -
  have keep: "w_entry v p = Some i" if w: "write_confirmed_file crc p n (io_tick w) = (y, v)" for y v
  proof -
    obtain s d where "side_step (confirmed_tmp_path (confirmed_path p)) (confirmed_path p) (build_confirmed crc s n d) w v"
      using write_confirmed_file_effect(1) [OF w] priv by auto
    then show ?thesis using e sidecar_apart [OF nm] unfolding side_step_def by metis
  qed
  from run show ?thesis
  proof (cases rule: confirm_cases)
    case (written v)
    then show ?thesis using delete_confirmed_effect [OF written(3)] keep by auto
  qed (use e keep in auto)
qed

lemma at_least_once_step:
  assumes t: "tracked (crc_hash C) cfg p i rs E0 K" and s: "state_covered (crc_hash C) E0 rs p (dc_env K) st"
    and img: "sealed_image (crc_hash C) h f sts (w_data (de_world E0) i)" "list_all2 (record_reads Z (hm_compression h)) sts rs" "length rs < 2 ^ 64"
    and run: "attempts C Z sha cfg mb p st K res K1 st' K'"
    and nm: "sealed_name p" "tmp_private (confirmed_tmp_path (confirmed_path p)) (de_world (dc_env K1))"
  shows "w_data (de_world (dc_env K')) i = w_data (de_world E0) i \<and>
    (\<forall>n. res = Confirmed n \<longrightarrow> n = length rs \<and> covered (crc_hash C) E0 (dc_env K') rs []) \<and>
    (w_entry (de_world (dc_env K')) p = Some i \<or>
     (\<exists>q. fst q = quarantine_dir (cfg_wab_dir cfg) \<and> w_entry (de_world (dc_env K')) q = Some i) \<or>
     durable_sidecar (crc_hash C) p (of_nat (length rs)) (de_world (dc_env K')) \<and> covered (crc_hash C) E0 (dc_env K') rs [])"
  using t s img run
proof (cases rule: attempts_effect)
  case (1 resume ended on)
  have d1: "w_data (de_world (dc_env K1)) i = w_data (de_world E0) i" using 1(3) t by (simp add: proceeds_def tracked_def)
  show ?thesis
  proof (cases "\<exists>n. res = Confirmed n")
    case True
    then have res: "res = Confirmed (length rs)" and c: "covered (crc_hash C) E0 (dc_env K1) rs []" using 1(4) by (auto simp: backed_def)
    have e1: "w_entry (de_world (dc_env K1)) p = Some i" using 1(6) res by (simp add: file_kept_def)
    then have pl: "in_place cfg p i (dc_env K1)" using 1(5) by (simp add: tracked_def)
    obtain out w m where cf: "confirm_and_delete (crc_hash C) p (of_nat (length rs)) (de_world (dc_env K1)) (de_metrics (dc_env K1)) = (out, w, m)"
      by (metis prod_cases3)
    have K': "dc_env K' = (dc_env K1)\<lparr>de_world := w, de_metrics := m\<rparr>" using 1(1) cf by (auto simp: next_state_after_process_def res)
    have cv: "covered (crc_hash C) E0 (dc_env K') rs []"
      using covered_proceeds [OF c confirm_proceeds [OF pl nm cf]] by (simp add: K')
    note ce = confirm_effect [OF cf nm(1) e1 nm(2)]
    have w': "de_world (dc_env K') = w" by (simp add: K')
    have dt: "w_data w i = w_data (de_world E0) i" using ce d1 by (metis (no_types))
    from confirm_entry [OF cf nm(1) e1 nm(2)] show ?thesis
    proof
      assume "w_entry w p = None"
      then have "durable_sidecar (crc_hash C) p (of_nat (length rs)) w" using ce by blast
      then show ?thesis unfolding w' using cv dt res by blast
    next
      assume "w_entry w p = Some i"
      then show ?thesis unfolding w' using cv dt res by blast
    qed
  next
    case False
    then have False': "\<forall>n. res \<noteq> Confirmed n" by blast
    show ?thesis
    proof (cases "res = PQuarantined")
      case True
      then have "dc_env K' = dc_env K1" using 1(1) by (auto simp: next_state_after_process_def)
      then show ?thesis using 1(6) d1 False' unfolding file_kept_def by metis
    next
      case False
      then have e: "w_entry (de_world (dc_env K1)) p = Some i" using 1(6) by (simp add: file_kept_def)
      have "set_aside (cfg_wab_dir cfg) p (de_world (dc_env K1)) (de_world (dc_env K'))"
        using next_state_world [OF 1(1)] False' by blast
      then show ?thesis using set_aside_file [OF _ e] d1 False' by metis
    qed
  qed
qed

text \<open>
  C1: at least once.  Follow a sealed, intact segment with records \<open>rs\<close> through any run of the drain:
  first attempts, retries after transient failures, strands and re-admissions, full dead-letter
  directories, pauses, carried dead letters, with any faults of the disk, any answers of a sink
  that keeps its contract, and any activity elsewhere that leaves the segment alone.  When an
  attempt at it returns \<open>Confirmed n\<close>, \<open>n\<close> is the number of its records, and each of them, counted
  with multiplicity, was committed by the sink or is a dead letter on stable storage, since the
  run began.  After every attempt its file has the same contents, and it stands under its name or
  in quarantine; or it was deleted, and then its records are delivered as above and a sidecar for
  their number is on stable storage.
\<close>

theorem at_least_once:
  assumes pl: "in_place cfg p i (dc_env K0)" and new: "map_of (lg_resume_from (dc_ledger K0)) p = None" "map_of (lg_dl_carry (dc_ledger K0)) p = None"
    and img: "sealed_image (crc_hash C) h f sts (w_data (de_world (dc_env K0)) i)" "list_all2 (record_reads Z (hm_compression h)) sts rs" "length rs < 2 ^ 64"
    and run: "drains C Z sha cfg mb p i K0 st K" "attempts C Z sha cfg mb p st K res K1 st' K'"
    and nm: "sealed_name p" "tmp_private (confirmed_tmp_path (confirmed_path p)) (de_world (dc_env K1))"
  shows "w_data (de_world (dc_env K')) i = w_data (de_world (dc_env K0)) i \<and>
    (\<forall>n. res = Confirmed n \<longrightarrow> n = length rs \<and> covered (crc_hash C) (dc_env K0) (dc_env K') rs []) \<and>
    (w_entry (de_world (dc_env K')) p = Some i \<or>
     (\<exists>q. fst q = quarantine_dir (cfg_wab_dir cfg) \<and> w_entry (de_world (dc_env K')) q = Some i) \<or>
     durable_sidecar (crc_hash C) p (of_nat (length rs)) (de_world (dc_env K')) \<and>
       covered (crc_hash C) (dc_env K0) (dc_env K') rs [])"
  using drains_tracked [OF pl new img run(1)] by (intro at_least_once_step [OF _ _ img run(2) nm]) simp_all

definition sample_core :: "(nat \<Rightarrow> sink_batch \<Rightarrow> commit_race) \<Rightarrow> drain_core" where
  "sample_core S = \<lparr>dc_env = sample_env S, dc_ledger = ledger_new 0, dc_block_episode = None, dc_prev_health_ok = True,
     dc_segments_stranded = 0, dc_local_io_strands_read = 0, dc_local_io_strands_write = 0\<rparr>"

lemma sample_in_place: "sink_partitions S \<Longrightarrow> in_place sample_config sealed_sample 0 (sample_env S)"
  using sample_env_ok [of S] by (simp add: in_place_def) (simp add: sample_env_def sample_writer_def sample_config_def)

lemma sample_private: "tmp_private (confirmed_tmp_path (confirmed_path sealed_sample)) ((crashed_world sealed_sample d)\<lparr>w_tick := t\<rparr>)"
  using sidecar_apart(2) [OF sealed_sample_simps(1)]
  by (auto simp: tmp_private_def crashed_world_def w_entry_def split: if_splits)

lemma sample_attempt:
  "\<exists>K1 st' K'. attempts crc32_ops zstd_verbatim id sample_config 1 sealed_sample Draining (sample_core commits_all) (Confirmed 2) K1 st' K' \<and>
     tmp_private (confirmed_tmp_path (confirmed_path sealed_sample)) (de_world (dc_env K1))"
proof -
  let ?K = "sample_core commits_all" and ?L = "begin_attempt (ledger_new 0) sealed_sample 0"
  obtain E t where p: "process_segment_ctl crc32_ops zstd_verbatim id sample_config 1 sealed_sample 0
      (local_read_escalates_next sealed_sample sample_config ?L) (sample_env commits_all) = (Confirmed 2, E)"
    "de_world E = (de_world (sample_env commits_all))\<lparr>w_tick := t\<rparr>" using sample_confirms by metis
  let ?K1 = "?K\<lparr>dc_env := E, dc_ledger := end_attempt ?L\<rparr>"
  have a: "ledger_admit (dc_ledger ?K) sealed_sample 0 (de_world (dc_env ?K)) = (AdmitProcess 0, ledger_new 0, de_world (sample_env commits_all))"
    by (simp add: sample_core_def ledger_admit_def ledger_new_def)
  have b: "attempt_segment crc32_ops zstd_verbatim id sample_config 1 sealed_sample 0 0
      (?K\<lparr>dc_ledger := ledger_new 0, dc_env := (dc_env ?K)\<lparr>de_world := de_world (sample_env commits_all)\<rparr>\<rparr>) = (Confirmed 2, ?K1)"
    using p(1) by (simp add: attempt_segment_def Let_def sample_core_def checked_skip_def take_dl_carry_def begin_attempt_def ledger_new_def)
  obtain st' K' where c: "transition_from_draining crc32_ops sample_config sealed_sample (Confirmed 2) 0 ?K1 = (st', K')" by fastforce
  have "tmp_private (confirmed_tmp_path (confirmed_path sealed_sample)) (de_world (dc_env ?K1))"
    using sample_private by (simp add: p(2)) (simp add: sample_env_def)
  then show ?thesis using attempts.admitted [OF a b c] by blast
qed

theorem at_least_once_witness:
  "\<exists>K1 st' K'. attempts crc32_ops zstd_verbatim id sample_config 1 sealed_sample Draining (sample_core commits_all) (Confirmed 2) K1 st' K' \<and>
     covered crc32_hash (sample_env commits_all) (dc_env K') sample_records []"
proof -
  obtain K1 st' K' where a: "attempts crc32_ops zstd_verbatim id sample_config 1 sealed_sample Draining (sample_core commits_all) (Confirmed 2) K1 st' K'"
    "tmp_private (confirmed_tmp_path (confirmed_path sealed_sample)) (de_world (dc_env K1))" using sample_attempt by blast
  obtain f where img: "sealed_image (crc_hash crc32_ops) sample_header f sample_records (w_data (de_world (dc_env (sample_core commits_all))) 0)"
    using sample_sealed [of commits_all] by (auto simp: sample_core_def)
  have "in_place sample_config sealed_sample 0 (dc_env (sample_core commits_all))"
    using sample_in_place sinks_partition(1) by (simp add: sample_core_def)
  from at_least_once [OF this _ _ img sample_image_ok(2,3) drains.start a(1) sealed_sample_simps(1) a(2)]
  have "covered crc32_hash (sample_env commits_all) (dc_env K') sample_records []"
    by (simp add: sample_core_def ledger_new_def)
  then show ?thesis using a(1) by blast
qed

end
