(* ===== verification/Spec2Isabelle.thy ===== *)
theory Spec2Isabelle
  imports Crc Coordinate Batch RecoveryReader Flusher AtLeastOnce
begin

text \<open>
  weir is a write-ahead buffer.  Producers push records over a socket; a flusher thread per shard
  appends them to segment files, acknowledges them once they are on stable storage, seals full
  segments and hands them to the drain; the drain delivers every sealed segment to a sink, sets
  rejected records aside as dead letters, writes a confirmation sidecar and deletes the segment.  After a
  crash, recovery rebuilds unsealed segments and the replay scan queues whatever has no sidecar.
  This development models that path from the bytes on the wire to the confirmed segment and proves
  it correct.

  \<^bold>\<open>Conventions.\<close>  Definitions carry the names of the Rust functions (under \<open>src/crates\<close>), with a prefix where two
  share a name: \<open>ws_\<close> for \<open>WabSegment\<close>, \<open>sw_\<close> for \<open>ShardWriter\<close>, \<open>sr_\<close> for \<open>SegmentReader\<close>, \<open>rr_\<close>
  for the recovery reader, \<open>fl_\<close> for the flusher, \<open>dl_\<close> for dead letters, \<open>fs_\<close> for system calls.  A \<open>Result\<close> is a sum with \<open>Err\<close> on the
  left.  State is passed explicitly.  Machine integers are words where they can wrap in practice and naturals
  where the source panics first or would need \<open>2 ^ 64\<close> steps.  Foreign code is a parameter: CRC-32
  (\<open>crc_ops\<close>, law \<open>crc_streams\<close>), zstd (\<open>zstd_ops\<close>), SHA-256, the sink, the clock, channels and flags of other threads.

  \<^bold>\<open>Formats.\<close>  \<open>Prelude\<close> has bytes, little-endian codecs and the collections \<open>layout\<close> and \<open>codec\<close>.
  \<open>Crc\<close> has the checksum interface (locale \<open>crc_engine\<close>) and an executable CRC-32 that interprets it.
  \<open>Wire\<close>, \<open>Batch\<close> and \<open>Coordinate\<close> model \<open>weir-core\<close> (\<open>envelope.rs\<close>, \<open>batch.rs\<close>, \<open>coordinate.rs\<close>
  and the small enumerations): decoders accept exactly the encoders' images, and what each refusal
  is.  \<open>WabFormat\<close> is \<open>weir-wab/src/format.rs\<close>; \<open>Io\<close>, \<open>SegmentReader\<close>, \<open>SegmentVerify\<close> and \<open>RecoveryReader\<close>
  are the readers of \<open>weir-wab\<close>: the record iterator and the chunked whole-file check accept
  exactly the intact images, and the salvage reader accounts for every byte.

  \<^bold>\<open>The disk.\<close>  \<open>Disk\<close> and \<open>FileOps\<close> model the file system: volatile and stable contents of every file,
  volatile and durable directory entries, and an arbitrary sequence \<open>w_io\<close> of outcomes, one per system call
  (done, failed, or short with an error).  A crash at some point is a sequence in which every later call
  fails, followed by a restart from the stable part; so a theorem about all worlds covers all
  faults and crash points.  An fsync that failed once makes later ones of the file meaningless
  (\<open>w_lost\<close>).

  \<^bold>\<open>Writing.\<close>  \<open>SegmentName\<close>, \<open>Segment\<close> and \<open>ShardWriter\<close> model \<open>wab/segment.rs\<close>.  The trait \<open>SegmentStore\<close> is the
  locale \<open>segment_backend\<close>; the writer's lemmas are proved in it and the file-system store
  interprets it.  \<open>WabCap\<close> is the disk cap and the fsync average, \<open>Shards\<close> the registry, routing and
  panic supervisor (\<open>status/shards.rs\<close>, \<open>socket/route.rs\<close>), \<open>Handoff\<close> the timed hand-off (\<open>wab/handoff.rs\<close>), \<open>Flusher\<close> the whole
  thread of \<open>wab/mod.rs\<close>.  Shown: no false acks, every record acked exactly once, sealed files verify,
  no name collisions, hand-offs that end, fair routing.

  \<^bold>\<open>Restart.\<close>  \<open>Recovery\<close> is \<open>wab/recovery.rs\<close> and \<open>Replay\<close> the scan of \<open>wab/mod.rs\<close>.  Shown: valid records at the front of a
  durable file survive; a file is untouched, or copied to quarantine, or loses only a tail of a
  listed shape; a rebuilt segment verifies; segments without sidecar are queued; and segments are removed
  only behind a durable sidecar.  Two of the results describe flaws: a damaged length field can hide
  intact records behind it, and a segment whose quarantine fails is not queued.

  \<^bold>\<open>Draining.\<close>  \<open>Confirm\<close> (\<open>drain/confirmed.rs\<close>), \<open>DeadLetter\<close> (\<open>drain/dead_letter.rs\<close>) and \<open>Ledger\<close>
  (\<open>drain/ledger.rs\<close>) are the drain's storage operations; \<open>Delivery\<close> is one attempt at a segment and
  \<open>Settlement\<close> its books (\<open>settled\<close>); \<open>Drain\<close> the state machine around attempts; \<open>AtLeastOnce\<close>
  follows one segment through any run (\<open>drains\<close>, an inductive step relation over the modelled arms).  Shown: a confirmed segment was
  delivered in full, reported progress is exactly what was settled, cursors apply only to the file they were
  recorded for, sidecars are never torn, the ledger stays well formed, and at-least-once delivery.

  \<^bold>\<open>Bounds and termination.\<close>  Recursive definitions terminate without fuel: start-up scans retry at most
  three times, quarantine names are probed up to 10000, the supervisor respawns ten times, loops over files and records
  are structural.  The hand-off can block forever by design, so it and everything that calls it is a
  partial function, and returning is a theorem of its own (\<open>flusher_thread_returns\<close>, \<open>hand_off_shutdown_bounded\<close>).

  \<^bold>\<open>Limits of the model.\<close>  Only the modelled calls change the files (the daemon holds a lock on its
  directory).  There are no symbolic links, and permissions matter only as failing calls.  File numbers are never reused, while a
  file system may reuse the \<open>(dev, ino)\<close> that pins a cursor.  Counters of the writer and of dead letters
  do not wrap.  Ledger instants and configured durations are milliseconds.  That the name of the
  directory \<open>dead_letter/\<close> is durable has no effect on the dead letters in it.  Threads meet only through the
  arbitrary sequences of what each sees of the others.

  \<^bold>\<open>Not modelled.\<close>  Sockets, TLS, queue and worker threads, the sinks, configuration, lifecycle, metrics, status,
  admin, the client and the command line (input and output, or threads whose effect on the modelled part
  is an argument); of the drain loop the waits, the health poll and its rescan, operator
  requests, gauges and its panic supervisor; of recovery the audit of file modes; and \<open>weir-attest\<close>, \<open>weir-status\<close> and
  \<open>weir-sink-s3\<close>.
\<close>

end
